(* ===== verification/Prelude.thy ===== *)
theory Prelude
  imports Main "HOL-Library.Word" "HOL-Library.Sublist" "HOL-Library.List_Lexorder" "HOL-Library.Char_ord"
begin

text \<open>
  Shared material of the development: the machine integer types, the sequencing operators for
  fallible code, the reading of a Rust string as a HOL string of UTF-8 bytes, and the generic
  lemmas on lists and words that the component theories use.

  A Rust \<open>Result<T, E>\<close> is the sum \<open>'e + 'a\<close> with \<open>Inl\<close> the error. The \<open>?\<close> operator is
  \<open>and_then\<close> on results, \<open>dbind\<close> on decoders, which pass on the unread bytes, and \<open>ebind\<close> on
  encoders, which pass on the writer.
\<close>

section \<open>Lemma collections\<close>

named_theorems codec_intros \<open>introduction rules that build the codec law of a composite message\<close>
named_theorems size_intros \<open>room that the encoders need\<close>
named_theorems decoder_simps \<open>unfolding of the decoder and encoder combinators\<close>

section \<open>Machine integers\<close>

type_synonym u8 = "8 word"
type_synonym u16 = "16 word"
type_synonym u32 = "32 word"
type_synonym u64 = "64 word"
type_synonym byte = "8 word"

abbreviation usize_max :: nat where
  "usize_max \<equiv> 18446744073709551615"

section \<open>Results and the question mark operator\<close>

definition and_then :: "'e + 'a \<Rightarrow> ('a \<Rightarrow> 'e + 'b) \<Rightarrow> 'e + 'b" where
  "and_then m f = (case m of Inl e \<Rightarrow> Inl e | Inr a \<Rightarrow> f a)"

lemma and_then_simps [simp]:
  "and_then (Inl e) f = Inl e"
  "and_then (Inr a) f = f a"
  by (simp_all add: and_then_def)

lemma and_then_Inr_conv: "and_then m f = Inr b \<longleftrightarrow> (\<exists>a. m = Inr a \<and> f a = Inr b)"
  by (cases m) auto

text \<open>A decoder reads from a buffer and returns a value with the bytes it left unread.\<close>

type_synonym ('e, 'a) decoder = "byte list \<Rightarrow> 'e + 'a \<times> byte list"

definition dret :: "'a \<Rightarrow> ('e, 'a) decoder" where
  "dret a = (\<lambda>r. Inr (a, r))"

definition dfail :: "'e \<Rightarrow> ('e, 'a) decoder" where
  "dfail e = (\<lambda>r. Inl e)"

definition dbind :: "('e, 'a) decoder \<Rightarrow> ('a \<Rightarrow> ('e, 'b) decoder) \<Rightarrow> ('e, 'b) decoder" where
  "dbind d f = (\<lambda>r. case d r of Inl e \<Rightarrow> Inl e | Inr (a, r') \<Rightarrow> f a r')"

lemma dbind_Inr: "d r = Inr (a, r') \<Longrightarrow> dbind d f r = f a r'"
  by (simp add: dbind_def)

lemma dbind_Inl: "d r = Inl e \<Longrightarrow> dbind d f r = Inl e"
  by (simp add: dbind_def)

lemma dbind_Inr_conv:
  "dbind d f r = Inr (b, r'') \<longleftrightarrow> (\<exists>a r'. d r = Inr (a, r') \<and> f a r' = Inr (b, r''))"
  by (auto simp: dbind_def split: sum.splits)

lemma dret_app [decoder_simps]: "dret a r = Inr (a, r)"
  by (simp add: dret_def)

lemma dfail_app [decoder_simps]: "dfail e r = Inl e"
  by (simp add: dfail_def)

text \<open>\<open>drepeat n d\<close> is the loop \<open>for _ in 0..n\<close> that pushes each decoded value on a vector.\<close>

fun drepeat :: "nat \<Rightarrow> ('e, 'a) decoder \<Rightarrow> ('e, 'a list) decoder" where
  "drepeat 0 d = dret []"
| "drepeat (Suc n) d = dbind d (\<lambda>x. dbind (drepeat n d) (\<lambda>xs. dret (x # xs)))"

text \<open>An encoder appends to a writer of any type \<open>'w\<close>.\<close>

type_synonym ('e, 'w) encoder = "'w \<Rightarrow> 'e + 'w"

definition enil :: "('e, 'w) encoder" where
  "enil = Inr"

definition efail :: "'e \<Rightarrow> ('e, 'w) encoder" where
  "efail e = (\<lambda>w. Inl e)"

definition ebind :: "('e, 'w) encoder \<Rightarrow> ('e, 'w) encoder \<Rightarrow> ('e, 'w) encoder" where
  "ebind e1 e2 = (\<lambda>w. and_then (e1 w) e2)"

fun eseq :: "('e, 'w) encoder list \<Rightarrow> ('e, 'w) encoder" where
  "eseq [] = enil"
| "eseq (e # es) = ebind e (eseq es)"

lemma enil_app [decoder_simps]: "enil w = Inr w"
  by (simp add: enil_def)

lemma efail_app [decoder_simps]: "efail e w = Inl e"
  by (simp add: efail_def)

lemma ebind_Inr_conv: "ebind e1 e2 w = Inr w'' \<longleftrightarrow> (\<exists>w'. e1 w = Inr w' \<and> e2 w' = Inr w'')"
  by (simp add: ebind_def and_then_Inr_conv)

lemma ebind_enil [simp]: "ebind e enil = e"
  by (rule ext) (auto simp: ebind_def and_then_def enil_def split: sum.splits)

lemma dbind_dret: "dbind (dret a) f = f a"
  by (simp add: dbind_def dret_def)

lemma dbind_assoc: "dbind (dbind d f) g = dbind d (\<lambda>a. dbind (f a) g)"
  by (rule ext) (auto simp: dbind_def split: sum.splits)

lemma ebind_assoc: "ebind (ebind e f) g = ebind e (ebind f g)"
  by (rule ext) (auto simp: ebind_def and_then_def split: sum.splits)

lemmas dbind_norm = dbind_dret dbind_assoc

lemmas combinator_defs = dbind_def dret_def dfail_def ebind_def enil_def efail_def

section \<open>Strings as UTF-8 bytes\<close>

text \<open>
  A Rust \<open>str\<close> is a sequence of bytes that is valid UTF-8. It is modelled by a HOL string, whose
  characters are bytes, so \<open>length\<close> is Rust's \<open>len\<close>.
\<close>

definition byte_of_char :: "char \<Rightarrow> byte" where
  "byte_of_char c = of_nat (of_char c)"

definition char_of_byte :: "byte \<Rightarrow> char" where
  "char_of_byte b = char_of (unat b)"

definition as_bytes :: "string \<Rightarrow> byte list" where
  "as_bytes s = map byte_of_char s"

definition chars_of :: "byte list \<Rightarrow> string" where
  "chars_of bs = map char_of_byte bs"

lemma char_of_byte_of_char [simp]: "char_of_byte (byte_of_char c) = c"
proof -
  have "(of_char c :: nat) < 256" by (rule nat_of_char_less_256)
  then show ?thesis
    by (simp add: char_of_byte_def byte_of_char_def unat_of_nat take_bit_eq_mod)
qed

lemma byte_of_char_of_byte [simp]: "byte_of_char (char_of_byte b) = b"
proof -
  have "unat b < 256" using unsigned_less [of b, where ?'a = nat] by simp
  then show ?thesis
    by (simp add: char_of_byte_def byte_of_char_def)
qed

lemma chars_of_as_bytes [simp]: "chars_of (as_bytes s) = s"
  by (simp add: chars_of_def as_bytes_def comp_def)

lemma as_bytes_chars_of [simp]: "as_bytes (chars_of bs) = bs"
  by (simp add: chars_of_def as_bytes_def comp_def)

lemma length_as_bytes [simp]: "length (as_bytes s) = length s"
  by (simp add: as_bytes_def)

end
