(* ===== verification/Wire_Buf.thy ===== *)
theory Wire_Buf
  imports Prelude
begin

unbundle bit_operations_syntax

text \<open>
  Byte buffers (\<open>relay/rs/moq-net/src/coding\<close>: the error types of \<open>decode.rs\<close> and \<open>encode.rs\<close>, the
  \<open>Sizer\<close> of \<open>size.rs\<close>) and the law that ties an encoder, its size computation and its decoder.

  A \<open>bytes::Buf\<close> is the list of bytes still to be read. A \<open>bytes::BufMut\<close> is the trait dictionary
  \<open>buf_mut\<close>, an argument of every encoder: the trait belongs to the \<open>bytes\<close> crate, and what the code
  relies on is the locale \<open>writer\<close>. The repository's own implementation of the trait, \<open>Sizer\<close>, is
  \<open>sizer_writer\<close>.
\<close>

section \<open>Big-endian integers\<close>

definition be_bytes :: "nat \<Rightarrow> 'a::len word \<Rightarrow> byte list" where
  "be_bytes n x = map (\<lambda>i. ucast (drop_bit (8 * i) x)) (rev [0..<n])"

definition from_be :: "byte list \<Rightarrow> 'a::len word" where
  "from_be bs = foldl (\<lambda>acc b. push_bit 8 acc OR ucast b) 0 bs"

lemma be_bytes_0 [simp]: "be_bytes 0 x = []"
  by (simp add: be_bytes_def)

lemma be_bytes_Suc: "be_bytes (Suc n) x = ucast (drop_bit (8 * n) x) # be_bytes n x"
  by (simp add: be_bytes_def)

lemma length_be_bytes [simp]: "length (be_bytes n x) = n"
  by (simp add: be_bytes_def)

lemma foldl_be:
  "foldl (\<lambda>acc b. push_bit 8 acc OR ucast b) (a :: 'a::len word) bs
   = push_bit (8 * length bs) a OR from_be bs"
proof (induction bs arbitrary: a)
  case Nil
  then show ?case by (simp add: from_be_def)
next
  case (Cons b bs)
  have "from_be (b # bs) = push_bit (8 * length bs) (ucast b :: 'a word) OR from_be bs"
    using Cons [of "ucast b"] by (simp add: from_be_def)
  then show ?case
    using Cons [of "push_bit 8 a OR ucast b"]
    by (simp add: push_bit_or push_bit_push_bit ac_simps)
qed

lemma from_be_Nil [simp]: "from_be [] = 0"
  by (simp add: from_be_def)

lemma from_be_Cons: "from_be (b # bs) = push_bit (8 * length bs) (ucast b) OR (from_be bs :: 'a::len word)"
  using foldl_be [of "ucast b" bs] by (simp add: from_be_def)

lemma from_be_be_bytes: "(from_be (be_bytes n (x :: 'a::len word)) :: 'b::len word) = take_bit (8 * n) (ucast x)"
proof (induction n)
  case 0
  then show ?case by simp
next
  case (Suc n)
  show ?case
    unfolding be_bytes_Suc from_be_Cons length_be_bytes Suc
    by (rule bit_word_eqI) (auto simp: bit_simps)
qed

text \<open>Clearing the high bits of the first byte truncates the integer that is read.\<close>

lemma bit_from_be_high: "8 * length bs \<le> n \<Longrightarrow> \<not> bit (from_be bs :: 'a::len word) n"
proof (induction bs)
  case Nil
  then show ?case by simp
next
  case (Cons b bs)
  then show ?case by (auto simp: from_be_Cons bit_simps dest: bit_imp_le_length)
qed

lemma from_be_mask:
  assumes "k \<le> 8"
  shows "from_be ((b AND mask k) # bs) = (take_bit (8 * length bs + k) (from_be (b # bs)) :: 'a::len word)"
  by (rule bit_word_eqI) (use assms in \<open>auto simp: from_be_Cons bit_simps bit_from_be_high\<close>)

section \<open>Errors\<close>

datatype decode_error =
    Short
  | Long
  | InvalidString "byte list"
  | InvalidMessage u64
  | InvalidSubscribeLocation
  | InvalidValue
  | TooMany
  | BoundsExceeded
  | ExpectedEnd
  | ExpectedData
  | Duplicate
  | Missing
  | Unsupported
  | TrailingBytes
  | DecodeVersion
  | DecodePanic

text \<open>
  \<open>EncodePanic\<close> and \<open>DecodePanic\<close> are not errors of \<open>EncodeError\<close> and \<open>DecodeError\<close>: they stand for an encoder
  or a decoder that panics (\<open>expect\<close>, \<open>assert!\<close>, \<open>unreachable!\<close>).
\<close>

datatype encode_error =
    EncodeBoundsExceeded
  | TooLarge
  | EncodeShort
  | InvalidState
  | EncodeTooMany
  | EncodeVersion
  | EncodePanic

section \<open>Writers\<close>

record 'w buf_mut =
  remaining_mut :: "'w \<Rightarrow> nat"
  put_slice :: "'w \<Rightarrow> byte list \<Rightarrow> 'w"
  put_u8 :: "'w \<Rightarrow> u8 \<Rightarrow> 'w"
  put_u16 :: "'w \<Rightarrow> u16 \<Rightarrow> 'w"
  put_u32 :: "'w \<Rightarrow> u32 \<Rightarrow> 'w"
  put_u64 :: "'w \<Rightarrow> u64 \<Rightarrow> 'w"

text \<open>
  What an encoder relies on: \<open>remaining_mut\<close> is a \<open>usize\<close>, and a write for which there is room
  appends the big-endian bytes of its argument and uses up no more room than it writes.
\<close>

locale writer =
  fixes B :: "'w buf_mut" and content :: "'w \<Rightarrow> byte list"
  assumes remaining_usize: "remaining_mut B w \<le> usize_max"
    and content_put_slice: "length bs \<le> remaining_mut B w \<Longrightarrow> content (put_slice B w bs) = content w @ bs"
    and content_put_u8: "1 \<le> remaining_mut B w \<Longrightarrow> content (put_u8 B w b) = content w @ [b]"
    and content_put_u16: "2 \<le> remaining_mut B w \<Longrightarrow> content (put_u16 B w x) = content w @ be_bytes 2 x"
    and content_put_u32: "4 \<le> remaining_mut B w \<Longrightarrow> content (put_u32 B w y) = content w @ be_bytes 4 y"
    and content_put_u64: "8 \<le> remaining_mut B w \<Longrightarrow> content (put_u64 B w z) = content w @ be_bytes 8 z"
    and remaining_put_u8: "1 \<le> remaining_mut B w \<Longrightarrow> remaining_mut B w \<le> remaining_mut B (put_u8 B w b) + 1"
    and remaining_put_u16: "2 \<le> remaining_mut B w \<Longrightarrow> remaining_mut B w \<le> remaining_mut B (put_u16 B w x) + 2"
    and remaining_put_u32: "4 \<le> remaining_mut B w \<Longrightarrow> remaining_mut B w \<le> remaining_mut B (put_u32 B w y) + 4"
    and remaining_put_u64: "8 \<le> remaining_mut B w \<Longrightarrow> remaining_mut B w \<le> remaining_mut B (put_u64 B w z) + 8"
    and remaining_put_slice: "length bs \<le> remaining_mut B w
       \<Longrightarrow> remaining_mut B w \<le> remaining_mut B (put_slice B w bs) + length bs"

text \<open>A growable byte buffer (\<open>BytesMut\<close>) is such a writer.\<close>

definition bytes_mut :: "byte list buf_mut" where
  "bytes_mut = \<lparr>remaining_mut = (\<lambda>out. usize_max - length out),
     put_slice = (\<lambda>out bs. out @ bs),
     put_u8 = (\<lambda>out b. out @ [b]),
     put_u16 = (\<lambda>out x. out @ be_bytes 2 x),
     put_u32 = (\<lambda>out x. out @ be_bytes 4 x),
     put_u64 = (\<lambda>out x. out @ be_bytes 8 x)\<rparr>"

interpretation bytes_mut: writer bytes_mut "\<lambda>out. out"
  by unfold_locales (auto simp: bytes_mut_def)

section \<open>The size counting writer\<close>

record sizer =
  sizer_size :: nat

definition sizer_new :: sizer where
  "sizer_new = \<lparr>sizer_size = 0\<rparr>"

definition sizer_add :: "nat \<Rightarrow> sizer \<Rightarrow> sizer" where
  "sizer_add cnt s = s\<lparr>sizer_size := sizer_size s + cnt\<rparr>"

definition sizer_writer :: "sizer buf_mut" where
  "sizer_writer = \<lparr>remaining_mut = (\<lambda>_. usize_max),
     put_slice = (\<lambda>s src. sizer_add (length src) s),
     put_u8 = (\<lambda>s _. sizer_add 1 s),
     put_u16 = (\<lambda>s _. sizer_add 2 s),
     put_u32 = (\<lambda>s _. sizer_add 4 s),
     put_u64 = (\<lambda>s _. sizer_add 8 s)\<rparr>"

lemma sizer_writer_simps [simp]:
  "remaining_mut sizer_writer s = usize_max"
  "put_slice sizer_writer s src = sizer_add (length src) s"
  "put_u8 sizer_writer s b = sizer_add 1 s"
  "put_u16 sizer_writer s x = sizer_add 2 s"
  "put_u32 sizer_writer s y = sizer_add 4 s"
  "put_u64 sizer_writer s z = sizer_add 8 s"
  by (simp_all add: sizer_writer_def)

lemma sizer_add_add [simp]: "sizer_add a (sizer_add b s) = sizer_add (b + a) s"
  by (simp add: sizer_add_def ac_simps)

lemma sizer_add_0 [simp]: "sizer_add 0 s = s"
  by (simp add: sizer_add_def)

lemma sizer_size_add [simp]: "sizer_size (sizer_add n s) = sizer_size s + n"
  by (simp add: sizer_add_def)

lemma sizer_size_new [simp]: "sizer_size sizer_new = 0"
  by (simp add: sizer_new_def)

definition check_remaining :: "'w buf_mut \<Rightarrow> nat \<Rightarrow> (encode_error, 'w) encoder" where
  "check_remaining B needed = (\<lambda>w. if remaining_mut B w < needed then Inl EncodeShort else Inr w)"

section \<open>The codec law\<close>

text \<open>
  \<open>reads d bs a\<close>: decoding \<open>bs\<close> in front of any further input returns the value \<open>a\<close> and that input,
  and decoding any proper prefix of \<open>bs\<close> reports \<open>Short\<close>, so a reader that waits for more data
  neither loses nor misreads a value.
\<close>

definition reads :: "(decode_error, 'a) decoder \<Rightarrow> byte list \<Rightarrow> 'a \<Rightarrow> bool" where
  "reads d bs a \<longleftrightarrow> (\<forall>r. d (bs @ r) = Inr (a, r)) \<and> (\<forall>p. strict_prefix p bs \<longrightarrow> d p = Inl Short)"

text \<open>
  \<open>emits content e sz d a\<close>: whenever the encoder \<open>e\<close> succeeds it has appended some bytes; the same
  encoder run on a \<open>Sizer\<close> (\<open>sz\<close>) counts exactly those bytes; and the decoder \<open>d\<close> reads \<open>a\<close> from them.
\<close>

definition emits ::
  "('w \<Rightarrow> byte list) \<Rightarrow> (encode_error, 'w) encoder \<Rightarrow> (encode_error, sizer) encoder
   \<Rightarrow> (decode_error, 'a) decoder \<Rightarrow> 'a \<Rightarrow> bool" where
  "emits content e sz d a \<longleftrightarrow> (\<forall>w w'. e w = Inr w' \<longrightarrow>
     (\<exists>bs. content w' = content w @ bs \<and> (\<forall>s. sz s = Inr (sizer_add (length bs) s)) \<and> reads d bs a))"

text \<open>
  \<open>emits_whole\<close> is the law of the body of a sized message: its decoder may look at the end of the buffer,
  so it reads \<open>a\<close> from exactly the bytes written.
\<close>

definition emits_whole ::
  "('w \<Rightarrow> byte list) \<Rightarrow> (encode_error, 'w) encoder \<Rightarrow> (encode_error, sizer) encoder
   \<Rightarrow> (decode_error, 'a) decoder \<Rightarrow> 'a \<Rightarrow> bool" where
  "emits_whole content e sz d a \<longleftrightarrow> (\<forall>w w'. e w = Inr w' \<longrightarrow>
     (\<exists>bs. content w' = content w @ bs \<and> (\<forall>s. sz s = Inr (sizer_add (length bs) s)) \<and> d bs = Inr (a, [])))"

lemma strict_prefix_Cons_cases:
  assumes "strict_prefix p (b # bs)"
  obtains "p = []" | q where "p = b # q" and "length q < length bs"
  using assms by (cases p) (auto dest: prefix_length_less)

lemma reads_ConsI:
  assumes "\<And>r. d ((b # bs) @ r) = Inr (a, r)" and "d [] = Inl Short"
    and "\<And>q. length q < length bs \<Longrightarrow> d (b # q) = Inl Short"
  shows "reads d (b # bs) a"
  unfolding reads_def using assms by (auto elim!: strict_prefix_Cons_cases)

lemma emitsI:
  assumes "\<And>w w'. e w = Inr w' \<Longrightarrow> \<exists>bs. content w' = content w @ bs
     \<and> (\<forall>s. sz s = Inr (sizer_add (length bs) s)) \<and> reads d bs a"
  shows "emits content e sz d a"
  using assms by (simp add: emits_def)

lemma emits_bytesI:
  assumes "\<And>w w'. e w = Inr w' \<Longrightarrow> content w' = content w @ bs"
    and "\<And>s. sz s = Inr (sizer_add (length bs) s)" and "reads d bs a"
  shows "emits content e sz d a"
  using assms by (auto simp: emits_def)

lemma emits_failI:
  assumes "\<And>w. \<exists>err. e w = Inl err"
  shows "emits content e sz d a"
  unfolding emits_def using assms by (metis sum.distinct(1))

lemma emitsE:
  assumes "emits content e sz d a" and "e w = Inr w'"
  obtains bs where "content w' = content w @ bs" and "\<forall>s. sz s = Inr (sizer_add (length bs) s)"
    and "reads d bs a"
  using assms unfolding emits_def by blast

lemma emits_wire:
  assumes "emits content e sz d a" and "e w = Inr w'"
  shows "\<exists>bs. content w' = content w @ bs \<and> sz sizer_new = Inr \<lparr>sizer_size = length bs\<rparr> \<and> reads d bs a"
  using emitsE [OF assms] by (metis sizer_size_add sizer_size_new add_0 sizer.surjective unit.exhaust)

lemma emits_nil [codec_intros]: "emits content enil enil (dret a) a"
  by (rule emitsI) (simp add: decoder_simps reads_def)

lemma emits_fail [codec_intros]: "emits content (efail err) sz d a"
  by (rule emitsI) (simp add: decoder_simps)

lemma strict_prefix_append_cases:
  assumes "strict_prefix p (bs @ cs)"
  obtains "strict_prefix p bs" | q where "p = bs @ q" and "strict_prefix q cs"
proof (cases "strict_prefix p bs")
  case False
  from assms have "prefix p (bs @ cs)" by (rule strict_prefixE') (auto simp: prefix_def)
  with False obtain q where "p = bs @ q" and "prefix q cs"
    by (auto simp: prefix_append strict_prefix_def)
  with assms show ?thesis using that(2) by (auto simp: strict_prefix_def)
qed (use that in blast)

lemma reads_bind:
  assumes "reads d bs a" and "reads (f a) cs b"
  shows "reads (dbind d f) (bs @ cs) b"
proof -
  have "dbind d f p = Inl Short" if "strict_prefix p (bs @ cs)" for p
    using that by (rule strict_prefix_append_cases) (use assms in \<open>simp_all add: dbind_def reads_def\<close>)
  then show ?thesis
    using assms by (simp add: reads_def dbind_def)
qed

lemma emits_bind:
  assumes "emits content e1 s1 d a" and "emits content e2 s2 (f a) b"
  shows "emits content (ebind e1 e2) (ebind s1 s2) (dbind d f) b"
proof (rule emitsI)
  fix w w''
  assume "ebind e1 e2 w = Inr w''"
  then obtain w' where w': "e1 w = Inr w'" and w'': "e2 w' = Inr w''"
    by (auto simp: ebind_Inr_conv)
  from assms(1) w' obtain bs where bs: "content w' = content w @ bs"
    "\<forall>s. s1 s = Inr (sizer_add (length bs) s)" "reads d bs a"
    by (rule emitsE)
  from assms(2) w'' obtain cs where cs: "content w'' = content w' @ cs"
    "\<forall>s. s2 s = Inr (sizer_add (length cs) s)" "reads (f a) cs b"
    by (rule emitsE)
  from bs(3) cs(3) have "reads (dbind d f) (bs @ cs) b" by (rule reads_bind)
  then show "\<exists>bs. content w'' = content w @ bs \<and> (\<forall>s. ebind s1 s2 s = Inr (sizer_add (length bs) s))
     \<and> reads (dbind d f) bs b"
    using bs cs by (intro exI [of _ "bs @ cs"]) (simp add: ebind_def)
qed

text \<open>The last step of a decoder builds the value from the fields.\<close>

lemma emits_map:
  assumes "emits content e sz d a" and "f a = dret b"
  shows "emits content e sz (dbind d f) b"
proof -
  have "emits content (ebind e enil) (ebind sz enil) (dbind d f) b"
    using assms(1) by (rule emits_bind) (simp only: assms(2) emits_nil)
  then show ?thesis by simp
qed

lemma emits_wholeE:
  assumes "emits_whole content e sz d a" and "e w = Inr w'"
  obtains bs where "content w' = content w @ bs" and "\<forall>s. sz s = Inr (sizer_add (length bs) s)"
    and "d bs = Inr (a, [])"
  using assms unfolding emits_whole_def by blast

lemma emits_whole:
  assumes "emits content e sz d a"
  shows "emits_whole content e sz d a"
  using assms unfolding emits_def emits_whole_def reads_def by (metis append_Nil2)

lemma emits_whole_bind:
  assumes "emits content e1 s1 d a" and "emits_whole content e2 s2 (f a) b"
  shows "emits_whole content (ebind e1 e2) (ebind s1 s2) (dbind d f) b"
  unfolding emits_whole_def
proof (intro allI impI)
  fix w w''
  assume "ebind e1 e2 w = Inr w''"
  then obtain w' where w': "e1 w = Inr w'" and w'': "e2 w' = Inr w''"
    by (auto simp: ebind_Inr_conv)
  from assms(1) w' obtain bs where bs: "content w' = content w @ bs"
    "\<forall>s. s1 s = Inr (sizer_add (length bs) s)" "reads d bs a"
    by (rule emitsE)
  from assms(2) w'' obtain cs where cs: "content w'' = content w' @ cs"
    "\<forall>s. s2 s = Inr (sizer_add (length cs) s)" "f a cs = Inr (b, [])"
    by (rule emits_wholeE)
  have "dbind d f (bs @ cs) = Inr (b, [])" using bs(3) cs(3) by (simp add: reads_def dbind_def)
  then show "\<exists>bs. content w'' = content w @ bs \<and> (\<forall>s. ebind s1 s2 s = Inr (sizer_add (length bs) s))
     \<and> dbind d f bs = Inr (b, [])"
    using bs cs by (intro exI [of _ "bs @ cs"]) (simp add: ebind_def)
qed

lemma emits_whole_end:
  assumes "emits content e sz d a" and "f a [] = Inr (b, [])"
  shows "emits_whole content e sz (dbind d f) b"
proof -
  have "emits_whole content enil enil (f a) b" using assms(2) by (simp add: emits_whole_def enil_def)
  from emits_whole_bind [where f = f, OF assms(1) this] show ?thesis by simp
qed

text \<open>A sequence of items, written one after the other and read by the counting loop.\<close>

lemma emits_repeat:
  assumes "\<And>x. x \<in> set xs \<Longrightarrow> emits content (e x) (sz x) d x"
  shows "emits content (eseq (map e xs)) (eseq (map sz xs)) (drepeat (length xs) d) xs"
  using assms
proof (induction xs)
  case Nil
  show ?case
    unfolding list.map eseq.simps list.size drepeat.simps by (rule emits_nil)
next
  case (Cons x xs)
  show ?case
    unfolding list.map eseq.simps length_Cons drepeat.simps
    by (rule emits_bind, rule Cons.prems, simp, rule emits_map, rule Cons.IH, rule Cons.prems) simp_all
qed

section \<open>Encoders that succeed\<close>

text \<open>
  \<open>writes B e sz n\<close>: given room for \<open>n\<close> bytes the encoder \<open>e\<close> succeeds and uses up at most \<open>n\<close>, and on a
  \<open>Sizer\<close> (\<open>sz\<close>) it succeeds and counts at most \<open>n\<close>.
\<close>

definition writes :: "'w buf_mut \<Rightarrow> (encode_error, 'w) encoder \<Rightarrow> (encode_error, sizer) encoder \<Rightarrow> nat \<Rightarrow> bool" where
  "writes B e sz n \<longleftrightarrow> (\<forall>s. \<exists>k\<le>n. sz s = Inr (sizer_add k s))
     \<and> (\<forall>w. n \<le> remaining_mut B w \<longrightarrow> (\<exists>w'. e w = Inr w' \<and> remaining_mut B w \<le> remaining_mut B w' + n))"

lemma writesI:
  assumes "\<And>s. \<exists>k\<le>n. sz s = Inr (sizer_add k s)"
    and "\<And>w. n \<le> remaining_mut B w \<Longrightarrow> \<exists>w'. e w = Inr w' \<and> remaining_mut B w \<le> remaining_mut B w' + n"
  shows "writes B e sz n"
  using assms by (simp add: writes_def)

lemma sizer_counts: "k \<le> n \<Longrightarrow> \<exists>k'\<le>n. sizer_add k s = sizer_add k' s"
  by blast

lemma writes_enil: "writes B enil enil 0"
  by (simp add: writes_def enil_def)

lemma writes_mono:
  assumes "writes B e sz n" "n \<le> m"
  shows "writes B e sz m"
proof (rule writesI)
  show "\<exists>k\<le>m. sz s = Inr (sizer_add k s)" for s
    using assms le_trans unfolding writes_def by blast
  show "\<exists>w'. e w = Inr w' \<and> remaining_mut B w \<le> remaining_mut B w' + m" if "m \<le> remaining_mut B w" for w
    using that assms unfolding writes_def by (meson add_le_mono le_refl le_trans)
qed

lemma writes_bind:
  assumes "writes B e1 s1 n" "writes B e2 s2 m"
  shows "writes B (ebind e1 e2) (ebind s1 s2) (n + m)"
proof (rule writesI)
  fix s
  obtain k l where "k \<le> n" "s1 s = Inr (sizer_add k s)" "l \<le> m" "s2 (sizer_add k s) = Inr (sizer_add l (sizer_add k s))"
    using assms unfolding writes_def by blast
  then show "\<exists>k\<le>n + m. ebind s1 s2 s = Inr (sizer_add k s)"
    by (intro exI [of _ "k + l"]) (simp add: ebind_def)
next
  fix w
  assume room: "n + m \<le> remaining_mut B w"
  then obtain w1 where w1: "e1 w = Inr w1" "remaining_mut B w \<le> remaining_mut B w1 + n"
    using assms(1) unfolding writes_def by (meson add_leD1)
  with room have "m \<le> remaining_mut B w1" by linarith
  then obtain w2 where "e2 w1 = Inr w2" "remaining_mut B w1 \<le> remaining_mut B w2 + m"
    using assms(2) unfolding writes_def by blast
  with w1 show "\<exists>w'. ebind e1 e2 w = Inr w' \<and> remaining_mut B w \<le> remaining_mut B w' + (n + m)"
    by (simp add: ebind_def)
qed

lemma writes_seq:
  assumes "\<And>x. x \<in> set xs \<Longrightarrow> writes B (e x) (sz x) (f x)"
  shows "writes B (eseq (map e xs)) (eseq (map sz xs)) (sum_list (map f xs))"
  using assms by (induction xs) (simp_all add: writes_enil writes_bind)

lemma writesD: "writes B e sz n \<Longrightarrow> n \<le> remaining_mut B w \<Longrightarrow> \<exists>w'. e w = Inr w'"
  unfolding writes_def by blast

text \<open>
  \<open>delivers B content e sz d a n\<close>, both laws together: given room for \<open>n\<close> bytes, \<open>e\<close> succeeds and appends
  at most \<open>n\<close> bytes, the \<open>Sizer\<close> counts exactly those, and \<open>d\<close> reads \<open>a\<close> from them.
\<close>

lemma emits_writes:
  assumes "emits content e sz d a" "writes B e sz n" "n \<le> remaining_mut B w"
  shows "\<exists>w' bs. e w = Inr w' \<and> content w' = content w @ bs \<and> length bs \<le> n
     \<and> sz sizer_new = Inr \<lparr>sizer_size = length bs\<rparr> \<and> reads d bs a"
proof -
  obtain w' where w': "e w = Inr w'" using writesD [OF assms(2,3)] by blast
  obtain bs where bs: "content w' = content w @ bs" "sz sizer_new = Inr \<lparr>sizer_size = length bs\<rparr>" "reads d bs a"
    using emits_wire [OF assms(1) w'] by blast
  obtain k where "k \<le> n" "sz sizer_new = Inr (sizer_add k sizer_new)" using assms(2) unfolding writes_def by blast
  with bs(2) have "length bs \<le> n" by (simp add: sizer_add_def sizer_new_def)
  with w' bs show ?thesis by blast
qed

definition delivers :: "'w buf_mut \<Rightarrow> ('w \<Rightarrow> byte list) \<Rightarrow> (encode_error, 'w) encoder \<Rightarrow> (encode_error, sizer) encoder
    \<Rightarrow> (decode_error, 'a) decoder \<Rightarrow> 'a \<Rightarrow> nat \<Rightarrow> bool" where
  "delivers B content e sz d a n \<longleftrightarrow> (\<forall>w. n \<le> remaining_mut B w \<longrightarrow>
     (\<exists>w' bs. e w = Inr w' \<and> content w' = content w @ bs \<and> length bs \<le> n
       \<and> sz sizer_new = Inr \<lparr>sizer_size = length bs\<rparr> \<and> reads d bs a))"

lemma deliversI:
  assumes "emits content e sz d a" "writes B e sz n"
  shows "delivers B content e sz d a n"
  unfolding delivers_def by (intro allI impI emits_writes [OF assms])

section \<open>UTF-8\<close>

definition utf8_cont :: "byte \<Rightarrow> bool" where
  "utf8_cont b \<longleftrightarrow> 0x80 \<le> b \<and> b \<le> 0xBF"

text \<open>
  The well-formed byte sequences of the Unicode standard, which \<open>String::from_utf8\<close> accepts.
\<close>

fun valid_utf8 :: "byte list \<Rightarrow> bool" where
  "valid_utf8 [] = True"
| "valid_utf8 (b # bs) =
     (if b < 0x80 then valid_utf8 bs
      else if 0xC2 \<le> b \<and> b \<le> 0xDF then
        (case bs of c1 # r \<Rightarrow> utf8_cont c1 \<and> valid_utf8 r | _ \<Rightarrow> False)
      else if 0xE0 \<le> b \<and> b \<le> 0xEF then
        (case bs of c1 # c2 # r \<Rightarrow>
           utf8_cont c1 \<and> (b = 0xE0 \<longrightarrow> 0xA0 \<le> c1) \<and> (b = 0xED \<longrightarrow> c1 \<le> 0x9F)
           \<and> utf8_cont c2 \<and> valid_utf8 r
         | _ \<Rightarrow> False)
      else if 0xF0 \<le> b \<and> b \<le> 0xF4 then
        (case bs of c1 # c2 # c3 # r \<Rightarrow>
           utf8_cont c1 \<and> (b = 0xF0 \<longrightarrow> 0x90 \<le> c1) \<and> (b = 0xF4 \<longrightarrow> c1 \<le> 0x8F)
           \<and> utf8_cont c2 \<and> utf8_cont c3 \<and> valid_utf8 r
         | _ \<Rightarrow> False)
      else False)"

definition from_utf8 :: "byte list \<Rightarrow> decode_error + string" where
  "from_utf8 v = (if valid_utf8 v then Inr (chars_of v) else Inl (InvalidString v))"

abbreviation utf8 :: "string \<Rightarrow> bool" where
  "utf8 s \<equiv> valid_utf8 (as_bytes s)"

lemma from_utf8_as_bytes [simp]: "utf8 s \<Longrightarrow> from_utf8 (as_bytes s) = Inr s"
  by (simp add: from_utf8_def)

end
