(* ===== verification/Versions.thy ===== *)
theory Versions
  imports Prelude
begin

text \<open>
  Protocol versions (\<open>relay/rs/moq-net/src/version.rs\<close>, \<open>lite/version.rs\<close>, \<open>ietf/version.rs\<close>): the wire
  codes used by SETUP negotiation, the ALPN strings, the textual names, and the version sets.
\<close>

section \<open>Version identifiers\<close>

datatype lite_version = Lite01 | Lite02 | Lite03 | Lite04 | Lite05Wip

datatype ietf_version = Draft14 | Draft15 | Draft16 | Draft17 | Draft18

datatype version = Lite lite_version | Ietf ietf_version

definition NEGOTIATED :: "version list" where
  "NEGOTIATED = [Lite Lite02, Lite Lite01, Ietf Draft14]"

fun from_code :: "u64 \<Rightarrow> version option" where
  "from_code code =
     (if code = 0xff0dad01 then Some (Lite Lite01)
      else if code = 0xff0dad02 then Some (Lite Lite02)
      else if code = 0xff0dad03 then Some (Lite Lite03)
      else if code = 0xff0dad04 then Some (Lite Lite04)
      else if code = 0xff0dad05 then Some (Lite Lite05Wip)
      else if code = 0xff00000e then Some (Ietf Draft14)
      else if code = 0xff00000f then Some (Ietf Draft15)
      else if code = 0xff000010 then Some (Ietf Draft16)
      else if code = 0xff000011 then Some (Ietf Draft17)
      else if code = 0xff000012 then Some (Ietf Draft18)
      else None)"

fun version_code :: "version \<Rightarrow> u64" where
  "version_code (Lite Lite01) = 0xff0dad01"
| "version_code (Lite Lite02) = 0xff0dad02"
| "version_code (Lite Lite03) = 0xff0dad03"
| "version_code (Lite Lite04) = 0xff0dad04"
| "version_code (Lite Lite05Wip) = 0xff0dad05"
| "version_code (Ietf Draft14) = 0xff00000e"
| "version_code (Ietf Draft15) = 0xff00000f"
| "version_code (Ietf Draft16) = 0xff000010"
| "version_code (Ietf Draft17) = 0xff000011"
| "version_code (Ietf Draft18) = 0xff000012"

section \<open>ALPN strings\<close>

definition ALPN_LITE :: string where "ALPN_LITE = ''moql''"
definition ALPN_LITE_03 :: string where "ALPN_LITE_03 = ''moq-lite-03''"
definition ALPN_LITE_04 :: string where "ALPN_LITE_04 = ''moq-lite-04''"
definition ALPN_LITE_05_WIP :: string where "ALPN_LITE_05_WIP = ''moq-lite-05-wip''"
definition ALPN_14 :: string where "ALPN_14 = ''moq-00''"
definition ALPN_15 :: string where "ALPN_15 = ''moqt-15''"
definition ALPN_16 :: string where "ALPN_16 = ''moqt-16''"
definition ALPN_17 :: string where "ALPN_17 = ''moqt-17''"
definition ALPN_18 :: string where "ALPN_18 = ''moqt-18''"

lemmas alpn_defs = ALPN_LITE_def ALPN_LITE_03_def ALPN_LITE_04_def ALPN_LITE_05_WIP_def
  ALPN_14_def ALPN_15_def ALPN_16_def ALPN_17_def ALPN_18_def

definition ALPNS :: "string list" where
  "ALPNS = [ALPN_LITE_04, ALPN_LITE_03, ALPN_LITE, ALPN_18, ALPN_17, ALPN_16, ALPN_15, ALPN_14]"

definition from_alpn :: "string \<Rightarrow> version option" where
  "from_alpn s =
     (if s = ALPN_LITE then None
      else if s = ALPN_LITE_03 then Some (Lite Lite03)
      else if s = ALPN_LITE_04 then Some (Lite Lite04)
      else if s = ALPN_LITE_05_WIP then Some (Lite Lite05Wip)
      else if s = ALPN_14 then Some (Ietf Draft14)
      else if s = ALPN_15 then Some (Ietf Draft15)
      else if s = ALPN_16 then Some (Ietf Draft16)
      else if s = ALPN_17 then Some (Ietf Draft17)
      else if s = ALPN_18 then Some (Ietf Draft18)
      else None)"

fun alpn :: "version \<Rightarrow> string" where
  "alpn (Lite Lite05Wip) = ALPN_LITE_05_WIP"
| "alpn (Lite Lite04) = ALPN_LITE_04"
| "alpn (Lite Lite03) = ALPN_LITE_03"
| "alpn (Lite Lite01) = ALPN_LITE"
| "alpn (Lite Lite02) = ALPN_LITE"
| "alpn (Ietf Draft14) = ALPN_14"
| "alpn (Ietf Draft15) = ALPN_15"
| "alpn (Ietf Draft16) = ALPN_16"
| "alpn (Ietf Draft17) = ALPN_17"
| "alpn (Ietf Draft18) = ALPN_18"

fun uses_setup_negotiation :: "version \<Rightarrow> bool" where
  "uses_setup_negotiation (Lite Lite01) = True"
| "uses_setup_negotiation (Lite Lite02) = True"
| "uses_setup_negotiation (Ietf Draft14) = True"
| "uses_setup_negotiation _ = False"

fun is_lite :: "version \<Rightarrow> bool" where
  "is_lite (Lite _) = True"
| "is_lite (Ietf _) = False"

fun is_ietf :: "version \<Rightarrow> bool" where
  "is_ietf (Ietf _) = True"
| "is_ietf (Lite _) = False"

section \<open>Textual names\<close>

fun lite_display :: "lite_version \<Rightarrow> string" where
  "lite_display Lite01 = ''moq-lite-01''"
| "lite_display Lite02 = ''moq-lite-02''"
| "lite_display Lite03 = ''moq-lite-03''"
| "lite_display Lite04 = ''moq-lite-04''"
| "lite_display Lite05Wip = ''moq-lite-05-wip''"

fun ietf_display :: "ietf_version \<Rightarrow> string" where
  "ietf_display Draft14 = ''moq-transport-14''"
| "ietf_display Draft15 = ''moq-transport-15''"
| "ietf_display Draft16 = ''moq-transport-16''"
| "ietf_display Draft17 = ''moq-transport-17''"
| "ietf_display Draft18 = ''moq-transport-18''"

fun version_display :: "version \<Rightarrow> string" where
  "version_display (Lite v) = lite_display v"
| "version_display (Ietf v) = ietf_display v"

definition version_from_str :: "string \<Rightarrow> string + version" where
  "version_from_str s =
     (if s = ''moq-lite-01'' then Inr (Lite Lite01)
      else if s = ''moq-lite-02'' then Inr (Lite Lite02)
      else if s = ''moq-lite-03'' then Inr (Lite Lite03)
      else if s = ''moq-lite-04'' then Inr (Lite Lite04)
      else if s = ''moq-lite-05-wip'' then Inr (Lite Lite05Wip)
      else if s = ''moq-transport-14'' then Inr (Ietf Draft14)
      else if s = ''moq-transport-15'' then Inr (Ietf Draft15)
      else if s = ''moq-transport-16'' then Inr (Ietf Draft16)
      else if s = ''moq-transport-17'' then Inr (Ietf Draft17)
      else if s = ''moq-transport-18'' then Inr (Ietf Draft18)
      else Inl (''unknown version: '' @ s))"

section \<open>Version sets\<close>

type_synonym versions = "version list"

definition versions_all :: versions where
  "versions_all = [Lite Lite04, Lite Lite03, Lite Lite02, Lite Lite01,
     Ietf Draft18, Ietf Draft17, Ietf Draft16, Ietf Draft15, Ietf Draft14]"

fun alpns_loop :: "version list \<Rightarrow> string list \<Rightarrow> string list" where
  "alpns_loop [] acc = acc"
| "alpns_loop (v # vs) acc =
     (let a = alpn v in if a \<in> set acc then alpns_loop vs acc else alpns_loop vs (acc @ [a]))"

definition alpns :: "versions \<Rightarrow> string list" where
  "alpns vs = alpns_loop vs []"

definition versions_filter :: "versions \<Rightarrow> versions \<Rightarrow> versions option" where
  "versions_filter self other =
     (let filtered = filter (\<lambda>v. v \<in> set other) self
      in if filtered = [] then None else Some filtered)"

definition versions_select :: "versions \<Rightarrow> version \<Rightarrow> version option" where
  "versions_select self v = (if v \<in> set self then Some v else None)"

section \<open>Properties of the tables\<close>

lemma from_code_version_code [simp]: "from_code (version_code v) = Some v"
  by (cases v; rename_tac x; case_tac x) simp_all

lemma version_code_from_code: "from_code c = Some v \<Longrightarrow> version_code v = c"
  by (auto split: if_splits)

lemma from_alpn_alpn: "from_alpn (alpn v) = (if v \<in> {Lite Lite01, Lite Lite02} then None else Some v)"
  by (cases v; rename_tac x; case_tac x) (simp_all add: from_alpn_def alpn_defs)

lemma alpn_from_alpn: "from_alpn s = Some v \<Longrightarrow> alpn v = s"
  by (auto simp: from_alpn_def split: if_splits)

lemma version_from_str_display [simp]: "version_from_str (version_display v) = Inr v"
  by (cases v; rename_tac x; case_tac x) (simp_all add: version_from_str_def)

lemma version_display_from_str: "version_from_str s = Inr v \<Longrightarrow> version_display v = s"
  by (auto simp: version_from_str_def split: if_splits)

lemma alpns_loop_spec:
  "distinct acc \<Longrightarrow> distinct (alpns_loop vs acc) \<and> set (alpns_loop vs acc) = set acc \<union> alpn ` set vs"
  by (induction vs arbitrary: acc) (auto simp: Let_def)

lemma alpns_spec: "distinct (alpns vs)" "set (alpns vs) = alpn ` set vs"
  using alpns_loop_spec [of "[]" vs] by (simp_all add: alpns_def)

end
