(* ===== verification/Varint.thy ===== *)
theory Varint
  imports Wire_Buf Versions
begin

unbundle bit_operations_syntax

text \<open>
  Variable-length integers (\<open>relay/rs/moq-net/src/coding/varint.rs\<close>): the QUIC form with a two-bit
  length tag, the leading-ones form of draft-17 and later, and the choice between them by version.
\<close>

section \<open>Construction and conversion\<close>

type_synonym varint = u64

definition varint_max :: varint where
  "varint_max = push_bit 62 1 - 1"

definition from_u32 :: "u32 \<Rightarrow> varint" where
  "from_u32 x = ucast x"

definition from_u64 :: "u64 \<Rightarrow> varint option" where
  "from_u64 x = (if x \<le> varint_max then Some x else None)"

definition from_u128 :: "128 word \<Rightarrow> varint option" where
  "from_u128 x = (if x \<le> ucast varint_max then Some (ucast x) else None)"

definition varint_try_from :: "u64 \<Rightarrow> encode_error + varint" where
  "varint_try_from x = (if x \<le> varint_max then Inr x else Inl EncodeBoundsExceeded)"

definition varint_try_from_u128 :: "nat \<Rightarrow> encode_error + varint" where
  "varint_try_from_u128 x = (if x \<le> unat varint_max then Inr (of_nat x) else Inl EncodeBoundsExceeded)"

definition varint_try_from_usize :: "nat \<Rightarrow> encode_error + varint" where
  "varint_try_from_usize x = (if x \<le> unat varint_max then Inr (of_nat x) else Inl EncodeBoundsExceeded)"

definition u32_try_from :: "varint \<Rightarrow> decode_error + u32" where
  "u32_try_from x = (if x \<le> 0xFFFFFFFF then Inr (ucast x) else Inl BoundsExceeded)"

definition u16_try_from :: "varint \<Rightarrow> decode_error + u16" where
  "u16_try_from x = (if x \<le> 0xFFFF then Inr (ucast x) else Inl BoundsExceeded)"

definition u8_try_from :: "varint \<Rightarrow> decode_error + u8" where
  "u8_try_from x = (if x \<le> 0xFF then Inr (ucast x) else Inl BoundsExceeded)"

section \<open>QUIC varints\<close>

definition decode_quic :: "(decode_error, varint) decoder" where
  "decode_quic r =
     (case r of
        [] \<Rightarrow> Inl Short
      | b # r \<Rightarrow>
          (let tag = drop_bit 6 b; buf0 = b AND 0x3F
           in if tag = 0 then Inr (ucast buf0, r)
              else if tag = 1 then
                (if r = [] then Inl Short
                 else Inr (ucast (from_be (buf0 # take 1 r) :: u16), drop 1 r))
              else if tag = 2 then
                (if length r < 3 then Inl Short
                 else Inr (ucast (from_be (buf0 # take 3 r) :: u32), drop 3 r))
              else
                (if length r < 7 then Inl Short
                 else Inr (from_be (buf0 # take 7 r), drop 7 r))))"

definition encode_quic :: "'w buf_mut \<Rightarrow> varint \<Rightarrow> (encode_error, 'w) encoder" where
  "encode_quic B x w =
     (let remaining = remaining_mut B w
      in if x < push_bit 6 1 then
           (if remaining < 1 then Inl EncodeShort else Inr (put_u8 B w (ucast x)))
         else if x < push_bit 14 1 then
           (if remaining < 2 then Inl EncodeShort
            else Inr (put_u16 B w (push_bit 14 0b01 OR ucast x)))
         else if x < push_bit 30 1 then
           (if remaining < 4 then Inl EncodeShort
            else Inr (put_u32 B w (push_bit 30 0b10 OR ucast x)))
         else if x < push_bit 62 1 then
           (if remaining < 8 then Inl EncodeShort
            else Inr (put_u64 B w (push_bit 62 0b11 OR x)))
         else Inl EncodeBoundsExceeded)"

section \<open>Leading-ones varints\<close>

definition leading_ones :: "byte \<Rightarrow> nat" where
  "leading_ones b = length (takeWhile (\<lambda>i. bit b i) [7, 6, 5, 4, 3, 2, 1, 0])"

definition decode_leading_ones :: "ietf_version \<Rightarrow> (decode_error, varint) decoder" where
  "decode_leading_ones version r =
     (case r of
        [] \<Rightarrow> Inl Short
      | b # r \<Rightarrow>
          (let ones = leading_ones b
           in if ones = 0 then Inr (ucast b, r)
              else if ones = 1 then
                (if r = [] then Inl Short
                 else let hi = ucast (b AND 0x3F); lo = ucast (hd r)
                      in Inr (push_bit 8 hi OR lo, tl r))
              else if ones = 2 then
                (if length r < 2 then Inl Short
                 else let hi = ucast (b AND 0x1F)
                      in Inr (push_bit 16 hi OR ucast (from_be (take 2 r) :: u16), drop 2 r))
              else if ones = 3 then
                (if length r < 3 then Inl Short
                 else let hi = ucast (b AND 0x0F)
                      in Inr (push_bit 24 hi OR push_bit 16 (ucast (r ! 0))
                              OR push_bit 8 (ucast (r ! 1)) OR ucast (r ! 2), drop 3 r))
              else if ones = 4 then
                (if length r < 4 then Inl Short
                 else let hi = ucast (b AND 0x07)
                      in Inr (push_bit 32 hi OR ucast (from_be (take 4 r) :: u32), drop 4 r))
              else if ones = 5 then
                (if length r < 5 then Inl Short
                 else let hi = ucast (b AND 0x03);
                          lo = push_bit 32 (ucast (r ! 0)) OR push_bit 24 (ucast (r ! 1))
                               OR push_bit 16 (ucast (r ! 2)) OR push_bit 8 (ucast (r ! 3))
                               OR ucast (r ! 4)
                      in Inr (push_bit 40 hi OR lo, drop 5 r))
              else if ones = 6 then
                (if version = Draft17 then Inl InvalidValue
                 else if length r < 6 then Inl Short
                 else let hi = ucast (b AND 0x01)
                      in Inr (push_bit 48 hi OR from_be ([0, 0] @ take 6 r), drop 6 r))
              else if ones = 7 then
                (if length r < 7 then Inl Short
                 else Inr (from_be (0 # take 7 r), drop 7 r))
              else
                (if length r < 8 then Inl Short
                 else Inr (from_be (take 8 r), drop 8 r))))"

definition encode_leading_ones :: "'w buf_mut \<Rightarrow> ietf_version \<Rightarrow> varint \<Rightarrow> (encode_error, 'w) encoder" where
  "encode_leading_ones B version x w =
     (let remaining = remaining_mut B w
      in if x < push_bit 7 1 then
           (if remaining < 1 then Inl EncodeShort else Inr (put_u8 B w (ucast x)))
         else if x < push_bit 14 1 then
           (if remaining < 2 then Inl EncodeShort
            else let w = put_u8 B w (0x80 OR ucast (drop_bit 8 x))
                 in Inr (put_u8 B w (ucast x)))
         else if x < push_bit 21 1 then
           (if remaining < 3 then Inl EncodeShort
            else let w = put_u8 B w (0xC0 OR ucast (drop_bit 16 x))
                 in Inr (put_u16 B w (ucast x)))
         else if x < push_bit 28 1 then
           (if remaining < 4 then Inl EncodeShort
            else let w = put_u8 B w (0xE0 OR ucast (drop_bit 24 x));
                     w = put_u8 B w (ucast (drop_bit 16 x))
                 in Inr (put_u16 B w (ucast x)))
         else if x < push_bit 35 1 then
           (if remaining < 5 then Inl EncodeShort
            else let w = put_u8 B w (0xF0 OR ucast (drop_bit 32 x))
                 in Inr (put_u32 B w (ucast x)))
         else if x < push_bit 42 1 then
           (if remaining < 6 then Inl EncodeShort
            else let w = put_u8 B w (0xF8 OR ucast (drop_bit 40 x));
                     w = put_u8 B w (ucast (drop_bit 32 x))
                 in Inr (put_u32 B w (ucast x)))
         else if x < push_bit 56 1 then
           (if remaining < 8 then Inl EncodeShort
            else let w = put_u8 B w 0xFE;
                     w = put_u8 B w (ucast (drop_bit 48 x));
                     w = put_u16 B w (ucast (drop_bit 32 x))
                 in Inr (put_u32 B w (ucast x)))
         else
           (if remaining < 9 then Inl EncodeShort
            else let w = put_u8 B w 0xFF
                 in Inr (put_u64 B w x)))"

section \<open>Version dispatch\<close>

fun varint_encode :: "'w buf_mut \<Rightarrow> version \<Rightarrow> varint \<Rightarrow> (encode_error, 'w) encoder" where
  "varint_encode B (Lite v) x = encode_quic B x"
| "varint_encode B (Ietf v) x =
     (case v of Draft14 \<Rightarrow> encode_quic B x | Draft15 \<Rightarrow> encode_quic B x | Draft16 \<Rightarrow> encode_quic B x
      | _ \<Rightarrow> encode_leading_ones B v x)"

fun varint_decode :: "version \<Rightarrow> (decode_error, varint) decoder" where
  "varint_decode (Lite v) = decode_quic"
| "varint_decode (Ietf v) =
     (case v of Draft14 \<Rightarrow> decode_quic | Draft15 \<Rightarrow> decode_quic | Draft16 \<Rightarrow> decode_quic
      | _ \<Rightarrow> decode_leading_ones v)"

section \<open>Integers as varints\<close>

definition u64_encode :: "'w buf_mut \<Rightarrow> version \<Rightarrow> u64 \<Rightarrow> (encode_error, 'w) encoder" where
  "u64_encode B v x w = and_then (varint_try_from x) (\<lambda>x. varint_encode B v x w)"

definition u64_decode :: "version \<Rightarrow> (decode_error, u64) decoder" where
  "u64_decode v = varint_decode v"

definition usize_encode :: "'w buf_mut \<Rightarrow> version \<Rightarrow> nat \<Rightarrow> (encode_error, 'w) encoder" where
  "usize_encode B v n w = and_then (varint_try_from_usize n) (\<lambda>x. varint_encode B v x w)"

definition usize_decode :: "version \<Rightarrow> (decode_error, nat) decoder" where
  "usize_decode v = dbind (varint_decode v) (\<lambda>x. dret (unat x))"

definition u32_encode :: "'w buf_mut \<Rightarrow> version \<Rightarrow> u32 \<Rightarrow> (encode_error, 'w) encoder" where
  "u32_encode B v x = varint_encode B v (from_u32 x)"

definition u32_decode :: "version \<Rightarrow> (decode_error, u32) decoder" where
  "u32_decode v = dbind (varint_decode v)
     (\<lambda>x r. and_then (u32_try_from x) (\<lambda>y. Inr (y, r)))"

section \<open>Bit-level facts\<close>

text \<open>Range bounds stay in the form of the source, \<open>1 << n\<close>.\<close>

declare push_bit_of_1 [simp del]

lemma less_push_bit_iff:
  assumes "n < LENGTH('a)"
  shows "(x :: 'a::len word) < push_bit n 1 \<longleftrightarrow> take_bit n x = x"
proof -
  have "unat (2 ^ n :: 'a word) = 2 ^ n"
    using assms unat_of_nat [of "2 ^ n", where ?'a = 'a] by (simp add: take_bit_of_exp)
  then have "x < push_bit n 1 \<longleftrightarrow> unat x < 2 ^ n"
    by (simp add: word_less_iff_unsigned [where ?'a = nat] push_bit_of_1)
  also have "\<dots> \<longleftrightarrow> take_bit n (unat x) = unat x"
    by (simp add: take_bit_nat_eq_self_iff)
  also have "\<dots> \<longleftrightarrow> take_bit n x = x"
    by (metis unsigned_take_bit_eq unsigned_word_eqI)
  finally show ?thesis .
qed

lemma bit_take_self: "take_bit n x = (x::'a::len word) \<Longrightarrow> bit x k \<Longrightarrow> k < n"
  by (metis bit_take_bit_iff)

lemma tagged_high:
  assumes "take_bit k x = (x :: 'b::len word)" and "k + 2 = LENGTH('a::len)"
  shows "drop_bit k (push_bit k t OR ucast x :: 'a word) = take_bit 2 t"
  by (rule bit_word_eqI) (use assms in \<open>auto simp: bit_simps dest: bit_take_self [OF assms(1)]\<close>)

lemma tagged_low:
  assumes "take_bit k x = (x :: 'b::len word)" and "k \<le> LENGTH('a::len)"
  shows "ucast (take_bit k (push_bit k t OR ucast x :: 'a word)) = x"
  by (rule bit_word_eqI) (use assms in \<open>auto simp: bit_simps dest: bit_take_self [OF assms(1)]\<close>)

lemma quic_first_byte:
  "drop_bit 6 (ucast (drop_bit (8 * m) y) :: byte) = ucast (take_bit 2 (drop_bit (8 * m + 6) (y :: 'a::len word)))"
  by (rule bit_word_eqI) (auto simp: bit_simps ac_simps)

lemma quic_tagged:
  fixes x :: u64 and t :: "'a::len word"
  assumes x: "take_bit (8 * m + 6) x = x" and len: "LENGTH('a) = 8 * Suc m"
  defines "y \<equiv> push_bit (8 * m + 6) t OR ucast x"
  obtains b bs where "be_bytes (Suc m) y = b # bs" and "length bs = m"
    and "drop_bit 6 b = ucast (take_bit 2 t)"
    and "ucast (from_be ((b AND 0x3F) # bs) :: 'a word) = x"
proof
  show "be_bytes (Suc m) y = ucast (drop_bit (8 * m) y) # be_bytes m y" by (rule be_bytes_Suc)
  show "drop_bit 6 (ucast (drop_bit (8 * m) y) :: byte) = ucast (take_bit 2 t)"
    unfolding quic_first_byte y_def by (subst tagged_high [OF x]) (simp_all add: len)
  have m: "(0x3F :: byte) = mask 6" by (simp add: mask_eq_decr_exp)
  have "from_be ((ucast (drop_bit (8 * m) y) AND 0x3F) # be_bytes m y) = take_bit (8 * m + 6) (from_be (be_bytes (Suc m) y) :: 'a word)"
    unfolding m be_bytes_Suc by (subst from_be_mask) simp_all
  also have "\<dots> = take_bit (8 * m + 6) y"
    unfolding from_be_be_bytes by (simp add: len min_def)
  finally show "ucast (from_be ((ucast (drop_bit (8 * m) y) AND 0x3F) # be_bytes m y) :: 'a word) = x"
    unfolding y_def using tagged_low [OF x, where ?'a = 'a] len by simp
qed simp

lemma byte_masks:
  "(0x3F :: byte) = mask 6" "(0x1F :: byte) = mask 5" "(0x0F :: byte) = mask 4"
  "(0x07 :: byte) = mask 3" "(0x03 :: byte) = mask 2" "(0x01 :: byte) = mask 1"
  by (simp_all add: mask_eq_decr_exp)

lemma quic_reads1: 
  assumes "take_bit 6 x = x" shows "reads decode_quic [ucast x] x"
proof (rule reads_ConsI)
  have "drop_bit 6 (ucast x :: byte) = 0" 
    by (rule bit_word_eqI) (auto simp: bit_simps dest: bit_take_self [OF assms])
  moreover have "ucast (ucast x AND 0x3F :: byte) = x"
    unfolding byte_masks by (rule bit_word_eqI) (auto simp: bit_simps dest: bit_take_self [OF assms])
  ultimately show "decode_quic ([ucast x] @ r) = Inr (x, r)" for r
    by (simp add: decode_quic_def)
qed (simp_all add: decode_quic_def)

lemma quic_reads2: 
  assumes "take_bit 14 x = x" shows "reads decode_quic (be_bytes 2 (push_bit 14 0b01 OR ucast x :: u16)) x"
proof -
  obtain b bs where "be_bytes 2 (push_bit 14 1 OR ucast x :: u16) = b # bs" "length bs = 1" "drop_bit 6 b = 1"
    "ucast (from_be ((b AND 0x3F) # bs) :: u16) = x"
    using quic_tagged [of 1 x "1 :: u16"] assms by (auto simp: numeral_2_eq_2)
  then show ?thesis by (auto intro!: reads_ConsI simp: decode_quic_def)
qed

lemma quic_reads4: 
  assumes "take_bit 30 x = x" shows "reads decode_quic (be_bytes 4 (push_bit 30 0b10 OR ucast x :: u32)) x"
proof -
  obtain b bs where "be_bytes 4 (push_bit 30 2 OR ucast x :: u32) = b # bs" "length bs = 3" "drop_bit 6 b = 2"
    "ucast (from_be ((b AND 0x3F) # bs) :: u32) = x"
    using quic_tagged [of 3 x "2 :: u32"] assms by auto
  then show ?thesis by (auto intro!: reads_ConsI simp: decode_quic_def)
qed

lemma quic_reads8: 
  assumes "take_bit 62 x = x" shows "reads decode_quic (be_bytes 8 (push_bit 62 0b11 OR x)) x"
proof -
  obtain b bs where "be_bytes 8 (push_bit 62 3 OR x) = b # bs" "length bs = 7" "drop_bit 6 b = 3"
    "from_be ((b AND 0x3F) # bs) = x"
    using quic_tagged [of 7 x "3 :: u64"] assms by auto
  then show ?thesis by (auto intro!: reads_ConsI simp: decode_quic_def)
qed

lemma ucast_from_be: "8 * length bs \<le> LENGTH('a) \<Longrightarrow> ucast (from_be bs :: 'a::len word) = (from_be bs :: 'b::len word)"
proof (induction bs)
  case (Cons b bs)
  then have IH: "ucast (from_be bs :: 'a word) = (from_be bs :: 'b word)" by simp
  show ?case
    unfolding from_be_Cons IH [symmetric]
    by (rule bit_word_eqI) (use Cons.prems in \<open>auto simp: bit_simps dest: bit_imp_le_length\<close>)
qed simp

lemma leading_value:
  assumes "take_bit (7 * k + 7) x = (x :: u64)" and "k \<le> 7" and "\<And>n. n < 7 - k \<Longrightarrow> \<not> bit (P :: byte) n"
  shows "push_bit (8 * k) (ucast ((P OR ucast (drop_bit (8 * k) x)) AND mask (7 - k))) OR from_be (be_bytes k x) = x"
  unfolding from_be_be_bytes
  by (rule bit_word_eqI) (use assms(2,3) in \<open>auto simp: bit_simps dest: bit_take_self [OF assms(1)]\<close>)

lemma leading_ones_simp: "leading_ones b = (if \<not> bit b 7 then 0 else if \<not> bit b 6 then 1 else if \<not> bit b 5 then 2
   else if \<not> bit b 4 then 3 else if \<not> bit b 3 then 4 else if \<not> bit b 2 then 5 else if \<not> bit b 1 then 6 
   else if \<not> bit b 0 then 7 else 8)"
  by (simp add: leading_ones_def)

lemma leading_ones_prefix:
  assumes "take_bit (7 * k + 7) x = (x :: u64)"
  shows "k = 0 \<Longrightarrow> leading_ones (ucast x) = 0"
   "k = 1 \<Longrightarrow> leading_ones (0x80 OR ucast (drop_bit 8 x)) = 1"
   "k = 2 \<Longrightarrow> leading_ones (0xC0 OR ucast (drop_bit 16 x)) = 2"
   "k = 3 \<Longrightarrow> leading_ones (0xE0 OR ucast (drop_bit 24 x)) = 3"
   "k = 4 \<Longrightarrow> leading_ones (0xF0 OR ucast (drop_bit 32 x)) = 4"
   "k = 5 \<Longrightarrow> leading_ones (0xF8 OR ucast (drop_bit 40 x)) = 5"
  using bit_take_self [OF assms, of "7 * k + 7"]
  by (auto simp: leading_ones_simp bit_simps)

lemma prefix_low_bits:
  "n < 6 \<Longrightarrow> \<not> bit (0x80 :: byte) n"
  "n < 5 \<Longrightarrow> \<not> bit (0xC0 :: byte) n"
  "n < 4 \<Longrightarrow> \<not> bit (0xE0 :: byte) n"
  "n < 3 \<Longrightarrow> \<not> bit (0xF0 :: byte) n"
  "n < 2 \<Longrightarrow> \<not> bit (0xF8 :: byte) n"
proof -
  have "\<forall>n \<in> set [0..<6]. \<not> bit (0x80 :: byte) n" "\<forall>n \<in> set [0..<5]. \<not> bit (0xC0 :: byte) n"
    "\<forall>n \<in> set [0..<4]. \<not> bit (0xE0 :: byte) n" "\<forall>n \<in> set [0..<3]. \<not> bit (0xF0 :: byte) n"
    "\<forall>n \<in> set [0..<2]. \<not> bit (0xF8 :: byte) n"
    by (simp_all add: upt_rec)
  then show "n < 6 \<Longrightarrow> \<not> bit (0x80 :: byte) n" "n < 5 \<Longrightarrow> \<not> bit (0xC0 :: byte) n"
    "n < 4 \<Longrightarrow> \<not> bit (0xE0 :: byte) n" "n < 3 \<Longrightarrow> \<not> bit (0xF0 :: byte) n" "n < 2 \<Longrightarrow> \<not> bit (0xF8 :: byte) n"
    by simp_all
qed

lemma leading_ones_full: "leading_ones 0xFE = 7" "leading_ones 0xFF = 8"
  by (simp_all add: leading_ones_simp)

lemma be_bytes_numeral:
  "be_bytes (numeral k) x = ucast (drop_bit (8 * pred_numeral k) x) # be_bytes (pred_numeral k) x"
  by (simp add: numeral_eq_Suc be_bytes_Suc)

lemma ucast_drop_bit_byte:
  "i + 8 \<le> LENGTH('b) \<Longrightarrow>
   (ucast (drop_bit i (ucast (x :: 'a::len word) :: 'b::len word)) :: byte) = ucast (drop_bit i x)"
  by (rule bit_word_eqI) (auto simp: bit_simps dest: bit_imp_le_length)

lemma ucast_byte_ucast: "8 \<le> LENGTH('b) \<Longrightarrow> (ucast (ucast (x :: 'a::len word) :: 'b::len word) :: byte) = ucast x"
  using ucast_drop_bit_byte [of 0 x] by simp

lemma be_bytes_ucast: "8 * n \<le> LENGTH('b) \<Longrightarrow> be_bytes n (ucast (x :: 'a::len word) :: 'b::len word) = be_bytes n x"
  unfolding be_bytes_def by (auto simp: ucast_drop_bit_byte)

lemma length_numeral_cases:
  "length xs = 3 \<longleftrightarrow> (\<exists>a b c. xs = [a, b, c])"
  "length xs = 5 \<longleftrightarrow> (\<exists>a b c d e. xs = [a, b, c, d, e])"
  by (auto simp: numeral_eq_Suc length_Suc_conv)

lemma decode_leading_short:
  assumes "leading_ones b = k" and "k \<le> 5 \<or> k = 7 \<or> k = 8" and "length q < k"
  shows "decode_leading_ones v (b # q) = Inl Short"
  using assms by (auto simp: decode_leading_ones_def)

lemma decode_leading_value:
  assumes "leading_ones b = k" and "k \<in> {1, 2, 3, 4, 5}" and "length bs = k"
  shows "decode_leading_ones v (b # bs @ r)
         = Inr (push_bit (8 * k) (ucast (b AND mask (7 - k))) OR from_be bs, r)"
proof -
  from assms(2) consider "k = 1" | "k = 2" | "k = 3" | "k = 4" | "k = 5" by auto
  then show ?thesis
  proof cases
    case 1
    with assms obtain a where "bs = [a]" by (auto simp: length_Suc_conv)
    with 1 assms show ?thesis
      by (simp add: decode_leading_ones_def byte_masks from_be_Cons)
  next
    case 2
    with assms show ?thesis
      by (simp add: decode_leading_ones_def byte_masks ucast_from_be)
  next
    case 3
    with assms obtain c d e where "bs = [c, d, e]" by (auto simp: length_numeral_cases)
    with 3 assms show ?thesis
      by (simp add: decode_leading_ones_def byte_masks from_be_Cons ac_simps)
  next
    case 4
    with assms show ?thesis
      by (simp add: decode_leading_ones_def byte_masks ucast_from_be)
  next
    case 5
    with assms obtain c d e f g where "bs = [c, d, e, f, g]" by (auto simp: length_numeral_cases)
    with 5 assms show ?thesis
      by (simp add: decode_leading_ones_def byte_masks from_be_Cons ac_simps)
  qed
qed

lemma leading_reads:
  assumes "take_bit (7 * k + 7) x = x" and "k \<in> {1, 2, 3, 4, 5}" and "\<And>n. n < 7 - k \<Longrightarrow> \<not> bit P n"
    and "leading_ones (P OR ucast (drop_bit (8 * k) x)) = k"
  shows "reads (decode_leading_ones v) ((P OR ucast (drop_bit (8 * k) x)) # be_bytes k x) x"
proof (rule reads_ConsI)
  have "k \<le> 7" using assms(2) by auto
  then show "decode_leading_ones v (((P OR ucast (drop_bit (8 * k) x)) # be_bytes k x) @ r) = Inr (x, r)" for r
    using decode_leading_value [OF assms(4,2), of "be_bytes k x"] leading_value [OF assms(1) _ assms(3)]
    by simp
  show "decode_leading_ones v ((P OR ucast (drop_bit (8 * k) x)) # q) = Inl Short"
    if "length q < length (be_bytes k x)" for q
    using assms(2,4) that by (auto intro!: decode_leading_short)
qed (simp add: decode_leading_ones_def)

lemma leading_reads_0:
  assumes "take_bit 7 x = x"
  shows "reads (decode_leading_ones v) [ucast x] x"
proof (rule reads_ConsI)
  have "ucast (ucast x :: byte) = x"
    by (rule bit_word_eqI) (auto simp: bit_simps dest: bit_take_self [OF assms])
  then show "decode_leading_ones v ([ucast x] @ r) = Inr (x, r)" for r
    using leading_ones_prefix(1) [of 0 x] assms by (simp add: decode_leading_ones_def)
qed (simp_all add: decode_leading_ones_def)

lemma leading_reads_7:
  assumes "take_bit 56 x = x"
  shows "reads (decode_leading_ones v) (0xFE # be_bytes 7 x) x"
proof (rule reads_ConsI)
  have "from_be (0 # be_bytes 7 x) = x" using assms by (simp add: from_be_Cons from_be_be_bytes)
  then show "decode_leading_ones v ((0xFE # be_bytes 7 x) @ r) = Inr (x, r)" for r
    by (simp add: decode_leading_ones_def leading_ones_full)
qed (simp_all add: decode_leading_ones_def leading_ones_full)

lemma leading_reads_8: "reads (decode_leading_ones v) (0xFF # be_bytes 8 x) x"
  by (rule reads_ConsI) (simp_all add: decode_leading_ones_def leading_ones_full from_be_be_bytes take_bit_length_eq [where ?'a = 64, simplified])

lemma u64_encode_in_range: "x \<le> varint_max \<Longrightarrow> u64_encode B v x = varint_encode B v x"
  by (simp add: u64_encode_def varint_try_from_def fun_eq_iff)

lemma usize_encode_in_range: "n \<le> unat varint_max \<Longrightarrow> usize_encode B v n = varint_encode B v (of_nat n)"
  by (simp add: usize_encode_def varint_try_from_usize_def fun_eq_iff)

lemma unat_varint_max: "unat varint_max = 2 ^ 62 - 1"
  by (simp add: varint_max_def push_bit_of_1)

lemma one_in_range [simp]: "1 \<le> varint_max"
  by (simp add: varint_max_def push_bit_of_1)

lemma decode_quic_bound: "decode_quic bs = Inr (x, rest) \<Longrightarrow> take_bit 62 x = x"
proof -
  assume d: "decode_quic bs = Inr (x, rest)"
  obtain b r where bs: "bs = b # r" using d by (cases bs) (simp_all add: decode_quic_def)
  have m: "(0x3F :: byte) = mask 6" by (simp add: mask_eq_exp_minus_1)
  have "take_bit 62 (from_be ((b AND 0x3F) # take 7 r) :: u64) = from_be ((b AND 0x3F) # take 7 r)" if "7 \<le> length r"
    using that unfolding m by (subst (1 2) from_be_mask) simp_all
  moreover have "take_bit 62 (ucast (y :: u32) :: u64) = ucast y" "take_bit 62 (ucast (z :: u16) :: u64) = ucast z"
    "take_bit 62 (ucast (w :: byte) :: u64) = ucast w" for y z w
    by (rule bit_word_eqI, auto simp: bit_simps dest: bit_imp_le_length)+
  ultimately show ?thesis using d unfolding bs decode_quic_def by (auto simp: Let_def split: if_splits)
qed

lemma varint_max_bits: "x \<le> varint_max \<longleftrightarrow> take_bit 62 x = x"
proof -
  have "x \<le> varint_max \<longleftrightarrow> unat x < 2 ^ 62" by (simp add: word_le_nat_alt unat_varint_max) linarith
  also have "\<dots> \<longleftrightarrow> take_bit 62 (unat x) = unat x" by (simp add: take_bit_nat_eq_self_iff)
  also have "\<dots> \<longleftrightarrow> take_bit 62 x = x" by (metis unsigned_take_bit_eq unsigned_word_eqI)
  finally show ?thesis .
qed

lemma u32_try_from_u32: "u32_try_from (from_u32 x) = Inr x"
proof -
  have "unat x < 2 ^ 32" using unsigned_less [of x, where ?'a = nat] by simp
  then have "(ucast x :: u64) \<le> 0xFFFFFFFF"
    by (simp add: word_le_nat_alt unsigned_ucast_eq take_bit_nat_eq_self)
  moreover have "(ucast (ucast x :: u64) :: u32) = x"
    by (rule bit_word_eqI) (auto simp: bit_simps)
  ultimately show ?thesis by (simp add: u32_try_from_def from_u32_def)
qed

section \<open>Every varint is read back\<close>

context writer
begin

lemma remaining_after:
  "0 < n \<Longrightarrow> n + 1 \<le> remaining_mut B w \<Longrightarrow> n \<le> remaining_mut B (put_u8 B w b)"
  "0 < n \<Longrightarrow> n + 2 \<le> remaining_mut B w \<Longrightarrow> n \<le> remaining_mut B (put_u16 B w x)"
  using remaining_put_u8 [of w b] remaining_put_u16 [of w x] by simp_all

lemmas enc_simps = remaining_after not_less be_bytes_ucast ucast_drop_bit_byte ucast_byte_ucast
  encode_quic_def encode_leading_ones_def Let_def less_push_bit_iff
  content_put_u8 content_put_u16 content_put_u32 content_put_u64

lemma quic_emits: "emits content (encode_quic B x) (encode_quic sizer_writer x) decode_quic x"
proof -
  consider (c1) "x < push_bit 6 1"
    | (c2) "\<not> x < push_bit 6 1" "x < push_bit 14 1"
    | (c3) "\<not> x < push_bit 6 1" "\<not> x < push_bit 14 1" "x < push_bit 30 1"
    | (c4) "\<not> x < push_bit 6 1" "\<not> x < push_bit 14 1" "\<not> x < push_bit 30 1" "x < push_bit 62 1"
    | (c5) "\<not> x < push_bit 6 1" "\<not> x < push_bit 14 1" "\<not> x < push_bit 30 1" "\<not> x < push_bit 62 1"
    by argo
  then show ?thesis
  proof cases
    case c1
    then show ?thesis
      by (intro emits_bytesI [OF _ _ quic_reads1 [of x]])
        (auto simp: enc_simps split: if_splits)
  next
    case c2
    then show ?thesis
      by (intro emits_bytesI [OF _ _ quic_reads2 [of x]])
        (auto simp: enc_simps split: if_splits)
  next
    case c3
    then show ?thesis
      by (intro emits_bytesI [OF _ _ quic_reads4 [of x]])
        (auto simp: enc_simps split: if_splits)
  next
    case c4
    then show ?thesis
      by (intro emits_bytesI [OF _ _ quic_reads8 [of x]])
        (auto simp: enc_simps split: if_splits)
  next
    case c5
    then show ?thesis
      by (intro emits_failI) (auto simp: encode_quic_def)
  qed
qed

text \<open>The eight ranges of the leading-ones encoder.\<close>

lemma leading_ranges:
  fixes x :: u64
  obtains (r0) "x < push_bit 7 1"
    | (r1) "\<not> x < push_bit 7 1" "x < push_bit 14 1"
    | (r2) "\<not> x < push_bit 7 1" "\<not> x < push_bit 14 1" "x < push_bit 21 1"
    | (r3) "\<not> x < push_bit 7 1" "\<not> x < push_bit 14 1" "\<not> x < push_bit 21 1" "x < push_bit 28 1"
    | (r4) "\<not> x < push_bit 7 1" "\<not> x < push_bit 14 1" "\<not> x < push_bit 21 1" "\<not> x < push_bit 28 1"
        "x < push_bit 35 1"
    | (r5) "\<not> x < push_bit 7 1" "\<not> x < push_bit 14 1" "\<not> x < push_bit 21 1" "\<not> x < push_bit 28 1"
        "\<not> x < push_bit 35 1" "x < push_bit 42 1"
    | (r7) "\<not> x < push_bit 7 1" "\<not> x < push_bit 14 1" "\<not> x < push_bit 21 1" "\<not> x < push_bit 28 1"
        "\<not> x < push_bit 35 1" "\<not> x < push_bit 42 1" "x < push_bit 56 1"
    | (r8) "\<not> x < push_bit 7 1" "\<not> x < push_bit 14 1" "\<not> x < push_bit 21 1" "\<not> x < push_bit 28 1"
        "\<not> x < push_bit 35 1" "\<not> x < push_bit 42 1" "\<not> x < push_bit 56 1"
  by argo

lemma leading_emits:
  "emits content (encode_leading_ones B v x) (encode_leading_ones sizer_writer v x) (decode_leading_ones v) x"
proof (cases x rule: leading_ranges)
  case r0
  then show ?thesis
    by (intro emits_bytesI [OF _ _ leading_reads_0 [of x]]) (auto simp: enc_simps split: if_splits)
next
  case r1
  then show ?thesis
    using leading_ones_prefix(2) [of 1 x]
    by (intro emits_bytesI [OF _ _ leading_reads [of 1 x "0x80"]] prefix_low_bits)
      (auto simp: enc_simps be_bytes_numeral be_bytes_Suc split: if_splits)
next
  case r2
  then show ?thesis
    using leading_ones_prefix(3) [of 2 x]
    by (intro emits_bytesI [OF _ _ leading_reads [of 2 x "0xC0"]] prefix_low_bits)
      (auto simp: enc_simps split: if_splits)
next
  case r3
  then show ?thesis
    using leading_ones_prefix(4) [of 3 x]
    by (intro emits_bytesI [OF _ _ leading_reads [of 3 x "0xE0"]] prefix_low_bits)
      (auto simp: enc_simps be_bytes_numeral be_bytes_Suc split: if_splits)
next
  case r4
  then show ?thesis
    using leading_ones_prefix(5) [of 4 x]
    by (intro emits_bytesI [OF _ _ leading_reads [of 4 x "0xF0"]] prefix_low_bits)
      (auto simp: enc_simps split: if_splits)
next
  case r5
  then show ?thesis
    using leading_ones_prefix(6) [of 5 x]
    by (intro emits_bytesI [OF _ _ leading_reads [of 5 x "0xF8"]] prefix_low_bits)
      (auto simp: enc_simps be_bytes_numeral be_bytes_Suc split: if_splits)
next
  case r7
  then show ?thesis
    by (intro emits_bytesI [OF _ _ leading_reads_7 [of x]])
      (auto simp: enc_simps be_bytes_numeral be_bytes_Suc split: if_splits)
next
  case r8
  then show ?thesis
    by (intro emits_bytesI [OF _ _ leading_reads_8 [of _ x]]) (auto simp: enc_simps split: if_splits)
qed

lemma varint_emits: "emits content (varint_encode B v x) (varint_encode sizer_writer v x) (varint_decode v) x"
proof (cases v)
  case (Lite l)
  then show ?thesis by (simp add: quic_emits)
next
  case (Ietf d)
  then show ?thesis by (cases d) (simp_all add: quic_emits leading_emits)
qed

lemma u64_emits [codec_intros]: "emits content (u64_encode B v x) (u64_encode sizer_writer v x) (u64_decode v) x"
proof (cases "x \<le> varint_max")
  case True
  then show ?thesis by (simp add: u64_encode_in_range u64_decode_def varint_emits)
next
  case False
  then show ?thesis
    by (intro emits_failI) (simp add: u64_encode_def varint_try_from_def)
qed

lemma usize_emits [codec_intros]:
  "emits content (usize_encode B v n) (usize_encode sizer_writer v n) (usize_decode v) n"
proof (cases "n \<le> unat varint_max")
  case True
  then have "unat (of_nat n :: u64) = n"
    by (simp add: unat_of_nat take_bit_nat_eq_self unat_varint_max)
  with True show ?thesis
    unfolding usize_decode_def usize_encode_in_range [OF True]
    by (intro emits_map [OF varint_emits]) simp
next
  case False
  then show ?thesis
    by (intro emits_failI) (simp add: usize_encode_def varint_try_from_usize_def)
qed

lemma u32_emits [codec_intros]: "emits content (u32_encode B v x) (u32_encode sizer_writer v x) (u32_decode v) x"
  unfolding u32_encode_def u32_decode_def
  by (rule emits_map [OF varint_emits]) (simp add: u32_try_from_u32 dret_def)

text \<open>Numbers up to the maximum are written, in nine bytes at most.\<close>

lemma room_after:
  "n + 1 \<le> remaining_mut B w \<Longrightarrow> n \<le> remaining_mut B (put_u8 B w b)"
  "n + 2 \<le> remaining_mut B w \<Longrightarrow> n \<le> remaining_mut B (put_u16 B w x)"
  "n + 4 \<le> remaining_mut B w \<Longrightarrow> n \<le> remaining_mut B (put_u32 B w y)"
  "n + 8 \<le> remaining_mut B w \<Longrightarrow> n \<le> remaining_mut B (put_u64 B w z)"
  using remaining_put_u8 [of w b] remaining_put_u16 [of w x] remaining_put_u32 [of w y] remaining_put_u64 [of w z]
  by simp_all

lemma quic_writes:
  assumes "x \<le> varint_max"
  shows "writes B (encode_quic B x) (encode_quic sizer_writer x) 9"
proof (rule writesI)
  have x: "x < push_bit 62 1" using assms by (simp add: varint_max_def push_bit_of_1 word_le_nat_alt word_less_nat_alt)
  then show "\<exists>k\<le>9. encode_quic sizer_writer x s = Inr (sizer_add k s)" for s
    by (simp add: encode_quic_def Let_def sizer_counts)
  show "\<exists>w'. encode_quic B x w = Inr w' \<and> remaining_mut B w \<le> remaining_mut B w' + 9" if "9 \<le> remaining_mut B w" for w
    using that x
    by (simp add: encode_quic_def Let_def le_diff_conv [symmetric]) (intro conjI impI room_after; simp)
qed

lemma leading_writes: "writes B (encode_leading_ones B v x) (encode_leading_ones sizer_writer v x) 9"
proof (rule writesI)
  show "\<exists>k\<le>9. encode_leading_ones sizer_writer v x s = Inr (sizer_add k s)" for s
    by (simp add: encode_leading_ones_def Let_def sizer_counts)
  show "\<exists>w'. encode_leading_ones B v x w = Inr w' \<and> remaining_mut B w \<le> remaining_mut B w' + 9" if "9 \<le> remaining_mut B w" for w
    using that
    by (simp add: encode_leading_ones_def Let_def le_diff_conv [symmetric]) (intro conjI impI room_after; simp)
qed

lemma varint_writes:
  assumes "x \<le> varint_max"
  shows "writes B (varint_encode B v x) (varint_encode sizer_writer v x) 9"
proof (cases v)
  case (Lite l)
  then show ?thesis by (simp add: quic_writes assms)
next
  case (Ietf d)
  then show ?thesis by (cases d) (simp_all add: quic_writes leading_writes assms)
qed

lemma u64_writes [size_intros]: "x \<le> varint_max \<Longrightarrow> writes B (u64_encode B v x) (u64_encode sizer_writer v x) 9"
  by (simp add: u64_encode_in_range varint_writes)

lemma usize_writes [size_intros]:
  assumes "n \<le> unat varint_max"
  shows "writes B (usize_encode B v n) (usize_encode sizer_writer v n) 9"
proof -
  have "(of_nat n :: u64) \<le> varint_max"
    using assms by (simp add: word_le_nat_alt unat_of_nat take_bit_nat_eq_self unat_varint_max)
  then show ?thesis by (simp add: usize_encode_in_range assms varint_writes)
qed

lemma u32_writes [size_intros]: "writes B (u32_encode B v x) (u32_encode sizer_writer v x) 9"
proof -
  have "from_u32 x \<le> varint_max"
    using unsigned_less [of x, where ?'a = nat]
    by (simp add: from_u32_def word_le_nat_alt unat_varint_max unsigned_ucast_eq take_bit_nat_eq_self)
  then show ?thesis by (simp add: u32_encode_def varint_writes)
qed

end

section \<open>Properties of the varint codec\<close>

text \<open>
  C19: at every protocol version, a \<open>u64\<close> up to \<open>VarInt::MAX\<close> is encoded by any writer with nine bytes of
  room: at most nine bytes are appended, a \<open>Sizer\<close> counts exactly as many, decoding them in front of any
  further input returns the number and that input, and decoding any proper prefix of them reports
  \<open>Short\<close>.
\<close>

theorem u64_varint_round_trip:
  assumes "writer B content" "x \<le> varint_max"
  shows "delivers B content (u64_encode B v x) (u64_encode sizer_writer v x) (u64_decode v) x 9"
  using assms by (intro deliversI writer.u64_emits writer.u64_writes)

theorem u64_varint_round_trip_witness:
  "delivers bytes_mut (\<lambda>out. out) (u64_encode bytes_mut (Ietf Draft17) 1000) (u64_encode sizer_writer (Ietf Draft17) 1000)
     (u64_decode (Ietf Draft17)) 1000 9"
  by (rule u64_varint_round_trip [OF bytes_mut.writer_axioms]) (simp add: varint_max_def push_bit_of_1)

text \<open>
  a \<open>u64\<close> above \<open>VarInt::MAX\<close> is refused by every version's encoder with \<open>BoundsExceeded\<close> and
  nothing is written, although the leading-ones form has room for it: the decoder of draft-17 and
  later accepts the nine-byte form of every 64-bit number.
\<close>

theorem varint_bound:
  "(\<not> x \<le> varint_max \<longrightarrow> u64_encode B v x w = Inl EncodeBoundsExceeded)
   \<and> u64_decode (Ietf Draft17) (0xFF # be_bytes 8 x @ r) = Inr (x, r)"
  using leading_reads_8 [of Draft17 x]
  by (simp add: u64_encode_def varint_try_from_def u64_decode_def reads_def)

theorem varint_bound_witness:
  "u64_encode bytes_mut (Ietf Draft17) 0xFFFFFFFFFFFFFFFF [] = Inl EncodeBoundsExceeded
   \<and> u64_decode (Ietf Draft17) (0xFF # be_bytes 8 (0xFFFFFFFFFFFFFFFF :: u64) @ [5]) = Inr (0xFFFFFFFFFFFFFFFF, [5])"
  using varint_bound [of "0xFFFFFFFFFFFFFFFF" bytes_mut "Ietf Draft17" "[]" "[5]"]
  by (simp add: varint_max_def push_bit_of_1)

end
