(* ===== verification/Coding.thy ===== *)
theory Coding
  imports Varint
begin

text \<open>
  The \<open>Encode\<close> and \<open>Decode\<close> instances of the basic types (\<open>relay/rs/moq-net/src/coding/encode.rs\<close>,
  \<open>decode.rs\<close>) and the size-prefixed framing of messages (\<open>lite/message.rs\<close>, \<open>ietf/message.rs\<close>).

  A \<open>Duration\<close> is its number of nanoseconds. Tracing calls have no effect on the result and are left
  out; the two branches of the framing decoder that differ only in tracing are one definition.
\<close>

section \<open>Fixed-width values\<close>

definition u8_encode :: "'w buf_mut \<Rightarrow> u8 \<Rightarrow> (encode_error, 'w) encoder" where
  "u8_encode B x = ebind (check_remaining B 1) (\<lambda>w. Inr (put_u8 B w x))"

definition u8_decode :: "(decode_error, u8) decoder" where
  "u8_decode r = (case r of b # r \<Rightarrow> Inr (b, r) | [] \<Rightarrow> Inl Short)"

definition u16_encode :: "'w buf_mut \<Rightarrow> u16 \<Rightarrow> (encode_error, 'w) encoder" where
  "u16_encode B x = ebind (check_remaining B 2) (\<lambda>w. Inr (put_u16 B w x))"

definition u16_decode :: "(decode_error, u16) decoder" where
  "u16_decode r = (if 2 \<le> length r then Inr (from_be (take 2 r), drop 2 r) else Inl Short)"

definition bool_encode :: "'w buf_mut \<Rightarrow> bool \<Rightarrow> (encode_error, 'w) encoder" where
  "bool_encode B b = ebind (check_remaining B 1) (\<lambda>w. Inr (put_u8 B w (of_bool b)))"

definition bool_decode :: "(decode_error, bool) decoder" where
  "bool_decode = dbind u8_decode (\<lambda>x.
     if x = 0 then dret False else if x = 1 then dret True else dfail InvalidValue)"

text \<open>An \<open>i8\<close> is an 8-bit word read by \<open>sint\<close>; on the wire it is offset by 128.\<close>

definition i8_encode :: "'w buf_mut \<Rightarrow> 8 word \<Rightarrow> (encode_error, 'w) encoder" where
  "i8_encode B x = ebind (check_remaining B 1) (\<lambda>w. Inr (put_u8 B w (word_of_int (sint x + 128))))"

definition i8_decode :: "(decode_error, 8 word) decoder" where
  "i8_decode r = (case r of [] \<Rightarrow> Inl Short | b # r \<Rightarrow> Inr (word_of_int (uint b - 128), r))"

section \<open>Length-prefixed values\<close>

definition put_checked :: "'w buf_mut \<Rightarrow> byte list \<Rightarrow> (encode_error, 'w) encoder" where
  "put_checked B bs = ebind (check_remaining B (length bs)) (\<lambda>w. Inr (put_slice B w bs))"

definition copy_to_bytes :: "nat \<Rightarrow> (decode_error, byte list) decoder" where
  "copy_to_bytes n r = (if length r < n then Inl Short else Inr (take n r, drop n r))"

definition bytes_encode :: "'w buf_mut \<Rightarrow> version \<Rightarrow> byte list \<Rightarrow> (encode_error, 'w) encoder" where
  "bytes_encode B v bs = ebind (usize_encode B v (length bs)) (put_checked B bs)"

definition bytes_decode :: "version \<Rightarrow> (decode_error, byte list) decoder" where
  "bytes_decode v = dbind (usize_decode v) copy_to_bytes"

definition string_encode :: "'w buf_mut \<Rightarrow> version \<Rightarrow> string \<Rightarrow> (encode_error, 'w) encoder" where
  "string_encode B v s = ebind (usize_encode B v (length s)) (put_checked B (as_bytes s))"

definition string_decode :: "version \<Rightarrow> (decode_error, string) decoder" where
  "string_decode v = dbind (bytes_decode v) (\<lambda>bs r. and_then (from_utf8 bs) (\<lambda>s. Inr (s, r)))"

definition slice_encode :: "'w buf_mut \<Rightarrow> version \<Rightarrow> ('a \<Rightarrow> (encode_error, 'w) encoder) \<Rightarrow> 'a list
    \<Rightarrow> (encode_error, 'w) encoder" where
  "slice_encode B v item xs = ebind (usize_encode B v (length xs)) (eseq (map item xs))"

definition option_u64_encode :: "'w buf_mut \<Rightarrow> version \<Rightarrow> u64 option \<Rightarrow> (encode_error, 'w) encoder" where
  "option_u64_encode B v x =
     (case x of
        Some val \<Rightarrow> if val = - 1 then efail TooLarge else u64_encode B v (val + 1)
      | None \<Rightarrow> u64_encode B v 0)"

definition option_u64_decode :: "version \<Rightarrow> (decode_error, u64 option) decoder" where
  "option_u64_decode v = dbind (u64_decode v) (\<lambda>x. if x = 0 then dret None else dret (Some (x - 1)))"

type_synonym duration = nat

definition as_millis :: "duration \<Rightarrow> nat" where
  "as_millis d = d div 1000000"

definition from_millis :: "u64 \<Rightarrow> duration" where
  "from_millis ms = unat ms * 1000000"

definition duration_encode :: "'w buf_mut \<Rightarrow> version \<Rightarrow> duration \<Rightarrow> (encode_error, 'w) encoder" where
  "duration_encode B v d w = and_then (varint_try_from_u128 (as_millis d)) (\<lambda>ms. varint_encode B v ms w)"

definition duration_decode :: "version \<Rightarrow> (decode_error, duration) decoder" where
  "duration_decode v = dbind (u64_decode v) (\<lambda>ms. dret (from_millis ms))"

section \<open>Size-prefixed messages\<close>

text \<open>
  The first two arguments are the message's body encoder at the two writers that the framing uses,
  a fresh \<open>Sizer\<close> and the output.
\<close>

definition message_encode :: "(encode_error, sizer) encoder \<Rightarrow> (encode_error, 'w) encoder
    \<Rightarrow> 'w buf_mut \<Rightarrow> version \<Rightarrow> (encode_error, 'w) encoder" where
  "message_encode sz e B v w =
     and_then (sz sizer_new) (\<lambda>s. ebind (usize_encode B v (sizer_size s)) e w)"

definition decode_sized :: "nat \<Rightarrow> (decode_error, 'a) decoder \<Rightarrow> (decode_error, 'a) decoder" where
  "decode_sized n d r =
     (if length r < n then Inl Short
      else and_then (d (take n r))
        (\<lambda>(a, rest). if 0 < length rest then Inl Long else Inr (a, drop n r)))"

definition message_decode :: "(decode_error, 'a) decoder \<Rightarrow> version \<Rightarrow> (decode_error, 'a) decoder" where
  "message_decode d v = dbind (usize_decode v) (\<lambda>size. decode_sized size d)"

definition ietf_message_encode :: "(encode_error, sizer) encoder \<Rightarrow> (encode_error, 'w) encoder
    \<Rightarrow> 'w buf_mut \<Rightarrow> (encode_error, 'w) encoder" where
  "ietf_message_encode sz e B w =
     and_then (sz sizer_new) (\<lambda>s.
       if 0xFFFF < sizer_size s then Inl TooLarge
       else ebind (u16_encode B (of_nat (sizer_size s))) e w)"

definition ietf_message_decode :: "(decode_error, 'a) decoder \<Rightarrow> (decode_error, 'a) decoder" where
  "ietf_message_decode d = dbind u16_decode (\<lambda>size. decode_sized (unat size) d)"

definition encode_bytes :: "(encode_error, byte list) encoder \<Rightarrow> encode_error + byte list" where
  "encode_bytes e = e []"

section \<open>Decoders on valid input\<close>

lemma reads_copy: "length bs = n \<Longrightarrow> reads (copy_to_bytes n) bs bs"
  by (auto simp: reads_def copy_to_bytes_def dest: prefix_length_less)

lemma reads_sized:
  assumes "d bs = Inr (a, [])"
  shows "reads (decode_sized (length bs) d) bs a"
  using assms by (auto simp: reads_def decode_sized_def dest: prefix_length_less)

lemma reads_u16: "reads u16_decode (be_bytes 2 x) x"
proof -
  have "take_bit 16 x = x" using take_bit_length_eq [of x] by simp
  then show ?thesis
    by (auto simp: reads_def u16_decode_def from_be_be_bytes dest: prefix_length_less)
qed

text \<open>What is left of a duration on the wire: its whole milliseconds.\<close>

definition whole_millis :: "duration \<Rightarrow> duration" where
  "whole_millis d = d div 1000000 * 1000000"

lemma i8_offset: "(word_of_int (uint (word_of_int (sint x + 128) :: byte) - 128) :: 8 word) = x"
proof -
  have "- 128 \<le> sint x" and "sint x < 128"
    using sint_range_size [of x] by (simp_all add: word_size)
  then have "uint (word_of_int (sint x + 128) :: byte) = sint x + 128"
    by (simp add: uint_word_of_int del: of_int_add)
  then show ?thesis by simp
qed

text \<open>The size field of the IETF framing as an encoder of its own.\<close>

definition ietf_size :: "'w buf_mut \<Rightarrow> nat \<Rightarrow> (encode_error, 'w) encoder" where
  "ietf_size B n = (if 0xFFFF < n then efail TooLarge else u16_encode B (of_nat n))"

lemma ietf_message_encode_framed:
  "ietf_message_encode sz e B w = and_then (sz sizer_new) (\<lambda>s. ebind (ietf_size B (sizer_size s)) e w)"
  by (simp add: ietf_message_encode_def ietf_size_def ebind_def efail_def if_distrib [of "\<lambda>x. and_then x e"] if_distribR cong: if_cong)

lemma ietf_size_exact: "ietf_size B n w = Inr w' \<Longrightarrow> unat (of_nat n :: u16) = n"
  by (auto simp: ietf_size_def efail_def unat_of_nat take_bit_nat_eq_self split: if_splits)

context writer
begin

lemma check_then_emits:
  assumes "\<And>w. n \<le> remaining_mut B w \<Longrightarrow> content (p w) = content w @ bs"
    and "\<And>s. q s = sizer_add (length bs) s" and "length bs = n" and "reads d bs a"
  shows "emits content (ebind (check_remaining B n) (\<lambda>w. Inr (p w)))
     (ebind (check_remaining sizer_writer n) (\<lambda>s. Inr (q s))) d a"
proof (rule emitsI)
  fix w w'
  assume "ebind (check_remaining B n) (\<lambda>w. Inr (p w)) w = Inr w'"
  then have "n \<le> remaining_mut B w" and "w' = p w"
    by (auto simp: ebind_def check_remaining_def split: if_splits)
  then show "\<exists>bs. content w' = content w @ bs
     \<and> (\<forall>s. ebind (check_remaining sizer_writer n) (\<lambda>s. Inr (q s)) s = Inr (sizer_add (length bs) s)) \<and> reads d bs a"
    using assms remaining_usize [of w]
    by (intro exI [of _ bs]) (auto simp: ebind_def check_remaining_def)
qed

lemma u8_emits [codec_intros]: "emits content (u8_encode B x) (u8_encode sizer_writer x) u8_decode x"
  unfolding u8_encode_def
  by (rule check_then_emits [where bs = "[x]"]) (auto simp: content_put_u8 u8_decode_def intro!: reads_ConsI)

lemma u16_emits [codec_intros]: "emits content (u16_encode B x) (u16_encode sizer_writer x) u16_decode x"
  unfolding u16_encode_def
  by (rule check_then_emits [OF _ _ _ reads_u16]) (auto simp: content_put_u16)

lemma bool_emits [codec_intros]: "emits content (bool_encode B b) (bool_encode sizer_writer b) bool_decode b"
  unfolding bool_encode_def
  by (rule check_then_emits [where bs = "[of_bool b]"])
    (auto simp: content_put_u8 u8_decode_def bool_decode_def combinator_defs intro!: reads_ConsI)

lemma i8_emits [codec_intros]: "emits content (i8_encode B x) (i8_encode sizer_writer x) i8_decode x"
  unfolding i8_encode_def
  by (rule check_then_emits [where bs = "[word_of_int (sint x + 128)]"])
    (auto simp: content_put_u8 i8_decode_def i8_offset intro!: reads_ConsI)

lemma put_checked_emits:
  "reads d bs a \<Longrightarrow> emits content (put_checked B bs) (put_checked sizer_writer bs) d a"
  unfolding put_checked_def
  by (rule check_then_emits) (auto simp: content_put_slice)

lemma bytes_emits [codec_intros]: "emits content (bytes_encode B v bs) (bytes_encode sizer_writer v bs) (bytes_decode v) bs"
  unfolding bytes_encode_def bytes_decode_def
  by (rule emits_bind [OF usize_emits]) (simp add: put_checked_emits reads_copy)

lemma string_emits [codec_intros]:
  assumes "utf8 s"
  shows "emits content (string_encode B v s) (string_encode sizer_writer v s) (string_decode v) s"
proof -
  have "emits content (string_encode B v s) (string_encode sizer_writer v s) (bytes_decode v) (as_bytes s)"
    using bytes_emits [of v "as_bytes s"] by (simp add: bytes_encode_def string_encode_def)
  then show ?thesis
    unfolding string_decode_def by (rule emits_map) (simp add: assms dret_def)
qed

lemma option_u64_emits [codec_intros]:
  "emits content (option_u64_encode B v x) (option_u64_encode sizer_writer v x) (option_u64_decode v) x"
proof (cases x)
  case None
  show ?thesis
    unfolding option_u64_decode_def option_u64_encode_def None option.case
    by (rule emits_map [OF u64_emits]) simp
next
  case (Some y)
  show ?thesis
  proof (cases "y = - 1")
    case True
    then show ?thesis by (intro emits_failI) (simp add: Some option_u64_encode_def efail_def)
  next
    case False
    then have "y + 1 \<noteq> 0" by (metis add.commute add_eq_0_iff)
    with False show ?thesis
      unfolding option_u64_decode_def option_u64_encode_def Some option.case
      by (simp only: if_False) (rule emits_map [OF u64_emits], simp)
  qed
qed

lemma duration_emits [codec_intros]:
  "emits content (duration_encode B v d) (duration_encode sizer_writer v d) (duration_decode v) (whole_millis d)"
proof (cases "as_millis d \<le> unat varint_max")
  case True
  then have "unat (of_nat (as_millis d) :: u64) = as_millis d"
    by (simp add: unat_of_nat take_bit_nat_eq_self unat_varint_max)
  then have d: "from_millis (of_nat (as_millis d)) = whole_millis d"
    by (simp add: from_millis_def as_millis_def whole_millis_def)
  show ?thesis
    unfolding duration_decode_def u64_decode_def duration_encode_def varint_try_from_u128_def if_P [OF True] and_then_simps
    by (rule emits_map [OF varint_emits]) (simp add: d)
next
  case False
  then show ?thesis
    by (intro emits_failI) (simp add: duration_encode_def varint_try_from_u128_def)
qed

lemma framed_emits:
  assumes len: "\<And>n. emits content (p n) (q n) len_dec (f n)" and f: "\<And>n w w'. p n w = Inr w' \<Longrightarrow> g (f n) = n"
    and body: "emits_whole content e sz d a"
  shows "emits content (\<lambda>w. and_then (sz sizer_new) (\<lambda>s. ebind (p (sizer_size s)) e w))
     (\<lambda>w. and_then (sz sizer_new) (\<lambda>s. ebind (q (sizer_size s)) sz w))
     (dbind len_dec (\<lambda>n. decode_sized (g n) d)) a"
proof (rule emitsI)
  fix w w'
  assume "and_then (sz sizer_new) (\<lambda>s. ebind (p (sizer_size s)) e w) = Inr w'"
  then obtain s w1 where s: "sz sizer_new = Inr s" and w1: "p (sizer_size s) w = Inr w1" and w': "e w1 = Inr w'"
    by (auto simp: and_then_Inr_conv ebind_Inr_conv)
  from emits_wholeE [OF body w'] obtain bs where bs: "content w' = content w1 @ bs"
    "\<forall>s. sz s = Inr (sizer_add (length bs) s)" "d bs = Inr (a, [])"
    by blast
  with s have n: "sizer_size s = length bs" by auto
  from emitsE [OF len w1] obtain hd where hd: "content w1 = content w @ hd"
    "\<forall>t. q (length bs) t = Inr (sizer_add (length hd) t)" "reads len_dec hd (f (length bs))"
    unfolding n by blast
  have "g (f (length bs)) = length bs" using f w1 n by simp
  then have "reads (dbind len_dec (\<lambda>n. decode_sized (g n) d)) (hd @ bs) a"
    using reads_bind [OF hd(3), of "\<lambda>n. decode_sized (g n) d"] reads_sized [of d bs a] bs(3) by simp
  with bs hd show "\<exists>bs. content w' = content w @ bs
      \<and> (\<forall>t. and_then (sz sizer_new) (\<lambda>s. ebind (q (sizer_size s)) sz t) = Inr (sizer_add (length bs) t))
      \<and> reads (dbind len_dec (\<lambda>n. decode_sized (g n) d)) bs a"
    by (intro exI [of _ "hd @ bs"]) (auto simp: ebind_def add_ac)
qed

lemma message_emits [codec_intros]:
  assumes "emits content e sz d a"
  shows "emits content (message_encode sz e B v) (message_encode sz sz sizer_writer v) (message_decode d v) a"
  unfolding message_encode_def [abs_def] message_decode_def
  by (rule framed_emits [OF usize_emits _ emits_whole [OF assms], where g = "\<lambda>n. n"]) simp

lemma ietf_size_emits: "emits content (ietf_size B n) (ietf_size sizer_writer n) u16_decode (of_nat n)"
  unfolding ietf_size_def by (simp add: emits_fail u16_emits)

lemma ietf_message_emits:
  assumes "emits_whole content e sz d a"
  shows "emits content (ietf_message_encode sz e B) (ietf_message_encode sz sz sizer_writer) (ietf_message_decode d) a"
  unfolding ietf_message_encode_framed [abs_def] ietf_message_decode_def
  by (rule framed_emits [OF ietf_size_emits _ assms]) (rule ietf_size_exact)

end

lemma string_decoded: "string_decode v r = Inr (s, r') \<Longrightarrow> utf8 s"
  by (auto simp: string_decode_def dbind_Inr_conv and_then_Inr_conv from_utf8_def split: if_splits)

lemma duration_decoded: "duration_decode v r = Inr (d, r') \<Longrightarrow> whole_millis d = d"
  by (auto simp: duration_decode_def dbind_Inr_conv dret_app from_millis_def whole_millis_def)

lemma decode_sizedD: "decode_sized n d r = Inr (a, r') \<Longrightarrow> d (take n r) = Inr (a, []) \<and> n \<le> length r \<and> r' = drop n r"
  by (auto simp: decode_sized_def and_then_Inr_conv split: if_splits)

lemma message_decoded:
  assumes "message_decode d v r = Inr (a, r')"
  obtains body where "d body = Inr (a, [])"
  using assms decode_sizedD by (fastforce simp: message_decode_def dbind_Inr_conv)

section \<open>Encoders that succeed, continued\<close>

context writer
begin

lemma check_then_writes:
  assumes "\<And>w. n \<le> remaining_mut B w \<Longrightarrow> remaining_mut B w \<le> remaining_mut B (p w) + n" "\<And>s. q s = sizer_add n s" "n \<le> usize_max"
  shows "writes B (ebind (check_remaining B n) (\<lambda>w. Inr (p w))) (ebind (check_remaining sizer_writer n) (\<lambda>s. Inr (q s))) n"
  using assms by (intro writesI) (auto simp: ebind_def check_remaining_def sizer_counts)

lemma u8_writes [size_intros]: "writes B (u8_encode B x) (u8_encode sizer_writer x) 1"
  unfolding u8_encode_def by (rule check_then_writes) (simp_all add: remaining_put_u8 [simplified])

lemma u16_writes [size_intros]: "writes B (u16_encode B x) (u16_encode sizer_writer x) 2"
  unfolding u16_encode_def by (rule check_then_writes) (simp_all add: remaining_put_u16 [simplified])

lemma bool_writes [size_intros]: "writes B (bool_encode B b) (bool_encode sizer_writer b) 1"
  unfolding bool_encode_def by (rule check_then_writes) (simp_all add: remaining_put_u8 [simplified])

lemma put_checked_writes:
  "length bs \<le> usize_max \<Longrightarrow> writes B (put_checked B bs) (put_checked sizer_writer bs) (length bs)"
  unfolding put_checked_def by (rule check_then_writes) (simp_all add: remaining_put_slice)

lemma bytes_writes [size_intros]:
  assumes "length bs \<le> unat varint_max"
  shows "writes B (bytes_encode B v bs) (bytes_encode sizer_writer v bs) (9 + length bs)"
  unfolding bytes_encode_def using assms
  by (intro writes_bind usize_writes put_checked_writes) (simp_all add: unat_varint_max)

lemma string_writes [size_intros]:
  assumes "length s \<le> unat varint_max"
  shows "writes B (string_encode B v s) (string_encode sizer_writer v s) (9 + length s)"
  using bytes_writes [of "as_bytes s" v] assms by (simp add: bytes_encode_def string_encode_def)

lemma option_u64_writes [size_intros]:
  assumes "\<And>y. x = Some y \<Longrightarrow> y < varint_max"
  shows "writes B (option_u64_encode B v x) (option_u64_encode sizer_writer v x) 9"
proof (cases x)
  case (Some y)
  have y: "y < varint_max" using assms Some by simp
  then have "y \<noteq> - 1" "y + 1 \<le> varint_max" by (auto simp: inc_le)
  then show ?thesis by (simp add: option_u64_encode_def Some u64_writes)
qed (simp add: option_u64_encode_def u64_writes)

lemma duration_writes [size_intros]:
  assumes "as_millis d \<le> unat varint_max"
  shows "writes B (duration_encode B v d) (duration_encode sizer_writer v d) 9"
proof -
  have "(of_nat (as_millis d) :: u64) \<le> varint_max"
    using assms by (simp add: word_le_nat_alt unat_of_nat take_bit_nat_eq_self unat_varint_max)
  then show ?thesis
    unfolding duration_encode_def varint_try_from_u128_def if_P [OF assms] and_then_simps by (rule varint_writes)
qed

lemma framed_writes:
  assumes body: "writes B e sz n" and len: "\<And>k. k \<le> n \<Longrightarrow> writes B (p k) (q k) m"
  shows "writes B (\<lambda>w. and_then (sz sizer_new) (\<lambda>s. ebind (p (sizer_size s)) e w))
     (\<lambda>w. and_then (sz sizer_new) (\<lambda>s. ebind (q (sizer_size s)) sz w)) (m + n)"
proof -
  obtain k where k: "k \<le> n" "sz sizer_new = Inr (sizer_add k sizer_new)" using body unfolding writes_def by blast
  show ?thesis using writes_bind [OF len [OF k(1)] body] by (simp add: k(2))
qed

lemma message_writes [size_intros]:
  assumes "writes B e sz n" "n \<le> unat varint_max"
  shows "writes B (message_encode sz e B v) (message_encode sz sz sizer_writer v) (9 + n)"
  unfolding message_encode_def [abs_def] using assms(2) by (intro framed_writes assms(1) usize_writes) simp

lemma ietf_message_writes [size_intros]:
  assumes "writes B e sz n" "n \<le> 0xFFFF"
  shows "writes B (ietf_message_encode sz e B) (ietf_message_encode sz sz sizer_writer) (2 + n)"
  unfolding ietf_message_encode_framed [abs_def]
  using assms(2) by (intro framed_writes assms(1)) (simp add: ietf_size_def u16_writes)

end

section \<open>The codec interface\<close>

text \<open>
  What a pair of \<open>Encode\<close> and \<open>Decode\<close> instances promises: for the values \<open>a\<close> with \<open>ok a\<close>, the peer
  decodes \<open>seen a\<close>, which is what the version carries of \<open>a\<close> (older versions leave fields out, and
  some fields are rounded). The laws a client of the traits relies on follow once for all instances.
\<close>

locale wire_codec = writer +
  fixes enc :: "'b \<Rightarrow> (encode_error, 'a) encoder" and szr :: "'b \<Rightarrow> (encode_error, sizer) encoder"
    and dec :: "(decode_error, 'c) decoder" and ok :: "'b \<Rightarrow> bool" and seen :: "'b \<Rightarrow> 'c"
  assumes codec: "ok a \<Longrightarrow> emits content (enc a) (szr a) dec (seen a)"
begin

lemma round_trip:
  assumes "ok a" "enc a w = Inr w'"
  shows "\<exists>bs. content w' = content w @ bs \<and> (\<forall>r. dec (bs @ r) = Inr (seen a, r))"
  using emitsE [OF codec [OF assms(1)] assms(2)] by (metis reads_def)

lemma truncated:
  assumes "ok a" "enc a w = Inr w'" "content w' = content w @ bs" "strict_prefix p bs"
  shows "dec p = Inl Short"
  using emitsE [OF codec [OF assms(1)] assms(2)] assms by (metis reads_def same_append_eq)

lemma size_exact:
  assumes "ok a" "enc a w = Inr w'"
  shows "\<exists>bs. content w' = content w @ bs \<and> szr a sizer_new = Inr (sizer_add (length bs) sizer_new)"
  using emitsE [OF codec [OF assms(1)] assms(2)] by metis

lemma enc_inj:
  assumes "ok a" "ok b" "enc a w = Inr w'" "enc b w = Inr w'"
  shows "seen a = seen b"
  using round_trip [OF assms(1,3)] round_trip [OF assms(2,4)]
  by (metis prod.inject same_append_eq sum.inject(2))

text \<open>Two values written one after the other are read one after the other.\<close>

lemma stream:
  assumes "ok a" "ok b" "enc a w = Inr w1" "enc b w1 = Inr w2"
  shows "\<exists>bs cs. content w2 = content w @ bs @ cs
     \<and> (\<forall>r. dec (bs @ cs @ r) = Inr (seen a, cs @ r) \<and> dec (cs @ r) = Inr (seen b, r))"
  using round_trip [OF assms(1,3)] round_trip [OF assms(2,4)] by (metis append.assoc)

end

end
