(* ===== verification/Paths.thy ===== *)
theory Paths
  imports Coding "HOL-Library.Product_Lexorder"
begin

text \<open>
  Broadcast paths (\<open>relay/rs/moq-net/src/path.rs\<close>): normalisation, prefix tests, joining, taking the
  first part, and the reduced list of prefixes.

  A \<open>Path\<close> is its string; whether it borrows or owns that string makes no difference here. An
  operation that accepts any \<open>AsPath\<close> is modelled on a \<open>Path\<close>; given a string instead, it is called on
  \<open>path_new\<close> of the string. The abstract view of a path is its list of \<open>parts\<close>, the non-empty strings
  between slashes, and each operation is shown to be the list operation on it.
\<close>

type_synonym path = string

abbreviation slash :: char where
  "slash \<equiv> CHR ''/''"

section \<open>String functions\<close>

definition trim_start :: "string \<Rightarrow> string" where
  "trim_start s = dropWhile (\<lambda>c. c = slash) s"

definition trim_end :: "string \<Rightarrow> string" where
  "trim_end s = rev (dropWhile (\<lambda>c. c = slash) (rev s))"

fun contains_dslash :: "string \<Rightarrow> bool" where
  "contains_dslash (a # b # s) \<longleftrightarrow> (a = slash \<and> b = slash) \<or> contains_dslash (b # s)"
| "contains_dslash _ \<longleftrightarrow> False"

fun split_slash :: "string \<Rightarrow> string list" where
  "split_slash [] = [[]]"
| "split_slash (c # s) =
     (if c = slash then [] # split_slash s
      else (c # hd (split_slash s)) # tl (split_slash s))"

fun join_parts :: "string list \<Rightarrow> string" where
  "join_parts [] = []"
| "join_parts [p] = p"
| "join_parts (p # q # ps) = p @ slash # join_parts (q # ps)"

section \<open>Paths\<close>

definition path_new :: "string \<Rightarrow> path" where
  "path_new s =
     (let trimmed = trim_end (trim_start s)
      in if contains_dslash trimmed then join_parts (filter (\<lambda>p. p \<noteq> []) (split_slash trimmed))
         else trimmed)"

definition path_from_string :: "string \<Rightarrow> path" where
  "path_from_string s =
     (let trimmed = trim_end (trim_start s)
      in if contains_dslash trimmed then join_parts (filter (\<lambda>p. p \<noteq> []) (split_slash trimmed))
         else if trimmed = s then s
         else trimmed)"

definition has_prefix :: "path \<Rightarrow> path \<Rightarrow> bool" where
  "has_prefix self pre =
     (if pre = [] then True
      else if \<not> prefix pre self then False
      else if length self = length pre then True
      else length pre < length self \<and> self ! length pre = slash)"

definition strip_prefix :: "path \<Rightarrow> path \<Rightarrow> path option" where
  "strip_prefix self pre =
     (if pre = [] then Some self
      else if \<not> prefix pre self then None
      else if length self = length pre then Some []
      else if \<not> (length pre < length self \<and> self ! length pre = slash) then None
      else Some (drop (length pre + 1) self))"

definition next_part :: "path \<Rightarrow> (string \<times> path) option" where
  "next_part self =
     (if self = [] then None
      else if slash \<in> set self then
        Some (takeWhile (\<lambda>c. c \<noteq> slash) self, drop 1 (dropWhile (\<lambda>c. c \<noteq> slash) self))
      else Some (self, []))"

definition path_join :: "path \<Rightarrow> path \<Rightarrow> path" where
  "path_join self other =
     (if self = [] then other else if other = [] then self else self @ slash # other)"

definition path_encode :: "'w buf_mut \<Rightarrow> version \<Rightarrow> path \<Rightarrow> (encode_error, 'w) encoder" where
  "path_encode B v p = string_encode B v p"

definition path_decode :: "version \<Rightarrow> (decode_error, path) decoder" where
  "path_decode v = dbind (string_decode v) (\<lambda>s. dret (path_from_string s))"

section \<open>Lists of prefixes\<close>

fun prefixes_loop :: "path list \<Rightarrow> path list \<Rightarrow> path list" where
  "prefixes_loop [] result = result"
| "prefixes_loop (path # paths) result =
     (if list_ex (\<lambda>existing. has_prefix path existing) result then prefixes_loop paths result
      else prefixes_loop paths (result @ [path]))"

definition path_prefixes_new :: "path list \<Rightarrow> path list" where
  "path_prefixes_new paths =
     (if length paths \<le> 1 then paths
      else prefixes_loop (remdups_adj (sort_key (\<lambda>p. (length p, p)) paths)) [])"

section \<open>Well-formed paths and their parts\<close>

definition path_ok :: "path \<Rightarrow> bool" where
  "path_ok p \<longleftrightarrow> p = [] \<or> (hd p \<noteq> slash \<and> last p \<noteq> slash \<and> \<not> contains_dslash p)"

definition parts :: "string \<Rightarrow> string list" where
  "parts s = filter (\<lambda>p. p \<noteq> []) (split_slash s)"

definition part_ok :: "string \<Rightarrow> bool" where
  "part_ok p \<longleftrightarrow> p \<noteq> [] \<and> slash \<notin> set p"

lemma split_slash_not_Nil [simp]: "split_slash s \<noteq> []"
  by (induction s) auto

lemma split_slash_append [simp]: "split_slash (a @ slash # b) = split_slash a @ split_slash b"
  by (induction a) auto

lemma join_split [simp]: "join_parts (split_slash s) = s"
proof (induction s)
  case (Cons c s)
  obtain p ps where "split_slash s = p # ps" by (cases "split_slash s") auto
  with Cons show ?case by (cases ps) auto
qed simp

lemma split_slash_parts: "p \<in> set (split_slash s) \<Longrightarrow> slash \<notin> set p"
proof (induction s arbitrary: p)
  case (Cons c s)
  have "set (tl (split_slash s)) \<subseteq> set (split_slash s)" by (cases "split_slash s") auto
  with Cons show ?case by (force split: if_splits)
qed simp

lemma parts_ok: "p \<in> set (parts s) \<Longrightarrow> part_ok p"
  by (auto simp: parts_def part_ok_def dest: split_slash_parts)

lemma split_part [simp]: "slash \<notin> set p \<Longrightarrow> split_slash p = [p]"
  by (induction p) auto

lemma split_join: "ps \<noteq> [] \<Longrightarrow> \<forall>p\<in>set ps. slash \<notin> set p \<Longrightarrow> split_slash (join_parts ps) = ps"
  by (induction ps rule: join_parts.induct) auto

lemma parts_Nil [simp]: "parts [] = []"
  by (simp add: parts_def)

lemma parts_join [simp]: "\<forall>p\<in>set ps. part_ok p \<Longrightarrow> parts (join_parts ps) = ps"
proof (cases "ps = []")
  case False
  assume "\<forall>p\<in>set ps. part_ok p"
  with False show ?thesis by (auto simp: parts_def split_join part_ok_def filter_id_conv)
qed simp

lemma parts_append [simp]: "parts (a @ slash # b) = parts a @ parts b"
  by (simp add: parts_def)

lemma parts_slash [simp]: "parts (slash # b) = parts b"
  by (simp add: parts_def)

lemma tl_split_empty:
  "[] \<in> set (tl (split_slash t)) \<longleftrightarrow> (t \<noteq> [] \<and> last t = slash) \<or> contains_dslash t"
proof (induction t)
  case (Cons c t)
  have hd: "hd (split_slash t) = [] \<longleftrightarrow> t = [] \<or> hd t = slash" by (cases t) auto
  have mem: "[] \<in> set (split_slash t) \<longleftrightarrow> hd (split_slash t) = [] \<or> [] \<in> set (tl (split_slash t))"
    by (cases "split_slash t") (auto simp: split_slash_not_Nil)
  have "contains_dslash (c # t) \<longleftrightarrow> (t \<noteq> [] \<and> c = slash \<and> hd t = slash) \<or> contains_dslash t"
    by (cases t) auto
  with hd mem Cons show ?case by auto
qed simp

lemma path_ok_iff: "path_ok p \<longleftrightarrow> p = [] \<or> [] \<notin> set (split_slash p)"
proof (cases p)
  case (Cons c s)
  then have "[] \<in> set (split_slash p) \<longleftrightarrow> c = slash \<or> [] \<in> set (tl (split_slash p))" by auto
  with tl_split_empty [of p] show ?thesis unfolding path_ok_def by (auto simp only: Cons list.sel)
qed (simp add: path_ok_def)

lemma parts_path: "path_ok p \<Longrightarrow> parts p = (if p = [] then [] else split_slash p)"
  by (auto simp: path_ok_iff parts_def filter_id_conv)

lemma join_parts_path: "path_ok p \<Longrightarrow> join_parts (parts p) = p"
  by (auto simp: parts_path)

lemma path_ok_join: "\<forall>p\<in>set ps. part_ok p \<Longrightarrow> path_ok (join_parts ps)"
  by (cases "ps = []") (auto simp: path_ok_iff split_join part_ok_def)

lemma parts_inj: "path_ok p \<Longrightarrow> path_ok q \<Longrightarrow> parts p = parts q \<longleftrightarrow> p = q"
  by (metis join_parts_path)

lemma parts_eq_Nil [simp]: "path_ok p \<Longrightarrow> parts p = [] \<longleftrightarrow> p = []"
  by (simp add: parts_path)

lemma join_parts_append:
  "as \<noteq> [] \<Longrightarrow> bs \<noteq> [] \<Longrightarrow> join_parts (as @ bs) = join_parts as @ slash # join_parts bs"
proof (induction as rule: join_parts.induct)
  case (2 p)
  then show ?case by (cases bs) auto
qed auto

section \<open>Normalisation\<close>

lemma parts_trim_start [simp]: "parts (trim_start s) = parts s"
  by (induction s) (auto simp: trim_start_def)

lemma parts_snoc_slash [simp]: "parts (s @ [slash]) = parts s"
  using parts_append [of s "[]"] by simp

lemma parts_trim_end [simp]: "parts (trim_end s) = parts s"
  by (induction s rule: rev_induct) (auto simp: trim_end_def)

lemma hd_trim: "trim_end (trim_start s) \<noteq> [] \<Longrightarrow> hd (trim_end (trim_start s)) \<noteq> slash"
proof -
  assume ne: "trim_end (trim_start s) \<noteq> []"
  have "prefix (trim_end t) t" for t
    by (metis prefix_def rev_append rev_rev_ident takeWhile_dropWhile_id trim_end_def)
  with ne have "hd (trim_end (trim_start s)) = hd (trim_start s)" and "trim_start s \<noteq> []"
    by (metis hd_append2 prefixE, metis prefix_Nil)
  then show ?thesis by (metis (full_types) hd_dropWhile trim_start_def)
qed

lemma last_trim: "trim_end s \<noteq> [] \<Longrightarrow> last (trim_end s) \<noteq> slash"
  by (metis (full_types) hd_dropWhile last_rev rev_is_Nil_conv trim_end_def)

lemma path_new_parts: "path_new s = join_parts (parts s)"
proof -
  let ?t = "trim_end (trim_start s)"
  have "path_ok ?t" if "\<not> contains_dslash ?t"
    using that hd_trim [of s] last_trim [of "trim_start s"] by (auto simp: path_ok_def)
  then show ?thesis
    using join_parts_path [of ?t] by (auto simp: path_new_def Let_def parts_def [symmetric])
qed

lemma path_from_string_new: "path_from_string s = path_new s"
  by (simp add: path_from_string_def path_new_def Let_def)

lemma path_ok_new [simp]: "path_ok (path_new s)"
  by (simp add: path_new_parts path_ok_join parts_ok)

lemma parts_new [simp]: "parts (path_new s) = parts s"
  by (simp add: path_new_parts parts_ok)

lemma path_new_id [simp]: "path_ok p \<Longrightarrow> path_new p = p"
  by (simp add: path_new_parts join_parts_path)

section \<open>The operations on parts\<close>

lemma path_ok_append: "path_ok (a @ slash # b) \<Longrightarrow> path_ok a \<and> path_ok b \<and> a \<noteq> [] \<and> b \<noteq> []"
  by (auto simp: path_ok_iff)

lemma prefix_cases:
  assumes "prefix q p"
  obtains "length p = length q" "p = q" | c r where "p = q @ c # r"
  using assms by (metis append.right_neutral neq_Nil_conv prefix_def)

lemma strip_prefix_eq:
  "strip_prefix p q = Some r \<longleftrightarrow> (q = [] \<and> r = p) \<or> (q \<noteq> [] \<and> p = q \<and> r = []) \<or> (q \<noteq> [] \<and> p = q @ slash # r)"
  by (cases "prefix q p") (auto simp: strip_prefix_def elim!: prefix_cases)

lemma has_prefix_strip: "has_prefix p q \<longleftrightarrow> strip_prefix p q \<noteq> None"
  by (auto simp: has_prefix_def strip_prefix_def)

lemma strip_prefix_parts:
  assumes "path_ok p" "path_ok q"
  shows "strip_prefix p q = Some r \<longleftrightarrow> path_ok r \<and> parts p = parts q @ parts r"
proof
  assume "strip_prefix p q = Some r"
  then show "path_ok r \<and> parts p = parts q @ parts r"
    using assms by (auto simp: strip_prefix_eq path_ok_def [of "[]"] dest: path_ok_append)
next
  assume r: "path_ok r \<and> parts p = parts q @ parts r"
  then have "p = join_parts (parts q @ parts r)" using join_parts_path [OF assms(1)] by simp
  with r assms(2) show "strip_prefix p q = Some r"
    by (cases "q = []"; cases "r = []") (auto simp: strip_prefix_eq join_parts_path join_parts_append)
qed

lemma has_prefix_parts:
  assumes "path_ok p" "path_ok q"
  shows "has_prefix p q \<longleftrightarrow> prefix (parts q) (parts p)"
proof
  assume "prefix (parts q) (parts p)"
  then obtain rs where rs: "parts p = parts q @ rs" by (auto simp: prefix_def)
  then have "\<forall>x\<in>set rs. part_ok x" using parts_ok [of _ p] by auto
  with rs show "has_prefix p q"
    unfolding has_prefix_strip using strip_prefix_parts [OF assms, of "join_parts rs"] by (simp add: path_ok_join)
qed (auto simp: has_prefix_strip strip_prefix_parts [OF assms])

lemma path_join_parts:
  assumes "path_ok p" "path_ok q"
  shows "path_ok (path_join p q) \<and> parts (path_join p q) = parts p @ parts q"
proof -
  have "path_join p q = join_parts (parts p @ parts q)"
    using assms by (simp add: path_join_def join_parts_path join_parts_append)
  then show ?thesis using parts_ok by (simp add: path_ok_join ball_Un)
qed

lemma at_slash:
  "slash \<notin> set a \<Longrightarrow> takeWhile (\<lambda>c. c \<noteq> slash) (a @ slash # b) = a"
  "slash \<notin> set a \<Longrightarrow> dropWhile (\<lambda>c. c \<noteq> slash) (a @ slash # b) = slash # b"
  by (induction a) auto

lemma next_part_parts:
  assumes "path_ok p"
  shows "next_part p = Some (d, r) \<longleftrightarrow> path_ok r \<and> parts p = d # parts r"
proof (cases "slash \<in> set p")
  case True
  then obtain a b where ab: "p = a @ slash # b" "slash \<notin> set a" by (auto dest: split_list_first)
  then have a: "parts a = [a]" and b: "path_ok b"
    using path_ok_append [of a b] assms by (simp_all add: parts_path)
  have np: "next_part p = Some (a, b)"
    using ab by (simp add: next_part_def at_slash)
  have "parts p = a # parts b" using ab(1) a by simp
  then show ?thesis using np parts_inj [OF b, of r] b by auto
next
  case False
  then have "parts p = (if p = [] then [] else [p])" using assms by (simp add: parts_path)
  moreover have "path_ok []" by (simp add: path_ok_def)
  ultimately show ?thesis using False parts_eq_Nil [of r] by (auto simp: next_part_def eq_commute [of "[]"])
qed

lemma next_part_None: "next_part p = None \<longleftrightarrow> p = []"
  by (simp add: next_part_def)

section \<open>The interface of paths\<close>

text \<open>
  What the users of paths rely on: a path stands for a list of parts, and prefix test, stripping,
  joining and taking the first part are the list operations.
\<close>

locale part_paths =
  fixes ok :: "'p \<Rightarrow> bool" and segs :: "'p \<Rightarrow> 's list" and root :: 'p
    and pre :: "'p \<Rightarrow> 'p \<Rightarrow> bool" and strip :: "'p \<Rightarrow> 'p \<Rightarrow> 'p option"
    and join :: "'p \<Rightarrow> 'p \<Rightarrow> 'p" and first :: "'p \<Rightarrow> ('s \<times> 'p) option"
  assumes segs_inj: "ok p \<Longrightarrow> ok q \<Longrightarrow> segs p = segs q \<longleftrightarrow> p = q"
    and root_law: "ok root" "segs root = []"
    and pre_law: "ok p \<Longrightarrow> ok q \<Longrightarrow> pre p q \<longleftrightarrow> prefix (segs q) (segs p)"
    and strip_law: "ok p \<Longrightarrow> ok q \<Longrightarrow> strip p q = Some r \<longleftrightarrow> ok r \<and> segs p = segs q @ segs r"
    and strip_pre: "ok p \<Longrightarrow> ok q \<Longrightarrow> pre p q \<longleftrightarrow> strip p q \<noteq> None"
    and join_law: "ok p \<Longrightarrow> ok q \<Longrightarrow> ok (join p q) \<and> segs (join p q) = segs p @ segs q"
    and first_law: "ok p \<Longrightarrow> first p = Some (d, r) \<longleftrightarrow> ok r \<and> segs p = d # segs r"
begin

lemma pre_refl: "ok p \<Longrightarrow> pre p p"
  by (simp add: pre_law)

lemma pre_trans: "ok p \<Longrightarrow> ok q \<Longrightarrow> ok r \<Longrightarrow> pre p q \<Longrightarrow> pre q r \<Longrightarrow> pre p r"
  by (auto simp: pre_law intro: prefix_order.trans)

lemma pre_antisym: "ok p \<Longrightarrow> ok q \<Longrightarrow> pre p q \<Longrightarrow> pre q p \<Longrightarrow> p = q"
  by (metis pre_law prefix_order.antisym segs_inj)

lemma pre_linear: "ok p \<Longrightarrow> ok q \<Longrightarrow> ok r \<Longrightarrow> pre p q \<Longrightarrow> pre p r \<Longrightarrow> pre q r \<or> pre r q"
  using prefix_same_cases [of "segs q" "segs p" "segs r"] by (simp add: pre_law disj_commute)

lemma strip_join:
  assumes "ok p" "ok q"
  shows "strip (join p q) p = Some q"
  using join_law [OF assms] assms by (simp add: strip_law)

lemma join_strip:
  assumes "ok p" "ok q" "strip p q = Some r"
  shows "join q r = p"
  using assms join_law [OF assms(2), of r] by (metis segs_inj strip_law)

lemma join_assoc:
  assumes "ok p" "ok q" "ok r"
  shows "join (join p q) r = join p (join q r)"
  using assms join_law by (metis append.assoc segs_inj)

lemma join_root:
  assumes "ok p"
  shows "join root p = p" "join p root = p"
  using assms join_law [OF root_law(1) assms] join_law [OF assms root_law(1)]
  by (metis append_Nil root_law(2) segs_inj, metis append_Nil2 root_law(2) segs_inj)

lemma first_step:
  assumes "ok p" "first p = Some (d, r)"
  shows "ok r" "segs p = d # segs r" "length (segs r) < length (segs p)"
  using assms by (auto simp: first_law)

end

interpretation pth: part_paths path_ok parts "[]" has_prefix strip_prefix path_join next_part
  by unfold_locales
    (assumption | simp add: path_ok_def; fail
     | rule parts_inj has_prefix_parts strip_prefix_parts path_join_parts next_part_parts has_prefix_strip)+

section \<open>Reduced lists of prefixes\<close>

lemma has_prefix_length: "has_prefix p q \<Longrightarrow> length q \<le> length p"
  by (auto simp: has_prefix_def prefix_length_le split: if_splits)

lemma has_prefix_same_length: "has_prefix p q \<Longrightarrow> length q = length p \<Longrightarrow> p = q"
  by (auto simp: has_prefix_def elim: prefix_cases split: if_splits)

lemma prefixes_loop_subset: "set (prefixes_loop ps res) \<subseteq> set ps \<union> set res"
  by (induction ps res rule: prefixes_loop.induct) auto

lemma prefixes_loop_keeps: "set res \<subseteq> set (prefixes_loop ps res)"
  by (induction ps res rule: prefixes_loop.induct) auto

lemma prefixes_loop_covers:
  assumes "q \<in> set ps" "path_ok q"
  shows "\<exists>e\<in>set (prefixes_loop ps res). has_prefix q e"
  using assms
proof (induction ps res rule: prefixes_loop.induct)
  case (2 p ps res)
  then show ?case
    using prefixes_loop_keeps [of res ps] prefixes_loop_keeps [of "res @ [p]" ps] pth.pre_refl [of q]
    by (auto simp: list_ex_iff)
qed simp

text \<open>No kept prefix is covered by another one.\<close>

definition prefix_free :: "path list \<Rightarrow> bool" where
  "prefix_free ps \<longleftrightarrow> distinct ps \<and> (\<forall>p\<in>set ps. \<forall>q\<in>set ps. has_prefix p q \<longrightarrow> p = q)"

lemma prefixes_loop_free:
  assumes "prefix_free res" "sorted_wrt (\<lambda>p q. length p \<le> length q) ps"
    "\<forall>p\<in>set ps. \<forall>q\<in>set res. length q \<le> length p" "\<forall>p\<in>set ps. path_ok p"
  shows "prefix_free (prefixes_loop ps res)"
  using assms
proof (induction ps res rule: prefixes_loop.induct)
  case (2 p ps res)
  show ?case
  proof (cases "list_ex (has_prefix p) res")
    case True
    with 2 show ?thesis by simp
  next
    case False
    have new: "q = p" if "q \<in> set res" "has_prefix q p" for q
      using that 2 has_prefix_length [of q p] has_prefix_same_length [of q p] by fastforce
    have "prefix_free (res @ [p])"
      using False new 2 pth.pre_refl [of p] by (auto simp: prefix_free_def list_ex_iff)
    with False 2 show ?thesis by auto
  qed
qed simp

abbreviation len_lex :: "path \<Rightarrow> nat \<times> path" where
  "len_lex p \<equiv> (length p, p)"

lemma distinct_remdups_adj_sorted: "sorted xs \<Longrightarrow> distinct (remdups_adj xs)"
  by (induction xs rule: remdups_adj.induct) auto

lemma map_len_lex: "map len_lex (remdups_adj xs) = remdups_adj (map len_lex xs)"
  by (rule remdups_adj_map_injective [symmetric]) (simp add: inj_def)

lemma sorted_len_lex: "sorted (map len_lex (remdups_adj (sort_key len_lex ps)))"
  unfolding map_len_lex by (rule sorted_remdups_adj) (rule sorted_sort_key)

lemma sort_prefixes_wrt: "sorted_wrt (\<lambda>p q. length p \<le> length q) (remdups_adj (sort_key len_lex ps))"
  using sorted_len_lex [of ps] unfolding sorted_map by (rule sorted_wrt_mono_rel [rotated]) auto

lemma distinct_len_lex: "distinct (map len_lex (remdups_adj (sort_key len_lex ps)))"
  unfolding map_len_lex by (rule distinct_remdups_adj_sorted) (rule sorted_sort_key)

lemma sorted_prefixes_unique:
  assumes "set ps = set qs"
  shows "remdups_adj (sort_key len_lex ps) = remdups_adj (sort_key len_lex qs)"
proof -
  have "map len_lex (remdups_adj (sort_key len_lex ps)) = map len_lex (remdups_adj (sort_key len_lex qs))"
    by (rule sorted_distinct_set_unique [OF sorted_len_lex distinct_len_lex sorted_len_lex distinct_len_lex])
      (simp add: assms)
  then show ?thesis by (rule map_injective) (simp add: inj_def)
qed

lemma path_prefixes_new_singleton: "path_prefixes_new [p] = [p]"
  by (simp add: path_prefixes_new_def)

lemma path_prefixes_new_loop: "path_prefixes_new ps = prefixes_loop (remdups_adj (sort_key len_lex ps)) []"
proof (cases "length ps \<le> 1")
  case True
  then have "ps = [] \<or> (\<exists>p. ps = [p])" by (cases ps) auto
  then show ?thesis by (auto simp: path_prefixes_new_def)
qed (simp add: path_prefixes_new_def)

lemma path_prefixes_covers:
  assumes "\<forall>q\<in>set ps. path_ok q" "path_ok p"
  shows "(\<exists>e\<in>set (path_prefixes_new ps). has_prefix p e) \<longleftrightarrow> (\<exists>q\<in>set ps. has_prefix p q)"
proof
  show "\<exists>q\<in>set ps. has_prefix p q" if "\<exists>e\<in>set (path_prefixes_new ps). has_prefix p e"
    using that prefixes_loop_subset [of _ "[]"] unfolding path_prefixes_new_loop by fastforce
next
  assume "\<exists>q\<in>set ps. has_prefix p q"
  then obtain q where q: "q \<in> set ps" "has_prefix p q" by blast
  then obtain e where e: "e \<in> set (path_prefixes_new ps)" "has_prefix q e"
    unfolding path_prefixes_new_loop
    using prefixes_loop_covers [of q "remdups_adj (sort_key len_lex ps)" "[]"] assms(1) by auto
  then have "e \<in> set ps"
    using prefixes_loop_subset [of "remdups_adj (sort_key len_lex ps)" "[]"] by (auto simp: path_prefixes_new_loop)
  with q e assms show "\<exists>e\<in>set (path_prefixes_new ps). has_prefix p e"
    using pth.pre_trans [of p q e] by blast
qed

lemma path_prefixes_free: "\<forall>q\<in>set ps. path_ok q \<Longrightarrow> prefix_free (path_prefixes_new ps)"
  unfolding path_prefixes_new_loop
  by (rule prefixes_loop_free) (simp_all add: prefix_free_def sort_prefixes_wrt)

section \<open>Paths on the wire\<close>

text \<open>Cutting a valid string at an ASCII character leaves valid strings.\<close>

lemma valid_utf8_ascii: "c < 0x80 \<Longrightarrow> valid_utf8 (a @ c # b) \<longleftrightarrow> valid_utf8 a \<and> valid_utf8 b"
proof (induction a rule: valid_utf8.induct)
  case (2 x a)
  have case_False: "(case xs of [] \<Rightarrow> False | y # ys \<Rightarrow> False) = False"
    "(case xs of [] \<Rightarrow> False | y # ys \<Rightarrow> (case ys of [] \<Rightarrow> False | z # zs \<Rightarrow> False)) = False" for xs :: "byte list"
    by (simp_all split: list.splits)
  have c: "\<not> utf8_cont c" using 2(5) by (simp add: utf8_cont_def not_le)
  consider "x < 0x80" | "\<not> x < 0x80" "a = []" | a1 where "\<not> x < 0x80" "a = [a1]"
    | a1 a2 where "\<not> x < 0x80" "a = [a1, a2]" | a1 a2 a3 a4 where "\<not> x < 0x80" "a = a1 # a2 # a3 # a4"
    by (metis list.exhaust)
  then show ?case
    by cases (use 2 c in \<open>simp_all add: case_False cong: if_cong conj_cong\<close>)
qed simp

lemma utf8_slash: "utf8 (a @ slash # b) \<longleftrightarrow> utf8 a \<and> utf8 b"
proof -
  have "byte_of_char slash < 0x80" by (simp add: byte_of_char_def)
  from valid_utf8_ascii [OF this, of "as_bytes a" "as_bytes b"] show ?thesis by (simp add: as_bytes_def)
qed

lemma utf8_join: "utf8 (join_parts ps) \<longleftrightarrow> (\<forall>p\<in>set ps. utf8 p)"
  by (induction ps rule: join_parts.induct) (simp_all add: utf8_slash, simp add: as_bytes_def)

lemma utf8_path_new: "utf8 s \<Longrightarrow> utf8 (path_new s)"
  using utf8_join [of "split_slash s"] by (auto simp: path_new_parts utf8_join parts_def)

lemma path_decoded: "path_decode v r = Inr (p, r') \<Longrightarrow> path_ok p \<and> utf8 p"
  by (auto simp: path_decode_def dbind_Inr_conv path_from_string_new dret_app dest: string_decoded intro: utf8_path_new)

context writer
begin

lemma path_emits [codec_intros]:
  assumes "utf8 p" "path_ok p"
  shows "emits content (path_encode B v p) (path_encode sizer_writer v p) (path_decode v) p"
  unfolding path_encode_def path_decode_def
  by (rule emits_map [OF string_emits]) (simp_all add: assms path_from_string_new)

lemma path_writes [size_intros]:
  "length p \<le> unat varint_max \<Longrightarrow> writes B (path_encode B v p) (path_encode sizer_writer v p) (9 + length p)"
  unfolding path_encode_def by (rule string_writes)

end

section \<open>Properties of paths\<close>

text \<open>
  C20: \<open>Path::new\<close> gives a path without leading, trailing or doubled slashes that has the parts of the
  string; on such paths \<open>has_prefix\<close> is the prefix order of the part lists (so \<open>foo\<close> never matches
  \<open>foobar\<close>), \<open>strip_prefix\<close> succeeds exactly when the parts of the path are those of the prefix followed
  by those of the result, \<open>join\<close> appends the parts, and \<open>next_part\<close> takes off the first one.
\<close>

theorem path_operations:
  assumes "path_ok p" "path_ok q"
  shows "path_ok (path_new s) \<and> parts (path_new s) = parts s \<and> path_from_string s = path_new s
     \<and> (has_prefix p q \<longleftrightarrow> prefix (parts q) (parts p))
     \<and> (strip_prefix p q = Some r \<longleftrightarrow> path_ok r \<and> parts p = parts q @ parts r)
     \<and> path_ok (path_join p q) \<and> parts (path_join p q) = parts p @ parts q
     \<and> (next_part p = Some (d, t) \<longleftrightarrow> path_ok t \<and> parts p = d # parts t)"
  using assms by (simp add: path_from_string_new has_prefix_parts strip_prefix_parts path_join_parts next_part_parts)

theorem path_operations_witness:
  "path_new ''//foo///bar/'' = ''foo/bar'' \<and> \<not> has_prefix ''foobar'' ''foo''
   \<and> strip_prefix ''foo/bar'' ''foo'' = Some ''bar''"
proof -
  have ok: "path_ok ''foo/bar''" "path_ok ''foo''" "path_ok ''foobar''" "path_ok ''bar''"
    by (simp_all add: path_ok_def)
  show ?thesis
    using path_operations [OF ok(1,2), of _ "''bar''"] path_operations [OF ok(3,2)] ok(4)
    by (simp add: path_new_def trim_start_def trim_end_def parts_def)
qed

text \<open>
  C25: \<open>PathPrefixes::new\<close> keeps the meaning of the list (a path is covered by the result exactly when
  it is covered by the input), drops every duplicate and every prefix covered by another one, and is
  canonical: lists with the same members give the same result.
\<close>

theorem path_prefixes_canonical:
  assumes "\<forall>q\<in>set ps. path_ok q" "path_ok p"
  shows "((\<exists>e\<in>set (path_prefixes_new ps). has_prefix p e) \<longleftrightarrow> (\<exists>q\<in>set ps. has_prefix p q))
     \<and> prefix_free (path_prefixes_new ps)
     \<and> (set ps = set qs \<longrightarrow> path_prefixes_new ps = path_prefixes_new qs)"
  using path_prefixes_covers [OF assms] path_prefixes_free [OF assms(1)] sorted_prefixes_unique [of ps qs]
  by (simp add: path_prefixes_new_loop)

theorem path_prefixes_canonical_witness:
  "path_prefixes_new [''demo/foo'', ''demo'', ''anon''] = path_prefixes_new [''anon'', ''demo'', ''demo'', ''demo/foo'']
   \<and> prefix_free (path_prefixes_new [''demo/foo'', ''demo'', ''anon''])
   \<and> (\<exists>e\<in>set (path_prefixes_new [''demo/foo'', ''demo'', ''anon'']). has_prefix ''demo/x'' e)"
proof -
  have ok: "\<forall>q\<in>set [''demo/foo'', ''demo'', ''anon'']. path_ok q" "path_ok ''demo/x''"
    by (simp_all add: path_ok_def)
  have "\<exists>q\<in>set [''demo/foo'', ''demo'', ''anon'']. has_prefix ''demo/x'' q"
    by (simp add: has_prefix_def)
  moreover have "set [''demo/foo'', ''demo'', ''anon''] = set [''anon'', ''demo'', ''demo'', ''demo/foo'']"
    by auto
  ultimately show ?thesis
    using path_prefixes_canonical [OF ok, of "[''anon'', ''demo'', ''demo'', ''demo/foo'']"] by blast
qed

end
