(* ===== verification/Origin_List.thy ===== *)
theory Origin_List
  imports Coding
begin

text \<open>
  Origins and hop lists (\<open>relay/rs/moq-net/src/model/origin.rs\<close>, first part). An \<open>Origin\<close> is its id; an
  \<open>OriginList\<close> is the list of hops, at most \<open>MAX_HOPS\<close> long.
\<close>

type_synonym origin = u64
type_synonym origin_list = "origin list"

definition UNKNOWN :: origin where
  "UNKNOWN = 0"

definition origin_encode :: "'w buf_mut \<Rightarrow> version \<Rightarrow> origin \<Rightarrow> (encode_error, 'w) encoder" where
  "origin_encode B v x = u64_encode B v x"

definition origin_decode :: "version \<Rightarrow> (decode_error, origin) decoder" where
  "origin_decode v = dbind (u64_decode v) (\<lambda>x. if push_bit 62 1 \<le> x then dfail InvalidValue else dret x)"

definition MAX_HOPS :: nat where
  "MAX_HOPS = 32"

text \<open>The result \<open>None\<close> is \<open>TooManyOrigins\<close>.\<close>

definition origin_push :: "origin_list \<Rightarrow> origin \<Rightarrow> origin_list option" where
  "origin_push self x = (if MAX_HOPS \<le> length self then None else Some (self @ [x]))"

fun replace_first :: "origin_list \<Rightarrow> origin \<Rightarrow> origin \<Rightarrow> origin_list \<times> bool" where
  "replace_first [] target replacement = ([], False)"
| "replace_first (entry # rest) target replacement =
     (if entry = target then (replacement # rest, True)
      else (let (rest', found) = replace_first rest target replacement in (entry # rest', found)))"

definition origin_try_from :: "origin list \<Rightarrow> origin_list option" where
  "origin_try_from xs = (if MAX_HOPS < length xs then None else Some xs)"

definition origin_list_encode :: "'w buf_mut \<Rightarrow> version \<Rightarrow> origin_list \<Rightarrow> (encode_error, 'w) encoder" where
  "origin_list_encode B v xs = ebind (u64_encode B v (of_nat (length xs))) (eseq (map (origin_encode B v) xs))"

definition origin_list_decode :: "version \<Rightarrow> (decode_error, origin_list) decoder" where
  "origin_list_decode v = dbind (u64_decode v) (\<lambda>count.
     if MAX_HOPS < unat count then dfail BoundsExceeded else drepeat (unat count) (origin_decode v))"

section \<open>The bound on hops\<close>

definition hops_ok :: "origin_list \<Rightarrow> bool" where
  "hops_ok xs \<longleftrightarrow> length xs \<le> MAX_HOPS"

lemma hops_ok_push: "origin_push xs x = Some ys \<Longrightarrow> hops_ok ys \<and> ys = xs @ [x]"
  by (auto simp: origin_push_def hops_ok_def split: if_splits)

lemma hops_ok_push_iff: "hops_ok xs \<Longrightarrow> origin_push xs x = None \<longleftrightarrow> length xs = MAX_HOPS"
  by (auto simp: origin_push_def hops_ok_def)

lemma replace_first_spec:
  "replace_first xs t r =
     (if t \<in> set xs then (takeWhile (\<lambda>x. x \<noteq> t) xs @ r # tl (dropWhile (\<lambda>x. x \<noteq> t) xs), True) else (xs, False))"
  by (induction xs) auto

lemma hops_ok_replace: "hops_ok xs \<Longrightarrow> hops_ok (fst (replace_first xs t r))"
proof -
  have "length (fst (replace_first xs t r)) = length xs"
    by (induction xs) (auto split: prod.splits)
  then show "hops_ok xs \<Longrightarrow> hops_ok (fst (replace_first xs t r))" by (simp add: hops_ok_def)
qed

lemma hops_ok_try_from: "origin_try_from xs = Some ys \<Longrightarrow> hops_ok ys \<and> ys = xs"
  by (auto simp: origin_try_from_def hops_ok_def split: if_splits)

lemma drepeat_length: "drepeat n d r = Inr (xs, r') \<Longrightarrow> length xs = n"
  by (induction n arbitrary: r xs) (auto simp: dbind_Inr_conv dret_def)

lemma hops_ok_decode: "origin_list_decode v r = Inr (xs, r') \<Longrightarrow> hops_ok xs"
  by (auto simp: origin_list_decode_def dbind_Inr_conv dfail_def hops_ok_def dest: drepeat_length split: if_splits)

section \<open>On the wire\<close>

lemma unat_hops: "hops_ok xs \<Longrightarrow> unat (of_nat (length xs) :: u64) = length xs"
  by (simp add: unat_of_nat take_bit_nat_eq_self hops_ok_def MAX_HOPS_def)

lemma below_62: "x \<le> varint_max \<longleftrightarrow> \<not> push_bit 62 (1 :: u64) \<le> x"
  by (simp add: varint_max_def push_bit_of_1 word_le_nat_alt) linarith

context writer
begin

lemma origin_emits [codec_intros]: "emits content (origin_encode B v x) (origin_encode sizer_writer v x) (origin_decode v) x"
proof (cases "x \<le> varint_max")
  case True
  then show ?thesis
    unfolding origin_encode_def origin_decode_def by (intro emits_map [OF u64_emits]) (simp add: below_62)
next
  case False
  then show ?thesis
    by (intro emits_failI) (simp add: origin_encode_def u64_encode_def varint_try_from_def)
qed

lemma origin_list_emits [codec_intros]:
  assumes "hops_ok xs"
  shows "emits content (origin_list_encode B v xs) (origin_list_encode sizer_writer v xs) (origin_list_decode v) xs"
  unfolding origin_list_encode_def origin_list_decode_def
  using assms emits_repeat [of xs content "origin_encode B v" "origin_encode sizer_writer v" "origin_decode v"] origin_emits
  by (intro emits_bind [OF u64_emits]) (simp add: unat_hops hops_ok_def)

lemma origin_writes [size_intros]:
  "x \<le> varint_max \<Longrightarrow> writes B (origin_encode B v x) (origin_encode sizer_writer v x) 9"
  unfolding origin_encode_def by (rule u64_writes)

lemma hop_count_in_range: "hops_ok xs \<Longrightarrow> of_nat (length xs) \<le> varint_max"
  by (simp add: word_le_nat_alt unat_hops unat_varint_max hops_ok_def MAX_HOPS_def)

lemma origin_list_writes [size_intros]:
  assumes "hops_ok xs" "\<forall>x\<in>set xs. x \<le> varint_max"
  shows "writes B (origin_list_encode B v xs) (origin_list_encode sizer_writer v xs) 297"
proof -
  have "writes B (eseq (map (origin_encode B v) xs)) (eseq (map (origin_encode sizer_writer v) xs)) (sum_list (map (\<lambda>x. 9) xs))"
    using assms(2) by (intro writes_seq origin_writes) simp
  then have "writes B (eseq (map (origin_encode B v) xs)) (eseq (map (origin_encode sizer_writer v) xs)) 288"
    by (rule writes_mono) (use assms(1) in \<open>simp add: sum_list_triv hops_ok_def MAX_HOPS_def\<close>)
  from writes_bind [OF u64_writes [OF hop_count_in_range [OF assms(1)]] this] show ?thesis
    by (simp add: origin_list_encode_def)
qed

end

end
