(* ===== verification/Lite_Messages.thy ===== *)
theory Lite_Messages
  imports Paths Origin_List
begin

text \<open>
  The messages of the moq-lite protocol (\<open>relay/rs/moq-net/src/lite\<close>): bodies, size-prefixed messages,
  stream types and parameters. \<open>msg_encode\<close> and \<open>msg_decode\<close> are the blanket instances of
  \<open>lite/message.rs\<close> for a body.
\<close>

definition msg_encode :: "'w buf_mut \<Rightarrow> lite_version \<Rightarrow> (encode_error, sizer) encoder \<Rightarrow> (encode_error, 'w) encoder
    \<Rightarrow> (encode_error, 'w) encoder" where
  "msg_encode B v sz e = message_encode sz e B (Lite v)"

definition msg_decode :: "lite_version \<Rightarrow> (decode_error, 'a) decoder \<Rightarrow> (decode_error, 'a) decoder" where
  "msg_decode v d = message_decode d (Lite v)"

section \<open>Announcements\<close>

datatype announce_status = Ended | Active

datatype announce =
  AnnActive (suffix: path) (hops: origin_list)
| AnnEnded (suffix: path) (hops: origin_list)

fun announce_status_code :: "announce_status \<Rightarrow> u8" where
  "announce_status_code Ended = 0"
| "announce_status_code Active = 1"

definition announce_status_encode :: "'w buf_mut \<Rightarrow> announce_status \<Rightarrow> (encode_error, 'w) encoder" where
  "announce_status_encode B s = u8_encode B (announce_status_code s)"

definition announce_status_decode :: "(decode_error, announce_status) decoder" where
  "announce_status_decode = dbind u8_decode (\<lambda>status.
     if status = 0 then dret Ended else if status = 1 then dret Active else dfail InvalidValue)"

definition encode_hops :: "'w buf_mut \<Rightarrow> lite_version \<Rightarrow> origin_list \<Rightarrow> (encode_error, 'w) encoder" where
  "encode_hops B v hs =
     (case v of
        Lite01 \<Rightarrow> enil
      | Lite02 \<Rightarrow> enil
      | Lite03 \<Rightarrow> u64_encode B (Lite v) (of_nat (length hs))
      | _ \<Rightarrow> origin_list_encode B (Lite v) hs)"

fun push_unknown :: "nat \<Rightarrow> origin_list \<Rightarrow> (decode_error, origin_list) decoder" where
  "push_unknown 0 xs = dret xs"
| "push_unknown (Suc n) xs =
     (case origin_push xs UNKNOWN of None \<Rightarrow> dfail BoundsExceeded | Some xs \<Rightarrow> push_unknown n xs)"

definition decode_hops :: "lite_version \<Rightarrow> (decode_error, origin_list) decoder" where
  "decode_hops v =
     (case v of
        Lite01 \<Rightarrow> dret []
      | Lite02 \<Rightarrow> dret []
      | Lite03 \<Rightarrow> dbind (u64_decode (Lite v)) (\<lambda>count. push_unknown (unat count) [])
      | _ \<Rightarrow> origin_list_decode (Lite v))"

definition announce_decode_msg :: "lite_version \<Rightarrow> (decode_error, announce) decoder" where
  "announce_decode_msg v =
     dbind announce_status_decode (\<lambda>status.
     dbind (path_decode (Lite v)) (\<lambda>sfx.
     dbind (decode_hops v) (\<lambda>hs.
     dret (case status of Active \<Rightarrow> AnnActive sfx hs | Ended \<Rightarrow> AnnEnded sfx hs))))"

fun announce_encode_msg :: "'w buf_mut \<Rightarrow> lite_version \<Rightarrow> announce \<Rightarrow> (encode_error, 'w) encoder" where
  "announce_encode_msg B v (AnnActive sfx hs) =
     ebind (announce_status_encode B Active) (ebind (path_encode B (Lite v) sfx) (encode_hops B v hs))"
| "announce_encode_msg B v (AnnEnded sfx hs) =
     ebind (announce_status_encode B Ended) (ebind (path_encode B (Lite v) sfx) (encode_hops B v hs))"

record announce_interest =
  interest_prefix :: path
  exclude_hop :: u64

definition announce_interest_decode_msg :: "lite_version \<Rightarrow> (decode_error, announce_interest) decoder" where
  "announce_interest_decode_msg v =
     dbind (path_decode (Lite v)) (\<lambda>pre.
     dbind (case v of Lite01 \<Rightarrow> dret 0 | Lite02 \<Rightarrow> dret 0 | Lite03 \<Rightarrow> dret 0 | _ \<Rightarrow> u64_decode (Lite v)) (\<lambda>hop.
     dret \<lparr>interest_prefix = pre, exclude_hop = hop\<rparr>))"

definition announce_interest_encode_msg :: "'w buf_mut \<Rightarrow> lite_version \<Rightarrow> announce_interest \<Rightarrow> (encode_error, 'w) encoder" where
  "announce_interest_encode_msg B v m =
     ebind (path_encode B (Lite v) (interest_prefix m))
       (case v of Lite01 \<Rightarrow> enil | Lite02 \<Rightarrow> enil | Lite03 \<Rightarrow> enil | _ \<Rightarrow> u64_encode B (Lite v) (exclude_hop m))"

record announce_init =
  suffixes :: "path list"

definition announce_init_decode_msg :: "lite_version \<Rightarrow> (decode_error, announce_init) decoder" where
  "announce_init_decode_msg v =
     (if v = Lite01 \<or> v = Lite02 then
        dbind (u64_decode (Lite v)) (\<lambda>count.
        dbind (drepeat (unat count) (path_decode (Lite v))) (\<lambda>paths. dret \<lparr>suffixes = paths\<rparr>))
      else dfail DecodeVersion)"

definition announce_init_encode_msg :: "'w buf_mut \<Rightarrow> lite_version \<Rightarrow> announce_init \<Rightarrow> (encode_error, 'w) encoder" where
  "announce_init_encode_msg B v m =
     (if v = Lite01 \<or> v = Lite02 then
        ebind (u64_encode B (Lite v) (of_nat (length (suffixes m)))) (eseq (map (path_encode B (Lite v)) (suffixes m)))
      else efail EncodeVersion)"

section \<open>Subscriptions\<close>

record subscribe =
  sub_id :: u64
  sub_broadcast :: path
  sub_track :: string
  sub_priority :: u8
  sub_ordered :: bool
  sub_max_latency :: duration
  sub_start_group :: "u64 option"
  sub_end_group :: "u64 option"

definition flag_encode :: "'w buf_mut \<Rightarrow> bool \<Rightarrow> (encode_error, 'w) encoder" where
  "flag_encode B b = u8_encode B (of_bool b)"

definition flag_decode :: "(decode_error, bool) decoder" where
  "flag_decode = dbind u8_decode (\<lambda>x. dret (x \<noteq> 0))"

definition subscribe_decode_msg :: "lite_version \<Rightarrow> (decode_error, subscribe) decoder" where
  "subscribe_decode_msg v =
     dbind (u64_decode (Lite v)) (\<lambda>i.
     dbind (path_decode (Lite v)) (\<lambda>bc.
     dbind (string_decode (Lite v)) (\<lambda>tr.
     dbind u8_decode (\<lambda>pri.
     dbind (if v = Lite01 \<or> v = Lite02 then dret (False, 0, None, None)
            else dbind flag_decode (\<lambda>ord.
                 dbind (duration_decode (Lite v)) (\<lambda>lat.
                 dbind (option_u64_decode (Lite v)) (\<lambda>sg.
                 dbind (option_u64_decode (Lite v)) (\<lambda>eg. dret (ord, lat, sg, eg))))))
       (\<lambda>(ord, lat, sg, eg).
     dret \<lparr>sub_id = i, sub_broadcast = bc, sub_track = tr, sub_priority = pri, sub_ordered = ord,
       sub_max_latency = lat, sub_start_group = sg, sub_end_group = eg\<rparr>)))))"

definition subscribe_encode_msg :: "'w buf_mut \<Rightarrow> lite_version \<Rightarrow> subscribe \<Rightarrow> (encode_error, 'w) encoder" where
  "subscribe_encode_msg B v m =
     ebind (u64_encode B (Lite v) (sub_id m)) (ebind (path_encode B (Lite v) (sub_broadcast m))
     (ebind (string_encode B (Lite v) (sub_track m)) (ebind (u8_encode B (sub_priority m))
     (if v = Lite01 \<or> v = Lite02 then enil
      else ebind (flag_encode B (sub_ordered m)) (ebind (duration_encode B (Lite v) (sub_max_latency m))
        (ebind (option_u64_encode B (Lite v) (sub_start_group m)) (option_u64_encode B (Lite v) (sub_end_group m))))))))"

record subscribe_ok =
  ok_priority :: u8
  ok_ordered :: bool
  ok_max_latency :: duration
  ok_start_group :: "u64 option"
  ok_end_group :: "u64 option"

definition subscribe_ok_encode_msg :: "'w buf_mut \<Rightarrow> lite_version \<Rightarrow> subscribe_ok \<Rightarrow> (encode_error, 'w) encoder" where
  "subscribe_ok_encode_msg B v m =
     (case v of
        Lite01 \<Rightarrow> u8_encode B (ok_priority m)
      | Lite02 \<Rightarrow> enil
      | _ \<Rightarrow> ebind (u8_encode B (ok_priority m)) (ebind (flag_encode B (ok_ordered m))
          (ebind (duration_encode B (Lite v) (ok_max_latency m)) (ebind (option_u64_encode B (Lite v) (ok_start_group m))
          (option_u64_encode B (Lite v) (ok_end_group m))))))"

definition subscribe_ok_decode_msg :: "lite_version \<Rightarrow> (decode_error, subscribe_ok) decoder" where
  "subscribe_ok_decode_msg v =
     (case v of
        Lite01 \<Rightarrow> dbind u8_decode (\<lambda>pri. dret \<lparr>ok_priority = pri, ok_ordered = False, ok_max_latency = 0,
            ok_start_group = None, ok_end_group = None\<rparr>)
      | Lite02 \<Rightarrow> dret \<lparr>ok_priority = 0, ok_ordered = False, ok_max_latency = 0,
            ok_start_group = None, ok_end_group = None\<rparr>
      | _ \<Rightarrow> dbind u8_decode (\<lambda>pri. dbind flag_decode (\<lambda>ord. dbind (duration_decode (Lite v)) (\<lambda>lat.
          dbind (option_u64_decode (Lite v)) (\<lambda>sg. dbind (option_u64_decode (Lite v)) (\<lambda>eg.
          dret \<lparr>ok_priority = pri, ok_ordered = ord, ok_max_latency = lat, ok_start_group = sg,
            ok_end_group = eg\<rparr>))))))"

record subscribe_update =
  upd_priority :: u8
  upd_ordered :: bool
  upd_max_latency :: duration
  upd_start_group :: "u64 option"
  upd_end_group :: "u64 option"

definition update_group_decode :: "lite_version \<Rightarrow> (decode_error, u64 option) decoder" where
  "update_group_decode v = dbind (u64_decode (Lite v)) (\<lambda>g. if g = 0 then dret None else dret (Some (g - 1)))"

definition update_group_encode :: "'w buf_mut \<Rightarrow> lite_version \<Rightarrow> u64 option \<Rightarrow> (encode_error, 'w) encoder" where
  "update_group_encode B v g =
     (case g of
        Some g \<Rightarrow> if g = - 1 then efail TooLarge else u64_encode B (Lite v) (g + 1)
      | None \<Rightarrow> u64_encode B (Lite v) 0)"

definition subscribe_update_decode_msg :: "lite_version \<Rightarrow> (decode_error, subscribe_update) decoder" where
  "subscribe_update_decode_msg v =
     (if v = Lite01 \<or> v = Lite02 then dfail DecodeVersion
      else dbind u8_decode (\<lambda>pri. dbind flag_decode (\<lambda>ord. dbind (duration_decode (Lite v)) (\<lambda>lat.
        dbind (update_group_decode v) (\<lambda>sg. dbind (update_group_decode v) (\<lambda>eg.
        dret \<lparr>upd_priority = pri, upd_ordered = ord, upd_max_latency = lat, upd_start_group = sg,
          upd_end_group = eg\<rparr>))))))"

definition subscribe_update_encode_msg :: "'w buf_mut \<Rightarrow> lite_version \<Rightarrow> subscribe_update \<Rightarrow> (encode_error, 'w) encoder" where
  "subscribe_update_encode_msg B v m =
     (if v = Lite01 \<or> v = Lite02 then efail EncodeVersion
      else ebind (u8_encode B (upd_priority m)) (ebind (flag_encode B (upd_ordered m))
        (ebind (duration_encode B (Lite v) (upd_max_latency m)) (ebind (update_group_encode B v (upd_start_group m))
        (update_group_encode B v (upd_end_group m))))))"

record subscribe_drop =
  drop_start :: u64
  drop_end :: u64
  drop_error :: u64

definition subscribe_drop_decode_msg :: "lite_version \<Rightarrow> (decode_error, subscribe_drop) decoder" where
  "subscribe_drop_decode_msg v =
     (if v = Lite01 \<or> v = Lite02 then dfail DecodeVersion
      else dbind (u64_decode (Lite v)) (\<lambda>s. dbind (u64_decode (Lite v)) (\<lambda>e. dbind (u64_decode (Lite v)) (\<lambda>err.
        dret \<lparr>drop_start = s, drop_end = e, drop_error = err\<rparr>))))"

definition subscribe_drop_encode_msg :: "'w buf_mut \<Rightarrow> lite_version \<Rightarrow> subscribe_drop \<Rightarrow> (encode_error, 'w) encoder" where
  "subscribe_drop_encode_msg B v m =
     (if v = Lite01 \<or> v = Lite02 then efail EncodeVersion
      else ebind (u64_encode B (Lite v) (drop_start m)) (ebind (u64_encode B (Lite v) (drop_end m))
        (u64_encode B (Lite v) (drop_error m))))"

datatype subscribe_response = RespOk subscribe_ok | RespDrop subscribe_drop

fun subscribe_response_encode :: "'w buf_mut \<Rightarrow> lite_version \<Rightarrow> subscribe_response \<Rightarrow> (encode_error, 'w) encoder" where
  "subscribe_response_encode B v (RespOk m) =
     (let body = msg_encode B v (subscribe_ok_encode_msg sizer_writer v m) (subscribe_ok_encode_msg B v m)
      in if v = Lite01 \<or> v = Lite02 then body else ebind (u64_encode B (Lite v) 0) body)"
| "subscribe_response_encode B v (RespDrop m) =
     (if v = Lite01 \<or> v = Lite02 then efail EncodeVersion
      else ebind (u64_encode B (Lite v) 1)
        (msg_encode B v (subscribe_drop_encode_msg sizer_writer v m) (subscribe_drop_encode_msg B v m)))"

definition subscribe_response_decode :: "lite_version \<Rightarrow> (decode_error, subscribe_response) decoder" where
  "subscribe_response_decode v =
     (if v = Lite01 \<or> v = Lite02 then dbind (msg_decode v (subscribe_ok_decode_msg v)) (\<lambda>m. dret (RespOk m))
      else dbind (u64_decode (Lite v)) (\<lambda>typ.
        if typ = 0 then dbind (msg_decode v (subscribe_ok_decode_msg v)) (\<lambda>m. dret (RespOk m))
        else if typ = 1 then dbind (msg_decode v (subscribe_drop_decode_msg v)) (\<lambda>m. dret (RespDrop m))
        else dfail (InvalidMessage typ)))"

section \<open>Groups, fetches, probes and session messages\<close>

record group =
  group_subscribe :: u64
  group_sequence :: u64

definition group_decode_msg :: "lite_version \<Rightarrow> (decode_error, group) decoder" where
  "group_decode_msg v = dbind (u64_decode (Lite v)) (\<lambda>sub. dbind (u64_decode (Lite v)) (\<lambda>seq.
     dret \<lparr>group_subscribe = sub, group_sequence = seq\<rparr>))"

definition group_encode_msg :: "'w buf_mut \<Rightarrow> lite_version \<Rightarrow> group \<Rightarrow> (encode_error, 'w) encoder" where
  "group_encode_msg B v m = ebind (u64_encode B (Lite v) (group_subscribe m)) (u64_encode B (Lite v) (group_sequence m))"

record fetch =
  fetch_broadcast :: path
  fetch_track :: string
  fetch_priority :: u8
  fetch_group :: u64

definition fetch_decode_msg :: "lite_version \<Rightarrow> (decode_error, fetch) decoder" where
  "fetch_decode_msg v =
     (if v = Lite01 \<or> v = Lite02 then dfail DecodeVersion
      else dbind (path_decode (Lite v)) (\<lambda>bc. dbind (string_decode (Lite v)) (\<lambda>tr. dbind u8_decode (\<lambda>pri.
        dbind (u64_decode (Lite v)) (\<lambda>grp.
        dret \<lparr>fetch_broadcast = bc, fetch_track = tr, fetch_priority = pri, fetch_group = grp\<rparr>)))))"

definition fetch_encode_msg :: "'w buf_mut \<Rightarrow> lite_version \<Rightarrow> fetch \<Rightarrow> (encode_error, 'w) encoder" where
  "fetch_encode_msg B v m =
     (if v = Lite01 \<or> v = Lite02 then efail EncodeVersion
      else ebind (path_encode B (Lite v) (fetch_broadcast m)) (ebind (string_encode B (Lite v) (fetch_track m))
        (ebind (u8_encode B (fetch_priority m)) (u64_encode B (Lite v) (fetch_group m)))))"

record probe =
  probe_bitrate :: u64
  probe_rtt :: "u64 option"

definition probe_decode_msg :: "lite_version \<Rightarrow> (decode_error, probe) decoder" where
  "probe_decode_msg v =
     (if v = Lite01 \<or> v = Lite02 then dfail DecodeVersion
      else dbind (u64_decode (Lite v)) (\<lambda>bitrate.
        dbind (if v = Lite03 then dret None
               else dbind (u64_decode (Lite v)) (\<lambda>x. dret (if x = 0 then None else Some x))) (\<lambda>rtt.
        dret \<lparr>probe_bitrate = bitrate, probe_rtt = rtt\<rparr>)))"

definition probe_encode_msg :: "'w buf_mut \<Rightarrow> lite_version \<Rightarrow> probe \<Rightarrow> (encode_error, 'w) encoder" where
  "probe_encode_msg B v m =
     (if v = Lite01 \<or> v = Lite02 then efail EncodeVersion
      else ebind (u64_encode B (Lite v) (probe_bitrate m))
        (if v = Lite03 then enil
         else u64_encode B (Lite v) (case probe_rtt m of Some x \<Rightarrow> max x 1 | None \<Rightarrow> 0)))"

record session_info =
  info_bitrate :: "u64 option"

definition session_info_decode_msg :: "lite_version \<Rightarrow> (decode_error, session_info) decoder" where
  "session_info_decode_msg v =
     (if v = Lite01 \<or> v = Lite02 then
        dbind (u64_decode (Lite v)) (\<lambda>x. dret \<lparr>info_bitrate = (if x = 0 then None else Some x)\<rparr>)
      else dfail DecodeVersion)"

definition session_info_encode_msg :: "'w buf_mut \<Rightarrow> lite_version \<Rightarrow> session_info \<Rightarrow> (encode_error, 'w) encoder" where
  "session_info_encode_msg B v m =
     (if v = Lite01 \<or> v = Lite02 then u64_encode B (Lite v) (case info_bitrate m of Some x \<Rightarrow> x | None \<Rightarrow> 0)
      else efail EncodeVersion)"

record goaway =
  goaway_uri :: string

definition goaway_decode_msg :: "lite_version \<Rightarrow> (decode_error, goaway) decoder" where
  "goaway_decode_msg v =
     (if v = Lite01 \<or> v = Lite02 \<or> v = Lite03 then dfail DecodeVersion
      else dbind (string_decode (Lite v)) (\<lambda>uri. dret \<lparr>goaway_uri = uri\<rparr>))"

definition goaway_encode_msg :: "'w buf_mut \<Rightarrow> lite_version \<Rightarrow> goaway \<Rightarrow> (encode_error, 'w) encoder" where
  "goaway_encode_msg B v m =
     (if v = Lite01 \<or> v = Lite02 \<or> v = Lite03 then efail EncodeVersion
      else string_encode B (Lite v) (goaway_uri m))"

section \<open>Stream types and parameters\<close>

datatype control_type = CtlSession | CtlAnnounce | CtlSubscribe | CtlFetch | CtlProbe | CtlGoaway

fun control_code :: "control_type \<Rightarrow> u64" where
  "control_code CtlSession = 0"
| "control_code CtlAnnounce = 1"
| "control_code CtlSubscribe = 2"
| "control_code CtlFetch = 3"
| "control_code CtlProbe = 4"
| "control_code CtlGoaway = 5"

definition control_decode :: "lite_version \<Rightarrow> (decode_error, control_type) decoder" where
  "control_decode v = dbind (u64_decode (Lite v)) (\<lambda>t.
     if t = 0 then dret CtlSession else if t = 1 then dret CtlAnnounce else if t = 2 then dret CtlSubscribe
     else if t = 3 then dret CtlFetch else if t = 4 then dret CtlProbe else if t = 5 then dret CtlGoaway
     else dfail InvalidValue)"

definition control_encode :: "'w buf_mut \<Rightarrow> lite_version \<Rightarrow> control_type \<Rightarrow> (encode_error, 'w) encoder" where
  "control_encode B v t = u64_encode B (Lite v) (control_code t)"

datatype data_type = DataGroup

definition data_decode :: "lite_version \<Rightarrow> (decode_error, data_type) decoder" where
  "data_decode v = dbind (u64_decode (Lite v)) (\<lambda>t. if t = 0 then dret DataGroup else dfail InvalidValue)"

definition data_encode :: "'w buf_mut \<Rightarrow> lite_version \<Rightarrow> data_type \<Rightarrow> (encode_error, 'w) encoder" where
  "data_encode B v t = u64_encode B (Lite v) (case t of DataGroup \<Rightarrow> 0)"

text \<open>
  \<open>Parameters\<close> wraps a hash map. The decoder returns the map; the encoder writes the entries in the
  order in which the map is iterated, which is unspecified, so that order is its argument.
\<close>

type_synonym lite_parameters = "u64 \<rightharpoonup> byte list"

definition LITE_MAX_PARAMS :: nat where
  "LITE_MAX_PARAMS = 64"

fun params_loop :: "lite_version \<Rightarrow> nat \<Rightarrow> lite_parameters \<Rightarrow> (decode_error, lite_parameters) decoder" where
  "params_loop v 0 m = dret m"
| "params_loop v (Suc n) m =
     dbind (u64_decode (Lite v)) (\<lambda>kind.
       if m kind \<noteq> None then dfail Duplicate
       else dbind (bytes_decode (Lite v)) (\<lambda>data. params_loop v n (m(kind \<mapsto> data))))"

definition params_decode :: "lite_version \<Rightarrow> (decode_error, lite_parameters) decoder" where
  "params_decode v = dbind (u64_decode (Lite v)) (\<lambda>count.
     if LITE_MAX_PARAMS < unat count then dfail TooMany else params_loop v (unat count) (\<lambda>_. None))"

definition param_encode :: "'w buf_mut \<Rightarrow> lite_version \<Rightarrow> u64 \<times> byte list \<Rightarrow> (encode_error, 'w) encoder" where
  "param_encode B v kv = ebind (u64_encode B (Lite v) (fst kv)) (bytes_encode B (Lite v) (snd kv))"

definition params_encode :: "'w buf_mut \<Rightarrow> lite_version \<Rightarrow> (u64 \<times> byte list) list \<Rightarrow> (encode_error, 'w) encoder" where
  "params_encode B v kvs =
     (if LITE_MAX_PARAMS < length kvs then efail EncodeTooMany
      else ebind (usize_encode B (Lite v) (length kvs)) (eseq (map (param_encode B v) kvs)))"

section \<open>What the peer sees\<close>

text \<open>The content of a message that its version carries.\<close>

definition hops_seen :: "lite_version \<Rightarrow> origin_list \<Rightarrow> origin_list" where
  "hops_seen v hs = (case v of Lite01 \<Rightarrow> [] | Lite02 \<Rightarrow> [] | Lite03 \<Rightarrow> replicate (length hs) UNKNOWN | _ \<Rightarrow> hs)"

fun announce_seen :: "lite_version \<Rightarrow> announce \<Rightarrow> announce" where
  "announce_seen v (AnnActive sfx hs) = AnnActive sfx (hops_seen v hs)"
| "announce_seen v (AnnEnded sfx hs) = AnnEnded sfx (hops_seen v hs)"

definition announce_ok :: "announce \<Rightarrow> bool" where
  "announce_ok a \<longleftrightarrow> path_ok (suffix a) \<and> utf8 (suffix a) \<and> hops_ok (hops a)"

definition announce_interest_seen :: "lite_version \<Rightarrow> announce_interest \<Rightarrow> announce_interest" where
  "announce_interest_seen v m = (if v \<in> {Lite01, Lite02, Lite03} then m\<lparr>exclude_hop := 0\<rparr> else m)"

definition subscribe_seen :: "lite_version \<Rightarrow> subscribe \<Rightarrow> subscribe" where
  "subscribe_seen v m =
     (if v \<in> {Lite01, Lite02} then m\<lparr>sub_ordered := False, sub_max_latency := 0, sub_start_group := None, sub_end_group := None\<rparr>
      else m\<lparr>sub_max_latency := whole_millis (sub_max_latency m)\<rparr>)"

definition subscribe_ok_seen :: "lite_version \<Rightarrow> subscribe_ok \<Rightarrow> subscribe_ok" where
  "subscribe_ok_seen v m =
     (if v \<in> {Lite01, Lite02} then
        \<lparr>ok_priority = (if v = Lite01 then ok_priority m else 0), ok_ordered = False, ok_max_latency = 0,
          ok_start_group = None, ok_end_group = None\<rparr>
      else m\<lparr>ok_max_latency := whole_millis (ok_max_latency m)\<rparr>)"

definition subscribe_update_seen :: "subscribe_update \<Rightarrow> subscribe_update" where
  "subscribe_update_seen m = m\<lparr>upd_max_latency := whole_millis (upd_max_latency m)\<rparr>"

fun subscribe_response_seen :: "lite_version \<Rightarrow> subscribe_response \<Rightarrow> subscribe_response" where
  "subscribe_response_seen v (RespOk m) = RespOk (subscribe_ok_seen v m)"
| "subscribe_response_seen v (RespDrop m) = RespDrop m"

definition probe_seen :: "lite_version \<Rightarrow> probe \<Rightarrow> probe" where
  "probe_seen v m = m\<lparr>probe_rtt := (if v = Lite03 then None else map_option (\<lambda>x. max x 1) (probe_rtt m))\<rparr>"

definition session_info_seen :: "session_info \<Rightarrow> session_info" where
  "session_info_seen m = (if info_bitrate m = Some 0 then m\<lparr>info_bitrate := None\<rparr> else m)"

section \<open>The codecs meet the interface\<close>

lemma update_group_codec:
  "update_group_encode B v g = option_u64_encode B (Lite v) g" "update_group_decode v = option_u64_decode (Lite v)"
  by (simp_all add: update_group_encode_def option_u64_encode_def update_group_decode_def option_u64_decode_def)

lemma push_unknown_fill: "length xs + n \<le> MAX_HOPS \<Longrightarrow> push_unknown n xs = dret (xs @ replicate n UNKNOWN)"
proof (induction n arbitrary: xs)
  case (Suc n)
  then have "origin_push xs UNKNOWN = Some (xs @ [UNKNOWN])" by (simp add: origin_push_def)
  with Suc show ?case by simp
qed simp

lemma max_one: "max x 1 \<noteq> (0 :: u64)"
  by (metis max.cobounded2 word_le_0_iff zero_neq_one)

context writer
begin

lemma msg_emits [codec_intros]:
  "emits content e sz d a \<Longrightarrow> emits content (msg_encode B v sz e) (msg_encode sizer_writer v sz sz) (msg_decode v d) a"
  unfolding msg_encode_def msg_decode_def by (rule message_emits)

lemma flag_emits [codec_intros]: "emits content (flag_encode B b) (flag_encode sizer_writer b) flag_decode b"
  unfolding flag_encode_def flag_decode_def by (rule emits_map [OF u8_emits]) simp

lemma announce_status_emits [codec_intros]:
  "emits content (announce_status_encode B s) (announce_status_encode sizer_writer s) announce_status_decode s"
  unfolding announce_status_encode_def announce_status_decode_def
  by (rule emits_map [OF u8_emits]) (cases s; simp)

lemma hops_emits [codec_intros]:
  assumes "hops_ok hs"
  shows "emits content (encode_hops B v hs) (encode_hops sizer_writer v hs) (decode_hops v) (hops_seen v hs)"
proof -
  have "emits content (u64_encode B (Lite Lite03) (of_nat (length hs))) (u64_encode sizer_writer (Lite Lite03) (of_nat (length hs)))
     (dbind (u64_decode (Lite Lite03)) (\<lambda>count. push_unknown (unat count) [])) (replicate (length hs) UNKNOWN)"
    using assms by (intro emits_map [OF u64_emits]) (simp add: unat_hops push_unknown_fill hops_ok_def)
  then show ?thesis
    using assms by (cases v) (simp_all add: encode_hops_def decode_hops_def hops_seen_def emits_nil origin_list_emits)
qed

lemma announce_emits [codec_intros]:
  assumes "announce_ok a"
  shows "emits content (announce_encode_msg B v a) (announce_encode_msg sizer_writer v a) (announce_decode_msg v) (announce_seen v a)"
  by (insert assms, cases a; simp only: announce_encode_msg.simps announce_decode_msg_def;
    (rule emits_bind emits_map codec_intros | simp add: announce_ok_def; fail)+)

lemma announce_interest_emits [codec_intros]:
  assumes "path_ok (interest_prefix m)" "utf8 (interest_prefix m)"
  shows "emits content (announce_interest_encode_msg B v m) (announce_interest_encode_msg sizer_writer v m)
     (announce_interest_decode_msg v) (announce_interest_seen v m)"
  unfolding announce_interest_encode_msg_def announce_interest_decode_msg_def
  by (insert assms, cases m; cases v; simp add: announce_interest_seen_def dbind_norm;
    (rule emits_bind emits_map codec_intros | simp; fail)+)

lemma announce_init_emits [codec_intros]:
  assumes "\<forall>p\<in>set (suffixes m). path_ok p \<and> utf8 p" "length (suffixes m) \<le> usize_max"
  shows "emits content (announce_init_encode_msg B v m) (announce_init_encode_msg sizer_writer v m) (announce_init_decode_msg v) m"
proof (cases "v = Lite01 \<or> v = Lite02")
  case True
  have n: "unat (of_nat (length (suffixes m)) :: u64) = length (suffixes m)"
    using assms(2) by (simp add: unat_of_nat take_bit_nat_eq_self)
  have "emits content (eseq (map (path_encode B (Lite v)) (suffixes m))) (eseq (map (path_encode sizer_writer (Lite v)) (suffixes m)))
     (drepeat (length (suffixes m)) (path_decode (Lite v))) (suffixes m)"
    using assms(1) by (intro emits_repeat path_emits) auto
  with n show ?thesis
    unfolding announce_init_encode_msg_def announce_init_decode_msg_def if_P [OF True]
    by (cases m) (intro emits_bind [OF u64_emits] emits_map, simp_all)
next
  case False
  then show ?thesis by (simp add: announce_init_encode_msg_def emits_fail)
qed

lemma subscribe_emits [codec_intros]:
  assumes "path_ok (sub_broadcast m)" "utf8 (sub_broadcast m)" "utf8 (sub_track m)"
  shows "emits content (subscribe_encode_msg B v m) (subscribe_encode_msg sizer_writer v m)
     (subscribe_decode_msg v) (subscribe_seen v m)"
  unfolding subscribe_encode_msg_def subscribe_decode_msg_def
  by (insert assms, cases m; cases v; simp add: subscribe_seen_def dbind_norm;
    (rule emits_bind emits_map codec_intros | simp; fail)+)

lemma subscribe_ok_emits [codec_intros]:
  "emits content (subscribe_ok_encode_msg B v m) (subscribe_ok_encode_msg sizer_writer v m)
     (subscribe_ok_decode_msg v) (subscribe_ok_seen v m)"
  unfolding subscribe_ok_encode_msg_def subscribe_ok_decode_msg_def
  by (cases m; cases v; simp add: subscribe_ok_seen_def dbind_norm;
    (rule emits_bind emits_map codec_intros | simp; fail)+)

lemma subscribe_update_emits [codec_intros]:
  "emits content (subscribe_update_encode_msg B v m) (subscribe_update_encode_msg sizer_writer v m)
     (subscribe_update_decode_msg v) (subscribe_update_seen m)"
  unfolding subscribe_update_encode_msg_def subscribe_update_decode_msg_def update_group_codec
  by (cases m; cases v; simp add: subscribe_update_seen_def;
    (rule emits_bind emits_map codec_intros | simp; fail)+)

lemma subscribe_drop_emits [codec_intros]:
  "emits content (subscribe_drop_encode_msg B v m) (subscribe_drop_encode_msg sizer_writer v m)
     (subscribe_drop_decode_msg v) m"
  unfolding subscribe_drop_encode_msg_def subscribe_drop_decode_msg_def
  by (cases m; cases v; simp; (rule emits_bind emits_map codec_intros | simp; fail)+)

lemma subscribe_response_emits [codec_intros]:
  "emits content (subscribe_response_encode B v m) (subscribe_response_encode sizer_writer v m)
     (subscribe_response_decode v) (subscribe_response_seen v m)"
  unfolding subscribe_response_decode_def
  by (cases m; cases v; simp; (rule emits_fail emits_bind emits_map codec_intros | simp; fail
    | simp only: refl if_True if_False one_neq_zero)+)

lemma group_emits [codec_intros]:
  "emits content (group_encode_msg B v m) (group_encode_msg sizer_writer v m) (group_decode_msg v) m"
  unfolding group_encode_msg_def group_decode_msg_def
  by (cases m; simp; (rule emits_bind emits_map codec_intros | simp; fail)+)

lemma fetch_emits [codec_intros]:
  assumes "path_ok (fetch_broadcast m)" "utf8 (fetch_broadcast m)" "utf8 (fetch_track m)"
  shows "emits content (fetch_encode_msg B v m) (fetch_encode_msg sizer_writer v m) (fetch_decode_msg v) m"
  unfolding fetch_encode_msg_def fetch_decode_msg_def
  by (insert assms, cases m; cases v; simp; (rule emits_bind emits_map codec_intros | simp; fail)+)

lemma probe_emits [codec_intros]:
  "emits content (probe_encode_msg B v m) (probe_encode_msg sizer_writer v m) (probe_decode_msg v) (probe_seen v m)"
  unfolding probe_encode_msg_def probe_decode_msg_def
  by (cases m; cases v; simp add: probe_seen_def dbind_norm;
    (rule emits_bind emits_map codec_intros | simp add: max_one split: option.split; fail)+)

lemma session_info_emits [codec_intros]:
  "emits content (session_info_encode_msg B v m) (session_info_encode_msg sizer_writer v m)
     (session_info_decode_msg v) (session_info_seen m)"
  unfolding session_info_encode_msg_def session_info_decode_msg_def
  by (cases m; cases v; simp;
    (rule emits_bind emits_map codec_intros | simp add: session_info_seen_def split: option.split; fail)+)

lemma goaway_emits [codec_intros]:
  assumes "utf8 (goaway_uri m)"
  shows "emits content (goaway_encode_msg B v m) (goaway_encode_msg sizer_writer v m) (goaway_decode_msg v) m"
  unfolding goaway_encode_msg_def goaway_decode_msg_def
  by (insert assms, cases m; cases v; simp; (rule emits_bind emits_map codec_intros | simp; fail)+)

lemma control_emits [codec_intros]:
  "emits content (control_encode B v t) (control_encode sizer_writer v t) (control_decode v) t"
  unfolding control_encode_def control_decode_def by (rule emits_map [OF u64_emits]) (cases t; simp)

lemma data_emits [codec_intros]:
  "emits content (data_encode B v t) (data_encode sizer_writer v t) (data_decode v) t"
  unfolding data_encode_def data_decode_def by (rule emits_map [OF u64_emits]) (cases t; simp)

lemma params_loop_emits:
  assumes "distinct (map fst kvs)" "\<forall>k\<in>fst ` set kvs. m k = None"
  shows "emits content (eseq (map (param_encode B v) kvs)) (eseq (map (param_encode sizer_writer v) kvs))
     (params_loop v (length kvs) m) (m ++ map_of kvs)"
  using assms
proof (induction kvs arbitrary: m)
  case Nil
  show ?case by (simp add: emits_nil)
next
  case (Cons kv kvs)
  let ?m = "m(fst kv \<mapsto> snd kv)"
  have eq: "m ++ map_of (kv # kvs) = ?m ++ map_of kvs"
    using Cons.prems(1) by (auto simp: map_add_def fun_eq_iff map_of_eq_None_iff image_iff split: option.splits)
  have IH: "emits content (eseq (map (param_encode B v) kvs)) (eseq (map (param_encode sizer_writer v) kvs))
     (params_loop v (length kvs) ?m) (?m ++ map_of kvs)"
    using Cons.prems by (intro Cons.IH) (auto simp: image_iff)
  show ?case
    unfolding eq list.map eseq.simps length_Cons params_loop.simps
      param_encode_def [of B v kv] param_encode_def [of sizer_writer v kv] ebind_assoc
    using Cons.prems(2) by (intro emits_bind [OF u64_emits]) (simp, rule emits_bind [OF bytes_emits], rule IH)
qed

lemma lite_params_emits [codec_intros]:
  assumes "distinct (map fst kvs)"
  shows "emits content (params_encode B v kvs) (params_encode sizer_writer v kvs) (params_decode v) (map_of kvs)"
proof (cases "LITE_MAX_PARAMS < length kvs")
  case False
  then have n: "length kvs \<le> unat varint_max" "unat (of_nat (length kvs) :: u64) = length kvs"
    by (simp_all add: LITE_MAX_PARAMS_def unat_varint_max unat_of_nat take_bit_nat_eq_self)
  show ?thesis
    unfolding params_encode_def params_decode_def if_not_P [OF False] usize_encode_in_range [OF n(1)] u64_decode_def
    by (rule emits_bind [OF varint_emits]) (use params_loop_emits [OF assms, of "\<lambda>_. None" v] False n(2) in simp)
qed (simp add: params_encode_def emits_fail)

text \<open>Messages with fields in range are written.\<close>

lemma msg_writes [size_intros]:
  "writes B e sz n \<Longrightarrow> n \<le> unat varint_max \<Longrightarrow> writes B (msg_encode B v sz e) (msg_encode sizer_writer v sz sz) (9 + n)"
  unfolding msg_encode_def by (rule message_writes)

lemma flag_writes [size_intros]: "writes B (flag_encode B b) (flag_encode sizer_writer b) 1"
  unfolding flag_encode_def by (rule u8_writes)

lemma hops_writes [size_intros]:
  assumes "hops_ok hs" "\<forall>h\<in>set hs. h \<le> varint_max"
  shows "writes B (encode_hops B v hs) (encode_hops sizer_writer v hs) 297"
proof -
  have "writes B (u64_encode B (Lite Lite03) (of_nat (length hs))) (u64_encode sizer_writer (Lite Lite03) (of_nat (length hs))) 297"
    by (rule writes_mono [OF u64_writes [OF hop_count_in_range]]) (simp_all add: assms(1))
  then show ?thesis
    using assms by (cases v) (simp_all add: encode_hops_def writes_mono [OF writes_enil] origin_list_writes)
qed

lemma announce_writes [size_intros]:
  assumes "announce_ok a" "\<forall>h\<in>set (hops a). h \<le> varint_max" "length (suffix a) \<le> unat varint_max"
  shows "writes B (announce_encode_msg B v a) (announce_encode_msg sizer_writer v a) (length (suffix a) + 307)"
  by (insert assms, cases a; simp add: announce_status_encode_def;
    (rule writes_mono, (rule writes_bind size_intros | simp add: announce_ok_def; fail)+))

lemma subscribe_writes [size_intros]:
  assumes "sub_id m \<le> varint_max" "length (sub_broadcast m) \<le> unat varint_max" "length (sub_track m) \<le> unat varint_max"
    "as_millis (sub_max_latency m) \<le> unat varint_max"
    "\<And>g. sub_start_group m = Some g \<Longrightarrow> g < varint_max" "\<And>g. sub_end_group m = Some g \<Longrightarrow> g < varint_max"
  shows "writes B (subscribe_encode_msg B v m) (subscribe_encode_msg sizer_writer v m)
     (length (sub_broadcast m) + length (sub_track m) + 56)"
  unfolding subscribe_encode_msg_def
  by (insert assms, cases "v = Lite01 \<or> v = Lite02"; simp only: if_True if_False;
    (rule writes_mono, (rule writes_bind writes_enil size_intros | simp; fail)+))

lemma subscribe_ok_writes [size_intros]:
  assumes "as_millis (ok_max_latency m) \<le> unat varint_max"
    "\<And>g. ok_start_group m = Some g \<Longrightarrow> g < varint_max" "\<And>g. ok_end_group m = Some g \<Longrightarrow> g < varint_max"
  shows "writes B (subscribe_ok_encode_msg B v m) (subscribe_ok_encode_msg sizer_writer v m) 29"
  unfolding subscribe_ok_encode_msg_def
  by (insert assms, cases v; simp only: lite_version.case;
    (rule writes_mono, (rule writes_bind writes_enil size_intros | simp; fail)+))

lemma subscribe_drop_writes [size_intros]:
  assumes "drop_start d \<le> varint_max" "drop_end d \<le> varint_max" "drop_error d \<le> varint_max" "\<not> (v = Lite01 \<or> v = Lite02)"
  shows "writes B (subscribe_drop_encode_msg B v d) (subscribe_drop_encode_msg sizer_writer v d) 27"
  unfolding subscribe_drop_encode_msg_def if_not_P [OF assms(4)]
  by (insert assms, rule writes_mono, (rule writes_bind size_intros | simp; fail)+)

lemma response_ok_writes:
  assumes "as_millis (ok_max_latency m) \<le> unat varint_max"
    "\<And>g. ok_start_group m = Some g \<Longrightarrow> g < varint_max" "\<And>g. ok_end_group m = Some g \<Longrightarrow> g < varint_max"
  shows "writes B (subscribe_response_encode B v (RespOk m)) (subscribe_response_encode sizer_writer v (RespOk m)) 47"
  unfolding subscribe_response_encode.simps Let_def
  by (insert assms, cases "v = Lite01 \<or> v = Lite02"; simp only: if_True if_False;
    (rule writes_mono, (rule writes_bind size_intros | simp add: unat_varint_max; fail)+))

lemma response_drop_writes:
  assumes "drop_start d \<le> varint_max" "drop_end d \<le> varint_max" "drop_error d \<le> varint_max" "\<not> (v = Lite01 \<or> v = Lite02)"
  shows "writes B (subscribe_response_encode B v (RespDrop d)) (subscribe_response_encode sizer_writer v (RespDrop d)) 45"
  unfolding subscribe_response_encode.simps if_not_P [OF assms(4)]
  by (insert assms, rule writes_mono, (rule writes_bind size_intros | simp add: unat_varint_max; fail)+)

end

section \<open>Decoded messages are canonical\<close>

lemma push_unknown_decoded:
  "push_unknown n xs r = Inr (hs, r') \<Longrightarrow> length xs \<le> MAX_HOPS \<Longrightarrow> hs = xs @ replicate n UNKNOWN \<and> hops_ok hs"
proof (induction n arbitrary: xs)
  case (Suc n)
  then have "length xs < MAX_HOPS" by (auto simp: origin_push_def dfail_app split: if_splits)
  with Suc.IH [of "xs @ [UNKNOWN]"] Suc.prems show ?case by (auto simp: origin_push_def)
qed (simp add: dret_app hops_ok_def)

lemma hops_decoded: "decode_hops v r = Inr (hs, r') \<Longrightarrow> hops_ok hs \<and> hops_seen v hs = hs"
  by (cases v) (auto simp: decode_hops_def hops_seen_def dret_app dbind_Inr_conv hops_ok_def
      dest: push_unknown_decoded dest!: hops_ok_decode)

lemma announce_decoded:
  assumes "announce_decode_msg v r = Inr (a, r')"
  shows "announce_ok a \<and> announce_seen v a = a"
proof -
  obtain st sfx hs r1 r2 r3 where st: "path_decode (Lite v) r1 = Inr (sfx, r2)" "decode_hops v r2 = Inr (hs, r3)"
    "a = (case st of Active \<Rightarrow> AnnActive sfx hs | Ended \<Rightarrow> AnnEnded sfx hs)"
    using assms unfolding announce_decode_msg_def dbind_Inr_conv dret_app by blast
  from path_decoded [OF st(1)] hops_decoded [OF st(2)] show ?thesis
    by (cases st) (simp_all add: st(3) announce_ok_def)
qed

lemma subscribe_decoded:
  assumes "subscribe_decode_msg v r = Inr (m, r')"
  shows "path_ok (sub_broadcast m) \<and> utf8 (sub_broadcast m) \<and> utf8 (sub_track m) \<and> subscribe_seen v m = m"
proof (cases "v = Lite01 \<or> v = Lite02")
  case True
  from assms obtain i bc tr pri r1 r2 r3 where "path_decode (Lite v) r1 = Inr (bc, r2)" "string_decode (Lite v) r2 = Inr (tr, r3)"
    "m = \<lparr>sub_id = i, sub_broadcast = bc, sub_track = tr, sub_priority = pri, sub_ordered = False,
       sub_max_latency = 0, sub_start_group = None, sub_end_group = None\<rparr>"
    unfolding subscribe_decode_msg_def dbind_Inr_conv dret_app if_P [OF True] by auto
  with True show ?thesis by (auto simp: subscribe_seen_def dest: path_decoded string_decoded)
next
  case False
  from assms obtain i bc tr pri ord lat sg eg r1 r2 r3 r4 r5 where "path_decode (Lite v) r1 = Inr (bc, r2)"
    "string_decode (Lite v) r2 = Inr (tr, r3)" "duration_decode (Lite v) r4 = Inr (lat, r5)"
    "m = \<lparr>sub_id = i, sub_broadcast = bc, sub_track = tr, sub_priority = pri, sub_ordered = ord,
       sub_max_latency = lat, sub_start_group = sg, sub_end_group = eg\<rparr>"
    unfolding subscribe_decode_msg_def dbind_Inr_conv dret_app if_not_P [OF False] by auto
  with False show ?thesis by (auto simp: subscribe_seen_def dest: path_decoded string_decoded duration_decoded)
qed

section \<open>Properties of the moq-lite messages\<close>

interpretation announce_codec: wire_codec bytes_mut "\<lambda>out. out"
  "\<lambda>a. msg_encode bytes_mut v (announce_encode_msg sizer_writer v a) (announce_encode_msg bytes_mut v a)"
  "\<lambda>a. msg_encode sizer_writer v (announce_encode_msg sizer_writer v a) (announce_encode_msg sizer_writer v a)"
  "msg_decode v (announce_decode_msg v)" announce_ok "announce_seen v" for v
  by unfold_locales (rule bytes_mut.msg_emits [OF bytes_mut.announce_emits])

interpretation subscribe_codec: wire_codec bytes_mut "\<lambda>out. out"
  "\<lambda>m. msg_encode bytes_mut v (subscribe_encode_msg sizer_writer v m) (subscribe_encode_msg bytes_mut v m)"
  "\<lambda>m. msg_encode sizer_writer v (subscribe_encode_msg sizer_writer v m) (subscribe_encode_msg sizer_writer v m)"
  "msg_decode v (subscribe_decode_msg v)" "\<lambda>m. path_ok (sub_broadcast m) \<and> utf8 (sub_broadcast m) \<and> utf8 (sub_track m)"
  "subscribe_seen v" for v
  by unfold_locales (auto intro: bytes_mut.msg_emits bytes_mut.subscribe_emits)

interpretation response_codec: wire_codec bytes_mut "\<lambda>out. out"
  "subscribe_response_encode bytes_mut v" "subscribe_response_encode sizer_writer v" "subscribe_response_decode v"
  "\<lambda>_. True" "subscribe_response_seen v" for v
  by unfold_locales (rule bytes_mut.subscribe_response_emits)

text \<open>
  C26: an ANNOUNCE with a well-formed suffix and hops below \<open>2^62\<close> is written by any writer with the
  room, at every moq-lite version; the peer decodes the suffix and status unchanged and of the hops
  what the version carries: nothing before lite-03, only their number at lite-03, all of them later.
  Every proper prefix of the message decodes to \<open>Short\<close>. The hops may contain the placeholder id 0, which round-trips
  like any other id.
\<close>

theorem lite_announce_wire:
  assumes "writer B content" "announce_ok a" "\<forall>h\<in>set (hops a). h \<le> varint_max" "length (suffix a) + 307 \<le> unat varint_max"
  shows "delivers B content (msg_encode B v (announce_encode_msg sizer_writer v a) (announce_encode_msg B v a))
     (msg_encode sizer_writer v (announce_encode_msg sizer_writer v a) (announce_encode_msg sizer_writer v a))
     (msg_decode v (announce_decode_msg v)) (announce_seen v a) (9 + (length (suffix a) + 307))"
  using assms
  by (intro deliversI writer.msg_emits writer.announce_emits writer.msg_writes writer.announce_writes) simp_all

theorem lite_announce_wire_witness:
  "delivers bytes_mut (\<lambda>out. out) (msg_encode bytes_mut Lite03 (announce_encode_msg sizer_writer Lite03 (AnnActive ''a/b'' [5, 6]))
       (announce_encode_msg bytes_mut Lite03 (AnnActive ''a/b'' [5, 6])))
     (msg_encode sizer_writer Lite03 (announce_encode_msg sizer_writer Lite03 (AnnActive ''a/b'' [5, 6]))
       (announce_encode_msg sizer_writer Lite03 (AnnActive ''a/b'' [5, 6])))
     (msg_decode Lite03 (announce_decode_msg Lite03)) (AnnActive ''a/b'' [0, 0]) 319"
  using lite_announce_wire [OF bytes_mut.writer_axioms, of "AnnActive ''a/b'' [5, 6]" Lite03]
  by (simp add: announce_ok_def path_ok_def hops_ok_def MAX_HOPS_def varint_max_def push_bit_of_1 unat_varint_max
      as_bytes_def byte_of_char_def hops_seen_def UNKNOWN_def)

text \<open>
  C27: a SUBSCRIBE with a well-formed broadcast path, a UTF-8 track name and fields in range is written
  by any writer with the room; the peer decodes it unchanged, up to the ordering, latency and group
  fields before lite-03 and the sub-millisecond part of the latency from lite-03 on.
\<close>

theorem lite_subscribe_wire:
  assumes "writer B content" "path_ok (sub_broadcast m)" "utf8 (sub_broadcast m)" "utf8 (sub_track m)"
    "sub_id m \<le> varint_max" "as_millis (sub_max_latency m) \<le> unat varint_max"
    "\<forall>g. sub_start_group m = Some g \<or> sub_end_group m = Some g \<longrightarrow> g < varint_max"
    "length (sub_broadcast m) + length (sub_track m) + 56 \<le> unat varint_max"
  shows "delivers B content (msg_encode B v (subscribe_encode_msg sizer_writer v m) (subscribe_encode_msg B v m))
     (msg_encode sizer_writer v (subscribe_encode_msg sizer_writer v m) (subscribe_encode_msg sizer_writer v m))
     (msg_decode v (subscribe_decode_msg v)) (subscribe_seen v m)
     (9 + (length (sub_broadcast m) + length (sub_track m) + 56))"
  using assms
  by (intro deliversI writer.msg_emits writer.subscribe_emits writer.msg_writes writer.subscribe_writes) simp_all

theorem lite_subscribe_wire_witness:
  "\<exists>m. sub_track m = ''video'' \<and>
     delivers bytes_mut (\<lambda>out. out) (msg_encode bytes_mut Lite04 (subscribe_encode_msg sizer_writer Lite04 m)
       (subscribe_encode_msg bytes_mut Lite04 m))
     (msg_encode sizer_writer Lite04 (subscribe_encode_msg sizer_writer Lite04 m) (subscribe_encode_msg sizer_writer Lite04 m))
     (msg_decode Lite04 (subscribe_decode_msg Lite04)) (m\<lparr>sub_max_latency := 1000000\<rparr>) 73"
proof -
  let ?m = "\<lparr>sub_id = 3, sub_broadcast = ''a/b'', sub_track = ''video'', sub_priority = 2, sub_ordered = True,
    sub_max_latency = 1500000, sub_start_group = Some 7, sub_end_group = None\<rparr>"
  have "delivers bytes_mut (\<lambda>out. out) (msg_encode bytes_mut Lite04 (subscribe_encode_msg sizer_writer Lite04 ?m)
       (subscribe_encode_msg bytes_mut Lite04 ?m))
     (msg_encode sizer_writer Lite04 (subscribe_encode_msg sizer_writer Lite04 ?m) (subscribe_encode_msg sizer_writer Lite04 ?m))
     (msg_decode Lite04 (subscribe_decode_msg Lite04)) (subscribe_seen Lite04 ?m)
     (9 + (length (sub_broadcast ?m) + length (sub_track ?m) + 56))"
    by (rule lite_subscribe_wire [OF bytes_mut.writer_axioms])
      (simp_all add: path_ok_def varint_max_def push_bit_of_1 unat_varint_max as_bytes_def byte_of_char_def as_millis_def)
  then show ?thesis by (intro exI [of _ ?m]) (simp add: subscribe_seen_def whole_millis_def)
qed

text \<open>
  C28: whatever bytes arrive, a decoded ANNOUNCE or SUBSCRIBE is well formed (normalised path, UTF-8
  strings, at most \<open>MAX_HOPS\<close> hops) and canonical: sending it on at the same version loses nothing.
\<close>

theorem lite_decoded_canonical:
  "(msg_decode v (announce_decode_msg v) r = Inr (a, r') \<longrightarrow> announce_ok a \<and> announce_seen v a = a)
   \<and> (msg_decode v (subscribe_decode_msg v) r = Inr (m, r') \<longrightarrow>
       path_ok (sub_broadcast m) \<and> utf8 (sub_broadcast m) \<and> utf8 (sub_track m) \<and> subscribe_seen v m = m)"
  unfolding msg_decode_def by (meson announce_decoded message_decoded subscribe_decoded)

theorem lite_decoded_canonical_witness:
  "msg_decode Lite03 (announce_decode_msg Lite03) [6, 1, 3, 47, 97, 47, 2] = Inr (AnnActive ''a'' [0, 0], [])
   \<and> announce_ok (AnnActive ''a'' [0, 0]) \<and> announce_seen Lite03 (AnnActive ''a'' [0, 0]) = AnnActive ''a'' [0, 0]"
proof -
  have "msg_decode Lite03 (announce_decode_msg Lite03) [6, 1, 3, 47, 97, 47, 2] = Inr (AnnActive ''a'' [0, 0], [])"
    by code_simp
  with lite_decoded_canonical [of Lite03 "[6, 1, 3, 47, 97, 47, 2]" "AnnActive ''a'' [0, 0]" "[]"] show ?thesis by blast
qed

text \<open>
  C29: the answers on a subscribe stream. A SUBSCRIBE_OK with fields in range is written at every
  version, and the peer decodes the fields the version has; a SUBSCRIBE_DROP with fields in range is
  written and decoded unchanged from lite-03 on and refused before.
\<close>

theorem lite_subscribe_response_wire:
  assumes "writer B content" "as_millis (ok_max_latency m) \<le> unat varint_max"
    "\<forall>g. ok_start_group m = Some g \<or> ok_end_group m = Some g \<longrightarrow> g < varint_max"
    "drop_start d \<le> varint_max" "drop_end d \<le> varint_max" "drop_error d \<le> varint_max"
  shows "delivers B content (subscribe_response_encode B v (RespOk m)) (subscribe_response_encode sizer_writer v (RespOk m))
       (subscribe_response_decode v) (RespOk (subscribe_ok_seen v m)) 47
     \<and> (if v = Lite01 \<or> v = Lite02 then subscribe_response_encode B v (RespDrop d) w = Inl EncodeVersion
        else delivers B content (subscribe_response_encode B v (RespDrop d)) (subscribe_response_encode sizer_writer v (RespDrop d))
          (subscribe_response_decode v) (RespDrop d) 45)"
proof
  show "delivers B content (subscribe_response_encode B v (RespOk m)) (subscribe_response_encode sizer_writer v (RespOk m))
       (subscribe_response_decode v) (RespOk (subscribe_ok_seen v m)) 47"
    using writer.subscribe_response_emits [OF assms(1), of v "RespOk m"] assms
    by (intro deliversI writer.response_ok_writes) simp_all
  have "\<not> (v = Lite01 \<or> v = Lite02) \<Longrightarrow>
      delivers B content (subscribe_response_encode B v (RespDrop d)) (subscribe_response_encode sizer_writer v (RespDrop d))
          (subscribe_response_decode v) (RespDrop d) 45"
    using writer.subscribe_response_emits [OF assms(1), of v "RespDrop d"] assms
    by (intro deliversI writer.response_drop_writes) simp_all
  then show "if v = Lite01 \<or> v = Lite02 then subscribe_response_encode B v (RespDrop d) w = Inl EncodeVersion
        else delivers B content (subscribe_response_encode B v (RespDrop d)) (subscribe_response_encode sizer_writer v (RespDrop d))
          (subscribe_response_decode v) (RespDrop d) 45"
    by (simp add: efail_app)
qed

theorem lite_subscribe_response_wire_witness:
  "delivers bytes_mut (\<lambda>out. out) (subscribe_response_encode bytes_mut Lite04 (RespDrop \<lparr>drop_start = 5, drop_end = 7, drop_error = 0\<rparr>))
     (subscribe_response_encode sizer_writer Lite04 (RespDrop \<lparr>drop_start = 5, drop_end = 7, drop_error = 0\<rparr>))
     (subscribe_response_decode Lite04) (RespDrop \<lparr>drop_start = 5, drop_end = 7, drop_error = 0\<rparr>) 45"
  using lite_subscribe_response_wire [OF bytes_mut.writer_axioms,
      of "\<lparr>ok_priority = 0, ok_ordered = False, ok_max_latency = 0, ok_start_group = None, ok_end_group = None\<rparr>"
        "\<lparr>drop_start = 5, drop_end = 7, drop_error = 0\<rparr>" Lite04]
  by (simp add: varint_max_def push_bit_of_1 as_millis_def)

end
