(* ===== verification/Std_Collections.thy ===== *)
theory Std_Collections
  imports Prelude "HOL-Library.Multiset"
begin

text \<open>
  The parts of the Rust standard library that the priority queue is built on, as the library implements
  them: \<open>slice::binary_search_by\<close> and \<open>BinaryHeap\<close>, an array in heap order with \<open>sift_up\<close> and
  \<open>sift_down_to_bottom\<close>. The heap functions take the order \<open>le\<close> of the elements as an argument.
\<close>

datatype ordering = Less | Equal | Greater

section \<open>Binary search\<close>

fun binary_search_loop :: "('a \<Rightarrow> ordering) \<Rightarrow> 'a list \<Rightarrow> nat \<Rightarrow> nat \<Rightarrow> nat" where
  "binary_search_loop f xs base n =
     (if 1 < n then
        (let half = n div 2; mid = base + half
         in binary_search_loop f xs (if f (xs ! mid) = Greater then base else mid) (n - half))
      else base)"

declare binary_search_loop.simps [simp del]

text \<open>\<open>Inr\<close> is a match, \<open>Inl\<close> the place at which the element is missing.\<close>

definition binary_search_by :: "('a \<Rightarrow> ordering) \<Rightarrow> 'a list \<Rightarrow> nat + nat" where
  "binary_search_by f xs =
     (if xs = [] then Inl 0
      else (let base = binary_search_loop f xs 0 (length xs)
            in if f (xs ! base) = Equal then Inr base
               else Inl (base + (if f (xs ! base) = Less then 1 else 0))))"

fun either_pos :: "nat + nat \<Rightarrow> nat" where
  "either_pos (Inl p) = p"
| "either_pos (Inr p) = p"

section \<open>Binary heap\<close>

definition swap :: "'a list \<Rightarrow> nat \<Rightarrow> nat \<Rightarrow> 'a list" where
  "swap xs i j = xs[i := xs ! j, j := xs ! i]"

fun sift_up :: "('a \<Rightarrow> 'a \<Rightarrow> bool) \<Rightarrow> 'a list \<Rightarrow> nat \<Rightarrow> nat \<Rightarrow> 'a list" where
  "sift_up le xs start pos =
     (if start < pos then
        (let parent = (pos - 1) div 2
         in if le (xs ! pos) (xs ! parent) then xs else sift_up le (swap xs pos parent) start parent)
      else xs)"

function sift_down_loop :: "('a \<Rightarrow> 'a \<Rightarrow> bool) \<Rightarrow> 'a list \<Rightarrow> nat \<Rightarrow> 'a list \<times> nat" where
  "sift_down_loop le xs pos =
     (let child = 2 * pos + 1
      in if child \<le> length xs - 2 then
           (let child = (if le (xs ! child) (xs ! (child + 1)) then child + 1 else child)
            in sift_down_loop le (swap xs pos child) child)
         else (xs, pos))"
  by pat_completeness auto
termination
  by (relation "measure (\<lambda>(le, xs, pos). length xs - pos)") (auto simp: Let_def swap_def split: if_splits)

declare sift_up.simps [simp del] sift_down_loop.simps [simp del]

definition sift_down_to_bottom :: "('a \<Rightarrow> 'a \<Rightarrow> bool) \<Rightarrow> 'a list \<Rightarrow> nat \<Rightarrow> 'a list" where
  "sift_down_to_bottom le xs start =
     (let (xs, pos) = sift_down_loop le xs start;
          child = 2 * pos + 1;
          (xs, pos) = (if child = length xs - 1 then (swap xs pos child, child) else (xs, pos))
      in sift_up le xs start pos)"

definition heap_push :: "('a \<Rightarrow> 'a \<Rightarrow> bool) \<Rightarrow> 'a \<Rightarrow> 'a list \<Rightarrow> 'a list" where
  "heap_push le x xs = sift_up le (xs @ [x]) 0 (length xs)"

definition heap_pop :: "('a \<Rightarrow> 'a \<Rightarrow> bool) \<Rightarrow> 'a list \<Rightarrow> ('a \<times> 'a list) option" where
  "heap_pop le xs =
     (if xs = [] then None
      else (let item = last xs; data = butlast xs
            in if data = [] then Some (item, [])
               else Some (data ! 0, sift_down_to_bottom le (data[0 := item]) 0)))"

definition heap_peek :: "'a list \<Rightarrow> 'a option" where
  "heap_peek xs = (if xs = [] then None else Some (xs ! 0))"

section \<open>Binary search finds the place of an element\<close>

definition place_ok :: "('a \<Rightarrow> ordering) \<Rightarrow> 'a list \<Rightarrow> nat \<Rightarrow> bool" where
  "place_ok f xs p \<longleftrightarrow> p \<le> length xs \<and> (\<forall>i<p. f (xs ! i) \<noteq> Greater) \<and> (\<forall>i. p \<le> i \<and> i < length xs \<longrightarrow> f (xs ! i) \<noteq> Less)"

definition ordered_by :: "('a \<Rightarrow> ordering) \<Rightarrow> 'a list \<Rightarrow> bool" where
  "ordered_by f xs \<longleftrightarrow> (\<forall>i j. i \<le> j \<and> j < length xs \<longrightarrow>
     (f (xs ! i) = Greater \<longrightarrow> f (xs ! j) = Greater) \<and> (f (xs ! j) = Less \<longrightarrow> f (xs ! i) = Less))"

lemma ordered_byD:
  assumes "ordered_by f xs" "i \<le> j" "j < length xs"
  shows "f (xs ! i) = Greater \<Longrightarrow> f (xs ! j) = Greater" "f (xs ! j) = Less \<Longrightarrow> f (xs ! i) = Less"
  using assms unfolding ordered_by_def by blast+

lemma binary_search_loop_inv:
  assumes "ordered_by f xs" "0 < n" "base + n \<le> length xs" "\<forall>i<base. f (xs ! i) \<noteq> Greater"
    "\<forall>i. base + n \<le> i \<and> i < length xs \<longrightarrow> f (xs ! i) = Greater"
  shows "binary_search_loop f xs base n < length xs
     \<and> (\<forall>i<binary_search_loop f xs base n. f (xs ! i) \<noteq> Greater)
     \<and> (\<forall>i. binary_search_loop f xs base n < i \<and> i < length xs \<longrightarrow> f (xs ! i) = Greater)"
  using assms
proof (induction f xs base n rule: binary_search_loop.induct)
  case (1 f xs base n)
  show ?case
  proof (cases "1 < n")
    case True
    let ?half = "n div 2" let ?mid = "base + ?half"
    have mid: "?mid < length xs" "0 < n - ?half" "?mid \<le> base + (n - ?half)" using True 1(4) by linarith+
    let ?base = "if f (xs ! ?mid) = Greater then base else ?mid"
    have up: "\<forall>i<?base. f (xs ! i) \<noteq> Greater"
    proof (cases "f (xs ! ?mid) = Greater")
      case False
      then have "\<forall>i<?mid. f (xs ! i) \<noteq> Greater" using ordered_byD(1) [OF 1(2) _ mid(1)] less_imp_le by blast
      with False show ?thesis by simp
    qed (use 1(5) in simp)
    have down: "\<forall>i. ?base + (n - ?half) \<le> i \<and> i < length xs \<longrightarrow> f (xs ! i) = Greater"
    proof (cases "f (xs ! ?mid) = Greater")
      case g: True
      then have "\<forall>i. ?mid \<le> i \<and> i < length xs \<longrightarrow> f (xs ! i) = Greater" using ordered_byD(1) [OF 1(2)] by blast
      with g mid(3) show ?thesis by simp
    qed (use 1(6) True in simp)
    have len: "?base + (n - ?half) \<le> length xs" using 1(4) True by auto
    have eq: "binary_search_loop f xs base n = binary_search_loop f xs ?base (n - ?half)"
      by (subst binary_search_loop.simps) (simp only: Let_def True if_True)
    show ?thesis unfolding eq by (rule 1(1) [OF True refl refl 1(2) mid(2) len up down])
  next
    case False
    then have n: "n = 1" using 1(3) by simp
    have "binary_search_loop f xs base n = base" using False by (subst binary_search_loop.simps) simp
    with 1(4-6) n show ?thesis by (simp add: Suc_le_eq)
  qed
qed

lemma binary_search_place:
  assumes "ordered_by f xs"
  shows "place_ok f xs (either_pos (binary_search_by f xs))"
proof (cases "xs = []")
  case False
  define b where "b = binary_search_loop f xs 0 (length xs)"
  have b: "b < length xs \<and> (\<forall>i<b. f (xs ! i) \<noteq> Greater) \<and> (\<forall>i. b < i \<and> i < length xs \<longrightarrow> f (xs ! i) = Greater)"
    unfolding b_def by (rule binary_search_loop_inv [OF assms]) (use False in auto)
  have pos: "either_pos (binary_search_by f xs) = (if f (xs ! b) = Less then b + 1 else b)"
    using False by (simp add: binary_search_by_def b_def [symmetric])
  show ?thesis
  proof (cases "f (xs ! b) = Less")
    case True
    then show ?thesis unfolding pos place_ok_def using b by (auto simp: less_Suc_eq Suc_le_eq)
  next
    case False
    then have "\<forall>i. b \<le> i \<and> i < length xs \<longrightarrow> f (xs ! i) \<noteq> Less" using ordered_byD(2) [OF assms, of b] by blast
    with False b show ?thesis unfolding pos place_ok_def by simp
  qed
qed (simp add: binary_search_by_def place_ok_def)

section \<open>Heap order\<close>

abbreviation parent :: "nat \<Rightarrow> nat" where
  "parent i \<equiv> (i - 1) div 2"

definition is_heap :: "('a \<Rightarrow> 'a \<Rightarrow> bool) \<Rightarrow> 'a list \<Rightarrow> bool" where
  "is_heap le xs \<longleftrightarrow> (\<forall>i. 0 < i \<and> i < length xs \<longrightarrow> le (xs ! i) (xs ! parent i))"

text \<open>In heap order but for the element at \<open>p\<close>, which may be too large for its parent.\<close>

definition heap_up :: "('a \<Rightarrow> 'a \<Rightarrow> bool) \<Rightarrow> 'a list \<Rightarrow> nat \<Rightarrow> bool" where
  "heap_up le xs p \<longleftrightarrow> (\<forall>i. 0 < i \<and> i < length xs \<and> i \<noteq> p \<longrightarrow> le (xs ! i) (xs ! parent i))
     \<and> (\<forall>c. 0 < c \<and> c < length xs \<and> parent c = p \<and> 0 < p \<longrightarrow> le (xs ! c) (xs ! parent p))"

text \<open>In heap order but for the element at \<open>p\<close>, which is arbitrary.\<close>

definition heap_hole :: "('a \<Rightarrow> 'a \<Rightarrow> bool) \<Rightarrow> 'a list \<Rightarrow> nat \<Rightarrow> bool" where
  "heap_hole le xs p \<longleftrightarrow> (\<forall>i. 0 < i \<and> i < length xs \<and> i \<noteq> p \<and> parent i \<noteq> p \<longrightarrow> le (xs ! i) (xs ! parent i))
     \<and> (\<forall>c. 0 < c \<and> c < length xs \<and> parent c = p \<and> 0 < p \<longrightarrow> le (xs ! c) (xs ! parent p))"

lemma swap_simps [simp]:
  "length (swap xs i j) = length xs"
  "i < length xs \<Longrightarrow> j < length xs \<Longrightarrow> mset (swap xs i j) = mset xs"
  by (simp_all add: swap_def mset_swap)

lemma nth_swap:
  "i < length xs \<Longrightarrow> j < length xs \<Longrightarrow> k < length xs \<Longrightarrow>
     swap xs i j ! k = (if k = j then xs ! i else if k = i then xs ! j else xs ! k)"
  by (auto simp: swap_def nth_list_update)

text \<open>A total preorder is what the comparison of the elements promises.\<close>

locale cmp_order =
  fixes le :: "'a \<Rightarrow> 'a \<Rightarrow> bool"
  assumes le_total: "le a b \<or> le b a" and le_trans: "le a b \<Longrightarrow> le b c \<Longrightarrow> le a c"
begin

lemma le_refl: "le a a"
  using le_total by blast

lemma heap_up_swap:
  assumes "heap_up le xs p" "0 < p" "p < length xs" "\<not> le (xs ! p) (xs ! parent p)"
  shows "heap_up le (swap xs p (parent p)) (parent p)"
proof -
  let ?q = "parent p" and ?ys = "swap xs p (parent p)"
  have q: "?q < p" "?q < length xs" using assms(2,3) by linarith+
  have pq: "le (xs ! ?q) (xs ! p)" using le_total assms(4) by blast
  have up: "le (xs ! i) (xs ! parent i)" if "0 < i" "i < length xs" "i \<noteq> p" for i
    using assms(1) that unfolding heap_up_def by blast
  have kids: "le (xs ! c) (xs ! ?q)" if "0 < c" "c < length xs" "parent c = p" for c
    using assms(1,2) that unfolding heap_up_def by blast
  have "le (?ys ! i) (?ys ! parent i)" if i: "0 < i" "i < length xs" "i \<noteq> ?q" for i
  proof (cases "i = p")
    case True
    then show ?thesis using q assms(3) pq by (simp add: nth_swap)
  next
    case False
    have "parent i < length xs" using i by linarith
    then show ?thesis
      using False i q assms(3) up [of i] kids [of i] le_trans [of "xs ! i" "xs ! ?q" "xs ! p"] pq by (auto simp: nth_swap)
  qed
  moreover have "le (?ys ! c) (?ys ! parent ?q)" if c: "0 < c" "c < length xs" "parent c = ?q" "0 < ?q" for c
  proof -
    have r: "parent ?q < ?q" "parent ?q < length xs" using c q by linarith+
    have qr: "le (xs ! ?q) (xs ! parent ?q)" using up [of ?q] c(4) q by simp
    have "c \<noteq> ?q" using c by linarith
    then show ?thesis
      using c q r qr assms(3) up [of c] le_trans [of "xs ! c" "xs ! ?q" "xs ! parent ?q"] by (auto simp: nth_swap)
  qed
  ultimately show ?thesis unfolding heap_up_def by auto
qed

lemma sift_up_heap:
  "heap_up le xs p \<Longrightarrow> p < length xs \<Longrightarrow> is_heap le (sift_up le xs 0 p) \<and> mset (sift_up le xs 0 p) = mset xs"
proof (induction p arbitrary: xs rule: less_induct)
  case (less p)
  show ?case
  proof (cases "0 < p \<and> \<not> le (xs ! p) (xs ! parent p)")
    case True
    have q: "parent p < p" "parent p < length xs" using True less.prems(2) by linarith+
    have "sift_up le xs 0 p = sift_up le (swap xs p (parent p)) 0 (parent p)"
      using True by (subst sift_up.simps) (simp add: Let_def)
    with less.IH [OF q(1) heap_up_swap] True less.prems q show ?thesis by simp
  next
    case False
    have "sift_up le xs 0 p = xs" using False by (subst sift_up.simps) (auto simp: Let_def)
    moreover have "is_heap le xs"
      using False less.prems(1) unfolding heap_up_def is_heap_def by blast
    ultimately show ?thesis by simp
  qed
qed

lemma heap_hole_swap:
  assumes "heap_hole le xs p" "0 < c" "c < length xs" "parent c = p" "\<And>d. 0 < d \<Longrightarrow> d < length xs \<Longrightarrow> parent d = p \<Longrightarrow> le (xs ! d) (xs ! c)"
  shows "heap_hole le (swap xs p c) c"
proof -
  let ?ys = "swap xs p c"
  have p: "p < c" "p < length xs" using assms(2-4) by linarith+
  have up: "le (xs ! i) (xs ! parent i)" if "0 < i" "i < length xs" "i \<noteq> p" "parent i \<noteq> p" for i
    using assms(1) that unfolding heap_hole_def by blast
  have kids: "le (xs ! d) (xs ! parent p)" if "0 < d" "d < length xs" "parent d = p" "0 < p" for d
    using assms(1) that unfolding heap_hole_def by blast
  have "le (?ys ! i) (?ys ! parent i)" if i: "0 < i" "i < length xs" "i \<noteq> c" "parent i \<noteq> c" for i
  proof -
    have "parent i < i" "parent i < length xs" using i by linarith+
    then show ?thesis
      using i p assms(2-4) assms(5) [of i] up [of i] kids [of c] by (auto simp: nth_swap)
  qed
  moreover have "le (?ys ! d) (?ys ! parent c)" if d: "0 < d" "d < length xs" "parent d = c" for d
  proof -
    have "c < d" using d assms(2) by linarith
    then show ?thesis using d p assms(2-4) up [of d] by (auto simp: nth_swap)
  qed
  ultimately show ?thesis unfolding heap_hole_def by auto
qed

text \<open>The loop moves the hole down to a place with at most one child, which is then the last element.\<close>

lemma children: "0 < d \<Longrightarrow> parent d = p \<longleftrightarrow> d = 2 * p + 1 \<or> d = 2 * p + 2"
  by (auto simp: div_nat_eqI)

lemma sift_down_loop_hole:
  "heap_hole le xs p \<Longrightarrow> p < length xs \<Longrightarrow> sift_down_loop le xs p = (ys, q) \<Longrightarrow>
     heap_hole le ys q \<and> q < length ys \<and> mset ys = mset xs \<and> length ys = length xs \<and> \<not> 2 * q + 1 \<le> length ys - 2"
proof (induction "length xs - p" arbitrary: xs p rule: less_induct)
  case less
  show ?case
  proof (cases "2 * p + 1 \<le> length xs - 2")
    case True
    define c where "c = (if le (xs ! (2 * p + 1)) (xs ! (2 * p + 1 + 1)) then 2 * p + 1 + 1 else 2 * p + 1)"
    have c: "0 < c" "c < length xs" "parent c = p" "p < c" using True less.prems(2) by (auto simp: c_def)
    have big: "le (xs ! d) (xs ! c)" if d: "0 < d" "d < length xs" "parent d = p" for d
    proof -
      consider "d = 2 * p + 1" | "d = 2 * p + 2" using children [OF d(1), of p] d(3) by blast
      then show ?thesis
        by cases (use le_refl le_total [of "xs ! (2 * p + 1)" "xs ! (2 * p + 2)"] in \<open>auto simp: c_def\<close>)
    qed
    have hole: "heap_hole le (swap xs p c) c" by (rule heap_hole_swap [OF less.prems(1) c(1-3) big])
    have eq: "sift_down_loop le xs p = sift_down_loop le (swap xs p c) c"
      using True unfolding c_def by (subst sift_down_loop.simps) (simp only: Let_def if_True)
    have "length (swap xs p c) - c < length xs - p" using c(2,4) less.prems(2) by simp
    from less.hyps [OF this hole] c less.prems(2,3) show ?thesis unfolding eq by auto
  next
    case False
    then have "sift_down_loop le xs p = (xs, p)" by (subst sift_down_loop.simps) (simp add: Let_def)
    with less.prems False show ?thesis by auto
  qed
qed

lemma sift_down_heap:
  assumes "heap_hole le xs 0" "xs \<noteq> []"
  shows "is_heap le (sift_down_to_bottom le xs 0) \<and> mset (sift_down_to_bottom le xs 0) = mset xs"
proof -
  obtain ys q where loop: "sift_down_loop le xs 0 = (ys, q)" by fastforce
  have ys: "heap_hole le ys q" "q < length ys" "mset ys = mset xs" "\<not> 2 * q + 1 \<le> length ys - 2"
    using sift_down_loop_hole [OF assms(1) _ loop] assms(2) by (blast intro: length_greater_0_conv [THEN iffD2])+
  have leaf: "heap_up le zs p" if "heap_hole le zs p" "\<not> 2 * p + 1 < length zs" for zs p
  proof -
    have "parent c \<noteq> p" if "0 < c" "c < length zs" for c using that \<open>\<not> 2 * p + 1 < length zs\<close> by linarith
    with that(1) show ?thesis unfolding heap_hole_def heap_up_def by blast
  qed
  show ?thesis
  proof (cases "2 * q + 1 = length ys - 1")
    case True
    let ?c = "2 * q + 1"
    have c: "?c < length ys" "parent ?c = q" using True ys(2) by linarith+
    have "le (ys ! d) (ys ! ?c)" if "0 < d" "d < length ys" "parent d = q" for d
      using children [OF that(1), of q] that le_refl c True by auto
    then have "heap_hole le (swap ys q ?c) ?c"
      using ys(1) c by (intro heap_hole_swap) simp_all
    then have "heap_up le (swap ys q ?c) ?c" using True by (intro leaf) simp_all
    from sift_up_heap [OF this] True ys c show ?thesis by (simp add: sift_down_to_bottom_def loop)
  next
    case False
    then have "heap_up le ys q" using ys(4) by (intro leaf [OF ys(1)]) linarith
    from sift_up_heap [OF this ys(2)] False ys(3) show ?thesis by (simp add: sift_down_to_bottom_def loop)
  qed
qed

lemma heap_push_heap:
  assumes "is_heap le xs"
  shows "is_heap le (heap_push le x xs) \<and> mset (heap_push le x xs) = add_mset x (mset xs)"
proof -
  have "le ((xs @ [x]) ! i) ((xs @ [x]) ! parent i)" if "0 < i" "i < Suc (length xs)" "i \<noteq> length xs" for i
  proof -
    have "i < length xs" "parent i < length xs" using that by linarith+
    with assms that(1) show ?thesis unfolding is_heap_def by (simp only: nth_append if_True)
  qed
  moreover have "parent c \<noteq> length xs" if "0 < c" "c < Suc (length xs)" for c using that by linarith
  ultimately have "heap_up le (xs @ [x]) (length xs)"
    unfolding heap_up_def by (metis length_append_singleton)
  from sift_up_heap [OF this] show ?thesis by (simp add: heap_push_def)
qed

lemma heap_top:
  assumes "is_heap le xs" "i < length xs"
  shows "le (xs ! i) (xs ! 0)"
  using assms(2)
proof (induction i rule: less_induct)
  case (less i)
  show ?case
  proof (cases "i = 0")
    case False
    then have "parent i < i" by linarith
    then have "le (xs ! parent i) (xs ! 0)" using less by simp
    moreover have "le (xs ! i) (xs ! parent i)" using assms(1) less.prems False unfolding is_heap_def by simp
    ultimately show ?thesis by (blast intro: le_trans)
  qed (simp add: le_refl)
qed

lemma heap_pop_heap:
  assumes "is_heap le xs" "heap_pop le xs = Some (x, ys)"
  shows "is_heap le ys \<and> mset xs = add_mset x (mset ys) \<and> x = xs ! 0 \<and> (\<forall>y\<in>set ys. le y x)"
proof -
  obtain d l where xs: "xs = d @ [l]" using assms(2) by (cases xs rule: rev_exhaust) (auto simp: heap_pop_def)
  show ?thesis
  proof (cases d)
    case Nil
    with assms(2) xs show ?thesis by (auto simp: heap_pop_def is_heap_def)
  next
    case (Cons h t)
    have h: "x = h" "ys = sift_down_to_bottom le (l # t) 0" using assms(2) xs Cons by (auto simp: heap_pop_def)
    have same: "(l # t) ! k = xs ! k" if "0 < k" "k < Suc (length t)" for k
      using that by (cases k) (simp_all add: xs Cons nth_append)
    have "heap_hole le (l # t) 0"
    proof -
      have "le ((l # t) ! i) ((l # t) ! parent i)" if "0 < i" "i < Suc (length t)" "parent i \<noteq> 0" for i
      proof -
        have "parent i < Suc (length t)" "0 < parent i" using that by linarith+
        moreover have "i < length xs" using that by (simp add: xs Cons)
        then have "le (xs ! i) (xs ! parent i)" using assms(1) that(1) unfolding is_heap_def by blast
        ultimately show ?thesis using that by (simp only: same)
      qed
      then show ?thesis unfolding heap_hole_def by simp
    qed
    from sift_down_heap [OF this] have ys: "is_heap le ys" "mset ys = add_mset l (mset t)" by (simp_all add: h)
    then have "set ys = insert l (set t)" by (metis set_mset_add_mset_insert set_mset_mset)
    then have sub: "set ys \<subseteq> set xs" by (auto simp: xs Cons)
    have top: "x = xs ! 0" by (simp add: h xs Cons)
    have "\<forall>y\<in>set ys. le y x"
    proof
      fix y assume "y \<in> set ys"
      with sub obtain i where "i < length xs" "y = xs ! i" by (metis in_set_conv_nth subsetD)
      then show "le y x" unfolding top using heap_top [OF assms(1)] by simp
    qed
    with ys h xs Cons show ?thesis by simp
  qed
qed

lemma heap_pop_None: "heap_pop le xs = None \<longleftrightarrow> xs = []"
  by (simp add: heap_pop_def Let_def)

end

section \<open>The interface of a heap\<close>

text \<open>
  What a user of the heap relies on: it holds a multiset, \<open>pop\<close> takes a greatest element and \<open>peek\<close> shows
  which one. Nothing is promised about the order of equal elements.
\<close>

locale max_heap =
  fixes le :: "'a \<Rightarrow> 'a \<Rightarrow> bool" and inv :: "'h \<Rightarrow> bool" and items :: "'h \<Rightarrow> 'a multiset" and hempty :: 'h
    and push :: "'a \<Rightarrow> 'h \<Rightarrow> 'h" and pop :: "'h \<Rightarrow> ('a \<times> 'h) option" and peek :: "'h \<Rightarrow> 'a option"
  assumes empty_law: "inv hempty" "items hempty = {#}"
    and push_law: "inv h \<Longrightarrow> inv (push x h) \<and> items (push x h) = add_mset x (items h)"
    and pop_law: "inv h \<Longrightarrow> pop h = Some (x, h') \<Longrightarrow> inv h' \<and> items h = add_mset x (items h') \<and> (\<forall>y\<in>#items h'. le y x)"
    and pop_None_law: "inv h \<Longrightarrow> pop h = None \<longleftrightarrow> items h = {#}"
    and peek_law: "peek h = map_option fst (pop h)"
begin

lemma push_all: "inv h \<Longrightarrow> inv (fold push xs h) \<and> items (fold push xs h) = mset xs + items h"
  by (induction xs arbitrary: h) (simp_all add: push_law)

lemma peek_None: "inv h \<Longrightarrow> peek h = None \<longleftrightarrow> items h = {#}"
  by (simp add: peek_law pop_None_law)

lemma peek_Some:
  assumes "inv h" "peek h = Some x"
  obtains h' where "pop h = Some (x, h')" "inv h'" "items h = add_mset x (items h')" "\<forall>y\<in>#items h'. le y x"
  using assms pop_law by (auto simp: peek_law)

end

sublocale cmp_order \<subseteq> hp: max_heap le "is_heap le" mset "[]" "heap_push le" "heap_pop le" heap_peek
proof
  show "heap_peek h = map_option fst (heap_pop le h)" for h
  proof (cases h rule: rev_cases)
    case (snoc d l)
    then show ?thesis by (cases d) (simp_all add: heap_peek_def heap_pop_def)
  qed (simp add: heap_peek_def heap_pop_def)
qed (auto simp: is_heap_def [of le "[]"] heap_push_heap heap_pop_None dest: heap_pop_heap)

end
