(* ===== verification/Priority.thy ===== *)
theory Priority
  imports Std_Collections "HOL-Library.Monad_Syntax" "HOL-Library.Product_Lexorder"
begin

text \<open>
  The hybrid priority queue of the publisher (\<open>relay/rs/moq-net/src/lite/priority.rs\<close>): the 255 highest
  items in a sorted vector, the others in a heap, and for each item a watch channel that carries its
  place.

  A step that would panic (\<open>unwrap\<close>, \<open>expect\<close>, an index out of range) is \<open>None\<close>. The watch channels are
  those of the \<open>tokio\<close> crate, a parameter \<open>W\<close> of the operations. Item ids, a \<open>usize\<close> that grows with
  every insert, are counted without bound.
\<close>

section \<open>Priorities and items\<close>

record priority =
  pri_track :: u8
  pri_group :: u64

fun ord_then :: "ordering \<Rightarrow> ordering \<Rightarrow> ordering" where
  "ord_then Equal o2 = o2"
| "ord_then o1 o2 = o1"

definition word_cmp :: "'a::len word \<Rightarrow> 'a word \<Rightarrow> ordering" where
  "word_cmp a b = (if a < b then Less else if a = b then Equal else Greater)"

definition priority_cmp :: "priority \<Rightarrow> priority \<Rightarrow> ordering" where
  "priority_cmp self other =
     ord_then (word_cmp (pri_track other) (pri_track self)) (word_cmp (pri_group other) (pri_group self))"

record item =
  item_id :: nat
  item_priority :: priority

definition item_cmp :: "item \<Rightarrow> item \<Rightarrow> ordering" where
  "item_cmp self other = priority_cmp (item_priority self) (item_priority other)"

text \<open>The order of \<open>Reverse<PriorityItem>\<close>, in which the overflow heap is kept.\<close>

definition reverse_le :: "item \<Rightarrow> item \<Rightarrow> bool" where
  "reverse_le a b \<longleftrightarrow> item_cmp b a \<noteq> Greater"

section \<open>Watch channels\<close>

record 'ch watch_ops =
  channel :: "u8 \<Rightarrow> 'ch"
  send_if_modified :: "(u8 \<Rightarrow> u8 \<times> bool) \<Rightarrow> 'ch \<Rightarrow> 'ch"
  borrow :: "'ch \<Rightarrow> u8"

text \<open>A channel holds one value: at first the one it was made with, then the last one sent.\<close>

locale watch =
  fixes W :: "'ch watch_ops"
  assumes borrow_channel: "borrow W (channel W x) = x"
    and borrow_send: "borrow W (send_if_modified W f c) = fst (f (borrow W c))"

definition cell_watch :: "u8 watch_ops" where
  "cell_watch = \<lparr>channel = (\<lambda>x. x), send_if_modified = (\<lambda>f c. fst (f c)), borrow = (\<lambda>c. c)\<rparr>"

interpretation cell_watch: watch cell_watch
  by unfold_locales (simp_all add: cell_watch_def)

section \<open>The queue\<close>

definition MAX_VEC_SIZE :: nat where
  "MAX_VEC_SIZE = 255"

datatype location = InVec nat | Overflow

record 'ch priority_state =
  vec :: "item list"
  overflow :: "item list"
  indexes :: "nat \<rightharpoonup> location \<times> 'ch"
  next_id :: nat

definition queue_new :: "'ch priority_state" where
  "queue_new = \<lparr>vec = [], overflow = [], indexes = (\<lambda>_. None), next_id = 0\<rparr>"

fun location_value :: "location \<Rightarrow> u8" where
  "location_value (InVec idx) = (if idx \<le> 255 then of_nat idx else 255)"
| "location_value Overflow = 255"

definition update_location :: "'ch watch_ops \<Rightarrow> (nat \<rightharpoonup> location \<times> 'ch) \<Rightarrow> nat \<Rightarrow> location \<Rightarrow> (nat \<rightharpoonup> location \<times> 'ch) option" where
  "update_location W ixs i loc = do {
     (_, tx) \<leftarrow> ixs i;
     let new_priority = location_value loc;
     Some (ixs(i \<mapsto> (loc, send_if_modified W (\<lambda>p. if p \<noteq> new_priority then (new_priority, True) else (p, False)) tx)))
   }"

fun update_indices :: "'ch watch_ops \<Rightarrow> nat \<Rightarrow> item list \<Rightarrow> (nat \<rightharpoonup> location \<times> 'ch) \<Rightarrow> (nat \<rightharpoonup> location \<times> 'ch) option" where
  "update_indices W idx [] ixs = Some ixs"
| "update_indices W idx (x # xs) ixs =
     (update_location W ixs (item_id x) (InVec idx) \<bind> update_indices W (Suc idx) xs)"

definition update_indices_from :: "'ch watch_ops \<Rightarrow> nat \<Rightarrow> 'ch priority_state \<Rightarrow> 'ch priority_state option" where
  "update_indices_from W start st = do {
     ixs \<leftarrow> update_indices W start (drop start (vec st)) (indexes st);
     Some (st\<lparr>indexes := ixs\<rparr>)
   }"

text \<open>Insertion into the sorted vector, with the indexes from that place on.\<close>

definition insert_vec :: "'ch watch_ops \<Rightarrow> item \<Rightarrow> 'ch priority_state \<Rightarrow> 'ch priority_state option" where
  "insert_vec W x st = do {
     let insert_pos = either_pos (binary_search_by (\<lambda>y. item_cmp y x) (vec st));
     let st = st\<lparr>vec := take insert_pos (vec st) @ x # drop insert_pos (vec st)\<rparr>;
     ixs \<leftarrow> update_location W (indexes st) (item_id x) (InVec insert_pos);
     update_indices_from W (insert_pos + 1) (st\<lparr>indexes := ixs\<rparr>)
   }"

definition push_overflow :: "'ch watch_ops \<Rightarrow> item \<Rightarrow> 'ch priority_state \<Rightarrow> 'ch priority_state option" where
  "push_overflow W x st = do {
     ixs \<leftarrow> update_location W (indexes st) (item_id x) Overflow;
     Some (st\<lparr>overflow := heap_push reverse_le x (overflow st), indexes := ixs\<rparr>)
   }"

definition place :: "'ch watch_ops \<Rightarrow> item \<Rightarrow> 'ch priority_state \<Rightarrow> 'ch priority_state option" where
  "place W x st =
     (if length (vec st) < MAX_VEC_SIZE then
        (case heap_peek (overflow st) of
           Some first \<Rightarrow>
             if item_cmp first x = Less then do {
               (promoted, rest) \<leftarrow> heap_pop reverse_le (overflow st);
               st \<leftarrow> push_overflow W x (st\<lparr>overflow := rest\<rparr>);
               insert_vec W promoted st
             } else insert_vec W x st
         | None \<Rightarrow> insert_vec W x st)
      else if vec st = [] then None
      else (let lowest_in_vec = last (vec st)
            in if item_cmp x lowest_in_vec = Greater then push_overflow W x st
               else do {
                 let removed = last (vec st);
                 st \<leftarrow> push_overflow W removed (st\<lparr>vec := butlast (vec st)\<rparr>);
                 insert_vec W x st
               }))"

definition queue_insert :: "'ch watch_ops \<Rightarrow> priority \<Rightarrow> 'ch priority_state \<Rightarrow> (nat \<times> 'ch priority_state) option" where
  "queue_insert W pri st = do {
     let i = next_id st;
     st \<leftarrow> place W \<lparr>item_id = i, item_priority = pri\<rparr>
       (st\<lparr>next_id := i + 1, indexes := (indexes st)(i \<mapsto> (Overflow, channel W 255))\<rparr>);
     Some (i, st)
   }"

fun drain_loop :: "nat \<Rightarrow> item list \<Rightarrow> item option \<Rightarrow> item list \<Rightarrow> item option \<times> item list" where
  "drain_loop i [] found heap = (found, heap)"
| "drain_loop i (x # xs) found heap =
     (if item_id x = i \<and> found = None then drain_loop i xs (Some x) heap
      else drain_loop i xs found (heap_push reverse_le x heap))"

definition extract_item :: "'ch watch_ops \<Rightarrow> nat \<Rightarrow> 'ch priority_state \<Rightarrow> (item \<times> 'ch priority_state) option" where
  "extract_item W i st = do {
     (loc, _) \<leftarrow> indexes st i;
     case loc of
       InVec idx \<Rightarrow>
         if idx < length (vec st) then do {
           st' \<leftarrow> update_indices_from W idx (st\<lparr>vec := take idx (vec st) @ drop (idx + 1) (vec st)\<rparr>);
           Some (vec st ! idx, st')
         } else None
     | Overflow \<Rightarrow> do {
         let (found, heap) = drain_loop i (overflow st) None [];
         x \<leftarrow> found;
         Some (x, st\<lparr>overflow := heap\<rparr>)
       }
   }"

definition set_priority :: "'ch watch_ops \<Rightarrow> nat \<Rightarrow> priority \<Rightarrow> 'ch priority_state \<Rightarrow> 'ch priority_state option" where
  "set_priority W i new_priority st = do {
     (x, st) \<leftarrow> extract_item W i st;
     place W (x\<lparr>item_priority := new_priority\<rparr>) st
   }"

definition queue_remove :: "'ch watch_ops \<Rightarrow> nat \<Rightarrow> 'ch priority_state \<Rightarrow> 'ch priority_state option" where
  "queue_remove W i st = do {
     let was_in_vec = (case indexes st i of Some (InVec _, _) \<Rightarrow> True | _ \<Rightarrow> False);
     (_, st) \<leftarrow> extract_item W i st;
     let st = st\<lparr>indexes := (indexes st)(i := None)\<rparr>;
     if was_in_vec then
       (case heap_pop reverse_le (overflow st) of
          Some (overflow_item, rest) \<Rightarrow> do {
            let st = st\<lparr>vec := vec st @ [overflow_item], overflow := rest\<rparr>;
            ixs \<leftarrow> update_location W (indexes st) (item_id overflow_item) (InVec (length (vec st) - 1));
            Some (st\<lparr>indexes := ixs\<rparr>)
          }
        | None \<Rightarrow> Some st)
     else Some st
   }"

section \<open>Handles\<close>

record handle =
  handle_id :: nat
  handle_priority :: priority

definition handle_new :: "'ch watch_ops \<Rightarrow> priority \<Rightarrow> 'ch priority_state \<Rightarrow> (handle \<times> 'ch priority_state) option" where
  "handle_new W pri st = do {
     (i, st) \<leftarrow> queue_insert W pri st;
     Some (\<lparr>handle_id = i, handle_priority = pri\<rparr>, st)
   }"

definition handle_drop :: "'ch watch_ops \<Rightarrow> handle \<Rightarrow> 'ch priority_state \<Rightarrow> 'ch priority_state option" where
  "handle_drop W h st = queue_remove W (handle_id h) st"

definition handle_current :: "'ch watch_ops \<Rightarrow> handle \<Rightarrow> 'ch priority_state \<Rightarrow> u8 option" where
  "handle_current W h st = map_option (\<lambda>(_, tx). borrow W tx) (indexes st (handle_id h))"

definition set_track :: "'ch watch_ops \<Rightarrow> u8 \<Rightarrow> handle \<Rightarrow> 'ch priority_state \<Rightarrow> (handle \<times> 'ch priority_state) option" where
  "set_track W new_track h st =
     (if pri_track (handle_priority h) = new_track then Some (h, st)
      else do {
        let h = h\<lparr>handle_priority := (handle_priority h)\<lparr>pri_track := new_track\<rparr>\<rparr>;
        st \<leftarrow> set_priority W (handle_id h) (handle_priority h) st;
        Some (h, st)
      })"

section \<open>The order of items\<close>

definition item_key :: "item \<Rightarrow> nat \<times> nat" where
  "item_key x = (unat (pri_track (item_priority x)), unat (pri_group (item_priority x)))"

lemma word_cmp_cases:
  "word_cmp a b = Less \<longleftrightarrow> unat a < unat b" "word_cmp a b = Equal \<longleftrightarrow> unat a = unat b" "word_cmp a b = Greater \<longleftrightarrow> unat b < unat a"
  by (auto simp: word_cmp_def word_less_nat_alt word_unat_eq_iff)

lemma ord_then_cases:
  "ord_then a b = Less \<longleftrightarrow> a = Less \<or> a = Equal \<and> b = Less"
  "ord_then a b = Greater \<longleftrightarrow> a = Greater \<or> a = Equal \<and> b = Greater"
  by (cases a; simp)+

lemma item_cmp_key:
  "item_cmp a b = Less \<longleftrightarrow> item_key b < item_key a"
  "item_cmp a b = Greater \<longleftrightarrow> item_key a < item_key b"
  by (auto simp: item_cmp_def priority_cmp_def item_key_def ord_then_cases word_cmp_cases)

abbreviation outranks :: "item \<Rightarrow> item \<Rightarrow> bool" where
  "outranks a b \<equiv> item_key b \<le> item_key a"

lemma reverse_le_key: "reverse_le a b \<longleftrightarrow> outranks b a"
  by (simp add: reverse_le_def item_cmp_key not_less)

interpretation ovf: cmp_order reverse_le
  by unfold_locales (auto simp: reverse_le_key)

section \<open>The invariant\<close>

text \<open>An index entry is up to date when its channel carries the value of its location.\<close>

definition located :: "'ch watch_ops \<Rightarrow> (nat \<rightharpoonup> location \<times> 'ch) \<Rightarrow> nat \<Rightarrow> location \<Rightarrow> bool" where
  "located W ixs i loc \<longleftrightarrow> (\<exists>ch. ixs i = Some (loc, ch) \<and> borrow W ch = location_value loc)"

abbreviation all_items :: "('ch, 'z) priority_state_scheme \<Rightarrow> item list" where
  "all_items st \<equiv> vec st @ overflow st"

text \<open>
  \<open>queue_ok W E st\<close>: the vector is sorted and outranks the overflow, which is a heap, and the index
  knows every item where it is, and besides the ids in \<open>E\<close>, which are registered but not placed.
\<close>

definition queue_parts_ok :: "'ch watch_ops \<Rightarrow> nat set \<Rightarrow> item list \<Rightarrow> item list \<Rightarrow> (nat \<rightharpoonup> location \<times> 'ch) \<Rightarrow> nat \<Rightarrow> bool" where
  "queue_parts_ok W E v h ixs n \<longleftrightarrow>
     distinct (map item_id (v @ h)) \<and> E \<inter> item_id ` set (v @ h) = {}
   \<and> dom ixs = item_id ` set (v @ h) \<union> E \<and> (\<forall>i\<in>dom ixs. i < n)
   \<and> sorted_wrt outranks v \<and> length v \<le> MAX_VEC_SIZE
   \<and> is_heap reverse_le h \<and> (\<forall>x\<in>set v. \<forall>y\<in>set h. outranks x y)
   \<and> (\<forall>k<length v. located W ixs (item_id (v ! k)) (InVec k))
   \<and> (\<forall>y\<in>set h. located W ixs (item_id y) Overflow)"

definition queue_ok :: "'ch watch_ops \<Rightarrow> nat set \<Rightarrow> 'ch priority_state \<Rightarrow> bool" where
  "queue_ok W E st \<longleftrightarrow> queue_parts_ok W E (vec st) (overflow st) (indexes st) (next_id st)"

lemma queue_parts_okI:
  assumes "distinct (map item_id (v @ h))" "E \<inter> item_id ` set (v @ h) = {}"
    "dom ixs = item_id ` set (v @ h) \<union> E" "\<forall>i\<in>dom ixs. i < n"
    "sorted_wrt outranks v" "length v \<le> MAX_VEC_SIZE" "is_heap reverse_le h"
    "\<forall>x\<in>set v. \<forall>y\<in>set h. outranks x y" "\<forall>k<length v. located W ixs (item_id (v ! k)) (InVec k)"
    "\<forall>y\<in>set h. located W ixs (item_id y) Overflow"
  shows "queue_parts_ok W E v h ixs n"
  unfolding queue_parts_ok_def by (intro conjI assms)

lemma queue_okD:
  assumes "queue_ok W E st"
  shows "distinct (map item_id (all_items st))" "E \<inter> item_id ` set (all_items st) = {}"
    "dom (indexes st) = item_id ` set (all_items st) \<union> E" "\<forall>i\<in>dom (indexes st). i < next_id st"
    "sorted_wrt outranks (vec st)" "length (vec st) \<le> MAX_VEC_SIZE" "is_heap reverse_le (overflow st)"
    "\<forall>x\<in>set (vec st). \<forall>y\<in>set (overflow st). outranks x y"
    "\<forall>k<length (vec st). located W (indexes st) (item_id (vec st ! k)) (InVec k)"
    "\<forall>y\<in>set (overflow st). located W (indexes st) (item_id y) Overflow"
  using assms unfolding queue_ok_def queue_parts_ok_def by blast+

definition queue_inv :: "'ch watch_ops \<Rightarrow> 'ch priority_state \<Rightarrow> bool" where
  "queue_inv W st \<longleftrightarrow> queue_ok W {} st \<and> (overflow st \<noteq> [] \<longrightarrow> length (vec st) = MAX_VEC_SIZE)"

definition placed :: "'ch watch_ops \<Rightarrow> item \<Rightarrow> 'ch priority_state \<Rightarrow> 'ch priority_state \<Rightarrow> bool" where
  "placed W x st st' \<longleftrightarrow> queue_inv W st' \<and> mset (all_items st') = add_mset x (mset (all_items st)) \<and> next_id st' = next_id st"

lemma singleton_disjoint: "a \<notin> X \<Longrightarrow> {a} \<inter> X = {}"
  by blast

lemma distinct_map_mset: "mset xs = mset ys \<Longrightarrow> distinct (map f xs) \<longleftrightarrow> distinct (map f ys)"
  by (metis mset_eq_imp_distinct_iff mset_map)

lemma sorted_insert_place:
  assumes "sorted_wrt outranks xs" "place_ok (\<lambda>y. item_cmp y x) xs p"
  shows "sorted_wrt outranks (take p xs @ x # drop p xs)"
proof -
  have p: "p \<le> length xs" "\<forall>i<p. outranks (xs ! i) x" "\<forall>i. p \<le> i \<and> i < length xs \<longrightarrow> outranks x (xs ! i)"
    using assms(2) by (auto simp: place_ok_def item_cmp_key not_less)
  have before: "\<forall>y\<in>set (take p xs). outranks y x" using p by (auto simp: in_set_conv_nth)
  moreover have after: "\<forall>y\<in>set (drop p xs). outranks x y"
    using p by (auto simp: in_set_conv_nth)
  moreover have "sorted_wrt outranks (take p xs @ drop p xs)" using assms(1) by simp
  ultimately show ?thesis unfolding sorted_wrt_append by auto
qed

lemma ordered_by_sorted: "sorted_wrt outranks xs \<Longrightarrow> ordered_by (\<lambda>y. item_cmp y x) xs"
  unfolding ordered_by_def item_cmp_key
proof (intro allI impI conjI)
  fix i j
  assume s: "sorted_wrt outranks xs" and ij: "i \<le> j \<and> j < length xs"
  have le: "outranks (xs ! i) (xs ! j)"
    using s ij sorted_wrt_nth_less [OF s, of i j] by (cases "i = j") auto
  show "item_key (xs ! j) < item_key x" if "item_key (xs ! i) < item_key x" using le that by (rule le_less_trans)
  show "item_key x < item_key (xs ! i)" if "item_key x < item_key (xs ! j)" using that le by (rule less_le_trans)
qed

context watch
begin

lemma update_location_spec:
  assumes "i \<in> dom ixs"
  obtains ixs' where "update_location W ixs i loc = Some ixs'" "located W ixs' i loc" "dom ixs' = dom ixs"
    "\<And>j. j \<noteq> i \<Longrightarrow> ixs' j = ixs j"
proof -
  obtain l c where i: "ixs i = Some (l, c)" using assms by auto
  let ?f = "\<lambda>p. if p \<noteq> location_value loc then (location_value loc, True) else (p, False)"
  let ?ixs = "ixs(i \<mapsto> (loc, send_if_modified W ?f c))"
  show thesis
  proof (rule that [of ?ixs])
    show "update_location W ixs i loc = Some ?ixs" by (simp add: update_location_def i Let_def)
    show "located W ?ixs i loc" by (simp add: located_def borrow_send)
    show "dom ?ixs = dom ixs" using i by auto
  qed simp
qed

lemma located_other: "located W ixs j loc \<Longrightarrow> ixs' j = ixs j \<Longrightarrow> located W ixs' j loc"
  by (simp add: located_def)

lemma update_indices_spec:
  assumes "distinct (map item_id xs)" "item_id ` set xs \<subseteq> dom ixs"
  shows "\<exists>ixs'. update_indices W n xs ixs = Some ixs' \<and> dom ixs' = dom ixs
     \<and> (\<forall>k<length xs. located W ixs' (item_id (xs ! k)) (InVec (n + k))) \<and> (\<forall>j. j \<notin> item_id ` set xs \<longrightarrow> ixs' j = ixs j)"
  using assms
proof (induction xs arbitrary: n ixs)
  case (Cons x xs)
  obtain ix1 where ix1: "update_location W ixs (item_id x) (InVec n) = Some ix1" "located W ix1 (item_id x) (InVec n)"
    "dom ix1 = dom ixs" "\<And>j. j \<noteq> item_id x \<Longrightarrow> ix1 j = ixs j"
    using Cons.prems(2) by (rule_tac update_location_spec [of "item_id x" ixs "InVec n"]) simp_all
  obtain ix2 where ix2: "update_indices W (Suc n) xs ix1 = Some ix2" "dom ix2 = dom ix1"
    "\<forall>k<length xs. located W ix2 (item_id (xs ! k)) (InVec (Suc n + k))" "\<forall>j. j \<notin> item_id ` set xs \<longrightarrow> ix2 j = ix1 j"
    using Cons.IH [of ix1 "Suc n"] Cons.prems ix1(3) by auto
  have "located W ix2 (item_id x) (InVec n)"
    using ix1(2) ix2(4) Cons.prems(1) by (auto intro: located_other)
  with ix2(3) have "\<forall>k<length (x # xs). located W ix2 (item_id ((x # xs) ! k)) (InVec (n + k))"
    by (auto simp: less_Suc_eq_0_disj nth_Cons')
  with ix1 ix2 show ?case by auto
qed simp

text \<open>The vector with \<open>x\<close> inserted at \<open>p\<close>, re-indexed from there on.\<close>

lemma reindex_insert:
  assumes xs: "distinct (map item_id xs)" "item_id x \<notin> item_id ` set xs" "p \<le> length xs"
    and dom: "item_id ` set xs \<subseteq> dom ixs" "item_id x \<in> dom ixs"
    and loc: "\<forall>k<length xs. located W ixs (item_id (xs ! k)) (InVec k)"
  obtains ix1 ix2 where "update_location W ixs (item_id x) (InVec p) = Some ix1"
    "update_indices W (p + 1) (drop p xs) ix1 = Some ix2" "dom ix2 = dom ixs"
    "\<forall>k<Suc (length xs). located W ix2 (item_id ((take p xs @ x # drop p xs) ! k)) (InVec k)"
    "\<forall>j. j \<notin> item_id ` set xs \<and> j \<noteq> item_id x \<longrightarrow> ix2 j = ixs j"
proof -
  obtain ix1 where ix1: "update_location W ixs (item_id x) (InVec p) = Some ix1" "located W ix1 (item_id x) (InVec p)"
    "dom ix1 = dom ixs" "\<And>j. j \<noteq> item_id x \<Longrightarrow> ix1 j = ixs j"
    using dom(2) by (rule update_location_spec [of "item_id x" ixs "InVec p"]) simp_all
  have sub: "item_id ` set (drop p xs) \<subseteq> item_id ` set xs" by (auto dest: in_set_dropD)
  have "distinct (map item_id (drop p xs))" using xs(1) by (simp add: drop_map [symmetric])
  then obtain ix2 where ix2: "update_indices W (p + 1) (drop p xs) ix1 = Some ix2" "dom ix2 = dom ix1"
    "\<forall>k<length (drop p xs). located W ix2 (item_id (drop p xs ! k)) (InVec (p + 1 + k))"
    "\<forall>j. j \<notin> item_id ` set (drop p xs) \<longrightarrow> ix2 j = ix1 j"
    using update_indices_spec [of "drop p xs" ix1 "p + 1"] sub dom(1) ix1(3) by blast
  have before: "item_id (xs ! k) \<notin> item_id ` set (drop p xs)" if "k < p" for k
  proof
    assume "item_id (xs ! k) \<in> item_id ` set (drop p xs)"
    then obtain l where "l < length xs - p" "item_id (xs ! k) = item_id (xs ! (p + l))"
      by (auto simp: in_set_conv_nth)
    moreover from this have "p + l < length xs" by linarith
    ultimately have "k = p + l" using that nth_eq_iff_index_eq [OF xs(1), of k "p + l"] by simp
    with that show False by simp
  qed
  have "located W ix2 (item_id ((take p xs @ x # drop p xs) ! k)) (InVec k)" if k: "k < Suc (length xs)" for k
  proof -
    consider (lt) "k < p" | (eq) "k = p" | (gt) l where "k = p + 1 + l" "l < length (drop p xs)"
      using k xs(3) less_imp_Suc_add [of p k] by (fastforce simp: not_less_iff_gr_or_eq)
    then show ?thesis
    proof cases
      case lt
      have "item_id (xs ! k) \<noteq> item_id x" using lt xs(2,3) by (metis image_eqI less_le_trans nth_mem)
      with lt loc xs(3) ix1(4) ix2(4) before [OF lt] show ?thesis
        by (simp add: nth_append located_def)
    next
      case eq
      have "ix2 (item_id x) = ix1 (item_id x)" using ix2(4) sub xs(2) by blast
      with eq ix1(2) xs(3) show ?thesis by (simp add: nth_append located_other)
    next
      case gt
      with ix2(3) xs(3) show ?thesis by (auto simp: nth_append)
    qed
  qed
  then have "\<forall>k<Suc (length xs). located W ix2 (item_id ((take p xs @ x # drop p xs) ! k)) (InVec k)" by blast
  moreover have "\<forall>j. j \<notin> item_id ` set xs \<and> j \<noteq> item_id x \<longrightarrow> ix2 j = ixs j" using sub ix1(4) ix2(4) by (metis subsetD)
  moreover have "dom ix2 = dom ixs" using ix1(3) ix2(2) by simp
  ultimately show thesis using that ix1(1) ix2(1) by blast
qed

lemma insert_vec_spec:
  assumes ok: "queue_ok W (insert (item_id x) E) st" and new: "item_id x \<notin> E" "length (vec st) < MAX_VEC_SIZE"
    "\<forall>y\<in>set (overflow st). outranks x y"
  shows "\<exists>st'. insert_vec W x st = Some st' \<and> queue_ok W E st' \<and> mset (vec st') = add_mset x (mset (vec st))
     \<and> overflow st' = overflow st \<and> next_id st' = next_id st"
proof -
  note D = queue_okD [OF ok]
  define p where "p = either_pos (binary_search_by (\<lambda>y. item_cmp y x) (vec st))"
  have p: "place_ok (\<lambda>y. item_cmp y x) (vec st) p"
    unfolding p_def by (intro binary_search_place ordered_by_sorted D(5))
  then have len: "p \<le> length (vec st)" by (simp add: place_ok_def)
  let ?v = "take p (vec st) @ x # drop p (vec st)"
  have fresh: "item_id x \<notin> item_id ` set (all_items st)" using D(2) by blast
  then have fresh': "item_id x \<notin> item_id ` set (vec st)" "item_id x \<in> dom (indexes st)"
    and sub: "item_id ` set (vec st) \<subseteq> dom (indexes st)" and dv: "distinct (map item_id (vec st))"
    using D(1,3) by auto
  obtain ix1 ix2 where ix: "update_location W (indexes st) (item_id x) (InVec p) = Some ix1"
    "update_indices W (p + 1) (drop p (vec st)) ix1 = Some ix2" "dom ix2 = dom (indexes st)"
    "\<forall>k<Suc (length (vec st)). located W ix2 (item_id (?v ! k)) (InVec k)"
    "\<forall>j. j \<notin> item_id ` set (vec st) \<and> j \<noteq> item_id x \<longrightarrow> ix2 j = indexes st j"
    using reindex_insert [OF dv fresh'(1) len sub fresh'(2) D(9)] .
  have mset: "mset ?v = add_mset x (mset (vec st))"
    by (metis append_take_drop_id mset_append union_mset_add_mset_right mset.simps(2))
  then have set: "set ?v = insert x (set (vec st))" by (metis set_mset_add_mset_insert set_mset_mset)
  let ?st = "st\<lparr>vec := ?v, indexes := ix2\<rparr>"
  have run: "insert_vec W x st = Some ?st"
    using ix(1,2) len by (simp add: insert_vec_def update_indices_from_def p_def [symmetric] Let_def)
  have "distinct (map item_id (x # all_items st))" using D(1) fresh by (simp add: image_Un)
  then have di: "distinct (map item_id (?v @ overflow st))"
    by (rule iffD2 [OF distinct_map_mset, rotated]) (use mset in simp)
  have lo: "\<forall>y\<in>set (overflow st). located W ix2 (item_id y) Overflow"
  proof
    fix y assume y: "y \<in> set (overflow st)"
    have "item_id y \<notin> item_id ` set (vec st)" using D(1) y by auto
    moreover have "item_id y \<noteq> item_id x" using y fresh by (metis UnI2 image_eqI set_append)
    ultimately have "ix2 (item_id y) = indexes st (item_id y)" using ix(5) by blast
    then show "located W ix2 (item_id y) Overflow" using D(10) y by (blast intro: located_other)
  qed
  have all: "set (?v @ overflow st) = insert x (set (all_items st))"
    unfolding set_append [of ?v] set by simp
  have E: "E \<inter> item_id ` set (?v @ overflow st) = {}" using D(2) new(1) unfolding all by simp
  have do: "dom ix2 = item_id ` set (?v @ overflow st) \<union> E" using D(3) ix(3) unfolding all by simp
  have up: "\<forall>y\<in>set ?v. \<forall>z\<in>set (overflow st). outranks y z" using D(8) new(3) unfolding set by simp
  have le: "length ?v = Suc (length (vec st))" using len by simp
  have "queue_parts_ok W E ?v (overflow st) ix2 (next_id st)"
    by (rule queue_parts_okI [OF di E do _ sorted_insert_place [OF D(5) p] _ D(7) up _ lo])
      (use D(4) ix(3,4) le new(2) in \<open>simp_all only: Suc_le_eq\<close>)
  with run mset show ?thesis by (auto simp: queue_ok_def)
qed

lemma push_overflow_spec:
  assumes ok: "queue_ok W (insert (item_id x) E) st" and new: "item_id x \<notin> E" "\<forall>y\<in>set (vec st). outranks y x"
  shows "\<exists>st'. push_overflow W x st = Some st' \<and> queue_ok W E st' \<and> mset (overflow st') = add_mset x (mset (overflow st))
     \<and> vec st' = vec st \<and> next_id st' = next_id st"
proof -
  note D = queue_okD [OF ok]
  let ?h = "heap_push reverse_le x (overflow st)"
  have h: "is_heap reverse_le ?h" "mset ?h = add_mset x (mset (overflow st))"
    using ovf.hp.push_law [OF D(7), of x] by simp_all
  then have set: "set ?h = insert x (set (overflow st))" by (metis set_mset_add_mset_insert set_mset_mset)
  have fresh: "item_id x \<notin> item_id ` set (all_items st)" using D(2) by blast
  have "item_id x \<in> dom (indexes st)" using D(3) by simp
  then obtain ixs where ixs: "update_location W (indexes st) (item_id x) Overflow = Some ixs" "located W ixs (item_id x) Overflow"
    "dom ixs = dom (indexes st)" "\<And>j. j \<noteq> item_id x \<Longrightarrow> ixs j = indexes st j"
    by (rule update_location_spec [of "item_id x" "indexes st" Overflow]) simp_all
  have other: "located W ixs (item_id y) loc" if "located W (indexes st) (item_id y) loc" "y \<in> set (all_items st)" for y loc
  proof -
    have "item_id y \<noteq> item_id x" using that(2) fresh by (metis image_eqI)
    then show ?thesis using that(1) ixs(4) by (simp add: located_def)
  qed
  let ?st = "st\<lparr>overflow := ?h, indexes := ixs\<rparr>"
  have run: "push_overflow W x st = Some ?st" using ixs(1) by (simp add: push_overflow_def)
  have "distinct (map item_id (x # all_items st))" using D(1) fresh by (simp add: image_Un)
  then have di: "distinct (map item_id (vec st @ ?h))"
    by (rule iffD2 [OF distinct_map_mset, rotated]) (use h in simp)
  have lo: "\<forall>y\<in>set ?h. located W ixs (item_id y) Overflow" unfolding set using ixs(2) other D(10) by simp
  have lv: "\<forall>k<length (vec st). located W ixs (item_id (vec st ! k)) (InVec k)" using other D(9) by simp
  have all: "set (vec st @ ?h) = insert x (set (all_items st))" by (simp add: set)
  have E: "E \<inter> item_id ` set (vec st @ ?h) = {}" using D(2) new(1) unfolding all by simp
  have do: "dom ixs = item_id ` set (vec st @ ?h) \<union> E" using D(3) ixs(3) unfolding all by simp
  have up: "\<forall>y\<in>set (vec st). \<forall>z\<in>set ?h. outranks y z" using D(8) new(2) unfolding set by simp
  have "queue_parts_ok W E (vec st) ?h ixs (next_id st)"
    by (rule queue_parts_okI [OF di E do _ D(5,6) h(1) up lv lo]) (use D(4) ixs(3) in simp)
  with run h(2) show ?thesis by (auto simp: queue_ok_def)
qed

text \<open>Taking an item out of the heap, or off the end of the vector, leaves its id unplaced.\<close>

lemma pop_overflow_ok:
  assumes ok: "queue_ok W E st" and pop: "heap_pop reverse_le (overflow st) = Some (x, rest)"
  shows "queue_ok W (insert (item_id x) E) (st\<lparr>overflow := rest\<rparr>)" "item_id x \<notin> E"
    "mset (overflow st) = add_mset x (mset rest)" "\<forall>y\<in>set rest. outranks x y" "\<forall>y\<in>set (vec st). outranks y x"
proof -
  note D = queue_okD [OF ok]
  have heap: "is_heap reverse_le rest" "mset (overflow st) = add_mset x (mset rest)" "\<forall>y\<in>set rest. outranks x y"
    using ovf.hp.pop_law [OF D(7) pop] by (auto simp: reverse_le_key)
  then have set: "set (overflow st) = insert x (set rest)" by (metis set_mset_add_mset_insert set_mset_mset)
  have "distinct (map item_id (x # vec st @ rest))"
    using D(1) by (rule iffD2 [OF distinct_map_mset, rotated]) (use heap(2) in simp)
  then have di: "distinct (map item_id (vec st @ rest))" and fresh: "item_id x \<notin> item_id ` set (vec st @ rest)"
    by (simp_all add: image_Un)
  have all: "set (all_items st) = insert x (set (vec st @ rest))" by (simp add: set)
  have E: "insert (item_id x) E \<inter> item_id ` set (vec st @ rest) = {}" using D(2) fresh unfolding all by simp
  have do: "dom (indexes st) = item_id ` set (vec st @ rest) \<union> insert (item_id x) E" using D(3) unfolding all by simp
  have up: "\<forall>y\<in>set (vec st). \<forall>z\<in>set rest. outranks y z" and lo: "\<forall>y\<in>set rest. located W (indexes st) (item_id y) Overflow"
    using D(8,10) set by simp_all
  have "queue_parts_ok W (insert (item_id x) E) (vec st) rest (indexes st) (next_id st)"
    by (rule queue_parts_okI [OF di E do D(4-6) heap(1) up D(9) lo])
  then show "queue_ok W (insert (item_id x) E) (st\<lparr>overflow := rest\<rparr>)" by (simp add: queue_ok_def)
  show "item_id x \<notin> E" using D(2) set by simp
  show "\<forall>y\<in>set (vec st). outranks y x" using D(8) set by simp
  show "mset (overflow st) = add_mset x (mset rest)" "\<forall>y\<in>set rest. outranks x y" by (fact heap)+
qed

lemma pop_vec_ok:
  assumes ok: "queue_ok W E st" and last: "vec st = xs @ [x]"
  shows "queue_ok W (insert (item_id x) E) (st\<lparr>vec := xs\<rparr>)" "item_id x \<notin> E" "\<forall>y\<in>set xs. outranks y x"
    "\<forall>y\<in>set (overflow st). outranks x y"
proof -
  note D = queue_okD [OF ok]
  have loc: "\<forall>k<length xs. located W (indexes st) (item_id (xs ! k)) (InVec k)"
    using D(9) unfolding last by (metis length_append_singleton less_Suc_eq nth_append)
  have di: "distinct (map item_id (xs @ overflow st))" and fresh: "item_id x \<notin> item_id ` set (xs @ overflow st)"
    using D(1) unfolding last by (auto simp: image_Un)
  have all: "set (all_items st) = insert x (set (xs @ overflow st))" by (auto simp: last)
  have E: "insert (item_id x) E \<inter> item_id ` set (xs @ overflow st) = {}" using D(2) fresh unfolding all by simp
  have do: "dom (indexes st) = item_id ` set (xs @ overflow st) \<union> insert (item_id x) E" using D(3) unfolding all by simp
  have so: "sorted_wrt outranks xs" and le: "length xs \<le> MAX_VEC_SIZE" and up: "\<forall>y\<in>set xs. \<forall>z\<in>set (overflow st). outranks y z"
    using D(5,6,8) last by (simp_all add: sorted_wrt_append)
  have "queue_parts_ok W (insert (item_id x) E) xs (overflow st) (indexes st) (next_id st)"
    by (rule queue_parts_okI [OF di E do D(4) so le D(7) up loc D(10)])
  then show "queue_ok W (insert (item_id x) E) (st\<lparr>vec := xs\<rparr>)" by (simp add: queue_ok_def)
  show "item_id x \<notin> E" "\<forall>y\<in>set xs. outranks y x" "\<forall>y\<in>set (overflow st). outranks x y"
    using D(2,5,8) last by (simp_all add: sorted_wrt_append)
qed

text \<open>
  What \<open>place\<close> needs and gives. A vacancy in the vector while there is overflow only arises when an
  item has just been taken out of a full vector.
\<close>

lemma set_add_mset: "mset xs = add_mset x (mset ys) \<Longrightarrow> set xs = insert x (set ys)"
  by (metis set_mset_add_mset_insert set_mset_mset)

lemma length_add_mset: "mset xs = add_mset x (mset ys) \<Longrightarrow> length xs = Suc (length ys)"
  by (metis size_add_mset size_mset)

lemma place_promote:
  assumes ok: "queue_ok W {item_id x} st" and n: "Suc (length (vec st)) = MAX_VEC_SIZE"
    and t: "heap_peek (overflow st) = Some t" "item_key x < item_key t"
  shows "\<exists>st'. place W x st = Some st' \<and> placed W x st st'"
proof -
  obtain rest where pop: "heap_pop reverse_le (overflow st) = Some (t, rest)"
    using ovf.hp.peek_Some [OF queue_okD(7) [OF ok] t(1)] by blast
  note P = pop_overflow_ok [OF ok pop]
  have x: "queue_ok W (insert (item_id x) {item_id t}) (st\<lparr>overflow := rest\<rparr>)" "item_id x \<notin> {item_id t}"
    using P(1,2) by (auto simp: insert_commute)
  have "\<forall>y\<in>set (vec st). outranks y x"
    using P(5) less_imp_le [OF t(2)] by (blast intro: order_trans)
  with push_overflow_spec [OF x] obtain s1 where s1: "push_overflow W x (st\<lparr>overflow := rest\<rparr>) = Some s1"
    "queue_ok W {item_id t} s1" "mset (overflow s1) = add_mset x (mset rest)" "vec s1 = vec st" "next_id s1 = next_id st"
    by auto
  have "\<forall>y\<in>set (overflow s1). outranks t y" unfolding set_add_mset [OF s1(3)] using P(4) t(2) by simp
  with insert_vec_spec [of t "{}" s1] s1 n obtain s2 where s2: "insert_vec W t s1 = Some s2" "queue_ok W {} s2"
    "mset (vec s2) = add_mset t (mset (vec st))" "overflow s2 = overflow s1" "next_id s2 = next_id st"
    by auto
  have "queue_inv W s2" using s2(2) length_add_mset [OF s2(3)] n by (simp add: queue_inv_def)
  moreover have "place W x st = Some s2"
    using n t pop s1(1) s2(1) by (simp add: place_def item_cmp_key)
  ultimately show ?thesis using s1(3,5) s2(3,4,5) P(3) by (simp add: placed_def)
qed

lemma place_direct:
  assumes ok: "queue_ok W {item_id x} st" and n: "length (vec st) < MAX_VEC_SIZE"
    "overflow st \<noteq> [] \<Longrightarrow> Suc (length (vec st)) = MAX_VEC_SIZE"
    and t: "\<And>t. heap_peek (overflow st) = Some t \<Longrightarrow> outranks x t"
  shows "\<exists>st'. place W x st = Some st' \<and> placed W x st st'"
proof -
  have "\<forall>y\<in>set (overflow st). outranks x y"
  proof (cases "heap_peek (overflow st)")
    case None
    then show ?thesis by (simp add: heap_peek_def split: if_splits)
  next
    case (Some t)
    then obtain rest where pop: "heap_pop reverse_le (overflow st) = Some (t, rest)"
      using ovf.hp.peek_Some [OF queue_okD(7) [OF ok]] by blast
    show ?thesis
      unfolding set_add_mset [OF pop_overflow_ok(3) [OF ok pop]]
      using pop_overflow_ok(4) [OF ok pop] t [OF Some] by (auto intro: order_trans)
  qed
  with insert_vec_spec [of x "{}" st] ok n obtain s2 where s2: "insert_vec W x st = Some s2" "queue_ok W {} s2"
    "mset (vec s2) = add_mset x (mset (vec st))" "overflow s2 = overflow st" "next_id s2 = next_id st"
    by auto
  have "queue_inv W s2" using s2(2,4) n(2) length_add_mset [OF s2(3)] by (simp add: queue_inv_def)
  moreover have "place W x st = Some s2"
    using n(1) t s2(1) by (simp add: place_def item_cmp_key leD split: option.split)
  ultimately show ?thesis using s2 by (simp add: placed_def)
qed

lemma place_full:
  assumes ok: "queue_ok W {item_id x} st" and n: "length (vec st) = MAX_VEC_SIZE"
  shows "\<exists>st'. place W x st = Some st' \<and> placed W x st st'"
proof -
  obtain xs l where l: "vec st = xs @ [l]" using n by (cases "vec st" rule: rev_cases) (auto simp: MAX_VEC_SIZE_def)
  note P = pop_vec_ok [OF ok l]
  show ?thesis
  proof (cases "item_cmp x l = Greater")
    case True
    then have "outranks l x" by (simp add: item_cmp_key)
    then have "\<forall>y\<in>set (vec st). outranks y x" using P(3) unfolding l by (auto intro: order_trans)
    with push_overflow_spec [of x "{}" st] ok obtain s1 where s1: "push_overflow W x st = Some s1" "queue_ok W {} s1"
      "mset (overflow s1) = add_mset x (mset (overflow st))" "vec s1 = vec st" "next_id s1 = next_id st"
      by auto
    have "place W x st = Some s1" using s1(1) n l True by (simp add: place_def)
    with s1 n show ?thesis by (simp add: placed_def queue_inv_def)
  next
    case False
    then have xl: "outranks x l" by (simp add: item_cmp_key not_less)
    have "item_id l \<notin> {item_id x}" using P(2) .
    with push_overflow_spec [of l "{item_id x}" "st\<lparr>vec := xs\<rparr>"] P(1,3) obtain s1 where
      s1: "push_overflow W l (st\<lparr>vec := xs\<rparr>) = Some s1" "queue_ok W {item_id x} s1"
      "mset (overflow s1) = add_mset l (mset (overflow st))" "vec s1 = xs" "next_id s1 = next_id st"
      by auto
    have "\<forall>y\<in>set (overflow s1). outranks x y"
      unfolding set_add_mset [OF s1(3)] using P(4) xl by (auto intro: order_trans)
    with insert_vec_spec [of x "{}" s1] s1 n l obtain s2 where s2: "insert_vec W x s1 = Some s2" "queue_ok W {} s2"
      "mset (vec s2) = add_mset x (mset xs)" "overflow s2 = overflow s1" "next_id s2 = next_id st"
      by auto
    have "queue_inv W s2" using s2(2) length_add_mset [OF s2(3)] n l by (simp add: queue_inv_def)
    moreover have "place W x st = Some s2" using n False l s1(1) s2(1) by (simp add: place_def Let_def)
    ultimately show ?thesis using s1(3,5) s2(3,4,5) l by (simp add: placed_def)
  qed
qed

lemma place_spec:
  assumes ok: "queue_ok W {item_id x} st" and full: "overflow st \<noteq> [] \<Longrightarrow> MAX_VEC_SIZE \<le> Suc (length (vec st))"
  shows "\<exists>st'. place W x st = Some st' \<and> placed W x st st'"
proof (cases "length (vec st) < MAX_VEC_SIZE")
  case room: True
  show ?thesis
  proof (cases "\<exists>t. heap_peek (overflow st) = Some t \<and> item_key x < item_key t")
    case True
    then obtain t where t: "heap_peek (overflow st) = Some t" "item_key x < item_key t" by blast
    moreover have "overflow st \<noteq> []" using t(1) by (auto simp: heap_peek_def)
    ultimately show ?thesis using room full by (intro place_promote [OF ok _ t]) simp
  next
    case False
    then show ?thesis using room full by (intro place_direct [OF ok]) (auto simp: not_less)
  qed
next
  case False
  then show ?thesis using queue_okD(6) [OF ok] by (intro place_full [OF ok]) simp
qed

text \<open>Extraction leaves the id registered but unplaced.\<close>

lemma extract_vec:
  assumes ok: "queue_ok W {} st" and k: "k < length (vec st)" "indexes st i = Some (InVec k, ch)" "item_id (vec st ! k) = i"
  shows "\<exists>st'. extract_item W i st = Some (vec st ! k, st') \<and> queue_ok W {i} st'
     \<and> vec st' = take k (vec st) @ drop (k + 1) (vec st) \<and> overflow st' = overflow st \<and> next_id st' = next_id st"
proof -
  note D = queue_okD [OF ok]
  define a b x where "a = take k (vec st)" and "b = drop (Suc k) (vec st)" and "x = vec st ! k"
  have v: "vec st = a @ x # b" unfolding a_def b_def x_def using id_take_nth_drop [OF k(1)] by simp
  have la: "length a = k" using k(1) by (simp add: a_def)
  have x: "item_id x = i" using k(3) by (simp add: x_def)
  have all: "set (all_items st) = insert x (set ((a @ b) @ overflow st))" by (auto simp: v)
  have dall: "distinct (map item_id ((a @ b) @ overflow st))" "i \<notin> item_id ` set ((a @ b) @ overflow st)"
    using D(1) x unfolding v by auto
  then have ids: "distinct (map item_id b)" "item_id ` set a \<inter> item_id ` set b = {}" by auto
  have "item_id ` set b \<subseteq> dom (indexes st)" using D(3) unfolding all by auto
  then obtain ixs where ixs: "update_indices W k b (indexes st) = Some ixs" "dom ixs = dom (indexes st)"
    "\<forall>l<length b. located W ixs (item_id (b ! l)) (InVec (k + l))" "\<forall>j. j \<notin> item_id ` set b \<longrightarrow> ixs j = indexes st j"
    using update_indices_spec [OF ids(1), of "indexes st" k] by blast
  have run: "extract_item W i st = Some (vec st ! k, st\<lparr>vec := a @ b, indexes := ixs\<rparr>)"
    using k(1,2) ixs(1) la by (simp add: extract_item_def update_indices_from_def a_def [symmetric] b_def [symmetric])
  have E: "{i} \<inter> item_id ` set ((a @ b) @ overflow st) = {}" using dall(2) by blast
  have do: "dom ixs = item_id ` set ((a @ b) @ overflow st) \<union> {i}" using D(3) ixs(2) x unfolding all by auto
  have so: "sorted_wrt outranks (a @ b)" and up: "\<forall>x\<in>set (a @ b). \<forall>y\<in>set (overflow st). outranks x y"
    and le: "length (a @ b) \<le> MAX_VEC_SIZE"
    using D(5,6,8) unfolding v by (simp_all add: sorted_wrt_append)
  have lv: "\<forall>l<length (a @ b). located W ixs (item_id ((a @ b) ! l)) (InVec l)"
  proof (intro allI impI)
    fix l assume l: "l < length (a @ b)"
    show "located W ixs (item_id ((a @ b) ! l)) (InVec l)"
    proof (cases "l < k")
      case True
      then have al: "a ! l \<in> set a" "(a @ b) ! l = a ! l" "vec st ! l = a ! l" using la by (simp_all add: v nth_append)
      then have "ixs (item_id (a ! l)) = indexes st (item_id (a ! l))" using ixs(4) ids(2) by blast
      moreover have "located W (indexes st) (item_id (a ! l)) (InVec l)" using D(9) True k(1) al(3) by (metis less_trans)
      ultimately show ?thesis unfolding al(2) by (blast intro: located_other)
    next
      case False
      then have "(a @ b) ! l = b ! (l - k)" "l - k < length b" using l la by (simp_all add: nth_append)
      with ixs(3) False show ?thesis by (metis le_add_diff_inverse linorder_not_less)
    qed
  qed
  have lo: "\<forall>y\<in>set (overflow st). located W ixs (item_id y) Overflow"
  proof
    fix y assume y: "y \<in> set (overflow st)"
    have "item_id y \<notin> item_id ` set b" using dall(1) y by auto
    then show "located W ixs (item_id y) Overflow" using y D(10) ixs(4) by (blast intro: located_other)
  qed
  have "queue_parts_ok W {i} (a @ b) (overflow st) ixs (next_id st)"
    by (rule queue_parts_okI [OF dall(1) E do _ so le D(7) up lv lo]) (use D(4) ixs(2) in simp)
  with run show ?thesis by (auto simp: queue_ok_def a_def b_def)
qed

lemma drain_found: "drain_loop i xs (Some y) h = (Some y, fold (heap_push reverse_le) xs h)"
  by (induction xs arbitrary: h) simp_all

lemma drain_split:
  "i \<notin> item_id ` set a \<Longrightarrow> item_id y = i \<Longrightarrow> drain_loop i (a @ y # b) None h = (Some y, fold (heap_push reverse_le) (a @ b) h)"
  by (induction a arbitrary: h) (auto simp: drain_found)

lemma extract_overflow:
  assumes ok: "queue_ok W {} st" and y: "y \<in> set (overflow st)" "item_id y = i" "indexes st i = Some (Overflow, ch)"
  shows "\<exists>st'. extract_item W i st = Some (y, st') \<and> queue_ok W {i} st'
     \<and> mset (overflow st) = add_mset y (mset (overflow st')) \<and> vec st' = vec st \<and> next_id st' = next_id st"
proof -
  note D = queue_okD [OF ok]
  obtain a b where ab: "overflow st = a @ y # b" using split_list [OF y(1)] by blast
  let ?h = "fold (heap_push reverse_le) (a @ b) []"
  have "i \<notin> item_id ` set a" using D(1) y(2) unfolding ab by auto
  then have run: "extract_item W i st = Some (y, st\<lparr>overflow := ?h\<rparr>)"
    using y ab by (simp add: extract_item_def drain_split)
  have h: "is_heap reverse_le ?h" "mset (overflow st) = add_mset y (mset ?h)"
    using ovf.hp.push_all [OF ovf.hp.empty_law(1), of "a @ b"] ab by simp_all
  have set: "set (overflow st) = insert y (set ?h)" by (rule set_add_mset [OF h(2)])
  have "distinct (map item_id (y # vec st @ ?h))"
    using D(1) by (rule iffD2 [OF distinct_map_mset, rotated]) (use h(2) in simp)
  then have di: "distinct (map item_id (vec st @ ?h))" and fresh: "i \<notin> item_id ` set (vec st @ ?h)"
    using y(2) by (simp_all add: image_Un)
  have all: "set (all_items st) = insert y (set (vec st @ ?h))" by (simp add: set)
  have E: "{i} \<inter> item_id ` set (vec st @ ?h) = {}" using fresh by blast
  have do: "dom (indexes st) = item_id ` set (vec st @ ?h) \<union> {i}" using D(3) y(2) unfolding all by auto
  have up: "\<forall>x\<in>set (vec st). \<forall>z\<in>set ?h. outranks x z" and lo: "\<forall>z\<in>set ?h. located W (indexes st) (item_id z) Overflow"
    using D(8,10) unfolding set by simp_all
  have "queue_parts_ok W {i} (vec st) ?h (indexes st) (next_id st)"
    by (rule queue_parts_okI [OF di E do D(4-6) h(1) up D(9) lo])
  with run h(2) show ?thesis by (auto simp: queue_ok_def)
qed

lemma registered_cases:
  assumes "queue_ok W {} st" "i \<in> dom (indexes st)"
  obtains (in_vec) k ch where "k < length (vec st)" "indexes st i = Some (InVec k, ch)" "item_id (vec st ! k) = i"
  | (in_overflow) y ch where "y \<in> set (overflow st)" "item_id y = i" "indexes st i = Some (Overflow, ch)"
proof -
  note D = queue_okD [OF assms(1)]
  from assms(2) D(3) consider y where "y \<in> set (vec st)" "item_id y = i" | y where "y \<in> set (overflow st)" "item_id y = i"
    by auto
  then show thesis
  proof cases
    case 1
    then obtain k where "k < length (vec st)" "vec st ! k = y" by (auto simp: in_set_conv_nth)
    with D(9) 1 in_vec show thesis unfolding located_def by metis
  next
    case 2
    with D(10) in_overflow show thesis unfolding located_def by metis
  qed
qed

lemma extract_spec:
  assumes inv: "queue_inv W st" and i: "i \<in> dom (indexes st)"
  shows "\<exists>x st'. extract_item W i st = Some (x, st') \<and> item_id x = i \<and> queue_ok W {i} st'
     \<and> mset (all_items st) = add_mset x (mset (all_items st')) \<and> next_id st' = next_id st
     \<and> (overflow st' \<noteq> [] \<longrightarrow> MAX_VEC_SIZE \<le> Suc (length (vec st')))
     \<and> ((\<exists>k ch. indexes st i = Some (InVec k, ch)) \<longleftrightarrow> length (vec st') < length (vec st))
     \<and> (overflow st' \<noteq> [] \<and> \<not> (\<exists>k ch. indexes st i = Some (InVec k, ch)) \<longrightarrow> length (vec st') = MAX_VEC_SIZE)"
proof -
  have ok: "queue_ok W {} st" and full: "overflow st \<noteq> [] \<longrightarrow> length (vec st) = MAX_VEC_SIZE"
    using inv by (simp_all add: queue_inv_def)
  show ?thesis using ok i
  proof (cases rule: registered_cases)
    case (in_vec k ch)
    from extract_vec [OF ok in_vec] obtain st' where st': "extract_item W i st = Some (vec st ! k, st')" "queue_ok W {i} st'"
      "vec st' = take k (vec st) @ drop (k + 1) (vec st)" "overflow st' = overflow st" "next_id st' = next_id st"
      by blast
    have "mset (vec st) = add_mset (vec st ! k) (mset (vec st'))"
      using arg_cong [OF id_take_nth_drop [OF in_vec(1)], of mset] st'(3) by simp
    then have "mset (all_items st) = add_mset (vec st ! k) (mset (all_items st'))" and "length (vec st) = Suc (length (vec st'))"
      using st'(4) by (simp_all add: length_add_mset)
    with st'(1,2,4,5) in_vec(2,3) full show ?thesis
      by (intro exI [of _ "vec st ! k"] exI [of _ st'] conjI) simp_all
  next
    case (in_overflow y ch)
    from extract_overflow [OF ok in_overflow] obtain st' where st': "extract_item W i st = Some (y, st')" "queue_ok W {i} st'"
      "mset (overflow st) = add_mset y (mset (overflow st'))" "vec st' = vec st" "next_id st' = next_id st"
      by blast
    have "length (vec st) = MAX_VEC_SIZE" using full in_overflow(1) by (cases "overflow st") simp_all
    with st' in_overflow(2,3) show ?thesis
      by (intro exI [of _ y] exI [of _ st'] conjI) simp_all
  qed
qed

lemma unregister_ok: "queue_ok W {i} st \<Longrightarrow> queue_ok W {} (st\<lparr>indexes := (indexes st)(i := None)\<rparr>)"
proof -
  assume ok: "queue_ok W {i} st"
  note D = queue_okD [OF ok]
  let ?ixs = "(indexes st)(i := None)"
  have i: "item_id y \<noteq> i" if "y \<in> set (all_items st)" for y using D(2) that by blast
  have other: "located W ?ixs (item_id y) loc" if "located W (indexes st) (item_id y) loc" "y \<in> set (all_items st)" for y loc
    using that(1) i [OF that(2)] by (simp add: located_def)
  have "queue_parts_ok W {} (vec st) (overflow st) ?ixs (next_id st)"
    by (rule queue_parts_okI [OF D(1) _ _ _ D(5-8)]) (use D(2-4,9,10) other in auto)
  then show ?thesis by (simp add: queue_ok_def)
qed

lemma insert_spec:
  assumes inv: "queue_inv W st"
  shows "\<exists>st'. queue_insert W pri st = Some (next_id st, st') \<and> queue_inv W st'
     \<and> mset (all_items st') = add_mset \<lparr>item_id = next_id st, item_priority = pri\<rparr> (mset (all_items st))
     \<and> next_id st' = Suc (next_id st)"
proof -
  have ok: "queue_ok W {} st" and full: "overflow st \<noteq> [] \<longrightarrow> length (vec st) = MAX_VEC_SIZE"
    using inv by (simp_all add: queue_inv_def)
  note D = queue_okD [OF ok]
  let ?i = "next_id st"
  let ?ixs = "(indexes st)(?i \<mapsto> (Overflow, channel W 255))"
  have "?i \<notin> dom (indexes st)" using D(4) by blast
  then have fresh: "?i \<notin> item_id ` set (all_items st)" using D(3) by simp
  have i: "item_id y \<noteq> ?i" if "y \<in> set (all_items st)" for y
    using fresh imageI [OF that, of item_id] by metis
  have other: "located W ?ixs (item_id y) loc" if "located W (indexes st) (item_id y) loc" "y \<in> set (all_items st)" for y loc
    using that(1) i [OF that(2)] by (simp add: located_def)
  have E: "{?i} \<inter> item_id ` set (all_items st) = {}" using fresh by (rule singleton_disjoint)
  have do: "dom ?ixs = item_id ` set (all_items st) \<union> {?i}" unfolding dom_fun_upd D(3) by simp
  have n: "\<forall>j\<in>dom ?ixs. j < Suc ?i" using D(4) by (simp add: less_Suc_eq)
  have lv: "\<forall>k<length (vec st). located W ?ixs (item_id (vec st ! k)) (InVec k)" using D(9) other by simp
  have lo: "\<forall>y\<in>set (overflow st). located W ?ixs (item_id y) Overflow" using D(10) other by simp
  let ?st = "st\<lparr>next_id := Suc ?i, indexes := ?ixs\<rparr>" and ?x = "\<lparr>item_id = ?i, item_priority = pri\<rparr>"
  have "queue_parts_ok W {?i} (vec st) (overflow st) ?ixs (Suc ?i)"
    by (rule queue_parts_okI [OF D(1) E do n D(5-8) lv lo])
  then have "queue_ok W {item_id ?x} ?st" by (simp add: queue_ok_def)
  moreover have "overflow ?st \<noteq> [] \<Longrightarrow> MAX_VEC_SIZE \<le> Suc (length (vec ?st))" using full by simp
  ultimately obtain st' where "place W ?x ?st = Some st'" "placed W ?x ?st st'" using place_spec by blast
  then show ?thesis by (simp add: queue_insert_def placed_def)
qed

lemma set_priority_spec:
  assumes "queue_inv W st" "i \<in> dom (indexes st)"
  shows "\<exists>x rest st'. set_priority W i pri st = Some st' \<and> queue_inv W st' \<and> item_id x = i
     \<and> mset (all_items st) = add_mset x rest \<and> mset (all_items st') = add_mset (x\<lparr>item_priority := pri\<rparr>) rest
     \<and> next_id st' = next_id st"
proof -
  from extract_spec [OF assms] obtain x s1 where s1: "extract_item W i st = Some (x, s1)" "item_id x = i" "queue_ok W {i} s1"
    "mset (all_items st) = add_mset x (mset (all_items s1))" "next_id s1 = next_id st"
    "overflow s1 \<noteq> [] \<longrightarrow> MAX_VEC_SIZE \<le> Suc (length (vec s1))"
    by blast
  have "queue_ok W {item_id (x\<lparr>item_priority := pri\<rparr>)} s1" using s1(2,3) by simp
  then obtain st' where st': "place W (x\<lparr>item_priority := pri\<rparr>) s1 = Some st'" "placed W (x\<lparr>item_priority := pri\<rparr>) s1 st'"
    using place_spec s1(6) by blast
  then have "set_priority W i pri st = Some st'" using s1(1) by (simp add: set_priority_def)
  with st'(2) s1(2,4,5) show ?thesis
    by (intro exI [of _ x] exI [of _ "mset (all_items s1)"] exI [of _ st']) (simp add: placed_def)
qed

lemma append_vec_ok:
  assumes ok: "queue_ok W {item_id t} st" and t: "length (vec st) < MAX_VEC_SIZE" "\<forall>y\<in>set (vec st). outranks y t"
    "\<forall>y\<in>set (overflow st). outranks t y"
  shows "\<exists>ixs. update_location W (indexes st) (item_id t) (InVec (length (vec st))) = Some ixs
     \<and> queue_ok W {} (st\<lparr>vec := vec st @ [t], indexes := ixs\<rparr>)"
proof -
  note D = queue_okD [OF ok]
  have "item_id t \<in> dom (indexes st)" using D(3) by simp
  then obtain ixs where ixs: "update_location W (indexes st) (item_id t) (InVec (length (vec st))) = Some ixs"
    "located W ixs (item_id t) (InVec (length (vec st)))" "dom ixs = dom (indexes st)"
    "\<And>j. j \<noteq> item_id t \<Longrightarrow> ixs j = indexes st j"
    by (rule update_location_spec [of "item_id t" "indexes st" "InVec (length (vec st))"]) simp_all
  have fresh: "item_id y \<noteq> item_id t" if "y \<in> set (all_items st)" for y
    using D(2) imageI [OF that, of item_id] by (metis IntI emptyE singletonI)
  have other: "located W ixs (item_id y) loc" if "located W (indexes st) (item_id y) loc" "y \<in> set (all_items st)" for y loc
    using that(1) ixs(4) [OF fresh [OF that(2)]] by (simp add: located_def)
  have di: "distinct (map item_id ((vec st @ [t]) @ overflow st))" using D(1,2) by auto
  have lv: "\<forall>k<length (vec st @ [t]). located W ixs (item_id ((vec st @ [t]) ! k)) (InVec k)"
    using D(9) ixs(2) other by (auto simp: nth_append less_Suc_eq)
  have do: "dom ixs = item_id ` set ((vec st @ [t]) @ overflow st) \<union> {}" using D(3) ixs(3) by auto
  have lo: "\<forall>y\<in>set (overflow st). located W ixs (item_id y) Overflow" using D(10) other by simp
  have "queue_parts_ok W {} (vec st @ [t]) (overflow st) ixs (next_id st)"
    by (rule queue_parts_okI [OF di _ do _ _ _ D(7) _ lv lo])
      (use D(4,5,8) ixs(3) t in \<open>simp_all add: sorted_wrt_append\<close>)
  with ixs(1) show ?thesis by (simp add: queue_ok_def)
qed

lemma remove_spec:
  assumes "queue_inv W st" "i \<in> dom (indexes st)"
  shows "\<exists>x st'. queue_remove W i st = Some st' \<and> queue_inv W st' \<and> item_id x = i
     \<and> mset (all_items st) = add_mset x (mset (all_items st')) \<and> next_id st' = next_id st"
proof -
  from extract_spec [OF assms] obtain x s1 where s1: "extract_item W i st = Some (x, s1)" "item_id x = i" "queue_ok W {i} s1"
    "mset (all_items st) = add_mset x (mset (all_items s1))" "next_id s1 = next_id st"
    "overflow s1 \<noteq> [] \<longrightarrow> MAX_VEC_SIZE \<le> Suc (length (vec s1))"
    "(\<exists>k ch. indexes st i = Some (InVec k, ch)) \<longleftrightarrow> length (vec s1) < length (vec st)"
    "overflow s1 \<noteq> [] \<and> \<not> (\<exists>k ch. indexes st i = Some (InVec k, ch)) \<longrightarrow> length (vec s1) = MAX_VEC_SIZE"
    by blast
  define s2 where "s2 = s1\<lparr>indexes := (indexes s1)(i := None)\<rparr>"
  have ok: "queue_ok W {} s2" unfolding s2_def by (rule unregister_ok [OF s1(3)])
  have was: "(case indexes st i of Some (InVec _, _) \<Rightarrow> True | _ \<Rightarrow> False) \<longleftrightarrow> (\<exists>k ch. indexes st i = Some (InVec k, ch))"
    by (auto split: option.split location.split)
  have same: "vec s2 = vec s1" "overflow s2 = overflow s1" "next_id s2 = next_id s1" by (simp_all add: s2_def)
  show ?thesis
  proof (cases "(\<exists>k ch. indexes st i = Some (InVec k, ch)) \<and> overflow s1 \<noteq> []")
    case True
    then obtain t rest where pop: "heap_pop reverse_le (overflow s2) = Some (t, rest)"
      using ovf.heap_pop_None [of "overflow s2"] same by (cases "heap_pop reverse_le (overflow s2)") auto
    note P = pop_overflow_ok [OF ok pop]
    have "length (vec st) \<le> MAX_VEC_SIZE" using queue_okD(6) assms(1) by (auto simp: queue_inv_def)
    then have n: "Suc (length (vec s2)) = MAX_VEC_SIZE" using True s1(6,7) same by simp
    then obtain ixs where ixs: "update_location W (indexes s2) (item_id t) (InVec (length (vec s2))) = Some ixs"
      "queue_ok W {} (s2\<lparr>overflow := rest, vec := vec s2 @ [t], indexes := ixs\<rparr>)"
      using append_vec_ok [OF P(1)] P(4,5) by auto
    have "queue_remove W i st = Some (s2\<lparr>overflow := rest, vec := vec s2 @ [t], indexes := ixs\<rparr>)"
      using s1(1) True was pop ixs(1) by (simp add: queue_remove_def s2_def)
    moreover have "queue_inv W (s2\<lparr>overflow := rest, vec := vec s2 @ [t], indexes := ixs\<rparr>)"
      using ixs(2) n by (simp add: queue_inv_def)
    ultimately show ?thesis
      using P(3) s1(2,4,5) same
      by (intro exI [of _ x] exI [of _ "s2\<lparr>overflow := rest, vec := vec s2 @ [t], indexes := ixs\<rparr>"]) simp
  next
    case False
    have "queue_remove W i st = Some s2"
      using s1(1) False was same ovf.heap_pop_None [of "overflow s2"] by (auto simp: queue_remove_def s2_def)
    moreover have "queue_inv W s2" using ok False s1(8) same by (auto simp: queue_inv_def)
    ultimately show ?thesis using s1(2,4,5) same by (intro exI [of _ x] exI [of _ s2]) simp
  qed
qed

end

section \<open>The handles of a queue\<close>

text \<open>
  What the owners of handles can do to a queue: make a handle, move one to another track priority, drop
  one. \<open>hs\<close> are the live handles.
\<close>

inductive queue_reach :: "'ch watch_ops \<Rightarrow> 'ch priority_state \<Rightarrow> handle list \<Rightarrow> bool" for W where
  fresh: "queue_reach W queue_new []"
| create: "queue_reach W st hs \<Longrightarrow> handle_new W pri st = Some (h, st') \<Longrightarrow> queue_reach W st' (h # hs)"
| track: "queue_reach W st hs \<Longrightarrow> h \<in> set hs \<Longrightarrow> set_track W t h st = Some (h', st') \<Longrightarrow>
    queue_reach W st' (h' # remove1 h hs)"
| drop: "queue_reach W st hs \<Longrightarrow> h \<in> set hs \<Longrightarrow> handle_drop W h st = Some st' \<Longrightarrow> queue_reach W st' (remove1 h hs)"

definition handle_item :: "handle \<Rightarrow> item" where
  "handle_item h = \<lparr>item_id = handle_id h, item_priority = handle_priority h\<rparr>"

definition item_handle :: "item \<Rightarrow> handle" where
  "item_handle x = \<lparr>handle_id = item_id x, handle_priority = item_priority x\<rparr>"

lemma item_handle_inverse [simp]: "item_handle (handle_item h) = h" "handle_item (item_handle x) = x"
  by (simp_all add: item_handle_def handle_item_def)

lemma handle_item_id [simp]: "item_id (handle_item h) = handle_id h" "handle_id (item_handle x) = item_id x"
  by (simp_all add: item_handle_def handle_item_def)

definition handles_inv :: "'ch watch_ops \<Rightarrow> 'ch priority_state \<Rightarrow> handle list \<Rightarrow> bool" where
  "handles_inv W st hs \<longleftrightarrow> queue_inv W st \<and> mset (all_items st) = mset (map handle_item hs)"

lemma handles_inv_ids:
  assumes "handles_inv W st hs"
  shows "distinct (map handle_id hs)" "dom (indexes st) = handle_id ` set hs"
proof -
  have ok: "queue_ok W {} st" and ms: "mset (all_items st) = mset (map handle_item hs)"
    using assms by (simp_all add: handles_inv_def queue_inv_def)
  from distinct_map_mset [OF ms, of item_id] queue_okD(1) [OF ok]
  show "distinct (map handle_id hs)" by (simp add: comp_def)
  from mset_eq_setD [OF ms] queue_okD(3) [OF ok]
  show "dom (indexes st) = handle_id ` set hs" by (simp add: image_image)
qed

text \<open>The one item with the id of a live handle is that handle's.\<close>

lemma handles_inv_remove:
  assumes inv: "handles_inv W st hs" and h: "h \<in> set hs" and x: "item_id x = handle_id h"
    and ms: "mset (all_items st) = add_mset x rest"
  shows "x = handle_item h" "rest = mset (map handle_item (remove1 h hs))"
proof -
  have eq: "add_mset x rest = mset (map handle_item hs)" using inv ms by (simp add: handles_inv_def)
  then have "x \<in> set (map handle_item hs)" by (metis set_mset_mset union_single_eq_member)
  then obtain h' where h': "h' \<in> set hs" "x = handle_item h'" by auto
  have "h' = h" using handles_inv_ids(1) [OF inv] h h' x by (auto simp: distinct_map inj_on_def)
  with h' show xh: "x = handle_item h" by simp
  have "mset hs = add_mset h (mset (remove1 h hs))" using h by simp
  then have "mset (map handle_item hs) = add_mset (handle_item h) (mset (map handle_item (remove1 h hs)))"
    by (metis image_mset_add_mset mset_map)
  with eq xh show "rest = mset (map handle_item (remove1 h hs))" by simp
qed

lemma queue_new_inv: "queue_inv W queue_new"
  by (simp add: queue_inv_def queue_ok_def queue_parts_ok_def queue_new_def is_heap_def)

context watch
begin

lemma handle_new_spec:
  assumes "handles_inv W st hs"
  shows "\<exists>h st'. handle_new W pri st = Some (h, st') \<and> handle_priority h = pri \<and> handles_inv W st' (h # hs)"
proof -
  obtain st' where st': "queue_insert W pri st = Some (next_id st, st')" "queue_inv W st'"
    "mset (all_items st') = add_mset \<lparr>item_id = next_id st, item_priority = pri\<rparr> (mset (all_items st))"
    using insert_spec assms unfolding handles_inv_def by blast
  let ?h = "\<lparr>handle_id = next_id st, handle_priority = pri\<rparr>"
  have "handle_new W pri st = Some (?h, st')" using st'(1) by (simp add: handle_new_def)
  moreover have "handles_inv W st' (?h # hs)"
    using st'(2,3) assms by (simp add: handles_inv_def handle_item_def)
  ultimately show ?thesis by auto
qed

lemma set_track_spec:
  assumes inv: "handles_inv W st hs" and h: "h \<in> set hs"
  shows "\<exists>h' st'. set_track W t h st = Some (h', st') \<and> handle_id h' = handle_id h
     \<and> handle_priority h' = (handle_priority h)\<lparr>pri_track := t\<rparr> \<and> handles_inv W st' (h' # remove1 h hs)"
proof (cases "pri_track (handle_priority h) = t")
  case True
  have "mset (map handle_item (h # remove1 h hs)) = mset (map handle_item hs)"
    using h by (metis insert_DiffM mset.simps(2) mset_map mset_remove1 set_mset_mset)
  then have "handles_inv W st (h # remove1 h hs)" using inv by (simp only: handles_inv_def)
  with True show ?thesis by (auto simp: set_track_def)
next
  case False
  let ?p = "(handle_priority h)\<lparr>pri_track := t\<rparr>"
  have q: "queue_inv W st" using inv by (simp add: handles_inv_def)
  have "handle_id h \<in> dom (indexes st)" using handles_inv_ids(2) [OF inv] h by simp
  then obtain x rest st' where st': "set_priority W (handle_id h) ?p st = Some st'" "queue_inv W st'" "item_id x = handle_id h"
    "mset (all_items st) = add_mset x rest" "mset (all_items st') = add_mset (x\<lparr>item_priority := ?p\<rparr>) rest"
    using set_priority_spec [OF q, of "handle_id h" ?p] by blast
  note x = handles_inv_remove [OF inv h st'(3,4)]
  have "handles_inv W st' (h\<lparr>handle_priority := ?p\<rparr> # remove1 h hs)"
    using st'(2,5) x by (simp add: handles_inv_def handle_item_def)
  moreover have "set_track W t h st = Some (h\<lparr>handle_priority := ?p\<rparr>, st')"
    using False st'(1) by (simp add: set_track_def)
  ultimately show ?thesis by simp
qed

lemma handle_drop_spec:
  assumes inv: "handles_inv W st hs" and h: "h \<in> set hs"
  shows "\<exists>st'. handle_drop W h st = Some st' \<and> handles_inv W st' (remove1 h hs)"
proof -
  have q: "queue_inv W st" using inv by (simp add: handles_inv_def)
  have "handle_id h \<in> dom (indexes st)" using handles_inv_ids(2) [OF inv] h by simp
  then obtain x st' where st': "queue_remove W (handle_id h) st = Some st'" "queue_inv W st'" "item_id x = handle_id h"
    "mset (all_items st) = add_mset x (mset (all_items st'))"
    using remove_spec [OF q] by blast
  with handles_inv_remove(2) [OF inv h st'(3,4)] show ?thesis by (simp add: handle_drop_def handles_inv_def)
qed

lemma reach_handles_inv: "queue_reach W st hs \<Longrightarrow> handles_inv W st hs"
proof (induction rule: queue_reach.induct)
  case fresh
  show ?case using queue_new_inv by (simp add: handles_inv_def queue_new_def)
next
  case (create st hs pri h st')
  with handle_new_spec [OF create.IH, of pri] show ?case by auto
next
  case (track st hs h t h' st')
  with set_track_spec [OF track.IH track.hyps(2), of t] show ?case by auto
next
  case (drop st hs h st')
  with handle_drop_spec [OF drop.IH drop.hyps(2)] show ?case by auto
qed

lemma inv_ranks:
  assumes "queue_inv W st"
  shows "\<exists>L. mset L = mset (all_items st) \<and> sorted_wrt outranks L
     \<and> (\<forall>i<length L. \<exists>loc ch. indexes st (item_id (L ! i)) = Some (loc, ch) \<and> borrow W ch = of_nat (min i 255))"
proof -
  have ok: "queue_ok W {} st" and full: "overflow st \<noteq> [] \<longrightarrow> length (vec st) = 255"
    using assms by (simp_all add: queue_inv_def MAX_VEC_SIZE_def)
  note D = queue_okD [OF ok]
  let ?o = "rev (sort_key item_key (overflow st))"
  have "sorted_wrt outranks ?o" using sorted_sort_key [of item_key "overflow st"] by (simp add: sorted_wrt_rev sorted_map)
  then have so: "sorted_wrt outranks (vec st @ ?o)" using D(5,8) by (simp add: sorted_wrt_append)
  have v: "\<exists>loc ch. indexes st (item_id (vec st ! i)) = Some (loc, ch) \<and> borrow W ch = of_nat (min i 255)"
    if "i < length (vec st)" for i
  proof -
    have "i \<le> 255" using that D(6) by (simp add: MAX_VEC_SIZE_def)
    with D(9) that show ?thesis by (fastforce simp: located_def min_def)
  qed
  have o: "\<exists>loc ch. indexes st (item_id y) = Some (loc, ch) \<and> borrow W ch = 255" if "y \<in> set (overflow st)" for y
    using D(10) that by (fastforce simp: located_def)
  have "\<exists>loc ch. indexes st (item_id ((vec st @ ?o) ! i)) = Some (loc, ch) \<and> borrow W ch = of_nat (min i 255)"
    if i: "i < length (vec st @ ?o)" for i
  proof (cases "i < length (vec st)")
    case True
    with v show ?thesis by (simp add: nth_append)
  next
    case False
    then have k: "i - length (vec st) < length ?o" using i by simp
    then have "overflow st \<noteq> []" by auto
    then have "255 \<le> i" using full False by simp
    moreover have "?o ! (i - length (vec st)) \<in> set (overflow st)" using nth_mem [OF k] by simp
    ultimately show ?thesis using o [of "?o ! (i - length (vec st))"] False by (simp add: nth_append min_absorb2)
  qed
  then show ?thesis using so by (intro exI [of _ "vec st @ ?o"]) simp
qed

lemma handles_inv_ranks:
  assumes "handles_inv W st hs"
  shows "\<exists>L. mset L = mset hs \<and> sorted_wrt (\<lambda>a b. priority_cmp (handle_priority a) (handle_priority b) \<noteq> Greater) L
     \<and> (\<forall>i<length L. handle_current W (L ! i) st = Some (of_nat (min i 255)))"
proof -
  obtain L where L: "mset L = mset (map handle_item hs)" "sorted_wrt outranks L"
    "\<forall>i<length L. \<exists>loc ch. indexes st (item_id (L ! i)) = Some (loc, ch) \<and> borrow W ch = of_nat (min i 255)"
    using inv_ranks assms unfolding handles_inv_def by metis
  let ?L = "map item_handle L"
  have "mset ?L = image_mset item_handle (mset L)" by simp
  also have "\<dots> = mset hs" unfolding L(1) by (simp add: comp_def flip: mset_map)
  finally have ms: "mset ?L = mset hs" .
  have "outranks a b \<longleftrightarrow> priority_cmp (handle_priority (item_handle a)) (handle_priority (item_handle b)) \<noteq> Greater" for a b
    using item_cmp_key(2) [of a b] by (auto simp: item_cmp_def item_handle_def not_less)
  then have "sorted_wrt (\<lambda>a b. priority_cmp (handle_priority a) (handle_priority b) \<noteq> Greater) ?L"
    using L(2) by (simp add: sorted_wrt_map)
  moreover have "handle_current W (?L ! i) st = Some (of_nat (min i 255))" if "i < length ?L" for i
    using L(3) that by (fastforce simp: handle_current_def)
  ultimately show ?thesis using ms by blast
qed

end

section \<open>Properties\<close>

lemma mset_two:
  assumes "mset L = mset [a, b]"
  shows "L = [b, a] \<or> L = [a, b]"
proof -
  have "length L = 2" using mset_eq_length [OF assms] by simp
  then obtain c d where "L = [c, d]" by (auto simp: numeral_2_eq_2 length_Suc_conv)
  with assms show ?thesis by (auto simp: add_mset_eq_single add_eq_conv_ex)
qed

text \<open>
  C24: Whatever the owners of handles did before, the next call returns: making a handle, changing the
  track priority of a live one and dropping a live one never meet a missing index, an empty vector or an
  item that is not found. A new handle has the priority asked for, a moved one keeps its id and group.
\<close>

theorem priority_queue_never_panics:
  assumes "watch W" "queue_reach W st hs"
  shows "(\<exists>h st'. handle_new W pri st = Some (h, st') \<and> handle_priority h = pri \<and> queue_reach W st' (h # hs))
    \<and> (\<forall>h t. h \<in> set hs \<longrightarrow> (\<exists>h' st'. set_track W t h st = Some (h', st') \<and> handle_id h' = handle_id h
          \<and> handle_priority h' = (handle_priority h)\<lparr>pri_track := t\<rparr> \<and> queue_reach W st' (h' # remove1 h hs)))
    \<and> (\<forall>h. h \<in> set hs \<longrightarrow> (\<exists>st'. handle_drop W h st = Some st' \<and> queue_reach W st' (remove1 h hs)))"
proof -
  note inv = watch.reach_handles_inv [OF assms]
  show ?thesis
    using watch.handle_new_spec [OF assms(1) inv] watch.set_track_spec [OF assms(1) inv] watch.handle_drop_spec [OF assms(1) inv]
      queue_reach.create [OF assms(2)] queue_reach.track [OF assms(2)] queue_reach.drop [OF assms(2)]
    by (intro conjI allI impI) blast+
qed

theorem priority_queue_never_panics_witness:
  "\<exists>h st h' st' st''. handle_new cell_watch \<lparr>pri_track = 3, pri_group = 9\<rparr> queue_new = Some (h, st)
     \<and> set_track cell_watch 7 h st = Some (h', st') \<and> handle_priority h' = \<lparr>pri_track = 7, pri_group = 9\<rparr>
     \<and> handle_drop cell_watch h' st' = Some st''"
proof -
  note T = priority_queue_never_panics [OF cell_watch.watch_axioms]
  obtain h st where 1: "handle_new cell_watch \<lparr>pri_track = 3, pri_group = 9\<rparr> queue_new = Some (h, st)"
    "handle_priority h = \<lparr>pri_track = 3, pri_group = 9\<rparr>" "queue_reach cell_watch st [h]"
    using T [OF queue_reach.fresh] by blast
  obtain h' st' where 2: "set_track cell_watch 7 h st = Some (h', st')"
    "handle_priority h' = (handle_priority h)\<lparr>pri_track := 7\<rparr>" "queue_reach cell_watch st' (h' # remove1 h [h])"
    using T [OF 1(3)] by (metis list.set_intros(1))
  obtain st'' where "handle_drop cell_watch h' st' = Some st''" using T [OF 2(3)] by (metis list.set_intros(1))
  with 1 2 show ?thesis by simp
qed

text \<open>
  C5: At every moment the live handles can be listed in the order of \<open>Priority\<close> so that each handle's
  channel reports its place in that list, and 255 from place 255 on. The queue holds an index entry for
  the live handles and for nothing else.
\<close>

theorem priority_queue_reports_rank:
  assumes "watch W" "queue_reach W st hs"
  shows "(\<exists>L. mset L = mset hs \<and> sorted_wrt (\<lambda>a b. priority_cmp (handle_priority a) (handle_priority b) \<noteq> Greater) L
        \<and> (\<forall>i<length L. handle_current W (L ! i) st = Some (of_nat (min i 255))))
    \<and> distinct (map handle_id hs) \<and> dom (indexes st) = handle_id ` set hs \<and> length (vec st @ overflow st) = length hs"
proof -
  note inv = watch.reach_handles_inv [OF assms]
  have "length (vec st @ overflow st) = length hs"
    using inv unfolding handles_inv_def by (metis length_map size_mset)
  then show ?thesis using watch.handles_inv_ranks [OF assms(1) inv] handles_inv_ids [OF inv] by blast
qed

theorem priority_queue_reports_rank_witness:
  "\<exists>h1 h2 st st'. handle_new cell_watch \<lparr>pri_track = 3, pri_group = 9\<rparr> queue_new = Some (h1, st)
     \<and> handle_new cell_watch \<lparr>pri_track = 7, pri_group = 1\<rparr> st = Some (h2, st')
     \<and> handle_current cell_watch h2 st' = Some 0 \<and> handle_current cell_watch h1 st' = Some 1"
proof -
  note S = cell_watch.handle_new_spec [OF cell_watch.reach_handles_inv]
  obtain h1 st where 1: "handle_new cell_watch \<lparr>pri_track = 3, pri_group = 9\<rparr> queue_new = Some (h1, st)"
    "handle_priority h1 = \<lparr>pri_track = 3, pri_group = 9\<rparr>" using S [OF queue_reach.fresh] by blast
  note r1 = queue_reach.create [OF queue_reach.fresh 1(1)]
  obtain h2 st' where 2: "handle_new cell_watch \<lparr>pri_track = 7, pri_group = 1\<rparr> st = Some (h2, st')"
    "handle_priority h2 = \<lparr>pri_track = 7, pri_group = 1\<rparr>" using S [OF r1] by blast
  note r2 = queue_reach.create [OF r1 2(1)]
  obtain L where L: "mset L = mset [h2, h1]" "sorted_wrt (\<lambda>a b. priority_cmp (handle_priority a) (handle_priority b) \<noteq> Greater) L"
    "\<forall>i<length L. handle_current cell_watch (L ! i) st' = Some (of_nat (min i 255))"
    using priority_queue_reports_rank [OF cell_watch.watch_axioms r2] by blast
  have "L = [h1, h2] \<or> L = [h2, h1]" by (rule mset_two [OF L(1)])
  moreover have "L \<noteq> [h1, h2]"
    using L(2) 1(2) 2(2) by (auto simp: priority_cmp_def word_cmp_def)
  ultimately have "L = [h2, h1]" by blast
  with L(3) have "handle_current cell_watch h2 st' = Some 0" "handle_current cell_watch h1 st' = Some 1"
    by (simp_all add: All_less_Suc numeral_eq_Suc)
  with 1 2 show ?thesis by blast
qed

end
