(* ===== verification/Ietf_Params.thy ===== *)
theory Ietf_Params
  imports Paths "HOL-Library.AList"
begin

text \<open>
  What the messages of the IETF drafts share (\<open>relay/rs/moq-net/src/ietf\<close>): namespaces
  (\<open>namespace.rs\<close>), locations, request ids, group orders, subscription filters, the message parameters
  with their macros \<open>encode_params!\<close> and \<open>decode_params!\<close> (\<open>parameters.rs\<close>), the setup parameters, and the
  track properties that are skipped (\<open>properties.rs\<close>).
\<close>

fun draft14_16 :: "ietf_version \<Rightarrow> bool" where
  "draft14_16 v \<longleftrightarrow> (case v of Draft14 \<Rightarrow> True | Draft15 \<Rightarrow> True | Draft16 \<Rightarrow> True | _ \<Rightarrow> False)"

section \<open>Namespaces\<close>

definition encode_namespace :: "'w buf_mut \<Rightarrow> path \<Rightarrow> ietf_version \<Rightarrow> (encode_error, 'w) encoder" where
  "encode_namespace B ns v =
     (if ns = [] then u64_encode B (Ietf v) 0
      else (let ps = split_slash ns
            in if 32 < length ps then efail EncodeBoundsExceeded
               else ebind (u64_encode B (Ietf v) (of_nat (length ps))) (eseq (map (string_encode B (Ietf v)) ps))))"

definition decode_namespace :: "ietf_version \<Rightarrow> (decode_error, path) decoder" where
  "decode_namespace v = dbind (u64_decode (Ietf v)) (\<lambda>count.
     if count = 0 then dret (path_from_string [])
     else if 32 < count then dfail BoundsExceeded
     else dbind (drepeat (unat count) (string_decode (Ietf v))) (\<lambda>ps. dret (path_from_string (join_parts ps))))"

section \<open>Locations, request ids, group orders and filters\<close>

record ietf_location =
  loc_group :: u64
  loc_object :: u64

definition location_encode :: "'w buf_mut \<Rightarrow> ietf_version \<Rightarrow> ietf_location \<Rightarrow> (encode_error, 'w) encoder" where
  "location_encode B v l = ebind (u64_encode B (Ietf v) (loc_group l)) (u64_encode B (Ietf v) (loc_object l))"

definition location_decode :: "ietf_version \<Rightarrow> (decode_error, ietf_location) decoder" where
  "location_decode v = dbind (u64_decode (Ietf v)) (\<lambda>g. dbind (u64_decode (Ietf v)) (\<lambda>ob.
     dret \<lparr>loc_group = g, loc_object = ob\<rparr>))"

type_synonym request_id = u64

text \<open>\<open>increment\<close> wraps around, as the release build does.\<close>

definition increment :: "request_id \<Rightarrow> request_id \<times> request_id" where
  "increment rid = (rid, rid + 2)"

definition request_id_encode :: "'w buf_mut \<Rightarrow> ietf_version \<Rightarrow> request_id \<Rightarrow> (encode_error, 'w) encoder" where
  "request_id_encode B v rid = u64_encode B (Ietf v) rid"

definition request_id_decode :: "ietf_version \<Rightarrow> (decode_error, request_id) decoder" where
  "request_id_decode v = u64_decode (Ietf v)"

datatype group_order = AnyOrder | Ascending | Descending

fun group_order_code :: "group_order \<Rightarrow> u8" where
  "group_order_code AnyOrder = 0"
| "group_order_code Ascending = 1"
| "group_order_code Descending = 2"

definition group_order_try_from :: "u8 \<Rightarrow> group_order option" where
  "group_order_try_from x =
     (if x = 0 then Some AnyOrder else if x = 1 then Some Ascending else if x = 2 then Some Descending else None)"

fun any_to_descending :: "group_order \<Rightarrow> group_order" where
  "any_to_descending AnyOrder = Descending"
| "any_to_descending other = other"

definition group_order_encode :: "'w buf_mut \<Rightarrow> group_order \<Rightarrow> (encode_error, 'w) encoder" where
  "group_order_encode B x = u8_encode B (group_order_code x)"

definition group_order_decode :: "(decode_error, group_order) decoder" where
  "group_order_decode = dbind u8_decode (\<lambda>x.
     case group_order_try_from x of Some g \<Rightarrow> dret g | None \<Rightarrow> dfail InvalidValue)"

datatype filter_type = NextGroup | LargestObject | AbsoluteStart | AbsoluteRange

fun filter_type_code :: "filter_type \<Rightarrow> u64" where
  "filter_type_code NextGroup = 1"
| "filter_type_code LargestObject = 2"
| "filter_type_code AbsoluteStart = 3"
| "filter_type_code AbsoluteRange = 4"

definition filter_type_try_from :: "u64 \<Rightarrow> filter_type option" where
  "filter_type_try_from x =
     (if x = 1 then Some NextGroup else if x = 2 then Some LargestObject else if x = 3 then Some AbsoluteStart
      else if x = 4 then Some AbsoluteRange else None)"

definition filter_type_encode :: "'w buf_mut \<Rightarrow> ietf_version \<Rightarrow> filter_type \<Rightarrow> (encode_error, 'w) encoder" where
  "filter_type_encode B v x = u64_encode B (Ietf v) (filter_type_code x)"

definition filter_type_decode :: "ietf_version \<Rightarrow> (decode_error, filter_type) decoder" where
  "filter_type_decode v = dbind (u64_decode (Ietf v)) (\<lambda>x.
     case filter_type_try_from x of Some f \<Rightarrow> dret f | None \<Rightarrow> dfail InvalidValue)"

section \<open>Parameter values\<close>

definition param_u8_encode :: "'w buf_mut \<Rightarrow> ietf_version \<Rightarrow> u8 \<Rightarrow> (encode_error, 'w) encoder" where
  "param_u8_encode B v x = (if draft14_16 v then u64_encode B (Ietf v) (ucast x) else u8_encode B x)"

definition param_u8_decode :: "ietf_version \<Rightarrow> (decode_error, u8) decoder" where
  "param_u8_decode v =
     (if draft14_16 v then dbind (u64_decode (Ietf v)) (\<lambda>x. if x \<le> 255 then dret (ucast x) else dfail InvalidValue)
      else u8_decode)"

definition param_bool_encode :: "'w buf_mut \<Rightarrow> ietf_version \<Rightarrow> bool \<Rightarrow> (encode_error, 'w) encoder" where
  "param_bool_encode B v x = (if draft14_16 v then u64_encode B (Ietf v) (of_bool x) else bool_encode B x)"

definition param_bool_decode :: "ietf_version \<Rightarrow> (decode_error, bool) decoder" where
  "param_bool_decode v =
     (if draft14_16 v then dbind (u64_decode (Ietf v)) (\<lambda>x.
        if x = 0 then dret False else if x = 1 then dret True else dfail InvalidValue)
      else bool_decode)"

text \<open>A value written into a fresh vector, which then goes out with its length; and its decoder.\<close>

definition nested_encode :: "'w buf_mut \<Rightarrow> ietf_version \<Rightarrow> (encode_error, byte list) encoder \<Rightarrow> (encode_error, 'w) encoder" where
  "nested_encode B v e w = and_then (encode_bytes e) (\<lambda>buf. bytes_encode B (Ietf v) buf w)"

definition nested_decode :: "ietf_version \<Rightarrow> (decode_error, 'a) decoder \<Rightarrow> (decode_error, 'a) decoder" where
  "nested_decode v d = dbind (bytes_decode (Ietf v)) (\<lambda>buf r.
     and_then (d buf) (\<lambda>(x, rest). if rest \<noteq> [] then Inl TrailingBytes else Inr (x, r)))"

definition param_location_encode :: "'w buf_mut \<Rightarrow> ietf_version \<Rightarrow> ietf_location \<Rightarrow> (encode_error, 'w) encoder" where
  "param_location_encode B v l =
     (if draft14_16 v then
        nested_encode B v (ebind (u64_encode bytes_mut (Ietf Draft15) (loc_group l)) (u64_encode bytes_mut (Ietf Draft15) (loc_object l)))
      else ebind (u64_encode B (Ietf v) (loc_group l)) (u64_encode B (Ietf v) (loc_object l)))"

definition param_location_decode :: "ietf_version \<Rightarrow> (decode_error, ietf_location) decoder" where
  "param_location_decode v =
     (if draft14_16 v then
        nested_decode v (dbind (u64_decode (Ietf Draft15)) (\<lambda>g. dbind (u64_decode (Ietf Draft15)) (\<lambda>ob.
          dret \<lparr>loc_group = g, loc_object = ob\<rparr>)))
      else dbind (u64_decode (Ietf v)) (\<lambda>g. dbind (u64_decode (Ietf v)) (\<lambda>ob. dret \<lparr>loc_group = g, loc_object = ob\<rparr>)))"

definition param_filter_encode :: "'w buf_mut \<Rightarrow> ietf_version \<Rightarrow> filter_type \<Rightarrow> (encode_error, 'w) encoder" where
  "param_filter_encode B v x =
     (let sv = (if draft14_16 v then Draft15 else v) in nested_encode B v (filter_type_encode bytes_mut sv x))"

definition param_filter_decode :: "ietf_version \<Rightarrow> (decode_error, filter_type) decoder" where
  "param_filter_decode v =
     (let sv = (if draft14_16 v then Draft15 else v) in nested_decode v (filter_type_decode sv))"

definition param_order_encode :: "'w buf_mut \<Rightarrow> ietf_version \<Rightarrow> group_order \<Rightarrow> (encode_error, 'w) encoder" where
  "param_order_encode B v x = param_u8_encode B v (group_order_code x)"

definition param_order_decode :: "ietf_version \<Rightarrow> (decode_error, group_order) decoder" where
  "param_order_decode v = dbind (param_u8_decode v) (\<lambda>x.
     dret (any_to_descending (case group_order_try_from x of Some g \<Rightarrow> g | None \<Rightarrow> Descending)))"

section \<open>The parameter macros\<close>

text \<open>
  The arguments of \<open>encode_params!\<close> are a list of keys with an encoder for the value, \<open>None\<close> when the
  value is an \<open>Option\<close> that is absent. \<open>decode_params!\<close> declares a type for each key; here a decoder
  into the type \<open>param_value\<close> of all parameter values. Its result are the variables that were set.
\<close>

type_synonym 'w params = "(u64 \<times> (encode_error, 'w) encoder option) list"

fun present_count :: "'w params \<Rightarrow> nat" where
  "present_count [] = 0"
| "present_count ((_, None) # ps) = present_count ps"
| "present_count ((_, Some _) # ps) = Suc (present_count ps)"

fun encode_params_loop :: "'w buf_mut \<Rightarrow> ietf_version \<Rightarrow> bool \<Rightarrow> u64 \<Rightarrow> 'w params \<Rightarrow> (encode_error, 'w) encoder" where
  "encode_params_loop B v first prev [] = enil"
| "encode_params_loop B v first prev ((key, None) # ps) = encode_params_loop B v first prev ps"
| "encode_params_loop B v first prev ((key, Some e) # ps) =
     ebind (u64_encode B (Ietf v) (if v = Draft14 \<or> v = Draft15 then key else if first then key else key - prev))
       (ebind e (encode_params_loop B v False key ps))"

definition encode_params :: "'w buf_mut \<Rightarrow> ietf_version \<Rightarrow> 'w params \<Rightarrow> (encode_error, 'w) encoder" where
  "encode_params B v ps = ebind (usize_encode B (Ietf v) (present_count ps)) (encode_params_loop B v True 0 ps)"

datatype param_value =
    ParamBool bool
  | ParamU8 u8
  | ParamFilter filter_type
  | ParamOrder group_order
  | ParamLocation ietf_location

definition checked_add :: "u64 \<Rightarrow> u64 \<Rightarrow> u64 option" where
  "checked_add a b = (if unat a + unat b < 2 ^ 64 then Some (a + b) else None)"

definition decode_delta :: "ietf_version \<Rightarrow> bool \<Rightarrow> u64 \<Rightarrow> (decode_error, u64) decoder" where
  "decode_delta v first prev = dbind (u64_decode (Ietf v)) (\<lambda>delta.
     if first then dret delta
     else (case checked_add prev delta of Some x \<Rightarrow> dret x | None \<Rightarrow> dfail BoundsExceeded))"

definition decode_key :: "ietf_version \<Rightarrow> bool \<Rightarrow> u64 \<Rightarrow> (decode_error, u64) decoder" where
  "decode_key v first prev =
     (if v = Draft14 \<or> v = Draft15 then u64_decode (Ietf v) else decode_delta v first prev)"

fun decode_params_loop :: "ietf_version \<Rightarrow> (u64 \<rightharpoonup> (decode_error, param_value) decoder) \<Rightarrow> nat \<Rightarrow> bool \<Rightarrow> u64
    \<Rightarrow> (u64 \<rightharpoonup> param_value) \<Rightarrow> (decode_error, u64 \<rightharpoonup> param_value) decoder" where
  "decode_params_loop v spec 0 first prev acc = dret acc"
| "decode_params_loop v spec (Suc n) first prev acc = dbind (decode_key v first prev) (\<lambda>key.
     case spec key of
       None \<Rightarrow> dfail InvalidValue
     | Some d \<Rightarrow> if acc key \<noteq> None then dfail Duplicate
                 else dbind d (\<lambda>x. decode_params_loop v spec n False key (acc(key \<mapsto> x))))"

definition decode_params :: "ietf_version \<Rightarrow> (u64 \<times> (decode_error, param_value) decoder) list
    \<Rightarrow> (decode_error, u64 \<rightharpoonup> param_value) decoder" where
  "decode_params v spec = dbind (u64_decode (Ietf v)) (\<lambda>count.
     if 64 < count then dfail TooMany else decode_params_loop v (map_of spec) (unat count) True 0 Map.empty)"

definition value_bool :: "ietf_version \<Rightarrow> (decode_error, param_value) decoder" where
  "value_bool v = dbind (param_bool_decode v) (\<lambda>x. dret (ParamBool x))"

definition value_u8 :: "ietf_version \<Rightarrow> (decode_error, param_value) decoder" where
  "value_u8 v = dbind (param_u8_decode v) (\<lambda>x. dret (ParamU8 x))"

definition value_filter :: "ietf_version \<Rightarrow> (decode_error, param_value) decoder" where
  "value_filter v = dbind (param_filter_decode v) (\<lambda>x. dret (ParamFilter x))"

definition value_order :: "ietf_version \<Rightarrow> (decode_error, param_value) decoder" where
  "value_order v = dbind (param_order_decode v) (\<lambda>x. dret (ParamOrder x))"

definition value_location :: "ietf_version \<Rightarrow> (decode_error, param_value) decoder" where
  "value_location v = dbind (param_location_decode v) (\<lambda>x. dret (ParamLocation x))"

fun as_bool :: "param_value option \<Rightarrow> bool option" where
  "as_bool (Some (ParamBool x)) = Some x"
| "as_bool _ = None"

fun as_u8 :: "param_value option \<Rightarrow> u8 option" where
  "as_u8 (Some (ParamU8 x)) = Some x"
| "as_u8 _ = None"

fun as_filter :: "param_value option \<Rightarrow> filter_type option" where
  "as_filter (Some (ParamFilter x)) = Some x"
| "as_filter _ = None"

fun as_order :: "param_value option \<Rightarrow> group_order option" where
  "as_order (Some (ParamOrder x)) = Some x"
| "as_order _ = None"

fun as_location :: "param_value option \<Rightarrow> ietf_location option" where
  "as_location (Some (ParamLocation x)) = Some x"
| "as_location _ = None"

fun unwrap_or :: "'a option \<Rightarrow> 'a \<Rightarrow> 'a" where
  "unwrap_or (Some x) d = x"
| "unwrap_or None d = d"

section \<open>Track properties\<close>

definition MAX_PROPERTIES :: nat where
  "MAX_PROPERTIES = 64"

definition MAX_KVP_VALUE_LEN :: nat where
  "MAX_KVP_VALUE_LEN = 2 ^ 16 - 1"

text \<open>
  The loop runs until the buffer is empty and gives up after \<open>MAX_PROPERTIES\<close> rounds, so the rounds left
  bound the recursion.
\<close>

fun skip_loop :: "ietf_version \<Rightarrow> nat \<Rightarrow> bool \<Rightarrow> u64 \<Rightarrow> (decode_error, unit) decoder" where
  "skip_loop v left first prev r =
     (if r = [] then Inr ((), r)
      else case left of 0 \<Rightarrow> Inl TooMany
      | Suc n \<Rightarrow> dbind (decode_delta v first prev) (\<lambda>key.
          dbind (if key mod 2 = 0 then dbind (u64_decode (Ietf v)) (\<lambda>_. dret ())
                 else dbind (u64_decode (Ietf v)) (\<lambda>len.
                   if MAX_KVP_VALUE_LEN < unat len then dfail BoundsExceeded
                   else dbind (copy_to_bytes (unat len)) (\<lambda>_. dret ())))
            (\<lambda>_. skip_loop v n False key)) r)"

declare skip_loop.simps [simp del]

definition properties_skip :: "ietf_version \<Rightarrow> (decode_error, unit) decoder" where
  "properties_skip v = (if draft14_16 v then dret () else skip_loop v MAX_PROPERTIES True 0)"

section \<open>Setup parameters\<close>

datatype parameter_varint = MaxRequestIdParam | MaxAuthTokenCacheSize | UnknownVarint u64

datatype parameter_bytes = PathParam | AuthorizationToken | Authority | Implementation | UnknownBytes u64

fun varint_kind :: "u64 \<Rightarrow> parameter_varint" where
  "varint_kind x = (if x = 2 then MaxRequestIdParam else if x = 4 then MaxAuthTokenCacheSize else UnknownVarint x)"

fun varint_key :: "parameter_varint \<Rightarrow> u64" where
  "varint_key MaxRequestIdParam = 2"
| "varint_key MaxAuthTokenCacheSize = 4"
| "varint_key (UnknownVarint x) = x"

fun bytes_kind :: "u64 \<Rightarrow> parameter_bytes" where
  "bytes_kind x =
     (if x = 1 then PathParam else if x = 3 then AuthorizationToken else if x = 5 then Authority
      else if x = 7 then Implementation else UnknownBytes x)"

fun bytes_key :: "parameter_bytes \<Rightarrow> u64" where
  "bytes_key PathParam = 1"
| "bytes_key AuthorizationToken = 3"
| "bytes_key Authority = 5"
| "bytes_key Implementation = 7"
| "bytes_key (UnknownBytes x) = x"

text \<open>
  The two hash maps are association lists with distinct keys. The order of a list stands for the
  iteration order of the map, which the program leaves open.
\<close>

record parameters =
  par_vars :: "(parameter_varint \<times> u64) list"
  par_bytes :: "(parameter_bytes \<times> byte list) list"

definition parameters_default :: parameters where
  "parameters_default = \<lparr>par_vars = [], par_bytes = []\<rparr>"

definition MAX_PARAMS :: nat where
  "MAX_PARAMS = 64"

definition decode_pair :: "ietf_version \<Rightarrow> u64 \<Rightarrow> parameters \<Rightarrow> (decode_error, parameters) decoder" where
  "decode_pair v key ps =
     (if key mod 2 = 0 then
        (if map_of (par_vars ps) (varint_kind key) \<noteq> None then dfail Duplicate
         else dbind (u64_decode (Ietf v)) (\<lambda>x. dret (ps\<lparr>par_vars := par_vars ps @ [(varint_kind key, x)]\<rparr>)))
      else dbind (bytes_decode (Ietf v)) (\<lambda>val.
        if MAX_KVP_VALUE_LEN < length val then dfail BoundsExceeded
        else if map_of (par_bytes ps) (bytes_kind key) \<noteq> None then dfail Duplicate
        else dret (ps\<lparr>par_bytes := par_bytes ps @ [(bytes_kind key, val)]\<rparr>)))"

fun pairs_loop :: "ietf_version \<Rightarrow> nat \<Rightarrow> bool \<Rightarrow> u64 \<Rightarrow> parameters \<Rightarrow> (decode_error, parameters) decoder" where
  "pairs_loop v 0 first prev ps = dret ps"
| "pairs_loop v (Suc n) first prev ps =
     dbind (decode_key v first prev) (\<lambda>key. dbind (decode_pair v key ps) (pairs_loop v n False key))"

text \<open>From draft 17 on the loop runs until the buffer is empty; \<open>left\<close> counts down to \<open>MAX_PARAMS\<close> rounds.\<close>

fun pairs_until_end :: "ietf_version \<Rightarrow> nat \<Rightarrow> bool \<Rightarrow> u64 \<Rightarrow> parameters \<Rightarrow> (decode_error, parameters) decoder" where
  "pairs_until_end v left first prev ps r =
     (if r = [] then Inr (ps, r)
      else case left of 0 \<Rightarrow> Inl TooMany
      | Suc n \<Rightarrow> dbind (decode_delta v first prev) (\<lambda>key. dbind (decode_pair v key ps) (pairs_until_end v n False key)) r)"

declare pairs_until_end.simps [simp del]

definition parameters_decode :: "ietf_version \<Rightarrow> (decode_error, parameters) decoder" where
  "parameters_decode v =
     (if draft14_16 v then dbind (u64_decode (Ietf v)) (\<lambda>count.
        if of_nat MAX_PARAMS < count then dfail TooMany else pairs_loop v (unat count) True 0 parameters_default)
      else pairs_until_end v MAX_PARAMS True 0 parameters_default)"

datatype param_ref = RefVar u64 | RefBytes "byte list"

fun param_ref_encode :: "'w buf_mut \<Rightarrow> ietf_version \<Rightarrow> param_ref \<Rightarrow> (encode_error, 'w) encoder" where
  "param_ref_encode B v (RefVar x) = u64_encode B (Ietf v) x"
| "param_ref_encode B v (RefBytes x) =
     (if MAX_KVP_VALUE_LEN < length x then efail EncodeBoundsExceeded else bytes_encode B (Ietf v) x)"

definition all_params :: "parameters \<Rightarrow> (u64 \<times> param_ref) list" where
  "all_params ps = map (\<lambda>(k, x). (varint_key k, RefVar x)) (par_vars ps) @ map (\<lambda>(k, x). (bytes_key k, RefBytes x)) (par_bytes ps)"

fun deltas_encode :: "'w buf_mut \<Rightarrow> ietf_version \<Rightarrow> bool \<Rightarrow> u64 \<Rightarrow> (u64 \<times> param_ref) list \<Rightarrow> (encode_error, 'w) encoder" where
  "deltas_encode B v first prev [] = enil"
| "deltas_encode B v first prev ((kind, val) # ps) =
     ebind (u64_encode B (Ietf v) (if first then kind else kind - prev))
       (ebind (param_ref_encode B v val) (deltas_encode B v False kind ps))"

definition parameters_encode :: "'w buf_mut \<Rightarrow> ietf_version \<Rightarrow> parameters \<Rightarrow> (encode_error, 'w) encoder" where
  "parameters_encode B v ps =
     (let count = length (par_vars ps) + length (par_bytes ps)
      in if MAX_PARAMS < count then efail EncodeTooMany
         else if v = Draft14 \<or> v = Draft15 then
           ebind (usize_encode B (Ietf v) count)
             (ebind (eseq (map (\<lambda>(k, x). ebind (u64_encode B (Ietf v) (varint_key k)) (u64_encode B (Ietf v) x)) (par_vars ps)))
               (eseq (map (\<lambda>(k, x). if MAX_KVP_VALUE_LEN < length x then efail EncodeBoundsExceeded
                    else ebind (u64_encode B (Ietf v) (bytes_key k)) (bytes_encode B (Ietf v) x)) (par_bytes ps))))
         else ebind (if v = Draft16 then usize_encode B (Ietf v) count else enil)
           (deltas_encode B v True 0 (sort_key fst (all_params ps))))"

definition get_varint :: "parameters \<Rightarrow> parameter_varint \<Rightarrow> u64 option" where
  "get_varint ps kind = map_of (par_vars ps) kind"

definition set_varint :: "parameter_varint \<Rightarrow> u64 \<Rightarrow> parameters \<Rightarrow> parameters" where
  "set_varint kind x ps = ps\<lparr>par_vars := AList.update kind x (par_vars ps)\<rparr>"

definition get_bytes :: "parameters \<Rightarrow> parameter_bytes \<Rightarrow> byte list option" where
  "get_bytes ps kind = map_of (par_bytes ps) kind"

definition set_bytes :: "parameter_bytes \<Rightarrow> byte list \<Rightarrow> parameters \<Rightarrow> parameters" where
  "set_bytes kind x ps = ps\<lparr>par_bytes := AList.update kind x (par_bytes ps)\<rparr>"

section \<open>What the peer decodes\<close>

lemma group_order_try_from_code [simp]: "group_order_try_from (group_order_code x) = Some x"
  by (cases x) (simp_all add: group_order_try_from_def)

lemma filter_type_try_from_code [simp]: "filter_type_try_from (filter_type_code x) = Some x"
  by (cases x) (simp_all add: filter_type_try_from_def)

lemma group_order_code_small: "group_order_code x \<le> 2"
  by (cases x) (simp_all add: word_le_nat_alt)

lemma filter_type_code_small [simp]: "filter_type_code x \<le> varint_max"
  by (cases x) (simp_all add: varint_max_def push_bit_of_1 word_le_nat_alt)

lemma u8_as_u64: "(ucast (ucast (x :: u8) :: u64) :: u8) = x" "(ucast (x :: u8) :: u64) \<le> 255"
proof -
  show "(ucast (ucast x :: u64) :: u8) = x" by (rule bit_word_eqI) (auto simp: bit_simps)
  show "(ucast x :: u64) \<le> 255"
    using unsigned_less [of x, where ?'a = nat] by (simp add: word_le_nat_alt unsigned_ucast_eq take_bit_nat_eq_self)
qed

lemma usize_encode_u64: "n \<le> 64 \<Longrightarrow> usize_encode B v n = u64_encode B v (of_nat n)"
  by (rule ext) (simp add: usize_encode_def u64_encode_def varint_try_from_usize_def varint_try_from_def from_u64_def
      unat_varint_max word_le_nat_alt unat_of_nat take_bit_nat_eq_self)

lemma checked_add_delta: "prev \<le> key \<Longrightarrow> checked_add prev (key - prev) = Some key"
proof -
  assume "prev \<le> key"
  then have "unat prev + unat (key - prev) = unat key"
    by (simp add: word_le_nat_alt unat_sub)
  moreover have "unat key < 2 ^ 64" using unsigned_less [of key, where ?'a = nat] by simp
  ultimately show ?thesis by (simp add: checked_add_def)
qed

definition namespace_ok :: "path \<Rightarrow> bool" where
  "namespace_ok ns \<longleftrightarrow> path_ok ns \<and> (\<forall>p\<in>set (parts ns). utf8 p)"

lemma skip_Nil [simp]: "properties_skip v [] = Inr ((), [])"
  by (simp add: properties_skip_def dret_def skip_loop.simps)

context writer
begin

lemma namespace_emits [codec_intros]:
  assumes "namespace_ok ns"
  shows "emits content (encode_namespace B ns v) (encode_namespace sizer_writer ns v) (decode_namespace v) ns"
proof (cases "ns = []")
  case True
  show ?thesis
    unfolding encode_namespace_def decode_namespace_def if_P [OF True]
    by (rule emits_map [OF u64_emits]) (simp add: True path_from_string_new path_new_def trim_start_def trim_end_def)
next
  case ns: False
  let ?ps = "split_slash ns"
  have parts: "parts ns = ?ps" using assms ns by (simp add: namespace_ok_def parts_path)
  show ?thesis
  proof (cases "32 < length ?ps")
    case True
    then show ?thesis by (simp add: encode_namespace_def ns emits_fail)
  next
    case False
    have n: "unat (of_nat (length ?ps) :: u64) = length ?ps"
      using False by (simp add: unat_of_nat take_bit_nat_eq_self)
    then have nz: "(of_nat (length ?ps) :: u64) \<noteq> 0" by (metis length_0_conv split_slash_not_Nil unat_0)
    have le: "\<not> 32 < (of_nat (length ?ps) :: u64)" using False n by (simp add: word_less_nat_alt)
    have bk: "dret (path_from_string (join_parts ?ps)) = dret ns"
      using assms by (simp add: path_from_string_new namespace_ok_def)
    have "emits content (eseq (map (string_encode B (Ietf v)) ?ps)) (eseq (map (string_encode sizer_writer (Ietf v)) ?ps))
        (drepeat (length ?ps) (string_decode (Ietf v))) ?ps"
      using assms parts by (intro emits_repeat string_emits) (simp add: namespace_ok_def)
    then have "emits content (eseq (map (string_encode B (Ietf v)) ?ps)) (eseq (map (string_encode sizer_writer (Ietf v)) ?ps))
        (dbind (drepeat (length ?ps) (string_decode (Ietf v))) (\<lambda>ps. dret (path_from_string (join_parts ps)))) ns"
      using bk by (rule emits_map)
    with False ns nz le n show ?thesis
      unfolding encode_namespace_def decode_namespace_def Let_def
      by (simp only: if_False) (rule emits_bind [OF u64_emits], simp)
  qed
qed

lemma location_emits [codec_intros]: "emits content (location_encode B v l) (location_encode sizer_writer v l) (location_decode v) l"
  unfolding location_encode_def location_decode_def
  by (cases l; rule emits_bind [OF u64_emits], rule emits_map [OF u64_emits]) simp

lemma request_id_emits [codec_intros]:
  "emits content (request_id_encode B v rid) (request_id_encode sizer_writer v rid) (request_id_decode v) rid"
  unfolding request_id_encode_def request_id_decode_def by (rule u64_emits)

lemma group_order_emits [codec_intros]:
  "emits content (group_order_encode B x) (group_order_encode sizer_writer x) group_order_decode x"
  unfolding group_order_encode_def group_order_decode_def by (rule emits_map [OF u8_emits]) simp

lemma filter_type_emits [codec_intros]:
  "emits content (filter_type_encode B v x) (filter_type_encode sizer_writer v x) (filter_type_decode v) x"
  unfolding filter_type_encode_def filter_type_decode_def by (rule emits_map [OF u64_emits]) simp

lemma param_u8_emits [codec_intros]:
  "emits content (param_u8_encode B v x) (param_u8_encode sizer_writer v x) (param_u8_decode v) x"
  unfolding param_u8_encode_def param_u8_decode_def
  by (cases "draft14_16 v"; simp only: if_True if_False; (rule u8_emits | rule emits_map [OF u64_emits]; simp add: u8_as_u64))

lemma param_bool_emits [codec_intros]:
  "emits content (param_bool_encode B v x) (param_bool_encode sizer_writer v x) (param_bool_decode v) x"
  unfolding param_bool_encode_def param_bool_decode_def
  by (cases "draft14_16 v"; simp only: if_True if_False; (rule bool_emits | rule emits_map [OF u64_emits]; simp))

lemma nested_emits:
  assumes "emits (\<lambda>out. out) e sz d a"
  shows "emits content (nested_encode B v e) (nested_encode sizer_writer v e) (nested_decode v d) a"
proof (cases "encode_bytes e")
  case (Inl err)
  then show ?thesis by (intro emits_failI) (simp add: nested_encode_def)
next
  case (Inr buf)
  then have "d buf = Inr (a, [])"
    using emits_wholeE [OF emits_whole [OF assms], of "[]" buf] by (auto simp: encode_bytes_def)
  with Inr show ?thesis
    unfolding nested_encode_def [abs_def] nested_decode_def Inr and_then_simps
    by (intro emits_map [OF bytes_emits]) (auto simp: dret_def)
qed

lemma param_order_emits [codec_intros]:
  "emits content (param_order_encode B v x) (param_order_encode sizer_writer v x) (param_order_decode v) (any_to_descending x)"
  unfolding param_order_encode_def param_order_decode_def by (rule emits_map [OF param_u8_emits]) simp

end

context writer
begin

lemma param_location_emits [codec_intros]:
  "emits content (param_location_encode B v l) (param_location_encode sizer_writer v l) (param_location_decode v) l"
proof -
  have "emits (\<lambda>out. out) (location_encode bytes_mut Draft15 l) (location_encode sizer_writer Draft15 l) (location_decode Draft15) l"
    by (rule bytes_mut.location_emits)
  from nested_emits [OF this, of v] location_emits [of v l] show ?thesis
    by (simp add: param_location_encode_def param_location_decode_def location_encode_def location_decode_def)
qed

lemma param_filter_emits [codec_intros]:
  "emits content (param_filter_encode B v x) (param_filter_encode sizer_writer v x) (param_filter_decode v) x"
  unfolding param_filter_encode_def param_filter_decode_def Let_def
  by (rule nested_emits [OF bytes_mut.filter_type_emits])

lemma value_emits [codec_intros]:
  "emits content (param_bool_encode B v b) (param_bool_encode sizer_writer v b) (value_bool v) (ParamBool b)"
  "emits content (param_u8_encode B v x) (param_u8_encode sizer_writer v x) (value_u8 v) (ParamU8 x)"
  "emits content (param_filter_encode B v f) (param_filter_encode sizer_writer v f) (value_filter v) (ParamFilter f)"
  "emits content (param_order_encode B v g) (param_order_encode sizer_writer v g) (value_order v) (ParamOrder (any_to_descending g))"
  "emits content (param_location_encode B v l) (param_location_encode sizer_writer v l) (value_location v) (ParamLocation l)"
  unfolding value_bool_def value_u8_def value_filter_def value_order_def value_location_def
  by (rule emits_map, rule param_bool_emits param_u8_emits param_filter_emits param_order_emits param_location_emits, simp)+

text \<open>One parameter after the other; keys ascend, so a delta never wraps and no key comes twice.\<close>

lemma params_nil: "emits content (encode_params_loop B v first prev []) (encode_params_loop sizer_writer v first prev [])
    (decode_params_loop v spec 0 first prev acc) acc"
  by (simp add: emits_nil)

lemma params_absent:
  "emits content (encode_params_loop B v first prev ps) (encode_params_loop sizer_writer v first prev qs) d acc
   \<Longrightarrow> emits content (encode_params_loop B v first prev ((key, None) # ps)) (encode_params_loop sizer_writer v first prev ((key, None) # qs)) d acc"
  by simp

lemma params_present:
  assumes "spec key = Some d" "emits content e sz d x" "first \<or> prev \<le> key" "acc key = None"
    and "emits content (encode_params_loop B v False key ps) (encode_params_loop sizer_writer v False key qs)
      (decode_params_loop v spec n False key (acc(key \<mapsto> x))) res"
  shows "emits content (encode_params_loop B v first prev ((key, Some e) # ps)) (encode_params_loop sizer_writer v first prev ((key, Some sz) # qs))
      (decode_params_loop v spec (Suc n) first prev acc) res"
proof -
  let ?k = "if v = Draft14 \<or> v = Draft15 then key else if first then key else key - prev"
  have "emits content (u64_encode B (Ietf v) ?k) (u64_encode sizer_writer (Ietf v) ?k) (decode_key v first prev) key"
  proof (cases "v = Draft14 \<or> v = Draft15")
    case True
    then show ?thesis using u64_emits [of "Ietf v" key] by (simp add: decode_key_def)
  next
    case False
    then show ?thesis
      using assms(3) unfolding decode_key_def decode_delta_def if_not_P [OF False]
      by (intro emits_map [OF u64_emits]) (auto simp: checked_add_delta)
  qed
  then show ?thesis
    unfolding encode_params_loop.simps decode_params_loop.simps
    by (rule emits_bind) (simp add: assms(1,4), rule emits_bind, rule assms(2), rule assms(5))
qed

lemma params_emits:
  assumes "present_count ps = n" "present_count qs = n" "n \<le> 64"
    and "emits content (encode_params_loop B v True 0 ps) (encode_params_loop sizer_writer v True 0 qs)
      (decode_params_loop v (map_of spec) n True 0 Map.empty) res"
  shows "emits content (encode_params B v ps) (encode_params sizer_writer v qs) (decode_params v spec) res"
proof -
  have n: "unat (of_nat n :: u64) = n" using assms(3) by (simp add: unat_of_nat take_bit_nat_eq_self)
  then have "\<not> 64 < (of_nat n :: u64)" using assms(3) by (simp add: word_less_nat_alt)
  with assms(3,4) n show ?thesis
    unfolding encode_params_def decode_params_def assms(1,2) usize_encode_u64 [OF assms(3)]
    by (intro emits_bind [OF u64_emits]) simp
qed

lemmas params_intros = params_emits params_nil params_absent params_present

end

section \<open>Setup parameters on the wire\<close>

fun put_entry :: "parameters \<Rightarrow> u64 \<times> param_ref \<Rightarrow> parameters" where
  "put_entry ps (k, RefVar x) = ps\<lparr>par_vars := par_vars ps @ [(varint_kind k, x)]\<rparr>"
| "put_entry ps (k, RefBytes x) = ps\<lparr>par_bytes := par_bytes ps @ [(bytes_kind k, x)]\<rparr>"

fun entry_ok :: "u64 \<times> param_ref \<Rightarrow> bool" where
  "entry_ok (k, RefVar x) \<longleftrightarrow> k mod 2 = 0"
| "entry_ok (k, RefBytes x) \<longleftrightarrow> k mod 2 \<noteq> 0"

definition parameters_ok :: "parameters \<Rightarrow> bool" where
  "parameters_ok ps \<longleftrightarrow> distinct (map fst (all_params ps)) \<and> list_all entry_ok (all_params ps)
     \<and> (\<forall>(k, x)\<in>set (par_vars ps). varint_kind (varint_key k) = k) \<and> (\<forall>(k, x)\<in>set (par_bytes ps). bytes_kind (bytes_key k) = k)"

definition parameters_seen :: "ietf_version \<Rightarrow> parameters \<Rightarrow> parameters" where
  "parameters_seen v ps =
     (if v = Draft14 \<or> v = Draft15 then ps else foldl put_entry parameters_default (sort_key fst (all_params ps)))"

abbreviation used_keys :: "parameters \<Rightarrow> u64 set" where
  "used_keys ps \<equiv> fst ` set (all_params ps)"

lemma kind_keys [simp]: "varint_key (varint_kind k) = k" "bytes_key (bytes_kind k) = k"
  by auto

declare varint_kind.simps [simp del] bytes_kind.simps [simp del]

lemma kind_inj [simp]: "varint_kind a = varint_kind b \<longleftrightarrow> a = b" "bytes_kind a = bytes_kind b \<longleftrightarrow> a = b"
  by (metis kind_keys)+

lemma used_put_entry [simp]: "used_keys (put_entry ps (k, x)) = insert k (used_keys ps)"
  by (cases x) (auto simp: all_params_def)

lemma used_keysI:
  "(k, x) \<in> set (par_vars ps) \<Longrightarrow> varint_key k \<in> used_keys ps"
  "(l, y) \<in> set (par_bytes ps) \<Longrightarrow> bytes_key l \<in> used_keys ps"
  by (force simp: all_params_def)+

lemma map_of_used:
  assumes "k \<notin> used_keys ps"
  shows "map_of (par_vars ps) (varint_kind k) = None" "map_of (par_bytes ps) (bytes_kind k) = None"
proof -
  show "map_of (par_vars ps) (varint_kind k) = None"
    using assms used_keysI(1) [of "varint_kind k" _ ps] by (metis kind_keys(1) map_of_SomeD not_None_eq)
  show "map_of (par_bytes ps) (bytes_kind k) = None"
    using assms used_keysI(2) [of "bytes_kind k" _ ps] by (metis kind_keys(2) map_of_SomeD not_None_eq)
qed

lemma u64_decode_Nil: "u64_decode v [] = Inl Short"
  by (cases v; cases "case v of Ietf x \<Rightarrow> x | _ \<Rightarrow> Draft14")
    (auto simp: u64_decode_def decode_quic_def decode_leading_ones_def)

fun var_entries :: "(u64 \<times> param_ref) list \<Rightarrow> (parameter_varint \<times> u64) list" where
  "var_entries [] = []"
| "var_entries ((k, RefVar x) # es) = (varint_kind k, x) # var_entries es"
| "var_entries ((k, RefBytes x) # es) = var_entries es"

fun bytes_entries :: "(u64 \<times> param_ref) list \<Rightarrow> (parameter_bytes \<times> byte list) list" where
  "bytes_entries [] = []"
| "bytes_entries ((k, RefVar x) # es) = bytes_entries es"
| "bytes_entries ((k, RefBytes x) # es) = (bytes_kind k, x) # bytes_entries es"

lemma foldl_put_entry:
  "foldl put_entry ps es = ps\<lparr>par_vars := par_vars ps @ var_entries es, par_bytes := par_bytes ps @ bytes_entries es\<rparr>"
  by (induction es arbitrary: ps rule: var_entries.induct) auto

lemma set_entries:
  "(k, x) \<in> set (var_entries es) \<longleftrightarrow> (\<exists>j. k = varint_kind j \<and> (j, RefVar x) \<in> set es)"
  "(l, y) \<in> set (bytes_entries es) \<longleftrightarrow> (\<exists>j. l = bytes_kind j \<and> (j, RefBytes y) \<in> set es)"
  by (induction es rule: var_entries.induct; auto)+

lemma distinct_entries:
  assumes "distinct (map fst es)"
  shows "distinct (map fst (var_entries es))" "distinct (map fst (bytes_entries es))"
proof -
  show "distinct (map fst (var_entries es))"
    using assms by (induction es rule: var_entries.induct) (auto simp: set_entries rev_image_eqI)
  show "distinct (map fst (bytes_entries es))"
    using assms by (induction es rule: bytes_entries.induct) (auto simp: set_entries rev_image_eqI)
qed

lemma entries_append [simp]:
  "var_entries (es @ fs) = var_entries es @ var_entries fs" "bytes_entries (es @ fs) = bytes_entries es @ bytes_entries fs"
  by (induction es rule: var_entries.induct; simp)+

lemma entries_map [simp]:
  "var_entries (map (\<lambda>(k, x). (varint_key k, RefVar x)) vs) = map (\<lambda>(k, x). (varint_kind (varint_key k), x)) vs"
  "bytes_entries (map (\<lambda>(k, x). (varint_key k, RefVar x)) vs) = []"
  "var_entries (map (\<lambda>(k, x). (bytes_key k, RefBytes x)) bs) = []"
  "bytes_entries (map (\<lambda>(k, x). (bytes_key k, RefBytes x)) bs) = map (\<lambda>(k, x). (bytes_kind (bytes_key k), x)) bs"
  by (induction vs; auto)+ (induction bs; auto)+

lemma all_params_entries:
  assumes "parameters_ok ps"
  shows "var_entries (all_params ps) = par_vars ps" "bytes_entries (all_params ps) = par_bytes ps"
  using assms by (auto simp: all_params_def parameters_ok_def intro!: map_idI)

text \<open>Whatever the order on the wire, the maps that are decoded are those that were sent.\<close>

lemma parameters_seen_maps:
  assumes "parameters_ok ps"
  shows "get_varint (parameters_seen v ps) = get_varint ps" "get_bytes (parameters_seen v ps) = get_bytes ps"
proof -
  let ?es = "sort_key fst (all_params ps)"
  have d: "distinct (map fst (all_params ps))" using assms by (simp add: parameters_ok_def)
  then have "distinct (map fst ?es)" by (simp add: distinct_map)
  note d = distinct_entries [OF d] distinct_entries [OF this]
  have "set (var_entries ?es) = set (var_entries (all_params ps))" "set (bytes_entries ?es) = set (bytes_entries (all_params ps))"
    by (auto simp: set_entries)
  with d have "map_of (var_entries ?es) = map_of (var_entries (all_params ps))"
    "map_of (bytes_entries ?es) = map_of (bytes_entries (all_params ps))"
    by (metis map_of_inject_set)+
  then show "get_varint (parameters_seen v ps) = get_varint ps" "get_bytes (parameters_seen v ps) = get_bytes ps"
    by (auto simp: get_varint_def get_bytes_def parameters_seen_def foldl_put_entry parameters_default_def
        all_params_entries [OF assms] fun_eq_iff)
qed

context writer
begin

lemma pair_emits:
  assumes "entry_ok (k, x)" "k \<notin> used_keys ps"
  shows "emits content (param_ref_encode B v x) (param_ref_encode sizer_writer v x) (decode_pair v k ps) (put_entry ps (k, x))"
proof (cases x)
  case (RefVar y)
  show ?thesis
    using assms unfolding RefVar param_ref_encode.simps decode_pair_def map_of_used [OF assms(2)]
    by (simp del: varint_kind.simps) (rule emits_map [OF u64_emits], simp)
next
  case (RefBytes y)
  show ?thesis
  proof (cases "MAX_KVP_VALUE_LEN < length y")
    case True
    then show ?thesis by (simp add: RefBytes emits_fail)
  next
    case False
    then show ?thesis
      using assms unfolding RefBytes param_ref_encode.simps decode_pair_def map_of_used [OF assms(2)]
      by (simp del: bytes_kind.simps) (rule emits_map [OF bytes_emits], simp)
  qed
qed

lemma abs_pairs_emits:
  assumes "v = Draft14 \<or> v = Draft15" "distinct (map fst es)" "fst ` set es \<inter> used_keys ps = {}" "list_all entry_ok es"
  shows "emits content (eseq (map (\<lambda>(k, x). ebind (u64_encode B (Ietf v) k) (param_ref_encode B v x)) es))
     (eseq (map (\<lambda>(k, x). ebind (u64_encode sizer_writer (Ietf v) k) (param_ref_encode sizer_writer v x)) es))
     (pairs_loop v (length es) first prev ps) (foldl put_entry ps es)"
  using assms(2-)
proof (induction es arbitrary: ps first prev)
  case Nil
  show ?case by (simp add: emits_nil)
next
  case (Cons e es)
  obtain k x where e: "e = (k, x)" by (cases e)
  have k: "entry_ok (k, x)" "k \<notin> used_keys ps" using Cons.prems e by auto
  have IH: "emits content (eseq (map (\<lambda>(k, x). ebind (u64_encode B (Ietf v) k) (param_ref_encode B v x)) es))
     (eseq (map (\<lambda>(k, x). ebind (u64_encode sizer_writer (Ietf v) k) (param_ref_encode sizer_writer v x)) es))
     (pairs_loop v (length es) False k (put_entry ps (k, x))) (foldl put_entry ps (e # es))"
    using Cons.IH [of "put_entry ps (k, x)" False k] Cons.prems e by (auto simp del: put_entry.simps)
  have dk: "decode_key v first prev = u64_decode (Ietf v)" using assms(1) by (simp add: decode_key_def)
  show ?case
    unfolding e list.map eseq.simps prod.case length_Cons pairs_loop.simps dk ebind_assoc
    by (rule emits_bind [OF u64_emits], rule emits_bind [OF pair_emits [OF k]], rule IH [unfolded e])
qed

lemma delta_key_emits:
  assumes "first \<or> prev \<le> k"
  shows "emits content (u64_encode B (Ietf v) (if first then k else k - prev)) (u64_encode sizer_writer (Ietf v) (if first then k else k - prev))
     (decode_delta v first prev) k"
  using assms unfolding decode_delta_def by (intro emits_map [OF u64_emits]) (auto simp: checked_add_delta)

lemma delta_pairs_emits:
  assumes "\<not> (v = Draft14 \<or> v = Draft15)" "sorted_wrt (<) (map fst es)" "fst ` set es \<inter> used_keys ps = {}"
    "list_all entry_ok es" "first \<or> (\<forall>k\<in>fst ` set es. prev \<le> k)"
  shows "emits content (deltas_encode B v first prev es) (deltas_encode sizer_writer v first prev es)
     (pairs_loop v (length es) first prev ps) (foldl put_entry ps es)"
  using assms(2-)
proof (induction es arbitrary: ps first prev)
  case Nil
  show ?case by (simp add: emits_nil)
next
  case (Cons e es)
  obtain k x where e: "e = (k, x)" by (cases e)
  have k: "entry_ok (k, x)" "k \<notin> used_keys ps" "first \<or> prev \<le> k" using Cons.prems e by auto
  have IH: "emits content (deltas_encode B v False k es) (deltas_encode sizer_writer v False k es)
     (pairs_loop v (length es) False k (put_entry ps (k, x))) (foldl put_entry ps (e # es))"
    using Cons.IH [of "put_entry ps (k, x)" False k] Cons.prems e by (force simp del: put_entry.simps)
  have dk: "decode_key v first prev = decode_delta v first prev" using assms(1) by (simp add: decode_key_def)
  show ?case
    unfolding e deltas_encode.simps length_Cons pairs_loop.simps dk
    by (rule emits_bind [OF delta_key_emits [OF k(3)]], rule emits_bind [OF pair_emits [OF k(1,2)]], rule IH [unfolded e])
qed

lemma until_end_emits:
  assumes "sorted_wrt (<) (map fst es)" "fst ` set es \<inter> used_keys ps = {}"
    "list_all entry_ok es" "first \<or> (\<forall>k\<in>fst ` set es. prev \<le> k)" "length es \<le> left"
  shows "emits_whole content (deltas_encode B v first prev es) (deltas_encode sizer_writer v first prev es)
     (pairs_until_end v left first prev ps) (foldl put_entry ps es)"
  using assms
proof (induction es arbitrary: ps first prev left)
  case Nil
  show ?case by (simp add: emits_whole_def enil_def pairs_until_end.simps)
next
  case (Cons e es)
  obtain k x where e: "e = (k, x)" by (cases e)
  obtain n where left: "left = Suc n" using Cons.prems by (cases left) auto
  have k: "entry_ok (k, x)" "k \<notin> used_keys ps" "first \<or> prev \<le> k" using Cons.prems e by auto
  have IH: "emits_whole content (deltas_encode B v False k es) (deltas_encode sizer_writer v False k es)
     (pairs_until_end v n False k (put_entry ps (k, x))) (foldl put_entry ps (e # es))"
    using Cons.IH [of "put_entry ps (k, x)" False k n] Cons.prems e left by (force simp del: put_entry.simps)
  have step: "emits_whole content (deltas_encode B v first prev (e # es)) (deltas_encode sizer_writer v first prev (e # es))
      (dbind (decode_delta v first prev) (\<lambda>key. dbind (decode_pair v key ps) (pairs_until_end v n False key))) (foldl put_entry ps (e # es))"
    unfolding e deltas_encode.simps
    by (rule emits_whole_bind [OF delta_key_emits [OF k(3)]], rule emits_whole_bind [OF pair_emits [OF k(1,2)]], rule IH [unfolded e])
  have "pairs_until_end v left first prev ps bs = Inr (a, [])"
    if "dbind (decode_delta v first prev) (\<lambda>key. dbind (decode_pair v key ps) (pairs_until_end v n False key)) bs = Inr (a, [])"
    for bs and a :: parameters
  proof -
    have "bs \<noteq> []" using that by (auto simp: dbind_def decode_delta_def u64_decode_Nil)
    with that show ?thesis by (simp add: pairs_until_end.simps left)
  qed
  with step show ?case unfolding emits_whole_def by blast
qed

end

definition abs_params :: "'w buf_mut \<Rightarrow> ietf_version \<Rightarrow> parameters \<Rightarrow> (encode_error, 'w) encoder" where
  "abs_params B v ps = eseq (map (\<lambda>(k, x). ebind (u64_encode B (Ietf v) k) (param_ref_encode B v x)) (all_params ps))"

lemma eseq_append: "eseq (es @ fs) = ebind (eseq es) (eseq fs)"
  by (induction es) (simp_all add: ebind_assoc, simp add: ebind_def enil_def)

text \<open>A value that is too long is refused before its key is written; otherwise the two forms agree.\<close>

lemma abs_params_eq:
  assumes "\<forall>(k, x)\<in>set (par_bytes ps). length x \<le> MAX_KVP_VALUE_LEN"
  shows "ebind (eseq (map (\<lambda>(k, x). ebind (u64_encode B (Ietf v) (varint_key k)) (u64_encode B (Ietf v) x)) (par_vars ps)))
      (eseq (map (\<lambda>(k, x). if MAX_KVP_VALUE_LEN < length x then efail EncodeBoundsExceeded
           else ebind (u64_encode B (Ietf v) (bytes_key k)) (bytes_encode B (Ietf v) x)) (par_bytes ps)))
     = abs_params B v ps"
proof -
  have "map (\<lambda>(k, x). if MAX_KVP_VALUE_LEN < length x then efail EncodeBoundsExceeded
           else ebind (u64_encode B (Ietf v) (bytes_key k)) (bytes_encode B (Ietf v) x)) (par_bytes ps)
    = map ((\<lambda>(k, x). ebind (u64_encode B (Ietf v) k) (param_ref_encode B v x)) \<circ> (\<lambda>(k, x). (bytes_key k, RefBytes x))) (par_bytes ps)"
    using assms by (intro map_cong) (auto simp: not_less)
  moreover have "map (\<lambda>(k, x). ebind (u64_encode B (Ietf v) (varint_key k)) (u64_encode B (Ietf v) x)) (par_vars ps)
    = map ((\<lambda>(k, x). ebind (u64_encode B (Ietf v) k) (param_ref_encode B v x)) \<circ> (\<lambda>(k, x). (varint_key k, RefVar x))) (par_vars ps)"
    by auto
  ultimately show ?thesis unfolding abs_params_def all_params_def map_append map_map eseq_append by (simp only:)
qed

context writer
begin

lemma sorted_params:
  assumes "parameters_ok ps"
  shows "sorted_wrt (<) (map fst (sort_key fst (all_params ps)))" "list_all entry_ok (sort_key fst (all_params ps))"
proof -
  have "distinct (map fst (sort_key fst (all_params ps)))" using assms by (simp add: parameters_ok_def distinct_map)
  then show "sorted_wrt (<) (map fst (sort_key fst (all_params ps)))" by (simp add: strict_sorted_iff)
  show "list_all entry_ok (sort_key fst (all_params ps))" using assms by (simp add: parameters_ok_def list_all_iff)
qed

lemma counted_emits:
  assumes "n \<le> MAX_PARAMS" "draft14_16 v" "emits content e sz (pairs_loop v n True 0 parameters_default) a"
  shows "emits content (ebind (usize_encode B (Ietf v) n) e) (ebind (usize_encode sizer_writer (Ietf v) n) sz) (parameters_decode v) a"
proof -
  have n: "n \<le> 64" using assms(1) by (simp add: MAX_PARAMS_def)
  then have u: "unat (of_nat n :: u64) = n" by (simp add: unat_of_nat take_bit_nat_eq_self)
  then have "\<not> of_nat MAX_PARAMS < (of_nat n :: u64)" using n by (simp add: word_less_nat_alt MAX_PARAMS_def)
  with assms(2,3) u show ?thesis
    unfolding parameters_decode_def if_P [OF assms(2)] usize_encode_u64 [OF n] by (intro emits_bind [OF u64_emits]) simp
qed

lemma parameters_emits:
  assumes "parameters_ok ps" "draft14_16 v" "\<forall>(k, x)\<in>set (par_bytes ps). length x \<le> MAX_KVP_VALUE_LEN"
  shows "emits content (parameters_encode B v ps) (parameters_encode sizer_writer v ps) (parameters_decode v) (parameters_seen v ps)"
proof (cases "MAX_PARAMS < length (par_vars ps) + length (par_bytes ps)")
  case True
  then show ?thesis by (simp add: parameters_encode_def emits_fail)
next
  case False
  then have n: "length (all_params ps) \<le> MAX_PARAMS" by (simp add: all_params_def)
  have len: "length (par_vars ps) + length (par_bytes ps) = length (all_params ps)" by (simp add: all_params_def)
  show ?thesis
  proof (cases "v = Draft14 \<or> v = Draft15")
    case abs: True
    have "emits content (abs_params B v ps) (abs_params sizer_writer v ps)
        (pairs_loop v (length (all_params ps)) True 0 parameters_default) (foldl put_entry parameters_default (all_params ps))"
      unfolding abs_params_def using assms(1)
      by (intro abs_pairs_emits abs) (simp_all add: parameters_ok_def, simp add: all_params_def parameters_default_def)
    moreover have "foldl put_entry parameters_default (all_params ps) = ps"
      by (simp add: foldl_put_entry parameters_default_def all_params_entries [OF assms(1)])
    ultimately show ?thesis
      using False abs counted_emits [OF n assms(2)]
      by (simp add: parameters_encode_def parameters_seen_def abs_params_eq [OF assms(3)] len)
  next
    case delta: False
    then have v: "v = Draft16" using assms(2) by (cases v) auto
    have "emits content (deltas_encode B v True 0 (sort_key fst (all_params ps))) (deltas_encode sizer_writer v True 0 (sort_key fst (all_params ps)))
        (pairs_loop v (length (all_params ps)) True 0 parameters_default) (parameters_seen v ps)"
      using delta_pairs_emits [OF delta sorted_params(1) [OF assms(1)] _ sorted_params(2) [OF assms(1)], of parameters_default True 0] delta
      by (simp add: parameters_seen_def) (simp add: all_params_def parameters_default_def)
    with False v show ?thesis
      using counted_emits [OF n assms(2)] by (simp add: parameters_encode_def len)
  qed
qed

lemma parameters_emits_whole:
  assumes "parameters_ok ps" "\<forall>(k, x)\<in>set (par_bytes ps). length x \<le> MAX_KVP_VALUE_LEN"
  shows "emits_whole content (parameters_encode B v ps) (parameters_encode sizer_writer v ps) (parameters_decode v) (parameters_seen v ps)"
proof (cases "draft14_16 v")
  case True
  then show ?thesis by (intro emits_whole parameters_emits assms)
next
  case False
  then have v: "\<not> (v = Draft14 \<or> v = Draft15)" "v \<noteq> Draft16" by auto
  have nil: "ebind enil e = e" for e :: "(encode_error, 'x) encoder" by (simp add: ebind_def enil_def)
  show ?thesis
  proof (cases "MAX_PARAMS < length (par_vars ps) + length (par_bytes ps)")
    case True
    then show ?thesis by (intro emits_whole) (simp add: parameters_encode_def emits_fail)
  next
    case le: False
    then have "length (sort_key fst (all_params ps)) \<le> MAX_PARAMS" by (simp add: all_params_def)
    from until_end_emits [OF sorted_params(1) [OF assms(1)] _ sorted_params(2) [OF assms(1)] _ this, of parameters_default True 0 v]
    show ?thesis
      using le v False by (simp add: parameters_encode_def parameters_decode_def parameters_seen_def nil)
        (simp add: all_params_def parameters_default_def)
  qed
qed

end

end
