(* ===== verification/Setup.thy ===== *)
theory Setup
  imports Ietf_Params Lite_Messages "HOL-Library.Multiset"
begin

text \<open>
  The SETUP messages (\<open>relay/rs/moq-net/src/setup.rs\<close>) and the version numbers they carry
  (\<open>coding/version.rs\<close>): \<open>Setup\<close> of draft 17 and later, \<open>Client\<close> and \<open>Server\<close> of the earlier drafts and of
  the first moq-lite versions.

  \<open>Setup::check_version\<close> panics on an older version; the codecs then fail with \<open>EncodePanic\<close> and
  \<open>DecodePanic\<close>.
\<close>

section \<open>Version numbers on the wire\<close>

type_synonym cversion = u64

definition cversion_encode :: "'w buf_mut \<Rightarrow> version \<Rightarrow> cversion \<Rightarrow> (encode_error, 'w) encoder" where
  "cversion_encode B v x = u64_encode B v x"

definition cversion_decode :: "version \<Rightarrow> (decode_error, cversion) decoder" where
  "cversion_decode v = u64_decode v"

definition cversions_encode :: "'w buf_mut \<Rightarrow> version \<Rightarrow> cversion list \<Rightarrow> (encode_error, 'w) encoder" where
  "cversions_encode B v vs = ebind (u64_encode B v (of_nat (length vs))) (eseq (map (cversion_encode B v) vs))"

definition cversions_decode :: "version \<Rightarrow> (decode_error, cversion list) decoder" where
  "cversions_decode v = dbind (u64_decode v) (\<lambda>count. drepeat (unat count) (cversion_decode v))"

section \<open>The unified SETUP\<close>

definition CLIENT_SETUP :: u8 where "CLIENT_SETUP = 0x20"
definition SERVER_SETUP :: u8 where "SERVER_SETUP = 0x21"
definition SETUP_V17 :: u64 where "SETUP_V17 = 0x2F00"

record setup_msg =
  setup_parameters :: "byte list"

fun setup_check_version :: "version \<Rightarrow> bool" where
  "setup_check_version (Ietf Draft14) = False"
| "setup_check_version (Ietf Draft15) = False"
| "setup_check_version (Ietf Draft16) = False"
| "setup_check_version (Lite _) = False"
| "setup_check_version _ = True"

definition setup_encode :: "'w buf_mut \<Rightarrow> version \<Rightarrow> setup_msg \<Rightarrow> (encode_error, 'w) encoder" where
  "setup_encode B v s =
     (if \<not> setup_check_version v then efail EncodePanic
      else ebind (u64_encode B v SETUP_V17)
          (ebind (if 0xFFFF < length (setup_parameters s) then efail TooLarge
                  else u16_encode B (of_nat (length (setup_parameters s))))
             (put_checked B (setup_parameters s))))"

definition setup_decode :: "version \<Rightarrow> (decode_error, setup_msg) decoder" where
  "setup_decode v =
     (if \<not> setup_check_version v then dfail DecodePanic
      else dbind (u64_decode v) (\<lambda>kind.
        if kind \<noteq> SETUP_V17 then dfail InvalidValue
        else dbind u16_decode (\<lambda>sz. dbind (copy_to_bytes (unat sz)) (\<lambda>msg. dret \<lparr>setup_parameters = msg\<rparr>))))"

section \<open>Client and server SETUP\<close>

datatype setup_version = SvDraft14 | SvDraft15Plus | SvModern | SvLiteLegacy | SvUnsupported

fun setup_version_from :: "version \<Rightarrow> setup_version" where
  "setup_version_from (Ietf Draft14) = SvDraft14"
| "setup_version_from (Ietf Draft15) = SvDraft15Plus"
| "setup_version_from (Ietf Draft16) = SvDraft15Plus"
| "setup_version_from (Ietf Draft17) = SvModern"
| "setup_version_from (Ietf Draft18) = SvModern"
| "setup_version_from (Lite Lite01) = SvLiteLegacy"
| "setup_version_from (Lite Lite02) = SvLiteLegacy"
| "setup_version_from (Lite _) = SvUnsupported"

definition setup_size_encode :: "'w buf_mut \<Rightarrow> version \<Rightarrow> nat \<Rightarrow> (encode_error, 'w) encoder" where
  "setup_size_encode B v n =
     (case setup_version_from v of
        SvDraft14 \<Rightarrow> if 0xFFFF < n then efail TooLarge else u16_encode B (of_nat n)
      | SvDraft15Plus \<Rightarrow> if 0xFFFF < n then efail TooLarge else u16_encode B (of_nat n)
      | SvLiteLegacy \<Rightarrow> u64_encode B v (of_nat n)
      | _ \<Rightarrow> efail EncodeVersion)"

definition setup_size_decode :: "version \<Rightarrow> (decode_error, nat) decoder" where
  "setup_size_decode v =
     (case setup_version_from v of
        SvDraft14 \<Rightarrow> dbind u16_decode (\<lambda>n. dret (unat n))
      | SvDraft15Plus \<Rightarrow> dbind u16_decode (\<lambda>n. dret (unat n))
      | SvLiteLegacy \<Rightarrow> dbind (u64_decode v) (\<lambda>n. dret (unat n))
      | _ \<Rightarrow> dfail DecodeVersion)"

record client_setup =
  cs_versions :: "cversion list"
  cs_parameters :: "byte list"

definition client_encode_inner :: "'w buf_mut \<Rightarrow> version \<Rightarrow> client_setup \<Rightarrow> (encode_error, 'w) encoder" where
  "client_encode_inner B v c =
     ebind (case setup_version_from v of
              SvDraft15Plus \<Rightarrow> enil
            | SvDraft14 \<Rightarrow> cversions_encode B v (cs_versions c)
            | SvLiteLegacy \<Rightarrow> cversions_encode B v (cs_versions c)
            | _ \<Rightarrow> efail EncodeVersion)
       (put_checked B (cs_parameters c))"

definition client_encode :: "'w buf_mut \<Rightarrow> version \<Rightarrow> client_setup \<Rightarrow> (encode_error, 'w) encoder" where
  "client_encode B v c = ebind (u8_encode B CLIENT_SETUP) (\<lambda>w.
     and_then (client_encode_inner sizer_writer v c sizer_new) (\<lambda>s.
       ebind (setup_size_encode B v (sizer_size s)) (client_encode_inner B v c) w))"

text \<open>The versions are read from the front of the message; what is left of it are the parameters.\<close>

definition client_decode_inner :: "version \<Rightarrow> byte list \<Rightarrow> decode_error + client_setup" where
  "client_decode_inner v msg =
     (case setup_version_from v of
        SvDraft15Plus \<Rightarrow> Inr \<lparr>cs_versions = [version_code v], cs_parameters = msg\<rparr>
      | SvDraft14 \<Rightarrow> and_then (cversions_decode v msg) (\<lambda>(vs, msg). Inr \<lparr>cs_versions = vs, cs_parameters = msg\<rparr>)
      | SvLiteLegacy \<Rightarrow> and_then (cversions_decode v msg) (\<lambda>(vs, msg). Inr \<lparr>cs_versions = vs, cs_parameters = msg\<rparr>)
      | _ \<Rightarrow> Inl DecodeVersion)"

definition client_decode :: "version \<Rightarrow> (decode_error, client_setup) decoder" where
  "client_decode v = dbind u8_decode (\<lambda>kind.
     if kind \<noteq> CLIENT_SETUP then dfail InvalidValue
     else dbind (setup_size_decode v) (\<lambda>sz. dbind (copy_to_bytes sz) (\<lambda>msg r.
       and_then (client_decode_inner v msg) (\<lambda>c. Inr (c, r)))))"

record server_setup =
  ss_version :: cversion
  ss_parameters :: "byte list"

definition server_encode_inner :: "'w buf_mut \<Rightarrow> version \<Rightarrow> server_setup \<Rightarrow> (encode_error, 'w) encoder" where
  "server_encode_inner B v c =
     ebind (case setup_version_from v of
              SvDraft15Plus \<Rightarrow> enil
            | SvDraft14 \<Rightarrow> cversion_encode B v (ss_version c)
            | SvLiteLegacy \<Rightarrow> cversion_encode B v (ss_version c)
            | _ \<Rightarrow> efail EncodeVersion)
       (put_checked B (ss_parameters c))"

definition server_encode :: "'w buf_mut \<Rightarrow> version \<Rightarrow> server_setup \<Rightarrow> (encode_error, 'w) encoder" where
  "server_encode B v c = ebind (u8_encode B SERVER_SETUP) (\<lambda>w.
     and_then (server_encode_inner sizer_writer v c sizer_new) (\<lambda>s.
       ebind (setup_size_encode B v (sizer_size s)) (server_encode_inner B v c) w))"

definition server_decode_inner :: "version \<Rightarrow> byte list \<Rightarrow> decode_error + server_setup" where
  "server_decode_inner v msg =
     (case setup_version_from v of
        SvDraft15Plus \<Rightarrow> Inr \<lparr>ss_version = version_code v, ss_parameters = msg\<rparr>
      | SvDraft14 \<Rightarrow> and_then (cversion_decode v msg) (\<lambda>(x, msg). Inr \<lparr>ss_version = x, ss_parameters = msg\<rparr>)
      | SvLiteLegacy \<Rightarrow> and_then (cversion_decode v msg) (\<lambda>(x, msg). Inr \<lparr>ss_version = x, ss_parameters = msg\<rparr>)
      | _ \<Rightarrow> Inl DecodeVersion)"

definition server_decode :: "version \<Rightarrow> (decode_error, server_setup) decoder" where
  "server_decode v = dbind u8_decode (\<lambda>kind.
     if kind \<noteq> SERVER_SETUP then dfail InvalidValue
     else dbind (setup_size_decode v) (\<lambda>sz. dbind (copy_to_bytes sz) (\<lambda>msg r.
       and_then (server_decode_inner v msg) (\<lambda>c. Inr (c, r)))))"

section \<open>What the peer sees\<close>

text \<open>
  The drafts negotiated by ALPN (15 and 16) leave the version out: the peer fills in the version of the
  connection. \<open>whole d\<close> makes of a function on the bytes of a message a decoder that reads all of them.
\<close>

definition whole :: "(byte list \<Rightarrow> decode_error + 'a) \<Rightarrow> (decode_error, 'a) decoder" where
  "whole d r = and_then (d r) (\<lambda>a. Inr (a, []))"

definition client_setup_seen :: "ietf_version \<Rightarrow> client_setup \<Rightarrow> client_setup" where
  "client_setup_seen v c = (if v = Draft14 then c else c\<lparr>cs_versions := [version_code (Ietf v)]\<rparr>)"

definition server_setup_seen :: "ietf_version \<Rightarrow> server_setup \<Rightarrow> server_setup" where
  "server_setup_seen v c = (if v = Draft14 then c else c\<lparr>ss_version := version_code (Ietf v)\<rparr>)"

lemma sized_whole:
  "dbind (copy_to_bytes n) (\<lambda>msg r. and_then (d msg) (\<lambda>c. Inr (c, r))) = decode_sized n (whole d)"
  by (rule ext) (auto simp: dbind_def copy_to_bytes_def decode_sized_def whole_def and_then_def split: sum.splits)

lemma setup_size_draft:
  assumes "draft14_16 v"
  shows "setup_size_encode B (Ietf v) n = ietf_size B n"
    "setup_size_decode (Ietf v) = dbind u16_decode (\<lambda>n. dret (unat n))"
  using assms by (cases v; simp add: setup_size_encode_def setup_size_decode_def ietf_size_def)+

context writer
begin

lemma cversion_emits [codec_intros]:
  "emits content (cversion_encode B v x) (cversion_encode sizer_writer v x) (cversion_decode v) x"
  unfolding cversion_encode_def cversion_decode_def by (rule u64_emits)

lemma cversions_emits:
  assumes "length vs < 2 ^ 64"
  shows "emits content (cversions_encode B v vs) (cversions_encode sizer_writer v vs) (cversions_decode v) vs"
proof -
  have "unat (of_nat (length vs) :: u64) = length vs"
    using assms by (simp add: unat_of_nat take_bit_nat_eq_self)
  then have "emits content (eseq (map (cversion_encode B v) vs)) (eseq (map (cversion_encode sizer_writer v) vs))
      (drepeat (unat (of_nat (length vs) :: u64)) (cversion_decode v)) vs"
    using emits_repeat [of vs content "cversion_encode B v" "cversion_encode sizer_writer v" "cversion_decode v"] cversion_emits by simp
  then show ?thesis unfolding cversions_encode_def cversions_decode_def by (rule emits_bind [OF u64_emits])
qed

lemma put_checked_whole:
  "emits_whole content (put_checked B bs) (put_checked sizer_writer bs) (\<lambda>r. Inr (g r, [])) (g bs)"
proof -
  have "reads (copy_to_bytes (length bs)) bsa bs \<Longrightarrow> bsa = bs" for bsa
    by (auto simp: reads_def copy_to_bytes_def split: if_splits dest: spec [of _ "[]"])
  then show ?thesis
    using put_checked_emits [OF reads_copy [OF refl], of bs] unfolding emits_def emits_whole_def by metis
qed

text \<open>The body of a SETUP: a version field, or nothing, and then the parameters.\<close>

lemma setup_body_emits:
  assumes "emits content e s d x"
  shows "emits_whole content (ebind e (put_checked B ps)) (ebind s (put_checked sizer_writer ps))
    (whole (\<lambda>msg. and_then (d msg) (\<lambda>(x, msg). Inr (g x msg)))) (g x ps)"
proof -
  have d: "whole (\<lambda>msg. and_then (d msg) (\<lambda>(x, msg). Inr (g x msg))) = dbind d (\<lambda>x r. Inr (g x r, []))"
    by (rule ext) (auto simp: whole_def dbind_def and_then_def split: sum.splits)
  show ?thesis unfolding d by (rule emits_whole_bind [where f = "\<lambda>x r. Inr (g x r, [])", OF assms]) (rule put_checked_whole)
qed

lemma setup_body_plain:
  "emits_whole content (ebind enil (put_checked B ps)) (ebind enil (put_checked sizer_writer ps)) (whole (\<lambda>msg. Inr (g msg))) (g ps)"
  using setup_body_emits [OF emits_nil, of ps "\<lambda>_. g"] by (simp add: dret_def)

lemma setup_frame_emits:
  assumes "draft14_16 v" "emits_whole content e s (whole d) a"
  shows "emits content
    (ebind (u8_encode B k) (\<lambda>w. and_then (s sizer_new) (\<lambda>n. ebind (setup_size_encode B (Ietf v) (sizer_size n)) e w)))
    (ebind (u8_encode sizer_writer k) (\<lambda>w. and_then (s sizer_new) (\<lambda>n. ebind (setup_size_encode sizer_writer (Ietf v) (sizer_size n)) s w)))
    (dbind u8_decode (\<lambda>kind. if kind \<noteq> k then dfail InvalidValue
       else dbind (setup_size_decode (Ietf v)) (\<lambda>n. dbind (copy_to_bytes n) (\<lambda>msg r. and_then (d msg) (\<lambda>c. Inr (c, r)))))) a"
proof (rule emits_bind [OF u8_emits])
  show "emits content (\<lambda>w. and_then (s sizer_new) (\<lambda>n. ebind (setup_size_encode B (Ietf v) (sizer_size n)) e w))
    (\<lambda>w. and_then (s sizer_new) (\<lambda>n. ebind (setup_size_encode sizer_writer (Ietf v) (sizer_size n)) s w))
    (if k \<noteq> k then dfail InvalidValue
     else dbind (setup_size_decode (Ietf v)) (\<lambda>n. dbind (copy_to_bytes n) (\<lambda>msg r. and_then (d msg) (\<lambda>c. Inr (c, r))))) a"
    unfolding setup_size_draft [OF assms(1)] sized_whole
    using framed_emits [OF ietf_size_emits ietf_size_exact assms(2)] by (simp add: dbind_norm)
qed

lemma client_emits:
  assumes "draft14_16 v" "length (cs_versions c) < 2 ^ 64"
  shows "emits content (client_encode B (Ietf v) c) (client_encode sizer_writer (Ietf v) c) (client_decode (Ietf v)) (client_setup_seen v c)"
  unfolding client_encode_def client_decode_def
proof (rule setup_frame_emits [OF assms(1)])
  show "emits_whole content (client_encode_inner B (Ietf v) c) (client_encode_inner sizer_writer (Ietf v) c)
      (whole (client_decode_inner (Ietf v))) (client_setup_seen v c)"
    using assms(1) setup_body_emits [OF cversions_emits [OF assms(2)], of "Ietf v" "cs_parameters c" "\<lambda>vs ps. \<lparr>cs_versions = vs, cs_parameters = ps\<rparr>"]
      setup_body_plain [of "cs_parameters c" "\<lambda>ps. \<lparr>cs_versions = [version_code (Ietf v)], cs_parameters = ps\<rparr>"]
    by (cases c; cases v) (simp_all add: client_encode_inner_def client_decode_inner_def [abs_def] client_setup_seen_def)
qed

lemma server_emits:
  assumes "draft14_16 v"
  shows "emits content (server_encode B (Ietf v) c) (server_encode sizer_writer (Ietf v) c) (server_decode (Ietf v)) (server_setup_seen v c)"
  unfolding server_encode_def server_decode_def
proof (rule setup_frame_emits [OF assms])
  show "emits_whole content (server_encode_inner B (Ietf v) c) (server_encode_inner sizer_writer (Ietf v) c)
      (whole (server_decode_inner (Ietf v))) (server_setup_seen v c)"
    using assms setup_body_emits [OF cversion_emits, of "Ietf v" "ss_version c" "ss_parameters c" "\<lambda>x ps. \<lparr>ss_version = x, ss_parameters = ps\<rparr>"]
      setup_body_plain [of "ss_parameters c" "\<lambda>ps. \<lparr>ss_version = version_code (Ietf v), ss_parameters = ps\<rparr>"]
    by (cases c; cases v) (simp_all add: server_encode_inner_def server_decode_inner_def [abs_def] server_setup_seen_def)
qed

lemma setup_emits:
  assumes "setup_check_version v"
  shows "emits content (setup_encode B v m) (setup_encode sizer_writer v m) (setup_decode v) m"
proof -
  let ?n = "length (setup_parameters m)"
  have sz: "emits content (ebind (ietf_size B ?n) (put_checked B (setup_parameters m)))
      (ebind (ietf_size sizer_writer ?n) (put_checked sizer_writer (setup_parameters m)))
      (dbind u16_decode (\<lambda>n. dbind (copy_to_bytes (unat n)) (\<lambda>msg. dret \<lparr>setup_parameters = msg\<rparr>))) m"
  proof (cases "?n \<le> 0xFFFF")
    case True
    then have n: "unat (of_nat ?n :: u16) = ?n" by (simp add: unat_of_nat take_bit_nat_eq_self)
    show ?thesis
      by (rule emits_bind [OF ietf_size_emits], unfold n, rule emits_map [OF put_checked_emits [OF reads_copy [OF refl]]]) (cases m, simp)
  qed (simp add: ietf_size_def emits_def ebind_def efail_def)
  show ?thesis
    unfolding setup_encode_def setup_decode_def ietf_size_def [symmetric] using assms
    by simp (rule emits_bind [OF u64_emits], simp add: sz)
qed

end

section \<open>Room for the parameters\<close>

fun entry_fits :: "u64 \<times> param_ref \<Rightarrow> bool" where
  "entry_fits (k, RefVar x) \<longleftrightarrow> k \<le> varint_max \<and> x \<le> varint_max"
| "entry_fits (k, RefBytes x) \<longleftrightarrow> k \<le> varint_max \<and> length x \<le> MAX_KVP_VALUE_LEN"

fun entry_size :: "u64 \<times> param_ref \<Rightarrow> nat" where
  "entry_size (k, RefVar x) = 18"
| "entry_size (k, RefBytes x) = 18 + length x"

definition parameters_fit :: "parameters \<Rightarrow> bool" where
  "parameters_fit ps \<longleftrightarrow> length (all_params ps) \<le> MAX_PARAMS \<and> list_all entry_fits (all_params ps)"

definition parameters_size :: "parameters \<Rightarrow> nat" where
  "parameters_size ps = 9 + sum_list (map entry_size (all_params ps))"

lemma parameters_fit_bytes: "parameters_fit ps \<Longrightarrow> \<forall>(k, x)\<in>set (par_bytes ps). length x \<le> MAX_KVP_VALUE_LEN"
proof clarify
  fix k x assume "parameters_fit ps" "(k, x) \<in> set (par_bytes ps)"
  moreover from this have "(bytes_key k, RefBytes x) \<in> set (all_params ps)" by (force simp: all_params_def)
  ultimately show "length x \<le> MAX_KVP_VALUE_LEN" by (fastforce simp: parameters_fit_def list_all_iff)
qed

lemma sum_list_sort: "sum_list (map f (sort_key g xs)) = (sum_list (map f xs) :: nat)"
  by (metis mset_map mset_sort sum_mset_sum_list)

context writer
begin

lemma param_ref_writes:
  "entry_fits (k, x) \<Longrightarrow> writes B (param_ref_encode B v x) (param_ref_encode sizer_writer v x) (entry_size (k, x) - 9)"
  using u64_writes by (cases x) (auto simp: MAX_KVP_VALUE_LEN_def unat_varint_max intro!: bytes_writes)

lemma entry_size_ge: "9 \<le> entry_size e"
  by (cases e rule: entry_size.cases) simp_all

lemma entry_writes:
  assumes "entry_fits (k, x)" "k' \<le> varint_max"
  shows "writes B (ebind (u64_encode B (Ietf v) k') (param_ref_encode B v x))
    (ebind (u64_encode sizer_writer (Ietf v) k') (param_ref_encode sizer_writer v x)) (entry_size (k, x))"
  using writes_bind [OF u64_writes [OF assms(2)] param_ref_writes [OF assms(1)]] entry_size_ge [of "(k, x)"] by simp

lemma deltas_writes:
  assumes "list_all entry_fits es" "sorted_wrt (<) (map fst es)" "\<not> first \<longrightarrow> (\<forall>k\<in>set (map fst es). prev < k)"
  shows "writes B (deltas_encode B v first prev es) (deltas_encode sizer_writer v first prev es) (sum_list (map entry_size es))"
  using assms
proof (induction es arbitrary: first prev)
  case (Cons e es)
  obtain k x where e: "e = (k, x)" by (cases e)
  let ?k = "if first then k else k - prev"
  have fits: "entry_fits (k, x)" using Cons.prems e by simp
  then have "k \<le> varint_max" by (cases x) auto
  moreover have "\<not> first \<Longrightarrow> k - prev \<le> k" by (rule word_sub_le) (use Cons.prems e in auto)
  ultimately have k: "?k \<le> varint_max" by (auto intro: order_trans)
  have "writes B (deltas_encode B v False k es) (deltas_encode sizer_writer v False k es) (sum_list (map entry_size es))"
    using Cons.prems e by (intro Cons.IH) auto
  from writes_bind [OF entry_writes [OF fits k] this] show ?case by (simp add: e ebind_assoc)
qed (simp add: writes_enil)

lemma parameters_writes:
  assumes "parameters_ok ps" "parameters_fit ps"
  shows "writes B (parameters_encode B v ps) (parameters_encode sizer_writer v ps) (parameters_size ps)"
proof -
  let ?n = "length (all_params ps)"
  have n: "length (par_vars ps) + length (par_bytes ps) = ?n" "\<not> MAX_PARAMS < ?n" "?n \<le> unat varint_max"
    using assms(2) by (simp_all add: all_params_def parameters_fit_def MAX_PARAMS_def unat_varint_max)
  have fits: "list_all entry_fits (all_params ps)" using assms(2) by (simp add: parameters_fit_def)
  show ?thesis
  proof (cases "v = Draft14 \<or> v = Draft15")
    case True
    have "writes B (abs_params B v ps) (abs_params sizer_writer v ps) (sum_list (map entry_size (all_params ps)))"
      unfolding abs_params_def
    proof (rule writes_seq)
      fix e assume "e \<in> set (all_params ps)"
      then obtain k x where "e = (k, x)" "entry_fits (k, x)" "k \<le> varint_max"
        using fits by (cases e rule: entry_fits.cases) (auto simp: list_all_iff)
      then show "writes B (case e of (k, x) \<Rightarrow> ebind (u64_encode B (Ietf v) k) (param_ref_encode B v x))
          (case e of (k, x) \<Rightarrow> ebind (u64_encode sizer_writer (Ietf v) k) (param_ref_encode sizer_writer v x)) (entry_size e)"
        using entry_writes by simp
    qed
    from writes_bind [OF usize_writes [OF n(3)] this] show ?thesis
      using True n by (simp add: parameters_encode_def parameters_size_def abs_params_eq [OF parameters_fit_bytes [OF assms(2)]])
  next
    case False
    have d: "writes B (deltas_encode B v True 0 (sort_key fst (all_params ps))) (deltas_encode sizer_writer v True 0 (sort_key fst (all_params ps)))
        (sum_list (map entry_size (all_params ps)))"
      using deltas_writes [of "sort_key fst (all_params ps)" True 0 v] sorted_params(1) [OF assms(1)] fits
      by (simp add: sum_list_sort list_all_iff)
    have "writes B (if v = Draft16 then usize_encode B (Ietf v) ?n else enil) (if v = Draft16 then usize_encode sizer_writer (Ietf v) ?n else enil) 9"
      using usize_writes [OF n(3)] writes_mono [OF writes_enil [of B], of 9] by simp
    from writes_bind [OF this d] show ?thesis using False n by (simp add: parameters_encode_def parameters_size_def)
  qed
qed

lemma setup_size_writes:
  "draft14_16 v \<Longrightarrow> k \<le> 0xFFFF \<Longrightarrow> writes B (setup_size_encode B (Ietf v) k) (setup_size_encode sizer_writer (Ietf v) k) 2"
  by (simp add: setup_size_draft ietf_size_def u16_writes)

lemma setup_frame_writes:
  assumes "draft14_16 v" "writes B e s n" "n \<le> 0xFFFF"
  shows "writes B
    (ebind (u8_encode B k) (\<lambda>w. and_then (s sizer_new) (\<lambda>n. ebind (setup_size_encode B (Ietf v) (sizer_size n)) e w)))
    (ebind (u8_encode sizer_writer k) (\<lambda>w. and_then (s sizer_new) (\<lambda>n. ebind (setup_size_encode sizer_writer (Ietf v) (sizer_size n)) s w)))
    (3 + n)"
proof -
  have "writes B (setup_size_encode B (Ietf v) i) (setup_size_encode sizer_writer (Ietf v) i) 2" if "i \<le> n" for i
    using that assms(3) by (intro setup_size_writes [OF assms(1)]) simp
  then have "writes B (\<lambda>w. and_then (s sizer_new) (\<lambda>n. ebind (setup_size_encode B (Ietf v) (sizer_size n)) e w))
      (\<lambda>w. and_then (s sizer_new) (\<lambda>n. ebind (setup_size_encode sizer_writer (Ietf v) (sizer_size n)) s w)) (2 + n)"
    by (rule framed_writes [OF assms(2)])
  from writes_bind [OF u8_writes this, of k] show ?thesis by (simp add: numeral_3_eq_3)
qed

lemma cversions_writes:
  assumes "list_all (\<lambda>x. x \<le> varint_max) vs" "length vs \<le> unat varint_max"
  shows "writes B (cversions_encode B v vs) (cversions_encode sizer_writer v vs) (9 + 9 * length vs)"
proof -
  have "(of_nat (length vs) :: u64) \<le> varint_max"
    using assms(2) by (simp add: word_le_nat_alt unat_of_nat take_bit_nat_eq_self unat_varint_max)
  moreover have "writes B (eseq (map (cversion_encode B v) vs)) (eseq (map (cversion_encode sizer_writer v) vs)) (9 * length vs)"
    using assms(1) writes_seq [of vs B "cversion_encode B v" "cversion_encode sizer_writer v" "\<lambda>_. 9"] u64_writes
    by (simp add: cversion_encode_def list_all_iff sum_list_triv mult.commute)
  ultimately show ?thesis unfolding cversions_encode_def by (rule writes_bind [OF u64_writes])
qed

lemma client_writes:
  assumes "draft14_16 v" "list_all (\<lambda>x. x \<le> varint_max) (cs_versions c)"
    "9 + 9 * length (cs_versions c) + length (cs_parameters c) \<le> 0xFFFF"
  shows "writes B (client_encode B (Ietf v) c) (client_encode sizer_writer (Ietf v) c)
    (12 + 9 * length (cs_versions c) + length (cs_parameters c))"
proof -
  let ?n = "9 + 9 * length (cs_versions c) + length (cs_parameters c)"
  have ps: "writes B (put_checked B (cs_parameters c)) (put_checked sizer_writer (cs_parameters c)) (length (cs_parameters c))"
    using assms(3) by (intro put_checked_writes) simp
  have vs: "writes B (cversions_encode B (Ietf v) (cs_versions c)) (cversions_encode sizer_writer (Ietf v) (cs_versions c))
      (9 + 9 * length (cs_versions c))"
    using assms(2,3) by (intro cversions_writes) (simp_all add: unat_varint_max)
  have "writes B (client_encode_inner B (Ietf v) c) (client_encode_inner sizer_writer (Ietf v) c) ?n"
    using assms(1) writes_bind [OF vs ps] writes_mono [OF writes_bind [OF writes_enil ps], of ?n]
    by (cases v) (simp_all add: client_encode_inner_def)
  from setup_frame_writes [OF assms(1) this assms(3)] show ?thesis unfolding client_encode_def by (simp add: add_ac)
qed

lemma server_writes:
  assumes "draft14_16 v" "ss_version c \<le> varint_max" "9 + length (ss_parameters c) \<le> 0xFFFF"
  shows "writes B (server_encode B (Ietf v) c) (server_encode sizer_writer (Ietf v) c) (12 + length (ss_parameters c))"
proof -
  let ?n = "9 + length (ss_parameters c)"
  have ps: "writes B (put_checked B (ss_parameters c)) (put_checked sizer_writer (ss_parameters c)) (length (ss_parameters c))"
    using assms(3) by (intro put_checked_writes) simp
  have x: "writes B (cversion_encode B (Ietf v) (ss_version c)) (cversion_encode sizer_writer (Ietf v) (ss_version c)) 9"
    unfolding cversion_encode_def by (rule u64_writes [OF assms(2)])
  have "writes B (server_encode_inner B (Ietf v) c) (server_encode_inner sizer_writer (Ietf v) c) ?n"
    using assms(1) writes_bind [OF x ps] writes_mono [OF writes_bind [OF writes_enil ps], of ?n]
    by (cases v) (simp_all add: server_encode_inner_def)
  from setup_frame_writes [OF assms(1) this assms(3)] show ?thesis unfolding server_encode_def by simp
qed

lemma setup_writes:
  assumes "setup_check_version v" "length (setup_parameters m) \<le> 0xFFFF"
  shows "writes B (setup_encode B v m) (setup_encode sizer_writer v m) (11 + length (setup_parameters m))"
proof -
  have "SETUP_V17 \<le> varint_max" by (simp add: SETUP_V17_def word_le_nat_alt unat_varint_max)
  from writes_bind [OF u64_writes [OF this] writes_bind [OF u16_writes put_checked_writes]] assms
  show ?thesis by (simp add: setup_encode_def not_less)
qed

end

section \<open>Properties\<close>

text \<open>
  The setup parameters survive the wire at every draft: any writer with room for them takes them, and
  the peer decodes from exactly those bytes parameters with the same value for every key, although drafts
  16 and later sort them and send the differences of the keys.
\<close>

theorem setup_parameters_wire:
  assumes "writer B content" "parameters_ok ps" "parameters_fit ps" "parameters_size ps \<le> remaining_mut B w"
  shows "\<exists>w' bs qs. parameters_encode B v ps w = Inr w' \<and> content w' = content w @ bs
    \<and> parameters_decode v bs = Inr (qs, []) \<and> get_varint qs = get_varint ps \<and> get_bytes qs = get_bytes ps"
proof -
  obtain w' where w': "parameters_encode B v ps w = Inr w'"
    using writer.parameters_writes [OF assms(1-3)] assms(4) by (meson writesD)
  from emits_wholeE [OF writer.parameters_emits_whole [OF assms(1,2) parameters_fit_bytes [OF assms(3)]] w']
  show ?thesis using w' parameters_seen_maps [OF assms(2)] by metis
qed

theorem setup_parameters_wire_witness:
  "\<exists>bs qs. encode_bytes (parameters_encode bytes_mut Draft16
       \<lparr>par_vars = [(UnknownVarint 6, 9), (MaxRequestIdParam, 0xFFFFFFFF)], par_bytes = [(Implementation, as_bytes ''moq'')]\<rparr>) = Inr bs
     \<and> parameters_decode Draft16 bs = Inr (qs, []) \<and> get_varint qs MaxRequestIdParam = Some 0xFFFFFFFF
     \<and> get_varint qs (UnknownVarint 6) = Some 9 \<and> get_bytes qs Implementation = Some (as_bytes ''moq'')"
proof -
  let ?ps = "\<lparr>par_vars = [(UnknownVarint 6, 9), (MaxRequestIdParam, 0xFFFFFFFF)], par_bytes = [(Implementation, as_bytes ''moq'')]\<rparr>"
  have "parameters_ok ?ps" "parameters_fit ?ps" "parameters_size ?ps \<le> remaining_mut bytes_mut []"
    by (simp_all add: parameters_ok_def parameters_fit_def parameters_size_def all_params_def MAX_PARAMS_def MAX_KVP_VALUE_LEN_def
        varint_max_def push_bit_of_1 bytes_mut_def varint_kind.simps bytes_kind.simps)
  from setup_parameters_wire [OF bytes_mut.writer_axioms this, of Draft16] obtain bs qs where
    "encode_bytes (parameters_encode bytes_mut Draft16 ?ps) = Inr bs" "parameters_decode Draft16 bs = Inr (qs, [])"
    and seen: "get_varint qs = get_varint ?ps" "get_bytes qs = get_bytes ?ps"
    by (auto simp: encode_bytes_def)
  then show ?thesis unfolding seen [THEN fun_cong] by (intro exI [of _ bs] exI [of _ qs]) (simp add: seen, simp add: get_varint_def get_bytes_def)
qed

text \<open>
  C33: The SETUP messages are written by any writer with room for them, counted exactly by \<open>Sizer\<close>, and
  decoded in front of any further input: \<open>Client\<close> and \<open>Server\<close> at drafts 14 to 16, where drafts 15 and 16 put
  the version of the connection in place of the one that is not sent, and \<open>Setup\<close> at draft 17 and later.
\<close>

theorem setup_messages_wire:
  assumes "writer B content" "draft14_16 v" "setup_check_version m"
    and "list_all (\<lambda>x. x \<le> varint_max) (cs_versions c)" "9 + 9 * length (cs_versions c) + length (cs_parameters c) \<le> 0xFFFF"
    and "ss_version s \<le> varint_max" "9 + length (ss_parameters s) \<le> 0xFFFF" "length (setup_parameters u) \<le> 0xFFFF"
  shows "delivers B content (client_encode B (Ietf v) c) (client_encode sizer_writer (Ietf v) c) (client_decode (Ietf v))
      (client_setup_seen v c) (12 + 9 * length (cs_versions c) + length (cs_parameters c))
    \<and> delivers B content (server_encode B (Ietf v) s) (server_encode sizer_writer (Ietf v) s) (server_decode (Ietf v))
      (server_setup_seen v s) (12 + length (ss_parameters s))
    \<and> delivers B content (setup_encode B m u) (setup_encode sizer_writer m u) (setup_decode m) u (11 + length (setup_parameters u))"
proof -
  have "length (cs_versions c) < 2 ^ 64" using assms(5) by simp
  then show ?thesis
    by (intro conjI deliversI writer.client_emits [OF assms(1)] writer.server_emits [OF assms(1)] writer.setup_emits [OF assms(1)]
        writer.client_writes [OF assms(1)] writer.server_writes [OF assms(1)] writer.setup_writes [OF assms(1)] assms)
qed

theorem setup_messages_wire_witness:
  "delivers bytes_mut (\<lambda>out. out) (client_encode bytes_mut (Ietf Draft14) \<lparr>cs_versions = [0xff00000e], cs_parameters = [0]\<rparr>)
      (client_encode sizer_writer (Ietf Draft14) \<lparr>cs_versions = [0xff00000e], cs_parameters = [0]\<rparr>)
      (client_decode (Ietf Draft14)) \<lparr>cs_versions = [0xff00000e], cs_parameters = [0]\<rparr> 22
   \<and> delivers bytes_mut (\<lambda>out. out) (setup_encode bytes_mut (Ietf Draft18) \<lparr>setup_parameters = []\<rparr>)
      (setup_encode sizer_writer (Ietf Draft18) \<lparr>setup_parameters = []\<rparr>) (setup_decode (Ietf Draft18)) \<lparr>setup_parameters = []\<rparr> 11"
  using setup_messages_wire [OF bytes_mut.writer_axioms, of Draft14 "Ietf Draft18" "\<lparr>cs_versions = [0xff00000e], cs_parameters = [0]\<rparr>"
      "\<lparr>ss_version = 0xff00000e, ss_parameters = [0]\<rparr>" "\<lparr>setup_parameters = []\<rparr>"]
  by (simp add: client_setup_seen_def varint_max_def push_bit_of_1)

end
