(* ===== verification/Transport.thy ===== *)
theory Transport
  imports Coding
begin

text \<open>
  Session errors (\<open>relay/rs/moq-net/src/error.rs\<close>) and the reader that decodes messages from a stream
  (\<open>coding/reader.rs\<close>).

  The receive stream belongs to the transport (\<open>web_transport_trait::RecvStream\<close>). It is modelled by what it
  will deliver: a list of chunks and then either a clean end or an error. A read appends the next chunk,
  cut to the room of the buffer; the rest of a chunk that is cut is delivered next.
\<close>

section \<open>Errors\<close>

datatype moq_error =
    ErrTransport string
  | ErrDecode decode_error
  | ErrVersion
  | ErrRequiredExtension
  | ErrUnexpectedStream
  | ErrBoundsExceeded
  | ErrDuplicate
  | ErrCancel
  | ErrTimeout
  | ErrOld
  | ErrApp u16
  | ErrNotFound
  | ErrUnroutable
  | ErrWrongSize
  | ErrProtocolViolation
  | ErrUnauthorized
  | ErrUnexpectedMessage
  | ErrUnsupported
  | ErrEncode encode_error
  | ErrTooManyParameters
  | ErrInvalidRole
  | ErrUnknownAlpn string
  | ErrDropped
  | ErrClosed
  | ErrCacheFull
  | ErrFrameTooLarge
  | ErrRemote u32

fun to_code :: "moq_error \<Rightarrow> u32" where
  "to_code ErrCancel = 0"
| "to_code ErrRequiredExtension = 1"
| "to_code ErrOld = 2"
| "to_code ErrTimeout = 3"
| "to_code (ErrTransport _) = 4"
| "to_code (ErrDecode _) = 5"
| "to_code ErrUnauthorized = 6"
| "to_code ErrVersion = 9"
| "to_code ErrUnexpectedStream = 10"
| "to_code ErrBoundsExceeded = 11"
| "to_code ErrDuplicate = 12"
| "to_code ErrNotFound = 13"
| "to_code ErrWrongSize = 14"
| "to_code ErrProtocolViolation = 15"
| "to_code ErrUnexpectedMessage = 16"
| "to_code ErrUnsupported = 17"
| "to_code (ErrEncode _) = 18"
| "to_code ErrTooManyParameters = 19"
| "to_code ErrInvalidRole = 20"
| "to_code (ErrUnknownAlpn _) = 21"
| "to_code ErrDropped = 24"
| "to_code ErrClosed = 25"
| "to_code ErrCacheFull = 26"
| "to_code ErrFrameTooLarge = 27"
| "to_code ErrUnroutable = 30"
| "to_code (ErrApp app) = ucast app + 64"
| "to_code (ErrRemote code) = code"

text \<open>What \<open>from_transport\<close> reads of an error of the transport: the code of a stream reset, and its text.\<close>

record transport_error =
  stream_error :: "u32 option"
  error_text :: string

definition from_transport :: "transport_error \<Rightarrow> moq_error" where
  "from_transport err = (case stream_error err of Some code \<Rightarrow> ErrRemote code | None \<Rightarrow> ErrTransport (error_text err))"

section \<open>Receive streams\<close>

record recv_stream =
  chunks :: "byte list list"
  failure :: "transport_error option"

text \<open>\<open>stream_read limit s\<close> is \<open>read_buf\<close> into a buffer with room for \<open>limit\<close> more bytes.\<close>

definition stream_read :: "nat \<Rightarrow> recv_stream \<Rightarrow> moq_error + byte list option \<times> recv_stream" where
  "stream_read limit s =
     (case chunks s of
        [] \<Rightarrow> (case failure s of Some e \<Rightarrow> Inl (from_transport e) | None \<Rightarrow> Inr (None, s))
      | c # cs \<Rightarrow>
          if length c \<le> limit then Inr (Some c, s\<lparr>chunks := cs\<rparr>)
          else Inr (Some (take limit c), s\<lparr>chunks := drop limit c # cs\<rparr>))"

abbreviation pending_bytes :: "recv_stream \<Rightarrow> byte list" where
  "pending_bytes s \<equiv> concat (chunks s)"

section \<open>The reader\<close>

record reader =
  rd_stream :: recv_stream
  rd_buffer :: "byte list"

definition reader_new :: "recv_stream \<Rightarrow> reader" where
  "reader_new s = \<lparr>rd_stream = s, rd_buffer = []\<rparr>"

definition read_more :: "reader \<Rightarrow> moq_error + bool \<times> reader" where
  "read_more r =
     (case chunks (rd_stream r) of
        [] \<Rightarrow> (case failure (rd_stream r) of Some e \<Rightarrow> Inl (from_transport e) | None \<Rightarrow> Inr (False, r))
      | c # cs \<Rightarrow> Inr (True, r\<lparr>rd_stream := (rd_stream r)\<lparr>chunks := cs\<rparr>, rd_buffer := rd_buffer r @ c\<rparr>))"

function reader_decode :: "(decode_error, 'a) decoder \<Rightarrow> reader \<Rightarrow> moq_error + 'a \<times> reader" where
  "reader_decode d r =
     (case d (rd_buffer r) of
        Inr (msg, rest) \<Rightarrow> Inr (msg, r\<lparr>rd_buffer := rest\<rparr>)
      | Inl Short \<Rightarrow>
          (case read_more r of
             Inl e \<Rightarrow> Inl e
           | Inr (again, r) \<Rightarrow> if again then reader_decode d r else Inl (ErrDecode Short))
      | Inl e \<Rightarrow> Inl (ErrDecode e))"
  by pat_completeness auto
termination
  by (relation "measure (\<lambda>(d, r). length (chunks (rd_stream r)))")
    (auto simp: read_more_def split: list.splits option.splits)

declare reader_decode.simps [simp del]

function reader_peek :: "(decode_error, 'a) decoder \<Rightarrow> reader \<Rightarrow> moq_error + 'a \<times> reader" where
  "reader_peek d r =
     (case d (rd_buffer r) of
        Inr (msg, rest) \<Rightarrow> Inr (msg, r)
      | Inl Short \<Rightarrow>
          (case read_more r of
             Inl e \<Rightarrow> Inl e
           | Inr (again, r) \<Rightarrow> if again then reader_peek d r else Inl (ErrDecode Short))
      | Inl e \<Rightarrow> Inl (ErrDecode e))"
  by pat_completeness auto
termination
  by (relation "measure (\<lambda>(d, r). length (chunks (rd_stream r)))")
    (auto simp: read_more_def split: list.splits option.splits)

declare reader_peek.simps [simp del]

definition has_more :: "reader \<Rightarrow> moq_error + bool \<times> reader" where
  "has_more r = (if rd_buffer r \<noteq> [] then Inr (True, r) else read_more r)"

definition decode_maybe :: "(decode_error, 'a) decoder \<Rightarrow> reader \<Rightarrow> moq_error + 'a option \<times> reader" where
  "decode_maybe d r = and_then (has_more r) (\<lambda>(again, r).
     if \<not> again then Inr (None, r) else and_then (reader_decode d r) (\<lambda>(msg, r). Inr (Some msg, r)))"

definition reader_read_buf :: "nat \<Rightarrow> reader \<Rightarrow> moq_error + byte list option \<times> reader" where
  "reader_read_buf limit r =
     (if rd_buffer r \<noteq> [] \<and> 0 < limit then
        (let n = min (length (rd_buffer r)) limit
         in Inr (Some (take n (rd_buffer r)), r\<lparr>rd_buffer := drop n (rd_buffer r)\<rparr>))
      else and_then (stream_read limit (rd_stream r)) (\<lambda>(c, s). Inr (c, r\<lparr>rd_stream := s\<rparr>)))"

text \<open>
  \<open>read_exact\<close> fills a buffer limited to \<open>sz\<close> bytes. An empty chunk leaves the buffer as it is, so the
  loop is bounded by the bytes and chunks still to come.
\<close>

function read_exact_loop :: "nat \<Rightarrow> byte list \<Rightarrow> recv_stream \<Rightarrow> moq_error + byte list \<times> recv_stream" where
  "read_exact_loop sz buf s =
     (if length buf < sz then
        (case stream_read (sz - length buf) s of
           Inl e \<Rightarrow> Inl e
         | Inr (None, s) \<Rightarrow> Inl (ErrDecode Short)
         | Inr (Some c, s) \<Rightarrow> read_exact_loop sz (buf @ c) s)
      else Inr (buf, s))"
  by pat_completeness auto
termination
  by (relation "measure (\<lambda>(sz, buf, s). (sz - length buf) + length (chunks s))")
    (auto simp: stream_read_def split: list.splits option.splits if_splits)

declare read_exact_loop.simps [simp del]

definition read_exact :: "nat \<Rightarrow> reader \<Rightarrow> moq_error + byte list \<times> reader" where
  "read_exact sz r =
     (if sz \<le> length (rd_buffer r) then Inr (take sz (rd_buffer r), r\<lparr>rd_buffer := drop sz (rd_buffer r)\<rparr>)
      else and_then (read_exact_loop sz (rd_buffer r) (rd_stream r)) (\<lambda>(data, s).
        Inr (data, r\<lparr>rd_buffer := [], rd_stream := s\<rparr>)))"

function skip_bytes :: "nat \<Rightarrow> recv_stream \<Rightarrow> moq_error + recv_stream" where
  "skip_bytes sz s =
     (if 0 < sz then
        (case stream_read sz s of
           Inl e \<Rightarrow> Inl e
         | Inr (None, s) \<Rightarrow> Inl (ErrDecode Short)
         | Inr (Some c, s) \<Rightarrow> skip_bytes (sz - length c) s)
      else Inr s)"
  by pat_completeness auto
termination
  by (relation "measure (\<lambda>(sz, s). sz + length (chunks s))")
    (auto simp: stream_read_def split: list.splits option.splits if_splits)

declare skip_bytes.simps [simp del]

definition reader_skip :: "nat \<Rightarrow> reader \<Rightarrow> moq_error + reader" where
  "reader_skip sz r =
     (let buffered = min (length (rd_buffer r)) sz
      in and_then (skip_bytes (sz - buffered) (rd_stream r)) (\<lambda>s.
        Inr (r\<lparr>rd_buffer := drop buffered (rd_buffer r), rd_stream := s\<rparr>)))"

definition reader_closed :: "reader \<Rightarrow> moq_error + reader" where
  "reader_closed r = and_then (has_more r) (\<lambda>(again, r). if again then Inl (ErrDecode Short) else Inr r)"

section \<open>The bytes of a reader\<close>

text \<open>What is still to be read, however it is split into buffer and chunks.\<close>

definition unread :: "reader \<Rightarrow> byte list" where
  "unread r = rd_buffer r @ pending_bytes (rd_stream r)"

lemma unread_new [simp]: "unread (reader_new s) = pending_bytes s"
  by (simp add: unread_def reader_new_def)

lemma failure_new [simp]: "failure (rd_stream (reader_new s)) = failure s"
  by (simp add: reader_new_def)

lemma read_moreD:
  "read_more r = Inr (True, r') \<Longrightarrow> unread r' = unread r \<and> failure (rd_stream r') = failure (rd_stream r)"
  by (auto simp: read_more_def unread_def split: list.splits option.splits)

section \<open>Decoders that more input does not change\<close>

text \<open>
  A decoder is stable when more input can only turn \<open>Short\<close> into another outcome: a value keeps its bytes and
  an error stays. On a stable decoder the loop of the reader depends only on the bytes to come.
\<close>

definition stable_decoder :: "(decode_error, 'a) decoder \<Rightarrow> bool" where
  "stable_decoder d \<longleftrightarrow> (\<forall>bs extra. d bs \<noteq> Inl Short \<longrightarrow>
     d (bs @ extra) = (case d bs of Inl e \<Rightarrow> Inl e | Inr (a, rest) \<Rightarrow> Inr (a, rest @ extra)))"

lemma stable_Inr: "stable_decoder d \<Longrightarrow> d bs = Inr (a, rest) \<Longrightarrow> d (bs @ extra) = Inr (a, rest @ extra)"
  by (simp add: stable_decoder_def)

lemma stable_Inl: "stable_decoder d \<Longrightarrow> d bs = Inl e \<Longrightarrow> e \<noteq> Short \<Longrightarrow> d (bs @ extra) = Inl e"
  by (simp add: stable_decoder_def)

named_theorems stable_intros

lemma stable_dret [stable_intros]: "stable_decoder (dret a)"
  by (simp add: stable_decoder_def dret_def)

lemma stable_dfail [stable_intros]: "stable_decoder (dfail e)"
  by (simp add: stable_decoder_def dfail_def)

lemma stable_bind [stable_intros]:
  assumes "stable_decoder d" "\<And>a. stable_decoder (f a)"
  shows "stable_decoder (dbind d f)"
  unfolding stable_decoder_def
proof (intro allI impI)
  fix bs extra
  assume *: "dbind d f bs \<noteq> Inl Short"
  show "dbind d f (bs @ extra) = (case dbind d f bs of Inl e \<Rightarrow> Inl e | Inr (a, rest) \<Rightarrow> Inr (a, rest @ extra))"
  proof (cases "d bs")
    case (Inl e)
    with * have "d (bs @ extra) = Inl e" by (intro stable_Inl [OF assms(1)]) (auto simp: dbind_Inl)
    with Inl show ?thesis by (simp add: dbind_Inl)
  next
    case (Inr p)
    then obtain a rest where p: "d bs = Inr (a, rest)" by (cases p) auto
    then have "dbind d f (bs @ extra) = f a (rest @ extra)" by (simp add: dbind_Inr stable_Inr [OF assms(1)])
    moreover have "f a rest \<noteq> Inl Short" using * p by (simp add: dbind_Inr)
    ultimately show ?thesis using assms(2) [of a] p by (simp add: stable_decoder_def dbind_Inr)
  qed
qed

lemma stable_if [stable_intros]: "stable_decoder d \<Longrightarrow> stable_decoder d' \<Longrightarrow> stable_decoder (if c then d else d')"
  by simp

lemma stable_u8 [stable_intros]: "stable_decoder u8_decode"
  by (simp add: stable_decoder_def u8_decode_def split: list.split)

lemma stable_u16 [stable_intros]: "stable_decoder u16_decode"
  by (simp add: stable_decoder_def u16_decode_def)

lemma stable_copy [stable_intros]: "stable_decoder (copy_to_bytes n)"
  by (simp add: stable_decoder_def copy_to_bytes_def)

lemma stable_sized [stable_intros]: "stable_decoder (decode_sized n d)"
  by (auto simp: stable_decoder_def decode_sized_def and_then_def split: sum.splits prod.splits)

lemma stable_first: "(\<And>b. stable_decoder (f b)) \<Longrightarrow> stable_decoder (\<lambda>r. case r of [] \<Rightarrow> Inl Short | b # r \<Rightarrow> f b r)"
  by (simp add: stable_decoder_def split: list.split)

lemma stable_choice: "stable_decoder d \<Longrightarrow> stable_decoder d' \<Longrightarrow> stable_decoder (\<lambda>r. if c then d r else d' r)"
  by (cases c) simp_all

lemma stable_value: "stable_decoder (\<lambda>r. Inr (a, r))"
  by (simp add: stable_decoder_def)

lemma stable_error: "stable_decoder (\<lambda>r. Inl e)"
  by (simp add: stable_decoder_def)

lemma stable_need:
  "(\<And>r extra. n \<le> length r \<Longrightarrow> g (r @ extra) = g r) \<Longrightarrow> stable_decoder (\<lambda>r. if length r < n then Inl Short else Inr (g r, drop n r))"
  by (simp add: stable_decoder_def)

lemmas stable_tags = stable_first stable_choice stable_value stable_error stable_need

lemma one_byte_needed:
  "(if r = [] then x else y) = (if length r < 1 then x else y)" "tl r = drop 1 r"
  by (simp_all add: drop_Suc)

lemma stable_quic [stable_intros]: "stable_decoder decode_quic"
  unfolding decode_quic_def [abs_def] Let_def one_byte_needed by (intro stable_tags) simp_all

lemma stable_leading_ones [stable_intros]: "stable_decoder (decode_leading_ones v)"
  unfolding decode_leading_ones_def [abs_def] Let_def one_byte_needed
  by (intro stable_tags) (auto simp: nth_append hd_append)

lemma stable_varint [stable_intros]: "stable_decoder (varint_decode v)"
  by (cases v) (auto intro: stable_intros split: ietf_version.split)

lemma stable_u64 [stable_intros]: "stable_decoder (u64_decode v)"
  by (simp add: u64_decode_def stable_varint)

lemma stable_usize [stable_intros]: "stable_decoder (usize_decode v)"
  unfolding usize_decode_def by (intro stable_intros)

lemma stable_message [stable_intros]: "stable_decoder (message_decode d v)"
  unfolding message_decode_def by (intro stable_intros)

lemma stable_ietf_message [stable_intros]: "stable_decoder (ietf_message_decode d)"
  unfolding ietf_message_decode_def by (intro stable_intros)

text \<open>The outcome of the loop, from the bytes to come alone.\<close>

lemma reader_decode_stable:
  assumes "stable_decoder d"
  shows "case d (unread r) of
      Inr (a, rest) \<Rightarrow> \<exists>r'. reader_decode d r = Inr (a, r') \<and> unread r' = rest \<and> failure (rd_stream r') = failure (rd_stream r)
    | Inl Short \<Rightarrow> reader_decode d r = Inl (case failure (rd_stream r) of Some e \<Rightarrow> from_transport e | None \<Rightarrow> ErrDecode Short)
    | Inl e \<Rightarrow> reader_decode d r = Inl (ErrDecode e)" (is "?outcome r")
proof (induction "length (chunks (rd_stream r))" arbitrary: r)
  case 0
  then have b: "unread r = rd_buffer r" and m: "read_more r = (case failure (rd_stream r) of Some e \<Rightarrow> Inl (from_transport e) | None \<Rightarrow> Inr (False, r))"
    by (simp_all add: unread_def read_more_def)
  consider (found) a rest where "d (rd_buffer r) = Inr (a, rest)" | (short) "d (rd_buffer r) = Inl Short"
    | (error) e where "d (rd_buffer r) = Inl e" "e \<noteq> Short"
    by (cases "d (rd_buffer r)") auto
  then show ?case
  proof cases
    case found
    then have "reader_decode d r = Inr (a, r\<lparr>rd_buffer := rest\<rparr>)" by (simp add: reader_decode.simps)
    with found 0 b show ?thesis by (simp add: unread_def)
  next
    case short
    then show ?thesis by (simp add: reader_decode.simps [of d r] b m split: option.split)
  next
    case error
    then show ?thesis by (simp add: reader_decode.simps [of d r] b split: decode_error.split)
  qed
next
  case (Suc n)
  obtain c cs where c: "chunks (rd_stream r) = c # cs" using Suc.hyps(2) by (cases "chunks (rd_stream r)") auto
  consider (found) a rest where "d (rd_buffer r) = Inr (a, rest)" | (short) "d (rd_buffer r) = Inl Short"
    | (error) e where "d (rd_buffer r) = Inl e" "e \<noteq> Short"
    by (cases "d (rd_buffer r)") auto
  then show ?case
  proof cases
    case found
    then have "reader_decode d r = Inr (a, r\<lparr>rd_buffer := rest\<rparr>)" by (simp add: reader_decode.simps)
    moreover have "d (unread r) = Inr (a, rest @ pending_bytes (rd_stream r))"
      unfolding unread_def by (rule stable_Inr [OF assms found])
    ultimately show ?thesis by (simp add: unread_def)
  next
    case short
    obtain r1 where r1: "read_more r = Inr (True, r1)" "n = length (chunks (rd_stream r1))" "unread r1 = unread r"
      "failure (rd_stream r1) = failure (rd_stream r)"
      using c Suc.hyps(2) by (simp add: read_more_def unread_def)
    have step: "reader_decode d r = reader_decode d r1" using short r1(1) by (subst reader_decode.simps) simp
    show ?thesis using Suc.hyps(1) [OF r1(2)] unfolding step r1(3,4) .
  next
    case error
    have "d (unread r) = Inl e" unfolding unread_def by (rule stable_Inl [OF assms error])
    with error show ?thesis by (simp add: reader_decode.simps [of d r] split: decode_error.split)
  qed
qed

lemma reader_decode_reads:
  assumes "reads d bs a" "unread r = bs @ rest"
  shows "\<exists>r'. reader_decode d r = Inr (a, r') \<and> unread r' = rest \<and> failure (rd_stream r') = failure (rd_stream r)"
  using assms(2)
proof (induction "length (chunks (rd_stream r))" arbitrary: r)
  case 0
  then have "rd_buffer r = bs @ rest" by (simp add: unread_def)
  then have "d (rd_buffer r) = Inr (a, rest)" using assms(1) by (simp add: reads_def)
  then show ?case using 0 by (subst reader_decode.simps) (simp add: unread_def)
next
  case (Suc n)
  show ?case
  proof (cases "length bs \<le> length (rd_buffer r)")
    case True
    then obtain q where q: "rd_buffer r = bs @ q" using Suc.prems by (auto simp: unread_def append_eq_append_conv2)
    then have "d (rd_buffer r) = Inr (a, q)" using assms(1) by (simp add: reads_def)
    then show ?thesis using Suc.prems q by (subst reader_decode.simps) (auto simp: unread_def)
  next
    case False
    then have "strict_prefix (rd_buffer r) bs"
      using Suc.prems by (auto simp: unread_def append_eq_append_conv2 strict_prefix_def prefix_def)
    then have short: "d (rd_buffer r) = Inl Short" using assms(1) by (simp add: reads_def)
    obtain c cs where c: "chunks (rd_stream r) = c # cs" using Suc.hyps(2) by (cases "chunks (rd_stream r)") auto
    let ?r = "r\<lparr>rd_stream := (rd_stream r)\<lparr>chunks := cs\<rparr>, rd_buffer := rd_buffer r @ c\<rparr>"
    have "read_more r = Inr (True, ?r)" by (simp add: read_more_def c)
    then have "reader_decode d r = reader_decode d ?r" using short by (subst reader_decode.simps) simp
    moreover have "n = length (chunks (rd_stream ?r))" "unread ?r = bs @ rest"
      using Suc.hyps(2) Suc.prems c by (simp_all add: unread_def)
    ultimately show ?thesis using Suc.hyps(1) [of ?r] by simp
  qed
qed

text \<open>A decode that succeeds has either found its value in the buffer or read one more chunk and gone on.\<close>

lemma reader_decode_cases:
  assumes "reader_decode d r = Inr (a, r')"
  obtains rest where "d (rd_buffer r) = Inr (a, rest)" "r' = r\<lparr>rd_buffer := rest\<rparr>"
  | r1 where "d (rd_buffer r) = Inl Short" "read_more r = Inr (True, r1)" "reader_decode d r1 = Inr (a, r')"
proof (cases "d (rd_buffer r)")
  case (Inl e)
  then have e: "e = Short" using assms by (subst (asm) reader_decode.simps) (auto split: decode_error.splits)
  obtain again r1 where r1: "read_more r = Inr (again, r1)"
    using assms Inl e by (subst (asm) reader_decode.simps) (auto split: sum.splits)
  moreover from this have again "reader_decode d r1 = Inr (a, r')"
    using assms Inl e by (subst (asm) reader_decode.simps, auto split: if_splits)+
  ultimately show thesis using that(2) Inl e by simp
next
  case (Inr p)
  then show thesis using assms that(1) by (cases p) (subst (asm) reader_decode.simps, auto)
qed

lemma read_more_chunks: "read_more r = Inr (again, r') \<Longrightarrow> set (chunks (rd_stream r')) \<subseteq> set (chunks (rd_stream r))"
  by (auto simp: read_more_def split: list.splits option.splits)

lemma read_more_shorter: "read_more r = Inr (True, r') \<Longrightarrow> length (chunks (rd_stream r')) < length (chunks (rd_stream r))"
  by (auto simp: read_more_def split: list.splits option.splits)

lemma reader_decode_chunks:
  "reader_decode d r = Inr (a, r') \<Longrightarrow> set (chunks (rd_stream r')) \<subseteq> set (chunks (rd_stream r))"
proof (induction "length (chunks (rd_stream r))" arbitrary: r rule: less_induct)
  case less
  from less.prems show ?case
    by (cases rule: reader_decode_cases) (use less.hyps read_more_shorter read_more_chunks in fastforce)+
qed

lemma reader_peek_decode:
  "reader_decode d r = Inr (a, r') \<Longrightarrow> \<exists>q. reader_peek d r = Inr (a, q) \<and> unread q = unread r \<and> failure (rd_stream q) = failure (rd_stream r)
     \<and> set (chunks (rd_stream q)) \<subseteq> set (chunks (rd_stream r))"
proof (induction "length (chunks (rd_stream r))" arbitrary: r rule: less_induct)
  case less
  from less.prems show ?case
  proof (cases rule: reader_decode_cases)
    case (1 rest)
    then show ?thesis by (subst reader_peek.simps) simp
  next
    case (2 r1)
    obtain q where "reader_peek d r1 = Inr (a, q)" "unread q = unread r1" "failure (rd_stream q) = failure (rd_stream r1)"
      "set (chunks (rd_stream q)) \<subseteq> set (chunks (rd_stream r1))"
      using less.hyps [OF read_more_shorter [OF 2(2)] 2(3)] by blast
    then show ?thesis
      using 2 read_moreD [OF 2(2)] read_more_chunks [OF 2(2)] by (subst reader_peek.simps) auto
  qed
qed

lemma reader_peek_reads:
  assumes "reads d bs a" "unread r = bs @ rest"
  obtains q where "reader_peek d r = Inr (a, q)" "unread q = unread r" "failure (rd_stream q) = failure (rd_stream r)"
    "set (chunks (rd_stream q)) \<subseteq> set (chunks (rd_stream r))"
  using reader_decode_reads [OF assms] reader_peek_decode by metis

lemma reader_peek_stable:
  assumes "stable_decoder d" "d (unread r) = Inr (a, rest)"
  obtains q where "reader_peek d r = Inr (a, q)" "unread q = unread r" "failure (rd_stream q) = failure (rd_stream r)"
    "set (chunks (rd_stream q)) \<subseteq> set (chunks (rd_stream r))"
  using reader_decode_stable [OF assms(1), of r] reader_peek_decode [of d r a] assms(2) by auto

text \<open>A stream that ends inside a message yields \<open>Short\<close> or the error of the stream, never a value.\<close>

lemma reader_decode_cut:
  assumes "reads d bs a" "strict_prefix (unread r) bs"
  shows "reader_decode d r = Inl (case failure (rd_stream r) of Some e \<Rightarrow> from_transport e | None \<Rightarrow> ErrDecode Short)"
  using assms(2)
proof (induction "length (chunks (rd_stream r))" arbitrary: r)
  case 0
  then have "d (rd_buffer r) = Inl Short" using assms(1) by (simp add: reads_def unread_def)
  with 0 show ?case by (subst reader_decode.simps) (simp add: read_more_def split: option.split)
next
  case (Suc n)
  have "strict_prefix (rd_buffer r) bs"
    using Suc.prems by (auto simp: unread_def strict_prefix_def prefix_def)
  then have short: "d (rd_buffer r) = Inl Short" using assms(1) by (simp add: reads_def)
  obtain c cs where c: "chunks (rd_stream r) = c # cs" using Suc.hyps(2) by (cases "chunks (rd_stream r)") auto
  let ?r = "r\<lparr>rd_stream := (rd_stream r)\<lparr>chunks := cs\<rparr>, rd_buffer := rd_buffer r @ c\<rparr>"
  have "read_more r = Inr (True, ?r)" by (simp add: read_more_def c)
  then have "reader_decode d r = reader_decode d ?r" using short by (subst reader_decode.simps) simp
  moreover have "n = length (chunks (rd_stream ?r))" "unread ?r = unread r"
    using Suc.hyps(2) c by (simp_all add: unread_def)
  ultimately show ?case using Suc.hyps(1) [of ?r] Suc.prems by simp
qed

lemma read_exact_loop_full [simp]: "length buf = sz \<Longrightarrow> read_exact_loop sz buf s = Inr (buf, s)"
  by (subst read_exact_loop.simps) simp

lemma read_exact_loop_reads:
  "length buf \<le> sz \<Longrightarrow> sz \<le> length buf + length (pending_bytes s) \<Longrightarrow>
   \<exists>s'. read_exact_loop sz buf s = Inr (take sz (buf @ pending_bytes s), s')
     \<and> pending_bytes s' = drop (sz - length buf) (pending_bytes s) \<and> failure s' = failure s"
proof (induction "length (chunks s)" arbitrary: buf s)
  case 0
  then show ?case by simp
next
  case (Suc n)
  then obtain c cs where c: "chunks s = c # cs" by (cases "chunks s") auto
  show ?case
  proof (cases "length buf < sz")
    case True
    let ?k = "sz - length buf"
    show ?thesis
    proof (cases "length c \<le> ?k")
      case fits: True
      then have "read_exact_loop sz buf s = read_exact_loop sz (buf @ c) (s\<lparr>chunks := cs\<rparr>)"
        using True by (subst read_exact_loop.simps) (simp add: stream_read_def c)
      moreover have "length (buf @ c) \<le> sz" "sz \<le> length (buf @ c) + length (concat cs)" "n = length cs"
        using fits True Suc.prems Suc.hyps(2) c by simp_all
      ultimately show ?thesis using Suc.hyps(1) [of "s\<lparr>chunks := cs\<rparr>" "buf @ c"] fits c by auto
    next
      case False
      then have "read_exact_loop sz buf s = read_exact_loop sz (buf @ take ?k c) (s\<lparr>chunks := drop ?k c # cs\<rparr>)"
        using True by (subst read_exact_loop.simps) (simp add: stream_read_def c)
      with False True c show ?thesis by (simp add: min_def)
    qed
  qed (use Suc.prems in simp)
qed

lemma read_exact_reads:
  assumes "sz \<le> length (unread r)"
  shows "\<exists>r'. read_exact sz r = Inr (take sz (unread r), r') \<and> unread r' = drop sz (unread r)"
proof (cases "sz \<le> length (rd_buffer r)")
  case True
  then show ?thesis by (simp add: read_exact_def unread_def)
next
  case False
  then obtain s' where "read_exact_loop sz (rd_buffer r) (rd_stream r) = Inr (take sz (unread r), s')"
    "pending_bytes s' = drop (sz - length (rd_buffer r)) (pending_bytes (rd_stream r))"
    using read_exact_loop_reads [of "rd_buffer r" sz "rd_stream r"] assms by (auto simp: unread_def)
  with False show ?thesis by (simp add: read_exact_def unread_def)
qed

lemma read_exact_loop_cut:
  "length buf + length (pending_bytes s) < sz \<Longrightarrow>
   read_exact_loop sz buf s = Inl (case failure s of Some e \<Rightarrow> from_transport e | None \<Rightarrow> ErrDecode Short)"
proof (induction "length (chunks s)" arbitrary: buf s)
  case 0
  then show ?case by (subst read_exact_loop.simps) (simp add: stream_read_def split: option.split)
next
  case (Suc n)
  then obtain c cs where c: "chunks s = c # cs" by (cases "chunks s") auto
  then have "read_exact_loop sz buf s = read_exact_loop sz (buf @ c) (s\<lparr>chunks := cs\<rparr>)"
    using Suc.prems by (subst read_exact_loop.simps) (simp add: stream_read_def)
  with Suc.hyps(1) [of "s\<lparr>chunks := cs\<rparr>" "buf @ c"] Suc.hyps(2) Suc.prems c show ?case by simp
qed

lemma skip_bytes_exact: "skip_bytes k s = and_then (read_exact_loop (length buf + k) buf s) (\<lambda>(_, s). Inr s)"
proof (induction k s arbitrary: buf rule: skip_bytes.induct)
  case (1 k s)
  show ?case
  proof (cases "0 < k")
    case True
    show ?thesis
    proof (cases "stream_read k s")
      case (Inl e)
      then show ?thesis using True by (subst skip_bytes.simps, subst read_exact_loop.simps) simp
    next
      case (Inr p)
      then obtain c s' where p: "stream_read k s = Inr (c, s')" by (cases p) auto
      show ?thesis
      proof (cases c)
        case None
        then show ?thesis using True p by (subst skip_bytes.simps, subst read_exact_loop.simps) simp
      next
        case (Some b)
        have "length b \<le> k" using p Some by (auto simp: stream_read_def split: list.splits option.splits if_splits)
        then show ?thesis using 1 [OF True p refl, of b "buf @ b"] True p Some
          by (subst skip_bytes.simps, subst read_exact_loop.simps) simp
      qed
    qed
  qed (subst skip_bytes.simps, simp)
qed

lemma read_exact_cut:
  assumes "length (unread r) < sz"
  shows "read_exact sz r = Inl (case failure (rd_stream r) of Some e \<Rightarrow> from_transport e | None \<Rightarrow> ErrDecode Short)"
  using assms read_exact_loop_cut [of "rd_buffer r" "rd_stream r" sz] by (simp add: read_exact_def unread_def)

text \<open>Skipping is reading and forgetting.\<close>

lemma reader_skip_read_exact: "reader_skip sz r = and_then (read_exact sz r) (\<lambda>(_, r). Inr r)"
proof (cases "sz \<le> length (rd_buffer r)")
  case True
  then show ?thesis
    by (auto simp: reader_skip_def read_exact_def min_def skip_bytes.simps)
next
  case False
  then show ?thesis using skip_bytes_exact [of "sz - length (rd_buffer r)" "rd_stream r" "rd_buffer r"]
    by (cases "read_exact_loop sz (rd_buffer r) (rd_stream r)")
      (auto simp: reader_skip_def read_exact_def min_def)
qed

section \<open>Properties\<close>

text \<open>
  C31: However the transport splits a message into chunks, \<open>Reader::decode\<close> returns the message and keeps
  exactly the bytes after it; when the stream ends inside the message it returns the error of the stream,
  or \<open>Short\<close> when the stream ended cleanly.
\<close>

theorem reader_chunking:
  assumes "reads d bs a"
  shows "(unread r = bs @ rest \<longrightarrow> (\<exists>r'. reader_decode d r = Inr (a, r') \<and> unread r' = rest))
    \<and> (strict_prefix (unread r) bs \<longrightarrow>
        reader_decode d r = Inl (case failure (rd_stream r) of Some e \<Rightarrow> from_transport e | None \<Rightarrow> ErrDecode Short))"
  using reader_decode_reads [OF assms] reader_decode_cut [OF assms] by blast

theorem reader_chunking_witness:
  "reader_decode u16_decode (reader_new \<lparr>chunks = [[1], [], [2, 9]], failure = None\<rparr>) = Inr (0x102, \<lparr>rd_stream = \<lparr>chunks = [], failure = None\<rparr>, rd_buffer = [9]\<rparr>)
   \<and> (\<exists>r'. reader_decode u16_decode (reader_new \<lparr>chunks = [[1], [], [2, 9]], failure = None\<rparr>) = Inr (0x102, r') \<and> unread r' = [9])"
proof -
  have "reads u16_decode (be_bytes 2 (0x102 :: u16)) 0x102" by (rule reads_u16)
  moreover have "be_bytes 2 (0x102 :: u16) = [1, 2]" by code_simp
  ultimately have r: "reads u16_decode [1, 2] 0x102" by simp
  have "reader_decode u16_decode (reader_new \<lparr>chunks = [[1], [], [2, 9]], failure = None\<rparr>)
     = Inr (0x102, \<lparr>rd_stream = \<lparr>chunks = [], failure = None\<rparr>, rd_buffer = [9]\<rparr>)"
    by (simp add: reader_decode.simps reader_new_def u16_decode_def from_be_def read_more_def push_bit_eq_mult)
  with reader_chunking [OF r, of "reader_new \<lparr>chunks = [[1], [], [2, 9]], failure = None\<rparr>" "[9]"] show ?thesis by simp
qed

text \<open>
  C18: On any input, also a malformed one, what \<open>Reader::decode\<close> makes of a length-prefixed message depends only on the
  bytes that the stream delivers and not on how they are split: it returns what decoding all of them at
  once returns, and the bytes after the message are kept; where that is \<open>Short\<close> it returns the error of the
  stream, or \<open>Short\<close> at a clean end.
\<close>

theorem reader_split_independent:
  "case message_decode d v (unread r) of
     Inr (a, rest) \<Rightarrow> \<exists>r'. reader_decode (message_decode d v) r = Inr (a, r') \<and> unread r' = rest
   | Inl Short \<Rightarrow> reader_decode (message_decode d v) r
       = Inl (case failure (rd_stream r) of Some e \<Rightarrow> from_transport e | None \<Rightarrow> ErrDecode Short)
   | Inl e \<Rightarrow> reader_decode (message_decode d v) r = Inl (ErrDecode e)"
  using reader_decode_stable [OF stable_message, of d v r]
  by (cases "message_decode d v (unread r)") (auto split: decode_error.splits)

text \<open>
  A message whose size cuts its body short is not refused when it has arrived: whatever follows on the
  stream, \<open>Reader::decode\<close> takes it for a message still to come and returns only when the stream ends.
\<close>

theorem cut_body_waits:
  assumes "usize_decode v len = Inr (length body, [])" "d body = Inl Short" "unread r = len @ body @ rest"
  shows "reader_decode (message_decode d v) r
    = Inl (case failure (rd_stream r) of Some e \<Rightarrow> from_transport e | None \<Rightarrow> ErrDecode Short)"
proof -
  have "usize_decode v (len @ body @ rest) = Inr (length body, body @ rest)"
    using stable_Inr [OF stable_usize assms(1)] by simp
  then have "message_decode d v (unread r) = Inl Short"
    using assms(2,3) by (simp add: message_decode_def dbind_Inr decode_sized_def)
  then show ?thesis using reader_decode_stable [OF stable_message, of d v r] by simp
qed

theorem cut_body_waits_witness:
  "reader_decode (message_decode (u64_decode (Lite Lite04)) (Lite Lite04))
     (reader_new \<lparr>chunks = [[1, 0x40], [1, 2, 3], [4]], failure = None\<rparr>) = Inl (ErrDecode Short)"
  using cut_body_waits [of "Lite Lite04" "[1]" "[0x40]" "u64_decode (Lite Lite04)"
      "reader_new \<lparr>chunks = [[1, 0x40], [1, 2, 3], [4]], failure = None\<rparr>" "[1, 2, 3, 4]"]
  by (simp add: usize_decode_def u64_decode_def decode_quic_def dbind_def dret_def)

text \<open>
  However the bytes are split between the buffer of the reader and the chunks of the stream,
  \<open>Reader::read_exact\<close> returns exactly the next bytes and leaves the others, or fails with the error of the
  stream or \<open>Short\<close> when there are too few; \<open>Reader::skip\<close> has the same outcome without the bytes.
\<close>

theorem reader_exact:
  "(sz \<le> length (unread r) \<longrightarrow>
      (\<exists>r'. read_exact sz r = Inr (take sz (unread r), r') \<and> unread r' = drop sz (unread r)))
   \<and> (length (unread r) < sz \<longrightarrow>
      read_exact sz r = Inl (case failure (rd_stream r) of Some e \<Rightarrow> from_transport e | None \<Rightarrow> ErrDecode Short))
   \<and> reader_skip sz r = and_then (read_exact sz r) (\<lambda>(_, r). Inr r)"
  using read_exact_reads read_exact_cut reader_skip_read_exact by blast

theorem reader_exact_witness:
  "\<exists>r'. read_exact 3 \<lparr>rd_stream = \<lparr>chunks = [[], [2, 3], [4]], failure = None\<rparr>, rd_buffer = [1]\<rparr> = Inr ([1, 2, 3], r')
      \<and> unread r' = [4]"
  using reader_exact [of 3 "\<lparr>rd_stream = \<lparr>chunks = [[], [2, 3], [4]], failure = None\<rparr>, rd_buffer = [1]\<rparr>"]
  by (simp add: unread_def eval_nat_numeral)

text \<open>The kind of an error: its constructor, with the application code for \<open>App\<close>.\<close>

fun error_kind :: "moq_error \<Rightarrow> moq_error" where
  "error_kind (ErrTransport _) = ErrTransport []"
| "error_kind (ErrDecode _) = ErrDecode Short"
| "error_kind (ErrEncode _) = ErrEncode EncodePanic"
| "error_kind (ErrUnknownAlpn _) = ErrUnknownAlpn []"
| "error_kind e = e"

definition code_table :: "(u32 \<times> moq_error) list" where
  "code_table =
     [(0, ErrCancel), (1, ErrRequiredExtension), (2, ErrOld), (3, ErrTimeout), (4, ErrTransport []),
      (5, ErrDecode Short), (6, ErrUnauthorized), (9, ErrVersion), (10, ErrUnexpectedStream),
      (11, ErrBoundsExceeded), (12, ErrDuplicate), (13, ErrNotFound), (14, ErrWrongSize),
      (15, ErrProtocolViolation), (16, ErrUnexpectedMessage), (17, ErrUnsupported),
      (18, ErrEncode EncodePanic), (19, ErrTooManyParameters), (20, ErrInvalidRole),
      (21, ErrUnknownAlpn []), (24, ErrDropped), (25, ErrClosed), (26, ErrCacheFull),
      (27, ErrFrameTooLarge), (30, ErrUnroutable)]"

definition kind_of_code :: "u32 \<Rightarrow> moq_error" where
  "kind_of_code c = (case map_of code_table c of Some e \<Rightarrow> e | None \<Rightarrow> ErrApp (ucast (c - 64)))"

lemma unat_app_code: "unat (ucast (n :: u16) + 64 :: u32) = unat n + 64"
proof -
  have "unat n < 2 ^ 16" using unsigned_less [of n] by simp
  then show ?thesis by (simp add: unat_word_ariths unsigned_ucast_eq take_bit_eq_mod)
qed

lemma code_table_below: "map_of code_table c = Some e \<Longrightarrow> unat c < 64"
  by (drule map_of_SomeD) (auto simp: code_table_def)

lemma ucast_u16_u32 [simp]: "ucast (ucast (n :: u16) :: u32) = n"
  by (rule bit_word_eqI) (simp add: bit_ucast_iff)

lemma app_code_kind: "kind_of_code (ucast (n :: u16) + 64) = ErrApp n"
  using code_table_below [of "ucast n + 64"] unat_app_code [of n]
  by (auto simp: kind_of_code_def split: option.split)

lemma kind_of_to_code: "\<forall>code. e \<noteq> ErrRemote code \<Longrightarrow> kind_of_code (to_code e) = error_kind e"
  by (cases e) (simp_all add: app_code_kind, simp_all add: kind_of_code_def code_table_def)

text \<open>
  The wire codes of the errors are unambiguous: two errors other than \<open>Remote\<close> with the same code are of
  the same kind, and the same application code when they are \<open>App\<close>; a code of \<open>App\<close> is at least 64, above
  every code the library itself uses.
\<close>

theorem error_codes_distinct:
  assumes "\<forall>code. e \<noteq> ErrRemote code" "\<forall>code. e' \<noteq> ErrRemote code"
  shows "(to_code e = to_code e' \<longrightarrow> error_kind e = error_kind e') \<and> (64 \<le> to_code e \<longleftrightarrow> (\<exists>n. e = ErrApp n))"
proof
  show "to_code e = to_code e' \<longrightarrow> error_kind e = error_kind e'"
    using kind_of_to_code [OF assms(1)] kind_of_to_code [OF assms(2)] by auto
  show "64 \<le> to_code e \<longleftrightarrow> (\<exists>n. e = ErrApp n)"
    using assms(1) unat_app_code by (cases e) (simp_all add: word_le_nat_alt)
qed

theorem error_codes_distinct_witness:
  "64 \<le> to_code (ErrApp 7) \<and> to_code (ErrApp 7) = 71 \<and> to_code ErrUnroutable = 30"
  using error_codes_distinct [of "ErrApp 7" ErrUnroutable] by simp

end
