(* ===== verification/Handshake.thy ===== *)
theory Handshake
  imports Setup Transport
begin

text \<open>
  The version negotiation of a session: \<open>Client::connect\<close> (\<open>relay/rs/moq-net/src/client.rs\<close>) and
  \<open>Server::accept\<close> (\<open>server.rs\<close>).

  Both first look at the ALPN of the transport: \<open>plan\<close> is the match at the head of both functions. A version
  with its own ALPN from draft 17 or moq-lite-03 on starts at once; the others open a stream, on which
  the client writes \<open>client_hello\<close>, the server reads it and answers in \<open>server_accept\<close>, and the client reads the
  answer in \<open>client_finish\<close>. What the session is started with is a \<open>started\<close>; the rest of the setup stream
  stays in its reader. Starting a session spawns its tasks and cannot fail.
\<close>

section \<open>The ALPN\<close>

datatype handshake_plan =
    StartNow version
  | Negotiate version "version list"

definition start_now :: "versions \<Rightarrow> version \<Rightarrow> moq_error + handshake_plan" where
  "start_now versions v = (case versions_select versions v of Some v \<Rightarrow> Inr (StartNow v) | None \<Rightarrow> Inl ErrVersion)"

definition setup_only :: "versions \<Rightarrow> version \<Rightarrow> moq_error + handshake_plan" where
  "setup_only versions v = (case versions_select versions v of Some v \<Rightarrow> Inr (Negotiate v [v]) | None \<Rightarrow> Inl ErrVersion)"

definition negotiate_any :: "versions \<Rightarrow> moq_error + handshake_plan" where
  "negotiate_any versions =
     (case versions_filter versions NEGOTIATED of
        Some supported \<Rightarrow> Inr (Negotiate (Ietf Draft14) supported)
      | None \<Rightarrow> Inl ErrVersion)"

definition plan :: "versions \<Rightarrow> string option \<Rightarrow> moq_error + handshake_plan" where
  "plan versions protocol =
     (case protocol of
        None \<Rightarrow> negotiate_any versions
      | Some p \<Rightarrow>
          if p = ALPN_18 then start_now versions (Ietf Draft18)
          else if p = ALPN_17 then start_now versions (Ietf Draft17)
          else if p = ALPN_16 then setup_only versions (Ietf Draft16)
          else if p = ALPN_15 then setup_only versions (Ietf Draft15)
          else if p = ALPN_14 then setup_only versions (Ietf Draft14)
          else if p = ALPN_LITE_05_WIP then start_now versions (Lite Lite05Wip)
          else if p = ALPN_LITE_04 then start_now versions (Lite Lite04)
          else if p = ALPN_LITE_03 then start_now versions (Lite Lite03)
          else if p = ALPN_LITE then negotiate_any versions
          else Inl (ErrUnknownAlpn p))"

section \<open>The SETUP exchange\<close>

record started =
  st_version :: version
  st_request_id_max :: "request_id option"
  st_client :: bool
  st_setup :: "reader option"

definition setup_parameters_default :: parameters where
  "setup_parameters_default =
     set_bytes Implementation (as_bytes ''moq-lite-rs'') (set_varint MaxRequestIdParam 0xFFFFFFFF parameters_default)"

fun map_err :: "('e \<Rightarrow> 'f) \<Rightarrow> 'e + 'a \<Rightarrow> 'f + 'a" where
  "map_err f (Inl e) = Inl (f e)"
| "map_err f (Inr a) = Inr a"

definition client_hello :: "version \<Rightarrow> version list \<Rightarrow> moq_error + byte list" where
  "client_hello encoding supported =
     (case encoding of
        Lite _ \<Rightarrow> Inl ErrVersion
      | Ietf e \<Rightarrow>
          and_then (map_err ErrEncode (encode_bytes (parameters_encode bytes_mut e setup_parameters_default))) (\<lambda>ps.
            map_err ErrEncode (encode_bytes (client_encode bytes_mut encoding
              \<lparr>cs_versions = map version_code supported, cs_parameters = ps\<rparr>))))"

definition client_finish :: "version \<Rightarrow> version list \<Rightarrow> reader \<Rightarrow> moq_error + started" where
  "client_finish encoding supported r =
     and_then (reader_decode (server_decode encoding) r) (\<lambda>(server, r).
       case find (\<lambda>v. version_code v = ss_version server) supported of
         None \<Rightarrow> Inl ErrVersion
       | Some (Lite v) \<Rightarrow> Inr \<lparr>st_version = Lite v, st_request_id_max = None, st_client = True, st_setup = Some r\<rparr>
       | Some (Ietf v) \<Rightarrow>
           and_then (map_err ErrDecode (parameters_decode v (ss_parameters server))) (\<lambda>(ps, _).
             Inr \<lparr>st_version = Ietf v, st_request_id_max = get_varint ps MaxRequestIdParam, st_client = True, st_setup = Some r\<rparr>))"

text \<open>
  The server answers before it decodes the client's parameters: the result has the bytes it wrote and
  then the outcome.
\<close>

definition answer_parameters :: "version \<Rightarrow> moq_error + byte list" where
  "answer_parameters version =
     (case version of
        Ietf v \<Rightarrow> map_err ErrEncode (encode_bytes (parameters_encode bytes_mut v setup_parameters_default))
      | Lite v \<Rightarrow> map_err ErrEncode (encode_bytes (params_encode bytes_mut v [])))"

definition server_start :: "version \<Rightarrow> client_setup \<Rightarrow> reader \<Rightarrow> moq_error + started" where
  "server_start version client r =
     (case version of
        Lite v \<Rightarrow> Inr \<lparr>st_version = Lite v, st_request_id_max = None, st_client = False, st_setup = Some r\<rparr>
      | Ietf v \<Rightarrow>
          and_then (map_err ErrDecode (parameters_decode v (cs_parameters client))) (\<lambda>(ps, _).
            Inr \<lparr>st_version = Ietf v, st_request_id_max = get_varint ps MaxRequestIdParam, st_client = False, st_setup = Some r\<rparr>))"

definition server_accept :: "version \<Rightarrow> version list \<Rightarrow> reader \<Rightarrow> moq_error + byte list \<times> (moq_error + started)" where
  "server_accept encoding supported r =
     and_then (reader_decode (client_decode encoding) r) (\<lambda>(client, r).
       case find (\<lambda>v. v \<in> set supported) (List.map_filter from_code (cs_versions client)) of
         None \<Rightarrow> Inl ErrVersion
       | Some version \<Rightarrow>
           and_then (answer_parameters version) (\<lambda>ps.
             and_then (map_err ErrEncode (encode_bytes (server_encode bytes_mut encoding
                 \<lparr>ss_version = version_code version, ss_parameters = ps\<rparr>))) (\<lambda>bs.
               Inr (bs, server_start version client r))))"

section \<open>Parameters and messages of the exchange\<close>

lemma setup_parameters_default_eq:
  "setup_parameters_default =
     \<lparr>par_vars = [(MaxRequestIdParam, 0xFFFFFFFF)], par_bytes = [(Implementation, as_bytes ''moq-lite-rs'')]\<rparr>"
  by (simp add: setup_parameters_default_def parameters_default_def set_bytes_def set_varint_def)

lemma setup_parameters_default_ok: "parameters_ok setup_parameters_default" "parameters_fit setup_parameters_default"
  by (simp_all add: setup_parameters_default_eq parameters_ok_def parameters_fit_def all_params_def MAX_PARAMS_def
      MAX_KVP_VALUE_LEN_def varint_max_def push_bit_of_1 varint_kind.simps bytes_kind.simps)

lemma setup_parameters_default_size: "parameters_size setup_parameters_default = 56"
  by (simp add: setup_parameters_default_eq parameters_size_def all_params_def)

lemma map_err_Inr_conv [simp]: "map_err f x = Inr a \<longleftrightarrow> x = Inr a"
  by (cases x) simp_all

lemma encode_bytes_reads:
  assumes "emits (\<lambda>out. out) e sz d a" "writes bytes_mut e sz n" "n \<le> usize_max"
  shows "\<exists>bs. encode_bytes e = Inr bs \<and> length bs \<le> n \<and> reads d bs a"
  using emits_writes [OF assms(1,2), of "[]"] assms(3) by (auto simp: encode_bytes_def bytes_mut_def)

lemma encode_bytes_whole:
  assumes "emits_whole (\<lambda>out. out) e sz d a" "writes bytes_mut e sz n" "n \<le> usize_max"
  obtains bs where "encode_bytes e = Inr bs" "length bs \<le> n" "d bs = Inr (a, [])"
proof -
  obtain w where w: "e [] = Inr w" using writesD [OF assms(2), of "[]"] assms(3) by (auto simp: bytes_mut_def)
  obtain bs where bs: "w = bs" "\<forall>s. sz s = Inr (sizer_add (length bs) s)" "d bs = Inr (a, [])"
    by (rule emits_wholeE [OF assms(1) w]) simp
  obtain k where "k \<le> n" "sz sizer_new = Inr (sizer_add k sizer_new)" using assms(2) unfolding writes_def by blast
  then have "length bs \<le> n" using bs(2) by (metis sizer_size_add sum.inject(2) add_left_cancel)
  with w bs show thesis by (intro that [of bs]) (simp_all add: encode_bytes_def)
qed

lemma reads_all: "reads d bs a \<Longrightarrow> d bs = Inr (a, [])"
  by (metis append_Nil2 reads_def)

lemma setup_parameters_bytes:
  assumes "draft14_16 v"
  obtains ps qs where "encode_bytes (parameters_encode bytes_mut v setup_parameters_default) = Inr ps" "length ps \<le> 56"
    "parameters_decode v ps = Inr (qs, [])" "get_varint qs MaxRequestIdParam = Some 0xFFFFFFFF"
proof -
  let ?p = setup_parameters_default
  have w: "writes bytes_mut (parameters_encode bytes_mut v ?p) (parameters_encode sizer_writer v ?p) 56"
    using bytes_mut.parameters_writes [OF setup_parameters_default_ok] unfolding setup_parameters_default_size .
  obtain ps where ps: "encode_bytes (parameters_encode bytes_mut v ?p) = Inr ps" "length ps \<le> 56"
    "reads (parameters_decode v) ps (parameters_seen v ?p)"
    using encode_bytes_reads [OF bytes_mut.parameters_emits [OF setup_parameters_default_ok(1) assms
        parameters_fit_bytes [OF setup_parameters_default_ok(2)]] w] by (auto simp del: draft14_16.simps)
  have "get_varint (parameters_seen v ?p) MaxRequestIdParam = Some 0xFFFFFFFF"
    unfolding parameters_seen_maps [OF setup_parameters_default_ok(1)] by (simp add: setup_parameters_default_eq get_varint_def)
  with ps show thesis by (intro that [of ps] reads_all)
qed

lemma version_code_small: "version_code v \<le> varint_max"
  by (cases v rule: version_code.cases) (simp_all add: varint_max_def push_bit_of_1)

lemma version_code_eq [simp]: "version_code v = version_code u \<longleftrightarrow> v = u"
  by (metis from_code_version_code option.inject)

lemma map_filter_codes: "List.map_filter from_code (map version_code vs) = vs"
  by (induction vs) (simp_all add: List.map_filter_def del: from_code.simps)

lemma client_hello_reads:
  assumes "draft14_16 e" "length vs \<le> 7000"
  obtains hello ps qs where "client_hello (Ietf e) vs = Inr hello"
    "reads (client_decode (Ietf e)) hello
       \<lparr>cs_versions = (if e = Draft14 then map version_code vs else [version_code (Ietf e)]), cs_parameters = ps\<rparr>"
    "parameters_decode e ps = Inr (qs, [])" "get_varint qs MaxRequestIdParam = Some 0xFFFFFFFF"
proof -
  obtain ps qs where ps: "encode_bytes (parameters_encode bytes_mut e setup_parameters_default) = Inr ps" "length ps \<le> 56"
    and qs: "parameters_decode e ps = Inr (qs, [])" "get_varint qs MaxRequestIdParam = Some 0xFFFFFFFF"
    by (rule setup_parameters_bytes [OF assms(1)])
  let ?c = "\<lparr>cs_versions = map version_code vs, cs_parameters = ps\<rparr>"
  have room: "9 + 9 * length (cs_versions ?c) + length (cs_parameters ?c) \<le> 0xFFFF" "length (cs_versions ?c) < 2 ^ 64"
    using assms(2) ps(2) by simp_all
  have codes: "list_all (\<lambda>x. x \<le> varint_max) (cs_versions ?c)" by (simp add: list_all_iff version_code_small)
  obtain hello where "encode_bytes (client_encode bytes_mut (Ietf e) ?c) = Inr hello" "reads (client_decode (Ietf e)) hello (client_setup_seen e ?c)"
    using encode_bytes_reads [OF bytes_mut.client_emits [OF assms(1) room(2)] bytes_mut.client_writes [OF assms(1) codes room(1)]]
      assms(2) ps(2) by auto
  then show thesis using that [of hello ps qs] ps(1) qs
    by (cases "e = Draft14") (simp_all add: client_hello_def client_setup_seen_def)
qed

lemma answer_parameters_bytes:
  assumes "\<forall>e. v = Ietf e \<longrightarrow> draft14_16 e"
  obtains ps where "answer_parameters v = Inr ps" "length ps \<le> 56"
    "\<And>e. v = Ietf e \<Longrightarrow> \<exists>qs. parameters_decode e ps = Inr (qs, []) \<and> get_varint qs MaxRequestIdParam = Some 0xFFFFFFFF"
proof (cases v)
  case (Lite l)
  have "writes bytes_mut (params_encode bytes_mut l []) (params_encode sizer_writer l []) 9"
    using writes_bind [OF bytes_mut.usize_writes writes_enil, of 0 "Lite l"] by (simp add: params_encode_def LITE_MAX_PARAMS_def)
  from encode_bytes_reads [OF bytes_mut.lite_params_emits this] obtain ps where
    "encode_bytes (params_encode bytes_mut l []) = Inr ps" "length ps \<le> 9" by auto
  with that [of ps] Lite show thesis by (simp add: answer_parameters_def)
next
  case (Ietf e)
  then show thesis using assms setup_parameters_bytes [of e] that by (auto simp: answer_parameters_def)
qed

lemma plan_negotiates:
  assumes "plan versions p = Inr (Negotiate enc vs)"
  obtains e where "enc = Ietf e" "draft14_16 e" "vs \<noteq> []" "set vs \<subseteq> set versions" "length vs \<le> length versions \<or> length vs = 1"
    "\<And>f. Ietf f \<in> set vs \<Longrightarrow> f = e" "e \<noteq> Draft14 \<Longrightarrow> vs = [Ietf e]"
proof -
  consider (any) "enc = Ietf Draft14" "versions_filter versions NEGOTIATED = Some vs"
    | (only) e where "draft14_16 e" "enc = Ietf e" "vs = [Ietf e]" "Ietf e \<in> set versions"
    using assms by (auto simp: plan_def start_now_def setup_only_def negotiate_any_def versions_select_def
        split: option.splits if_splits)
  then show thesis
  proof cases
    case any
    then have vs: "vs = filter (\<lambda>v. v \<in> set NEGOTIATED) versions" "vs \<noteq> []"
      by (auto simp: versions_filter_def Let_def split: if_splits)
    then show thesis using any(1) by (intro that [of Draft14]) (auto simp: NEGOTIATED_def)
  qed (auto intro!: that)
qed

lemma plan_encoding:
  assumes "plan cv p = Inr (Negotiate enc cs)" "plan sv p = Inr (Negotiate enc' ss)"
  shows "enc' = enc"
  using assms by (auto simp: plan_def start_now_def setup_only_def negotiate_any_def versions_select_def split: option.splits if_splits)

text \<open>The hello that a negotiating client writes offers all its versions, also where the draft does not send them.\<close>

lemma hello_offers:
  assumes "plan cv p = Inr (Negotiate enc cs)" "length cv \<le> 7000"
  obtains e hello ps qs where "enc = Ietf e" "draft14_16 e" "\<And>f. Ietf f \<in> set cs \<Longrightarrow> f = e" "e \<noteq> Draft14 \<Longrightarrow> cs = [Ietf e]"
    "client_hello enc cs = Inr hello" "reads (client_decode enc) hello \<lparr>cs_versions = map version_code cs, cs_parameters = ps\<rparr>"
    "parameters_decode e ps = Inr (qs, [])" "get_varint qs MaxRequestIdParam = Some 0xFFFFFFFF"
proof -
  obtain e where e: "enc = Ietf e" "draft14_16 e" and cs: "length cs \<le> length cv \<or> length cs = 1"
    "\<And>f. Ietf f \<in> set cs \<Longrightarrow> f = e" "e \<noteq> Draft14 \<Longrightarrow> cs = [Ietf e]"
    by (rule plan_negotiates [OF assms(1)]) blast
  have "length cs \<le> 7000" using cs(1) assms(2) by auto
  then obtain hello ps qs where hello: "client_hello (Ietf e) cs = Inr hello"
    "reads (client_decode (Ietf e)) hello \<lparr>cs_versions = (if e = Draft14 then map version_code cs else [version_code (Ietf e)]), cs_parameters = ps\<rparr>"
    and ps: "parameters_decode e ps = Inr (qs, [])" "get_varint qs MaxRequestIdParam = Some 0xFFFFFFFF"
    by (rule client_hello_reads [OF e(2)])
  moreover have "(if e = Draft14 then map version_code cs else [version_code (Ietf e)]) = map version_code cs"
    using cs(3) by simp
  ultimately show thesis using e(1) by (intro that [OF e cs(2,3) _ _ ps]) simp_all
qed

lemma find_mem: "find P xs = Some x \<Longrightarrow> x \<in> set xs \<and> P x"
  by (auto simp: find_Some_iff)

lemma find_code: "v \<in> set vs \<Longrightarrow> find (\<lambda>u. version_code u = version_code v) vs = Some v"
  by (induction vs) auto

definition agreed :: "version \<Rightarrow> bool \<Rightarrow> byte list \<Rightarrow> started \<Rightarrow> bool" where
  "agreed v client rest s \<longleftrightarrow> st_version s = v \<and> st_client s = client
     \<and> st_request_id_max s = (if is_ietf v then Some 0xFFFFFFFF else None)
     \<and> (\<exists>q. st_setup s = Some q \<and> unread q = rest)"

text \<open>
  C6: The SETUP exchange agrees. When the ALPN lets both ends negotiate and they have a version in common,
  the client's hello is accepted by the server however the transport splits it, the server picks the
  first of the client's versions that it supports and its answer makes the client pick the same one; both
  start their sessions with that version, learn the same request limit, and keep whatever follows on the
  stream.
\<close>

theorem handshake_agrees:
  assumes "plan cv p = Inr (Negotiate enc cs)" "plan sv p = Inr (Negotiate enc' ss)" "length cv \<le> 7000"
    "find (\<lambda>v. v \<in> set ss) cs = Some v"
  shows "\<exists>hello answer. client_hello enc cs = Inr hello
    \<and> (\<forall>r rest. unread r = hello @ rest \<longrightarrow> (\<exists>s. server_accept enc' ss r = Inr (answer, Inr s) \<and> agreed v False rest s))
    \<and> (\<forall>r rest. unread r = answer @ rest \<longrightarrow> (\<exists>c. client_finish enc cs r = Inr c \<and> agreed v True rest c))"
proof -
  have enc': "enc' = enc" by (rule plan_encoding [OF assms(1,2)])
  obtain e hello ps qs where e: "enc = Ietf e" "draft14_16 e" and cs: "\<And>f. Ietf f \<in> set cs \<Longrightarrow> f = e" "e \<noteq> Draft14 \<Longrightarrow> cs = [Ietf e]"
    and hello: "client_hello enc cs = Inr hello" "reads (client_decode enc) hello \<lparr>cs_versions = map version_code cs, cs_parameters = ps\<rparr>"
    and ps: "parameters_decode e ps = Inr (qs, [])" "get_varint qs MaxRequestIdParam = Some 0xFFFFFFFF"
    by (rule hello_offers [OF assms(1,3)]) (rule that)
  have v: "v \<in> set cs" "v \<in> set ss" using find_mem [OF assms(4)] by auto
  then have ve: "\<And>f. v = Ietf f \<Longrightarrow> f = e" using cs(1) by simp
  have "\<forall>f. v = Ietf f \<longrightarrow> draft14_16 f" using ve e(2) by blast
  then obtain aps where aps: "answer_parameters v = Inr aps" "length aps \<le> 56"
    and aq: "\<And>f. v = Ietf f \<Longrightarrow> \<exists>qs. parameters_decode f aps = Inr (qs, []) \<and> get_varint qs MaxRequestIdParam = Some 0xFFFFFFFF"
    by (rule answer_parameters_bytes) (rule that)
  let ?a = "\<lparr>ss_version = version_code v, ss_parameters = aps\<rparr>"
  have "9 + length (ss_parameters ?a) \<le> 0xFFFF" "ss_version ?a \<le> varint_max" using aps(2) version_code_small by auto
  from encode_bytes_reads [OF bytes_mut.server_emits [OF e(2)] bytes_mut.server_writes [OF e(2) this(2,1)]] aps(2)
  obtain answer where answer: "encode_bytes (server_encode bytes_mut enc ?a) = Inr answer"
    "reads (server_decode enc) answer (server_setup_seen e ?a)" using e(1) by auto
  have "server_setup_seen e ?a = ?a" using cs(2) v(1) by (auto simp: server_setup_seen_def)
  with answer(2) have answer2: "reads (server_decode enc) answer ?a" by simp
  have "\<exists>s. server_accept enc ss r = Inr (answer, Inr s) \<and> agreed v False rest s" if r: "unread r = hello @ rest" for r rest
  proof -
    obtain q where "reader_decode (client_decode enc) r = Inr (\<lparr>cs_versions = map version_code cs, cs_parameters = ps\<rparr>, q)" "unread q = rest"
      using reader_decode_reads [OF hello(2) r] by blast
    moreover from this have "server_accept enc ss r = Inr (answer, server_start v \<lparr>cs_versions = map version_code cs, cs_parameters = ps\<rparr> q)"
      by (simp add: server_accept_def map_filter_codes assms(4) aps(1) answer(1))
    ultimately show ?thesis using ps ve by (cases v) (auto simp: server_start_def agreed_def)
  qed
  moreover have "\<exists>c. client_finish enc cs r = Inr c \<and> agreed v True rest c" if r: "unread r = answer @ rest" for r rest
  proof -
    obtain q where "reader_decode (server_decode enc) r = Inr (?a, q)" "unread q = rest"
      using reader_decode_reads [OF answer2 r] by blast
    then show ?thesis using find_code [OF v(1)] aq by (cases v) (auto simp: client_finish_def agreed_def)
  qed
  ultimately show ?thesis using hello(1) unfolding enc' by (intro exI [of _ hello] exI [of _ answer]) simp
qed

theorem handshake_agrees_witness:
  "plan [Lite Lite04, Ietf Draft14, Lite Lite02] None = Inr (Negotiate (Ietf Draft14) [Ietf Draft14, Lite Lite02])
   \<and> plan [Lite Lite02, Lite Lite01] (Some ''moql'') = Inr (Negotiate (Ietf Draft14) [Lite Lite02, Lite Lite01])
   \<and> (\<exists>hello answer. client_hello (Ietf Draft14) [Ietf Draft14, Lite Lite02] = Inr hello
      \<and> (\<forall>r rest. unread r = hello @ rest \<longrightarrow> (\<exists>s. server_accept (Ietf Draft14) [Lite Lite02, Lite Lite01] r = Inr (answer, Inr s)
            \<and> agreed (Lite Lite02) False rest s))
      \<and> (\<forall>r rest. unread r = answer @ rest \<longrightarrow> (\<exists>c. client_finish (Ietf Draft14) [Ietf Draft14, Lite Lite02] r = Inr c
            \<and> agreed (Lite Lite02) True rest c)))"
proof -
  have p: "plan [Lite Lite04, Ietf Draft14, Lite Lite02] None = Inr (Negotiate (Ietf Draft14) [Ietf Draft14, Lite Lite02])"
    "plan [Lite Lite02, Lite Lite01] None = Inr (Negotiate (Ietf Draft14) [Lite Lite02, Lite Lite01])"
    "plan [Lite Lite02, Lite Lite01] (Some ''moql'') = Inr (Negotiate (Ietf Draft14) [Lite Lite02, Lite Lite01])"
    by (simp_all add: plan_def negotiate_any_def versions_filter_def NEGOTIATED_def alpn_defs)
  with handshake_agrees [OF p(1,2), of "Lite Lite02"] show ?thesis by simp
qed

text \<open>
  C23: The SETUP exchange refuses. When both ends may negotiate but have no version in common, the server
  reads the hello and fails with the version error, whatever follows on the stream, and a client that is
  answered with a version it did not offer fails with the version error as well.
\<close>

theorem handshake_refuses:
  assumes "plan cv p = Inr (Negotiate enc cs)" "plan sv p = Inr (Negotiate enc' ss)" "length cv \<le> 7000"
    "set cs \<inter> set ss = {}"
  shows "\<exists>hello. client_hello enc cs = Inr hello
    \<and> (\<forall>r rest. unread r = hello @ rest \<longrightarrow> server_accept enc' ss r = Inl ErrVersion)
    \<and> (\<forall>r rest answer a. reads (server_decode enc) answer a \<and> unread r = answer @ rest
          \<and> ss_version a \<notin> version_code ` set cs \<longrightarrow> client_finish enc cs r = Inl ErrVersion)"
proof -
  have enc': "enc' = enc" by (rule plan_encoding [OF assms(1,2)])
  obtain hello ps where hello: "client_hello enc cs = Inr hello"
    "reads (client_decode enc) hello \<lparr>cs_versions = map version_code cs, cs_parameters = ps\<rparr>"
    by (rule hello_offers [OF assms(1,3)])
  have none: "find (\<lambda>v. v \<in> set ss) cs = None" using assms(4) by (auto simp: find_None_iff)
  have "server_accept enc ss r = Inl ErrVersion" if r: "unread r = hello @ rest" for r rest
    using reader_decode_reads [OF hello(2) r] by (auto simp: server_accept_def map_filter_codes none)
  moreover have "client_finish enc cs r = Inl ErrVersion"
    if "reads (server_decode enc) answer a" "unread r = answer @ rest" "ss_version a \<notin> version_code ` set cs" for r rest answer a
  proof -
    have "find (\<lambda>v. version_code v = ss_version a) cs = None" using that(3) by (fastforce simp: find_None_iff image_iff)
    then show ?thesis using reader_decode_reads [OF that(1,2)] by (auto simp: client_finish_def)
  qed
  ultimately show ?thesis using hello(1) unfolding enc' by blast
qed

theorem handshake_refuses_witness:
  "\<exists>hello. client_hello (Ietf Draft14) [Lite Lite01] = Inr hello
    \<and> (\<forall>r rest. unread r = hello @ rest \<longrightarrow> server_accept (Ietf Draft14) [Lite Lite02, Ietf Draft14] r = Inl ErrVersion)"
proof -
  have p: "plan [Lite Lite01] None = Inr (Negotiate (Ietf Draft14) [Lite Lite01])"
    "plan [Lite Lite02, Ietf Draft14] None = Inr (Negotiate (Ietf Draft14) [Lite Lite02, Ietf Draft14])"
    by (simp_all add: plan_def negotiate_any_def versions_filter_def NEGOTIATED_def)
  with handshake_refuses [OF p] show ?thesis by fastforce
qed

text \<open>
  C32: What the ALPN decides, at both ends: an ALPN that names one version is accepted exactly when that
  version is configured, and then only that version is used, with a SETUP exchange for drafts 14 to 16 and
  none otherwise; no ALPN, or that of the first moq-lite versions, negotiates among the configured
  versions that share it, in the configured order; any other ALPN is refused.
\<close>

theorem alpn_decides:
  "(v \<notin> {Lite Lite01, Lite Lite02} \<longrightarrow>
      plan vs (Some (alpn v)) =
        (if v \<notin> set vs then Inl ErrVersion
         else if v \<in> {Ietf Draft14, Ietf Draft15, Ietf Draft16} then Inr (Negotiate v [v]) else Inr (StartNow v)))
   \<and> (p \<in> {None, Some ALPN_LITE} \<longrightarrow>
      plan vs p =
        (if set vs \<inter> set NEGOTIATED = {} then Inl ErrVersion
         else Inr (Negotiate (Ietf Draft14) (filter uses_setup_negotiation vs))))
   \<and> (s \<notin> range alpn \<longrightarrow> plan vs (Some s) = Inl (ErrUnknownAlpn s))"
proof (intro conjI impI)
  assume "v \<notin> {Lite Lite01, Lite Lite02}"
  then show "plan vs (Some (alpn v)) =
        (if v \<notin> set vs then Inl ErrVersion
         else if v \<in> {Ietf Draft14, Ietf Draft15, Ietf Draft16} then Inr (Negotiate v [v]) else Inr (StartNow v))"
    by (cases v rule: alpn.cases) (auto simp: plan_def start_now_def setup_only_def versions_select_def alpn_defs)
next
  have "v \<in> set NEGOTIATED \<longleftrightarrow> uses_setup_negotiation v" for v
    by (cases v rule: uses_setup_negotiation.cases) (auto simp: NEGOTIATED_def)
  then have "filter (\<lambda>v. v \<in> set NEGOTIATED) vs = filter uses_setup_negotiation vs" "filter uses_setup_negotiation vs = [] \<longleftrightarrow> set vs \<inter> set NEGOTIATED = {}"
    by (auto simp: filter_empty_conv)
  then have "negotiate_any vs = (if set vs \<inter> set NEGOTIATED = {} then Inl ErrVersion
         else Inr (Negotiate (Ietf Draft14) (filter uses_setup_negotiation vs)))"
    by (simp add: negotiate_any_def versions_filter_def Let_def)
  moreover assume "p \<in> {None, Some ALPN_LITE}"
  then have "plan vs p = negotiate_any vs" by (auto simp: plan_def alpn_defs)
  ultimately show "plan vs p = (if set vs \<inter> set NEGOTIATED = {} then Inl ErrVersion
         else Inr (Negotiate (Ietf Draft14) (filter uses_setup_negotiation vs)))"
    by simp
next
  assume s: "s \<notin> range alpn"
  have "s \<noteq> ALPN_18" "s \<noteq> ALPN_17" "s \<noteq> ALPN_16" "s \<noteq> ALPN_15" "s \<noteq> ALPN_14" "s \<noteq> ALPN_LITE_05_WIP" "s \<noteq> ALPN_LITE_04"
    "s \<noteq> ALPN_LITE_03" "s \<noteq> ALPN_LITE"
    using s by (metis alpn.simps rangeI)+
  then show "plan vs (Some s) = Inl (ErrUnknownAlpn s)" by (simp add: plan_def)
qed

theorem alpn_decides_witness:
  "plan [Ietf Draft16, Lite Lite04] (Some ''moqt-16'') = Inr (Negotiate (Ietf Draft16) [Ietf Draft16])
   \<and> plan [Ietf Draft16, Lite Lite04] (Some ''moqt-17'') = Inl ErrVersion"
  using alpn_decides [of "Ietf Draft16" "[Ietf Draft16, Lite Lite04]" None "[]"]
    alpn_decides [of "Ietf Draft17" "[Ietf Draft16, Lite Lite04]" None "[]"]
  by (simp add: alpn_defs)

end
