(* ===== verification/Ietf_Messages.thy ===== *)
theory Ietf_Messages
  imports Ietf_Params
begin

text \<open>
  The control messages of the IETF drafts 14 to 18 (\<open>relay/rs/moq-net/src/ietf\<close>): \<open>subscribe.rs\<close>,
  \<open>publish.rs\<close>, \<open>publish_namespace.rs\<close>, \<open>subscribe_namespace.rs\<close>, \<open>fetch.rs\<close>, \<open>track.rs\<close>, \<open>goaway.rs\<close>,
  \<open>request.rs\<close>, and the group header of the data streams (\<open>group.rs\<close>). A \<open>debug_assert!\<close> is not part of the
  release build and is left out; what it asks for is a condition of the theorems.
\<close>

section \<open>Shared parts of the bodies\<close>

text \<open>
  A reply carries its request id up to draft 16, and must not have one later: \<open>expect\<close> and \<open>assert!\<close>.
\<close>

definition reply_id_encode :: "'w buf_mut \<Rightarrow> ietf_version \<Rightarrow> request_id option \<Rightarrow> (encode_error, 'w) encoder" where
  "reply_id_encode B v rid =
     (if draft14_16 v then (case rid of Some r \<Rightarrow> request_id_encode B v r | None \<Rightarrow> efail EncodePanic)
      else (case rid of None \<Rightarrow> enil | Some _ \<Rightarrow> efail EncodePanic))"

definition reply_id_decode :: "ietf_version \<Rightarrow> (decode_error, request_id option) decoder" where
  "reply_id_decode v = (if draft14_16 v then dbind (request_id_decode v) (\<lambda>r. dret (Some r)) else dret None)"

text \<open>The required request id delta of draft 17.\<close>

definition required_delta_encode :: "'w buf_mut \<Rightarrow> ietf_version \<Rightarrow> (encode_error, 'w) encoder" where
  "required_delta_encode B v = (if v = Draft17 then u64_encode B (Ietf v) 0 else enil)"

definition required_delta_decode :: "ietf_version \<Rightarrow> (decode_error, unit) decoder" where
  "required_delta_decode v = (if v = Draft17 then dbind (u64_decode (Ietf v)) (\<lambda>_. dret ()) else dret ())"

section \<open>Requests\<close>

record max_request_id =
  maxrid_request_id :: request_id

definition max_request_id_encode_msg :: "'w buf_mut \<Rightarrow> ietf_version \<Rightarrow> max_request_id \<Rightarrow> (encode_error, 'w) encoder" where
  "max_request_id_encode_msg B v m = request_id_encode B v (maxrid_request_id m)"

definition max_request_id_decode_msg :: "ietf_version \<Rightarrow> (decode_error, max_request_id) decoder" where
  "max_request_id_decode_msg v = dbind (request_id_decode v) (\<lambda>r. dret \<lparr>maxrid_request_id = r\<rparr>)"

record requests_blocked =
  blocked_request_id :: request_id

definition requests_blocked_encode_msg :: "'w buf_mut \<Rightarrow> ietf_version \<Rightarrow> requests_blocked \<Rightarrow> (encode_error, 'w) encoder" where
  "requests_blocked_encode_msg B v m = request_id_encode B v (blocked_request_id m)"

definition requests_blocked_decode_msg :: "ietf_version \<Rightarrow> (decode_error, requests_blocked) decoder" where
  "requests_blocked_decode_msg v = dbind (request_id_decode v) (\<lambda>r. dret \<lparr>blocked_request_id = r\<rparr>)"

record request_ok =
  rok_request_id :: "request_id option"

definition request_ok_encode_msg :: "'w buf_mut \<Rightarrow> ietf_version \<Rightarrow> request_ok \<Rightarrow> (encode_error, 'w) encoder" where
  "request_ok_encode_msg B v m = ebind (reply_id_encode B v (rok_request_id m)) (encode_params B v [])"

definition request_ok_decode_msg :: "ietf_version \<Rightarrow> (decode_error, request_ok) decoder" where
  "request_ok_decode_msg v = dbind (reply_id_decode v) (\<lambda>r. dbind (decode_params v []) (\<lambda>_.
     dret \<lparr>rok_request_id = r\<rparr>))"

record request_error =
  rerr_request_id :: "request_id option"
  rerr_error_code :: u64
  rerr_reason :: string
  rerr_retry_interval :: u64

definition request_error_encode_msg :: "'w buf_mut \<Rightarrow> ietf_version \<Rightarrow> request_error \<Rightarrow> (encode_error, 'w) encoder" where
  "request_error_encode_msg B v m =
     ebind (reply_id_encode B v (rerr_request_id m))
    (ebind (u64_encode B (Ietf v) (rerr_error_code m))
    (ebind (if v = Draft14 \<or> v = Draft15 then enil else u64_encode B (Ietf v) (rerr_retry_interval m))
       (string_encode B (Ietf v) (rerr_reason m))))"

definition request_error_decode_msg :: "ietf_version \<Rightarrow> (decode_error, request_error) decoder" where
  "request_error_decode_msg v =
     dbind (reply_id_decode v) (\<lambda>r.
     dbind (u64_decode (Ietf v)) (\<lambda>code.
     dbind (if v = Draft14 \<or> v = Draft15 then dret 0 else u64_decode (Ietf v)) (\<lambda>retry.
     dbind (string_decode (Ietf v)) (\<lambda>reason.
     dret \<lparr>rerr_request_id = r, rerr_error_code = code, rerr_reason = reason, rerr_retry_interval = retry\<rparr>))))"

section \<open>Subscriptions\<close>

record ietf_subscribe =
  isub_request_id :: request_id
  isub_namespace :: path
  isub_name :: string
  isub_priority :: u8
  isub_group_order :: group_order
  isub_filter_type :: filter_type

text \<open>The location that follows an absolute filter in draft 14 is read and dropped.\<close>

definition filter_range_decode :: "ietf_version \<Rightarrow> filter_type \<Rightarrow> (decode_error, unit) decoder" where
  "filter_range_decode v f =
     (case f of
        AbsoluteStart \<Rightarrow> dbind (location_decode v) (\<lambda>_. dret ())
      | AbsoluteRange \<Rightarrow> dbind (location_decode v) (\<lambda>_. dbind (u64_decode (Ietf v)) (\<lambda>_. dret ()))
      | _ \<Rightarrow> dret ())"

definition ietf_subscribe_decode_msg :: "ietf_version \<Rightarrow> (decode_error, ietf_subscribe) decoder" where
  "ietf_subscribe_decode_msg v =
     dbind (request_id_decode v) (\<lambda>rid.
     dbind (required_delta_decode v) (\<lambda>_.
     dbind (decode_namespace v) (\<lambda>ns.
     dbind (string_decode (Ietf v)) (\<lambda>name.
     if v = Draft14 then
       dbind u8_decode (\<lambda>pri.
       dbind group_order_decode (\<lambda>order.
       dbind bool_decode (\<lambda>forward.
       if \<not> forward then dfail Unsupported
       else dbind (filter_type_decode v) (\<lambda>f.
         dbind (filter_range_decode v f) (\<lambda>_.
         dbind (parameters_decode v) (\<lambda>_.
         dret \<lparr>isub_request_id = rid, isub_namespace = ns, isub_name = name, isub_priority = pri,
           isub_group_order = order, isub_filter_type = f\<rparr>))))))
     else
       dbind (decode_params v [(0x10, value_bool v), (0x20, value_u8 v), (0x21, value_filter v), (0x22, value_order v)]) (\<lambda>ps.
       if as_bool (ps 0x10) = Some False then dfail Unsupported
       else dret \<lparr>isub_request_id = rid, isub_namespace = ns, isub_name = name,
         isub_priority = unwrap_or (as_u8 (ps 0x20)) 128,
         isub_group_order = unwrap_or (as_order (ps 0x22)) Descending,
         isub_filter_type = unwrap_or (as_filter (ps 0x21)) LargestObject\<rparr>)))))"

definition ietf_subscribe_encode_msg :: "'w buf_mut \<Rightarrow> ietf_version \<Rightarrow> ietf_subscribe \<Rightarrow> (encode_error, 'w) encoder" where
  "ietf_subscribe_encode_msg B v m =
     ebind (request_id_encode B v (isub_request_id m))
    (ebind (required_delta_encode B v)
    (ebind (encode_namespace B (isub_namespace m) v)
    (ebind (string_encode B (Ietf v) (isub_name m))
     (if v = Draft14 then
        ebind (u8_encode B (isub_priority m))
       (ebind (group_order_encode B (isub_group_order m))
       (ebind (bool_encode B True)
       (ebind (filter_type_encode B v (isub_filter_type m))
          (u8_encode B 0))))
      else encode_params B v
        [(0x10, Some (param_bool_encode B v True)), (0x20, Some (param_u8_encode B v (isub_priority m))),
         (0x21, Some (param_filter_encode B v (isub_filter_type m))), (0x22, Some (param_order_encode B v (isub_group_order m)))]))))"

record ietf_subscribe_ok =
  isok_request_id :: "request_id option"
  isok_track_alias :: u64

definition ietf_subscribe_ok_encode_msg :: "'w buf_mut \<Rightarrow> ietf_version \<Rightarrow> ietf_subscribe_ok \<Rightarrow> (encode_error, 'w) encoder" where
  "ietf_subscribe_ok_encode_msg B v m =
     ebind (reply_id_encode B v (isok_request_id m))
    (ebind (u64_encode B (Ietf v) (isok_track_alias m))
     (if v = Draft14 then
        ebind (u64_encode B (Ietf v) 0)
       (ebind (group_order_encode B Descending)
       (ebind (bool_encode B False)
          (u8_encode B 0)))
      else encode_params B v [(0x22, Some (param_order_encode B v Descending))]))"

definition ietf_subscribe_ok_decode_msg :: "ietf_version \<Rightarrow> (decode_error, ietf_subscribe_ok) decoder" where
  "ietf_subscribe_ok_decode_msg v =
     dbind (reply_id_decode v) (\<lambda>rid.
     dbind (u64_decode (Ietf v)) (\<lambda>alias.
     if v = Draft14 then
       dbind (u64_decode (Ietf v)) (\<lambda>expires.
       if expires \<noteq> 0 then dfail Unsupported
       else dbind u8_decode (\<lambda>_.
         dbind bool_decode (\<lambda>exists.
         dbind (if exists then dbind (u64_decode (Ietf v)) (\<lambda>_. dbind (u64_decode (Ietf v)) (\<lambda>_. dret ())) else dret ()) (\<lambda>_.
         dbind (parameters_decode v) (\<lambda>_.
         dret \<lparr>isok_request_id = rid, isok_track_alias = alias\<rparr>)))))
     else
       dbind (decode_params v [(0x22, value_order v)]) (\<lambda>_.
       dbind (properties_skip v) (\<lambda>_.
       dret \<lparr>isok_request_id = rid, isok_track_alias = alias\<rparr>))))"

text \<open>The messages that refuse a request before draft 15: id, error code and reason.\<close>

record subscribe_error =
  serr_request_id :: request_id
  serr_error_code :: u64
  serr_reason :: string

definition subscribe_error_encode_msg :: "'w buf_mut \<Rightarrow> ietf_version \<Rightarrow> subscribe_error \<Rightarrow> (encode_error, 'w) encoder" where
  "subscribe_error_encode_msg B v m =
     ebind (request_id_encode B v (serr_request_id m))
    (ebind (u64_encode B (Ietf v) (serr_error_code m)) (string_encode B (Ietf v) (serr_reason m)))"

definition subscribe_error_decode_msg :: "ietf_version \<Rightarrow> (decode_error, subscribe_error) decoder" where
  "subscribe_error_decode_msg v =
     dbind (request_id_decode v) (\<lambda>rid. dbind (u64_decode (Ietf v)) (\<lambda>code. dbind (string_decode (Ietf v)) (\<lambda>reason.
     dret \<lparr>serr_request_id = rid, serr_error_code = code, serr_reason = reason\<rparr>)))"

record unsubscribe =
  unsub_request_id :: request_id

definition unsubscribe_encode_msg :: "'w buf_mut \<Rightarrow> ietf_version \<Rightarrow> unsubscribe \<Rightarrow> (encode_error, 'w) encoder" where
  "unsubscribe_encode_msg B v m = request_id_encode B v (unsub_request_id m)"

definition unsubscribe_decode_msg :: "ietf_version \<Rightarrow> (decode_error, unsubscribe) decoder" where
  "unsubscribe_decode_msg v = dbind (request_id_decode v) (\<lambda>r. dret \<lparr>unsub_request_id = r\<rparr>)"

record ietf_subscribe_update =
  isup_request_id :: request_id
  isup_subscription_id :: "request_id option"
  isup_start :: ietf_location
  isup_end_group :: u64
  isup_priority :: u8
  isup_forward :: bool

definition update_params :: "'w buf_mut \<Rightarrow> ietf_version \<Rightarrow> ietf_subscribe_update \<Rightarrow> (encode_error, 'w) encoder" where
  "update_params B v m = encode_params B v
     [(0x10, Some (param_bool_encode B v (isup_forward m))), (0x20, Some (param_u8_encode B v (isup_priority m))),
      (0x21, Some (param_filter_encode B v LargestObject))]"

definition ietf_subscribe_update_encode_msg :: "'w buf_mut \<Rightarrow> ietf_version \<Rightarrow> ietf_subscribe_update \<Rightarrow> (encode_error, 'w) encoder" where
  "ietf_subscribe_update_encode_msg B v m =
     (case v of
        Draft14 \<Rightarrow>
          ebind (request_id_encode B v (isup_request_id m))
         (ebind (case isup_subscription_id m of Some r \<Rightarrow> request_id_encode B v r | None \<Rightarrow> efail EncodePanic)
         (ebind (location_encode B v (isup_start m))
         (ebind (u64_encode B (Ietf v) (isup_end_group m))
         (ebind (u8_encode B (isup_priority m))
         (ebind (bool_encode B (isup_forward m))
            (u8_encode B 0))))))
      | Draft15 \<Rightarrow>
          ebind (request_id_encode B v (isup_request_id m))
         (ebind (case isup_subscription_id m of Some r \<Rightarrow> request_id_encode B v r | None \<Rightarrow> efail EncodePanic)
            (update_params B v m))
      | Draft16 \<Rightarrow>
          ebind (request_id_encode B v (isup_request_id m))
         (ebind (case isup_subscription_id m of Some r \<Rightarrow> request_id_encode B v r | None \<Rightarrow> efail EncodePanic)
            (update_params B v m))
      | _ \<Rightarrow>
          (case isup_subscription_id m of
             Some _ \<Rightarrow> efail EncodePanic
           | None \<Rightarrow> ebind (request_id_encode B v (isup_request_id m))
              (ebind (required_delta_encode B v) (update_params B v m))))"

definition update_spec :: "ietf_version \<Rightarrow> (u64 \<times> (decode_error, param_value) decoder) list" where
  "update_spec v = [(0x10, value_bool v), (0x20, value_u8 v), (0x21, value_filter v)]"

definition ietf_subscribe_update_decode_msg :: "ietf_version \<Rightarrow> (decode_error, ietf_subscribe_update) decoder" where
  "ietf_subscribe_update_decode_msg v =
     (case v of
        Draft14 \<Rightarrow>
          dbind (request_id_decode v) (\<lambda>rid. dbind (request_id_decode v) (\<lambda>sid.
          dbind (location_decode v) (\<lambda>start. dbind (u64_decode (Ietf v)) (\<lambda>end_group.
          dbind u8_decode (\<lambda>pri. dbind bool_decode (\<lambda>forward.
          dbind (parameters_decode v) (\<lambda>_.
          dret \<lparr>isup_request_id = rid, isup_subscription_id = Some sid, isup_start = start, isup_end_group = end_group,
            isup_priority = pri, isup_forward = forward\<rparr>)))))))
      | Draft15 \<Rightarrow>
          dbind (request_id_decode v) (\<lambda>rid. dbind (request_id_decode v) (\<lambda>sid.
          dbind (decode_params v (update_spec v)) (\<lambda>ps.
          dret \<lparr>isup_request_id = rid, isup_subscription_id = Some sid, isup_start = \<lparr>loc_group = 0, loc_object = 0\<rparr>,
            isup_end_group = 0, isup_priority = unwrap_or (as_u8 (ps 0x20)) 128, isup_forward = unwrap_or (as_bool (ps 0x10)) True\<rparr>)))
      | Draft16 \<Rightarrow>
          dbind (request_id_decode v) (\<lambda>rid. dbind (request_id_decode v) (\<lambda>sid.
          dbind (decode_params v (update_spec v)) (\<lambda>ps.
          dret \<lparr>isup_request_id = rid, isup_subscription_id = Some sid, isup_start = \<lparr>loc_group = 0, loc_object = 0\<rparr>,
            isup_end_group = 0, isup_priority = unwrap_or (as_u8 (ps 0x20)) 128, isup_forward = unwrap_or (as_bool (ps 0x10)) True\<rparr>)))
      | _ \<Rightarrow>
          dbind (request_id_decode v) (\<lambda>rid. dbind (required_delta_decode v) (\<lambda>_.
          dbind (decode_params v (update_spec v)) (\<lambda>ps.
          dret \<lparr>isup_request_id = rid, isup_subscription_id = None, isup_start = \<lparr>loc_group = 0, loc_object = 0\<rparr>,
            isup_end_group = 0, isup_priority = unwrap_or (as_u8 (ps 0x20)) 128, isup_forward = unwrap_or (as_bool (ps 0x10)) True\<rparr>))))"

section \<open>Publications\<close>

record publish_done =
  pdone_request_id :: "request_id option"
  pdone_status_code :: u64
  pdone_stream_count :: u64
  pdone_reason :: string

definition publish_done_encode_msg :: "'w buf_mut \<Rightarrow> ietf_version \<Rightarrow> publish_done \<Rightarrow> (encode_error, 'w) encoder" where
  "publish_done_encode_msg B v m =
     ebind (reply_id_encode B v (pdone_request_id m))
    (ebind (u64_encode B (Ietf v) (pdone_status_code m))
    (ebind (u64_encode B (Ietf v) (pdone_stream_count m)) (string_encode B (Ietf v) (pdone_reason m))))"

definition publish_done_decode_msg :: "ietf_version \<Rightarrow> (decode_error, publish_done) decoder" where
  "publish_done_decode_msg v =
     dbind (reply_id_decode v) (\<lambda>rid. dbind (u64_decode (Ietf v)) (\<lambda>status. dbind (u64_decode (Ietf v)) (\<lambda>count.
     dbind (string_decode (Ietf v)) (\<lambda>reason.
     dret \<lparr>pdone_request_id = rid, pdone_status_code = status, pdone_stream_count = count, pdone_reason = reason\<rparr>))))"

record publish =
  pub_request_id :: request_id
  pub_namespace :: path
  pub_name :: string
  pub_track_alias :: u64
  pub_group_order :: group_order
  pub_largest :: "ietf_location option"
  pub_forward :: bool

definition publish_encode_msg :: "'w buf_mut \<Rightarrow> ietf_version \<Rightarrow> publish \<Rightarrow> (encode_error, 'w) encoder" where
  "publish_encode_msg B v m =
     ebind (request_id_encode B v (pub_request_id m))
    (ebind (required_delta_encode B v)
    (ebind (encode_namespace B (pub_namespace m) v)
    (ebind (string_encode B (Ietf v) (pub_name m))
    (ebind (u64_encode B (Ietf v) (pub_track_alias m))
     (if v = Draft14 then
        ebind (group_order_encode B (pub_group_order m))
       (ebind (case pub_largest m of
                 Some l \<Rightarrow> ebind (bool_encode B True) (location_encode B v l)
               | None \<Rightarrow> bool_encode B False)
       (ebind (bool_encode B (pub_forward m))
          (u8_encode B 0)))
      else encode_params B v
        [(0x09, map_option (param_location_encode B v) (pub_largest m)), (0x10, Some (param_bool_encode B v (pub_forward m))),
         (0x22, Some (param_order_encode B v (pub_group_order m)))])))))"

definition publish_decode_msg :: "ietf_version \<Rightarrow> (decode_error, publish) decoder" where
  "publish_decode_msg v =
     dbind (request_id_decode v) (\<lambda>rid.
     dbind (required_delta_decode v) (\<lambda>_.
     dbind (decode_namespace v) (\<lambda>ns.
     dbind (string_decode (Ietf v)) (\<lambda>name.
     dbind (u64_decode (Ietf v)) (\<lambda>alias.
     if v = Draft14 then
       dbind group_order_decode (\<lambda>order.
       dbind bool_decode (\<lambda>exists.
       dbind (if exists then dbind (location_decode v) (\<lambda>l. dret (Some l)) else dret None) (\<lambda>largest.
       dbind bool_decode (\<lambda>forward.
       dbind (parameters_decode v) (\<lambda>_.
       dret \<lparr>pub_request_id = rid, pub_namespace = ns, pub_name = name, pub_track_alias = alias, pub_group_order = order,
         pub_largest = largest, pub_forward = forward\<rparr>)))))
     else
       dbind (decode_params v [(0x09, value_location v), (0x10, value_bool v), (0x22, value_order v)]) (\<lambda>ps.
       dbind (properties_skip v) (\<lambda>_.
       dret \<lparr>pub_request_id = rid, pub_namespace = ns, pub_name = name, pub_track_alias = alias,
         pub_group_order = unwrap_or (as_order (ps 0x22)) Descending,
         pub_largest = as_location (ps 0x09), pub_forward = unwrap_or (as_bool (ps 0x10)) True\<rparr>)))))))"

record publish_ok =
  pok_request_id :: "request_id option"
  pok_forward :: bool
  pok_priority :: u8
  pok_group_order :: group_order
  pok_filter_type :: filter_type

definition publish_ok_encode_msg :: "'w buf_mut \<Rightarrow> ietf_version \<Rightarrow> publish_ok \<Rightarrow> (encode_error, 'w) encoder" where
  "publish_ok_encode_msg B v m =
     ebind (reply_id_encode B v (pok_request_id m))
     (if v = Draft14 then
        ebind (bool_encode B (pok_forward m))
       (ebind (u8_encode B (pok_priority m))
       (ebind (group_order_encode B (pok_group_order m))
       (ebind (filter_type_encode B v (pok_filter_type m))
          (u8_encode B 0))))
      else encode_params B v
        [(0x10, Some (param_bool_encode B v (pok_forward m))), (0x20, Some (param_u8_encode B v (pok_priority m))),
         (0x21, Some (param_filter_encode B v (pok_filter_type m))), (0x22, Some (param_order_encode B v (pok_group_order m)))])"

definition publish_ok_decode_msg :: "ietf_version \<Rightarrow> (decode_error, publish_ok) decoder" where
  "publish_ok_decode_msg v =
     dbind (reply_id_decode v) (\<lambda>rid.
     if v = Draft14 then
       dbind bool_decode (\<lambda>forward.
       dbind u8_decode (\<lambda>pri.
       dbind group_order_decode (\<lambda>order.
       dbind (filter_type_decode v) (\<lambda>f.
       dbind (filter_range_decode v f) (\<lambda>_.
       dbind (parameters_decode v) (\<lambda>_.
       dret \<lparr>pok_request_id = rid, pok_forward = forward, pok_priority = pri, pok_group_order = order, pok_filter_type = f\<rparr>))))))
     else
       dbind (decode_params v [(0x10, value_bool v), (0x20, value_u8 v), (0x21, value_filter v), (0x22, value_order v)]) (\<lambda>ps.
       dret \<lparr>pok_request_id = rid, pok_forward = unwrap_or (as_bool (ps 0x10)) True,
         pok_priority = unwrap_or (as_u8 (ps 0x20)) 128,
         pok_group_order = unwrap_or (as_order (ps 0x22)) Descending,
         pok_filter_type = unwrap_or (as_filter (ps 0x21)) LargestObject\<rparr>))"

record publish_error =
  perr_request_id :: request_id
  perr_error_code :: u64
  perr_reason :: string

definition publish_error_encode_msg :: "'w buf_mut \<Rightarrow> ietf_version \<Rightarrow> publish_error \<Rightarrow> (encode_error, 'w) encoder" where
  "publish_error_encode_msg B v m =
     ebind (request_id_encode B v (perr_request_id m))
    (ebind (u64_encode B (Ietf v) (perr_error_code m)) (string_encode B (Ietf v) (perr_reason m)))"

definition publish_error_decode_msg :: "ietf_version \<Rightarrow> (decode_error, publish_error) decoder" where
  "publish_error_decode_msg v =
     dbind (request_id_decode v) (\<lambda>rid. dbind (u64_decode (Ietf v)) (\<lambda>code. dbind (string_decode (Ietf v)) (\<lambda>reason.
     dret \<lparr>perr_request_id = rid, perr_error_code = code, perr_reason = reason\<rparr>)))"

section \<open>Announced namespaces\<close>

record publish_namespace =
  pns_request_id :: request_id
  pns_namespace :: path

definition publish_namespace_encode_msg :: "'w buf_mut \<Rightarrow> ietf_version \<Rightarrow> publish_namespace \<Rightarrow> (encode_error, 'w) encoder" where
  "publish_namespace_encode_msg B v m =
     ebind (request_id_encode B v (pns_request_id m))
    (ebind (required_delta_encode B v)
    (ebind (encode_namespace B (pns_namespace m) v)
       (encode_params B v [])))"

definition publish_namespace_decode_msg :: "ietf_version \<Rightarrow> (decode_error, publish_namespace) decoder" where
  "publish_namespace_decode_msg v =
     dbind (request_id_decode v) (\<lambda>rid. dbind (required_delta_decode v) (\<lambda>_. dbind (decode_namespace v) (\<lambda>ns.
     dbind (decode_params v []) (\<lambda>_.
     dret \<lparr>pns_request_id = rid, pns_namespace = ns\<rparr>))))"

record publish_namespace_ok =
  pnok_request_id :: request_id

definition publish_namespace_ok_encode_msg :: "'w buf_mut \<Rightarrow> ietf_version \<Rightarrow> publish_namespace_ok \<Rightarrow> (encode_error, 'w) encoder" where
  "publish_namespace_ok_encode_msg B v m = request_id_encode B v (pnok_request_id m)"

definition publish_namespace_ok_decode_msg :: "ietf_version \<Rightarrow> (decode_error, publish_namespace_ok) decoder" where
  "publish_namespace_ok_decode_msg v = dbind (request_id_decode v) (\<lambda>r. dret \<lparr>pnok_request_id = r\<rparr>)"

record publish_namespace_error =
  pnerr_request_id :: request_id
  pnerr_error_code :: u64
  pnerr_reason :: string

definition publish_namespace_error_encode_msg :: "'w buf_mut \<Rightarrow> ietf_version \<Rightarrow> publish_namespace_error \<Rightarrow> (encode_error, 'w) encoder" where
  "publish_namespace_error_encode_msg B v m =
     ebind (request_id_encode B v (pnerr_request_id m))
    (ebind (u64_encode B (Ietf v) (pnerr_error_code m)) (string_encode B (Ietf v) (pnerr_reason m)))"

definition publish_namespace_error_decode_msg :: "ietf_version \<Rightarrow> (decode_error, publish_namespace_error) decoder" where
  "publish_namespace_error_decode_msg v =
     dbind (request_id_decode v) (\<lambda>rid. dbind (u64_decode (Ietf v)) (\<lambda>code. dbind (string_decode (Ietf v)) (\<lambda>reason.
     dret \<lparr>pnerr_request_id = rid, pnerr_error_code = code, pnerr_reason = reason\<rparr>)))"

record publish_namespace_done =
  pndone_namespace :: path
  pndone_request_id :: request_id

definition publish_namespace_done_encode_msg :: "'w buf_mut \<Rightarrow> ietf_version \<Rightarrow> publish_namespace_done \<Rightarrow> (encode_error, 'w) encoder" where
  "publish_namespace_done_encode_msg B v m =
     (case v of
        Draft14 \<Rightarrow> encode_namespace B (pndone_namespace m) v
      | Draft15 \<Rightarrow> encode_namespace B (pndone_namespace m) v
      | Draft16 \<Rightarrow> request_id_encode B v (pndone_request_id m)
      | _ \<Rightarrow> efail EncodeVersion)"

definition publish_namespace_done_decode_msg :: "ietf_version \<Rightarrow> (decode_error, publish_namespace_done) decoder" where
  "publish_namespace_done_decode_msg v =
     (case v of
        Draft14 \<Rightarrow> dbind (decode_namespace v) (\<lambda>ns. dret \<lparr>pndone_namespace = ns, pndone_request_id = 0\<rparr>)
      | Draft15 \<Rightarrow> dbind (decode_namespace v) (\<lambda>ns. dret \<lparr>pndone_namespace = ns, pndone_request_id = 0\<rparr>)
      | Draft16 \<Rightarrow> dbind (request_id_decode v) (\<lambda>rid. dret \<lparr>pndone_namespace = [], pndone_request_id = rid\<rparr>)
      | _ \<Rightarrow> dfail DecodeVersion)"

record publish_namespace_cancel =
  pncan_namespace :: path
  pncan_request_id :: request_id
  pncan_error_code :: u64
  pncan_reason :: string

definition publish_namespace_cancel_encode_msg :: "'w buf_mut \<Rightarrow> ietf_version \<Rightarrow> publish_namespace_cancel \<Rightarrow> (encode_error, 'w) encoder" where
  "publish_namespace_cancel_encode_msg B v m =
     ebind (case v of
        Draft14 \<Rightarrow> encode_namespace B (pncan_namespace m) v
      | Draft15 \<Rightarrow> encode_namespace B (pncan_namespace m) v
      | Draft16 \<Rightarrow> request_id_encode B v (pncan_request_id m)
      | _ \<Rightarrow> efail EncodeVersion)
    (ebind (u64_encode B (Ietf v) (pncan_error_code m)) (string_encode B (Ietf v) (pncan_reason m)))"

definition publish_namespace_cancel_decode_msg :: "ietf_version \<Rightarrow> (decode_error, publish_namespace_cancel) decoder" where
  "publish_namespace_cancel_decode_msg v =
     dbind (case v of
        Draft14 \<Rightarrow> dbind (decode_namespace v) (\<lambda>ns. dret (ns, 0))
      | Draft15 \<Rightarrow> dbind (decode_namespace v) (\<lambda>ns. dret (ns, 0))
      | Draft16 \<Rightarrow> dbind (request_id_decode v) (\<lambda>rid. dret ([], rid))
      | _ \<Rightarrow> dfail DecodeVersion) (\<lambda>(ns, rid).
     dbind (u64_decode (Ietf v)) (\<lambda>code. dbind (string_decode (Ietf v)) (\<lambda>reason.
     dret \<lparr>pncan_namespace = ns, pncan_request_id = rid, pncan_error_code = code, pncan_reason = reason\<rparr>)))"

section \<open>Subscribed namespaces\<close>

definition SUBSCRIBE_TRACKS_ID :: u64 where
  "SUBSCRIBE_TRACKS_ID = 0x51"

fun is_legacy_version :: "ietf_version \<Rightarrow> bool" where
  "is_legacy_version v \<longleftrightarrow> (case v of Draft14 \<Rightarrow> True | Draft15 \<Rightarrow> True | Draft16 \<Rightarrow> True | Draft17 \<Rightarrow> True | _ \<Rightarrow> False)"

record subscribe_namespace =
  sns_request_id :: request_id
  sns_namespace :: path

definition subscribe_namespace_encode_msg :: "'w buf_mut \<Rightarrow> ietf_version \<Rightarrow> subscribe_namespace \<Rightarrow> (encode_error, 'w) encoder" where
  "subscribe_namespace_encode_msg B v m =
     (if is_legacy_version v then efail EncodeVersion
      else ebind (request_id_encode B v (sns_request_id m))
        (ebind (encode_namespace B (sns_namespace m) v) (encode_params B v [])))"

definition subscribe_namespace_decode_msg :: "ietf_version \<Rightarrow> (decode_error, subscribe_namespace) decoder" where
  "subscribe_namespace_decode_msg v =
     (if is_legacy_version v then dfail DecodeVersion
      else dbind (request_id_decode v) (\<lambda>rid. dbind (decode_namespace v) (\<lambda>ns. dbind (decode_params v []) (\<lambda>_.
        dret \<lparr>sns_request_id = rid, sns_namespace = ns\<rparr>))))"

record subscribe_namespace_legacy =
  snl_request_id :: request_id
  snl_namespace :: path
  snl_options :: u64

definition subscribe_namespace_legacy_encode_msg :: "'w buf_mut \<Rightarrow> ietf_version \<Rightarrow> subscribe_namespace_legacy \<Rightarrow> (encode_error, 'w) encoder" where
  "subscribe_namespace_legacy_encode_msg B v m =
     (if \<not> is_legacy_version v then efail EncodeVersion
      else ebind (request_id_encode B v (snl_request_id m))
       (ebind (required_delta_encode B v)
       (ebind (encode_namespace B (snl_namespace m) v)
       (ebind (if v = Draft16 \<or> v = Draft17 then u64_encode B (Ietf v) (snl_options m) else enil)
          (encode_params B v [])))))"

definition subscribe_namespace_legacy_decode_msg :: "ietf_version \<Rightarrow> (decode_error, subscribe_namespace_legacy) decoder" where
  "subscribe_namespace_legacy_decode_msg v =
     (if \<not> is_legacy_version v then dfail DecodeVersion
      else dbind (request_id_decode v) (\<lambda>rid. dbind (required_delta_decode v) (\<lambda>_. dbind (decode_namespace v) (\<lambda>ns.
        dbind (if v = Draft16 \<or> v = Draft17 then u64_decode (Ietf v) else dret 1) (\<lambda>options.
        dbind (decode_params v []) (\<lambda>_.
        dret \<lparr>snl_request_id = rid, snl_namespace = ns, snl_options = options\<rparr>))))))"

record subscribe_namespace_ok =
  snok_request_id :: request_id

definition subscribe_namespace_ok_encode_msg :: "'w buf_mut \<Rightarrow> ietf_version \<Rightarrow> subscribe_namespace_ok \<Rightarrow> (encode_error, 'w) encoder" where
  "subscribe_namespace_ok_encode_msg B v m = request_id_encode B v (snok_request_id m)"

definition subscribe_namespace_ok_decode_msg :: "ietf_version \<Rightarrow> (decode_error, subscribe_namespace_ok) decoder" where
  "subscribe_namespace_ok_decode_msg v = dbind (request_id_decode v) (\<lambda>r. dret \<lparr>snok_request_id = r\<rparr>)"

record subscribe_namespace_error =
  snerr_request_id :: request_id
  snerr_error_code :: u64
  snerr_reason :: string

definition subscribe_namespace_error_encode_msg :: "'w buf_mut \<Rightarrow> ietf_version \<Rightarrow> subscribe_namespace_error \<Rightarrow> (encode_error, 'w) encoder" where
  "subscribe_namespace_error_encode_msg B v m =
     ebind (request_id_encode B v (snerr_request_id m))
    (ebind (u64_encode B (Ietf v) (snerr_error_code m)) (string_encode B (Ietf v) (snerr_reason m)))"

definition subscribe_namespace_error_decode_msg :: "ietf_version \<Rightarrow> (decode_error, subscribe_namespace_error) decoder" where
  "subscribe_namespace_error_decode_msg v =
     dbind (request_id_decode v) (\<lambda>rid. dbind (u64_decode (Ietf v)) (\<lambda>code. dbind (string_decode (Ietf v)) (\<lambda>reason.
     dret \<lparr>snerr_request_id = rid, snerr_error_code = code, snerr_reason = reason\<rparr>)))"

record unsubscribe_namespace =
  unsns_request_id :: request_id

definition unsubscribe_namespace_encode_msg :: "'w buf_mut \<Rightarrow> ietf_version \<Rightarrow> unsubscribe_namespace \<Rightarrow> (encode_error, 'w) encoder" where
  "unsubscribe_namespace_encode_msg B v m = request_id_encode B v (unsns_request_id m)"

definition unsubscribe_namespace_decode_msg :: "ietf_version \<Rightarrow> (decode_error, unsubscribe_namespace) decoder" where
  "unsubscribe_namespace_decode_msg v = dbind (request_id_decode v) (\<lambda>r. dret \<lparr>unsns_request_id = r\<rparr>)"

record namespace_msg =
  nspc_suffix :: path

definition namespace_msg_encode_msg :: "'w buf_mut \<Rightarrow> ietf_version \<Rightarrow> namespace_msg \<Rightarrow> (encode_error, 'w) encoder" where
  "namespace_msg_encode_msg B v m = encode_namespace B (nspc_suffix m) v"

definition namespace_msg_decode_msg :: "ietf_version \<Rightarrow> (decode_error, namespace_msg) decoder" where
  "namespace_msg_decode_msg v = dbind (decode_namespace v) (\<lambda>s. dret \<lparr>nspc_suffix = s\<rparr>)"

record publish_blocked =
  pblk_suffix :: path
  pblk_name :: string

definition publish_blocked_encode_msg :: "'w buf_mut \<Rightarrow> ietf_version \<Rightarrow> publish_blocked \<Rightarrow> (encode_error, 'w) encoder" where
  "publish_blocked_encode_msg B v m =
     (if v \<noteq> Draft17 then efail EncodePanic
      else ebind (encode_namespace B (pblk_suffix m) v) (string_encode B (Ietf v) (pblk_name m)))"

definition publish_blocked_decode_msg :: "ietf_version \<Rightarrow> (decode_error, publish_blocked) decoder" where
  "publish_blocked_decode_msg v =
     (if v \<noteq> Draft17 then dfail Unsupported
      else dbind (decode_namespace v) (\<lambda>s. dbind (string_decode (Ietf v)) (\<lambda>name.
        dret \<lparr>pblk_suffix = s, pblk_name = name\<rparr>)))"

record namespace_done =
  nsdone_suffix :: path

definition namespace_done_encode_msg :: "'w buf_mut \<Rightarrow> ietf_version \<Rightarrow> namespace_done \<Rightarrow> (encode_error, 'w) encoder" where
  "namespace_done_encode_msg B v m = encode_namespace B (nsdone_suffix m) v"

definition namespace_done_decode_msg :: "ietf_version \<Rightarrow> (decode_error, namespace_done) decoder" where
  "namespace_done_decode_msg v = dbind (decode_namespace v) (\<lambda>s. dret \<lparr>nsdone_suffix = s\<rparr>)"

section \<open>Fetches\<close>

datatype fetch_type =
    Standalone path string ietf_location ietf_location
  | RelativeJoining request_id u64
  | AbsoluteJoining request_id u64

fun fetch_type_encode :: "'w buf_mut \<Rightarrow> ietf_version \<Rightarrow> fetch_type \<Rightarrow> (encode_error, 'w) encoder" where
  "fetch_type_encode B v (Standalone ns trk start stop) =
     ebind (u8_encode B 1) (ebind (encode_namespace B ns v) (ebind (string_encode B (Ietf v) trk)
       (ebind (location_encode B v start) (location_encode B v stop))))"
| "fetch_type_encode B v (RelativeJoining rid off) =
     ebind (u8_encode B 2) (ebind (request_id_encode B v rid) (u64_encode B (Ietf v) off))"
| "fetch_type_encode B v (AbsoluteJoining rid grp) =
     ebind (u8_encode B 3) (ebind (request_id_encode B v rid) (u64_encode B (Ietf v) grp))"

definition fetch_type_decode :: "ietf_version \<Rightarrow> (decode_error, fetch_type) decoder" where
  "fetch_type_decode v = dbind (u64_decode (Ietf v)) (\<lambda>ty.
     if ty = 1 then dbind (decode_namespace v) (\<lambda>ns. dbind (string_decode (Ietf v)) (\<lambda>trk.
       dbind (location_decode v) (\<lambda>start. dbind (location_decode v) (\<lambda>stop. dret (Standalone ns trk start stop)))))
     else if ty = 2 then dbind (request_id_decode v) (\<lambda>rid. dbind (u64_decode (Ietf v)) (\<lambda>off. dret (RelativeJoining rid off)))
     else if ty = 3 then dbind (request_id_decode v) (\<lambda>rid. dbind (u64_decode (Ietf v)) (\<lambda>grp. dret (AbsoluteJoining rid grp)))
     else dfail InvalidValue)"

record ietf_fetch =
  ifetch_request_id :: request_id
  ifetch_priority :: u8
  ifetch_group_order :: group_order
  ifetch_kind :: fetch_type

definition ietf_fetch_encode_msg :: "'w buf_mut \<Rightarrow> ietf_version \<Rightarrow> ietf_fetch \<Rightarrow> (encode_error, 'w) encoder" where
  "ietf_fetch_encode_msg B v m =
     ebind (request_id_encode B v (ifetch_request_id m))
    (ebind (required_delta_encode B v)
     (if v = Draft14 then
        ebind (u8_encode B (ifetch_priority m))
       (ebind (group_order_encode B (ifetch_group_order m))
       (ebind (fetch_type_encode B v (ifetch_kind m))
          (u8_encode B 0)))
      else ebind (fetch_type_encode B v (ifetch_kind m))
        (encode_params B v
          [(0x20, Some (param_u8_encode B v (ifetch_priority m))), (0x22, Some (param_order_encode B v (ifetch_group_order m)))])))"

definition ietf_fetch_decode_msg :: "ietf_version \<Rightarrow> (decode_error, ietf_fetch) decoder" where
  "ietf_fetch_decode_msg v =
     dbind (request_id_decode v) (\<lambda>rid.
     dbind (required_delta_decode v) (\<lambda>_.
     if v = Draft14 then
       dbind u8_decode (\<lambda>pri. dbind group_order_decode (\<lambda>order. dbind (fetch_type_decode v) (\<lambda>kind.
       dbind (parameters_decode v) (\<lambda>_.
       dret \<lparr>ifetch_request_id = rid, ifetch_priority = pri, ifetch_group_order = order, ifetch_kind = kind\<rparr>))))
     else
       dbind (fetch_type_decode v) (\<lambda>kind.
       dbind (decode_params v [(0x20, value_u8 v), (0x22, value_order v)]) (\<lambda>ps.
       dret \<lparr>ifetch_request_id = rid, ifetch_priority = unwrap_or (as_u8 (ps 0x20)) 128,
         ifetch_group_order = unwrap_or (as_order (ps 0x22)) Descending, ifetch_kind = kind\<rparr>))))"

record fetch_ok =
  fok_request_id :: "request_id option"
  fok_group_order :: group_order
  fok_end_of_track :: bool
  fok_end_location :: ietf_location

definition fetch_ok_encode_msg :: "'w buf_mut \<Rightarrow> ietf_version \<Rightarrow> fetch_ok \<Rightarrow> (encode_error, 'w) encoder" where
  "fetch_ok_encode_msg B v m =
     ebind (reply_id_encode B v (fok_request_id m))
     (if v = Draft14 then
        ebind (group_order_encode B (fok_group_order m))
       (ebind (bool_encode B (fok_end_of_track m))
       (ebind (location_encode B v (fok_end_location m))
          (u8_encode B 0)))
      else
        ebind (bool_encode B (fok_end_of_track m))
       (ebind (location_encode B v (fok_end_location m))
          (encode_params B v [(0x22, Some (param_order_encode B v (fok_group_order m)))])))"

definition fetch_ok_decode_msg :: "ietf_version \<Rightarrow> (decode_error, fetch_ok) decoder" where
  "fetch_ok_decode_msg v =
     dbind (reply_id_decode v) (\<lambda>rid.
     if v = Draft14 then
       dbind group_order_decode (\<lambda>order. dbind bool_decode (\<lambda>eot. dbind (location_decode v) (\<lambda>l.
       dbind (parameters_decode v) (\<lambda>_.
       dret \<lparr>fok_request_id = rid, fok_group_order = order, fok_end_of_track = eot, fok_end_location = l\<rparr>))))
     else
       dbind bool_decode (\<lambda>eot. dbind (location_decode v) (\<lambda>l.
       dbind (decode_params v [(0x22, value_order v)]) (\<lambda>ps.
       dbind (properties_skip v) (\<lambda>_.
       dret \<lparr>fok_request_id = rid, fok_group_order = unwrap_or (as_order (ps 0x22)) Descending,
         fok_end_of_track = eot, fok_end_location = l\<rparr>)))))"

record fetch_error =
  ferr_request_id :: request_id
  ferr_error_code :: u64
  ferr_reason :: string

definition fetch_error_encode_msg :: "'w buf_mut \<Rightarrow> ietf_version \<Rightarrow> fetch_error \<Rightarrow> (encode_error, 'w) encoder" where
  "fetch_error_encode_msg B v m =
     ebind (request_id_encode B v (ferr_request_id m))
    (ebind (u64_encode B (Ietf v) (ferr_error_code m)) (string_encode B (Ietf v) (ferr_reason m)))"

definition fetch_error_decode_msg :: "ietf_version \<Rightarrow> (decode_error, fetch_error) decoder" where
  "fetch_error_decode_msg v =
     dbind (request_id_decode v) (\<lambda>rid. dbind (u64_decode (Ietf v)) (\<lambda>code. dbind (string_decode (Ietf v)) (\<lambda>reason.
     dret \<lparr>ferr_request_id = rid, ferr_error_code = code, ferr_reason = reason\<rparr>)))"

record fetch_cancel =
  fcan_request_id :: request_id

definition fetch_cancel_encode_msg :: "'w buf_mut \<Rightarrow> ietf_version \<Rightarrow> fetch_cancel \<Rightarrow> (encode_error, 'w) encoder" where
  "fetch_cancel_encode_msg B v m = request_id_encode B v (fcan_request_id m)"

definition fetch_cancel_decode_msg :: "ietf_version \<Rightarrow> (decode_error, fetch_cancel) decoder" where
  "fetch_cancel_decode_msg v = dbind (request_id_decode v) (\<lambda>r. dret \<lparr>fcan_request_id = r\<rparr>)"

record fetch_header =
  fhdr_request_id :: request_id

definition fetch_header_encode :: "'w buf_mut \<Rightarrow> ietf_version \<Rightarrow> fetch_header \<Rightarrow> (encode_error, 'w) encoder" where
  "fetch_header_encode B v m = request_id_encode B v (fhdr_request_id m)"

definition fetch_header_decode :: "ietf_version \<Rightarrow> (decode_error, fetch_header) decoder" where
  "fetch_header_decode v = dbind (request_id_decode v) (\<lambda>r. dret \<lparr>fhdr_request_id = r\<rparr>)"

section \<open>Track status\<close>

record track_status =
  ts_request_id :: request_id
  ts_namespace :: path
  ts_name :: string

definition track_status_encode_msg :: "'w buf_mut \<Rightarrow> ietf_version \<Rightarrow> track_status \<Rightarrow> (encode_error, 'w) encoder" where
  "track_status_encode_msg B v m =
     ebind (request_id_encode B v (ts_request_id m))
    (ebind (required_delta_encode B v)
    (ebind (encode_namespace B (ts_namespace m) v)
    (ebind (string_encode B (Ietf v) (ts_name m))
     (if v = Draft14 then
        ebind (u8_encode B 0)
       (ebind (group_order_encode B Descending)
       (ebind (bool_encode B False)
       (ebind (filter_type_encode B v LargestObject)
          (u8_encode B 0))))
      else encode_params B v []))))"

definition track_status_decode_msg :: "ietf_version \<Rightarrow> (decode_error, track_status) decoder" where
  "track_status_decode_msg v =
     dbind (request_id_decode v) (\<lambda>rid. dbind (required_delta_decode v) (\<lambda>_.
     dbind (decode_namespace v) (\<lambda>ns. dbind (string_decode (Ietf v)) (\<lambda>name.
     dbind (if v = Draft14 then
         dbind u8_decode (\<lambda>_. dbind group_order_decode (\<lambda>_. dbind bool_decode (\<lambda>_. dbind (u64_decode (Ietf v)) (\<lambda>_.
         dbind (parameters_decode v) (\<lambda>_. dret ())))))
       else dbind (decode_params v []) (\<lambda>_. dret ())) (\<lambda>_.
     dret \<lparr>ts_request_id = rid, ts_namespace = ns, ts_name = name\<rparr>)))))"

datatype track_status_code = InProgress | NotFound | NotAuthorized | StatusEnded

fun track_status_code_u64 :: "track_status_code \<Rightarrow> u64" where
  "track_status_code_u64 InProgress = 0"
| "track_status_code_u64 NotFound = 1"
| "track_status_code_u64 NotAuthorized = 2"
| "track_status_code_u64 StatusEnded = 3"

definition track_status_code_encode :: "'w buf_mut \<Rightarrow> ietf_version \<Rightarrow> track_status_code \<Rightarrow> (encode_error, 'w) encoder" where
  "track_status_code_encode B v c = u64_encode B (Ietf v) (track_status_code_u64 c)"

definition track_status_code_decode :: "ietf_version \<Rightarrow> (decode_error, track_status_code) decoder" where
  "track_status_code_decode v = dbind (u64_decode (Ietf v)) (\<lambda>x.
     if x = 0 then dret InProgress else if x = 1 then dret NotFound else if x = 2 then dret NotAuthorized
     else if x = 3 then dret StatusEnded else dfail InvalidValue)"

section \<open>Going away\<close>

record ietf_goaway =
  igoaway_uri :: string
  igoaway_timeout :: u64

definition ietf_goaway_encode_msg :: "'w buf_mut \<Rightarrow> ietf_version \<Rightarrow> ietf_goaway \<Rightarrow> (encode_error, 'w) encoder" where
  "ietf_goaway_encode_msg B v m =
     ebind (string_encode B (Ietf v) (igoaway_uri m))
       (if draft14_16 v then enil else u64_encode B (Ietf v) (igoaway_timeout m))"

definition has_remaining :: "('e, bool) decoder" where
  "has_remaining r = Inr (r \<noteq> [], r)"

definition ietf_goaway_decode_msg :: "ietf_version \<Rightarrow> (decode_error, ietf_goaway) decoder" where
  "ietf_goaway_decode_msg v =
     dbind (string_decode (Ietf v)) (\<lambda>uri.
     dbind (if draft14_16 v then dret 0
        else if v = Draft17 then u64_decode (Ietf v)
        else dbind (u64_decode (Ietf v)) (\<lambda>timeout. dbind has_remaining (\<lambda>more.
          dbind (if more then dbind (u64_decode (Ietf v)) (\<lambda>_. dret ()) else dret ()) (\<lambda>_. dret timeout)))) (\<lambda>timeout.
     dret \<lparr>igoaway_uri = uri, igoaway_timeout = timeout\<rparr>))"

section \<open>Group headers\<close>

record group_flags =
  has_extensions :: bool
  has_subgroup :: bool
  has_subgroup_object :: bool
  has_end :: bool
  has_priority :: bool

definition GF_START :: u64 where "GF_START = 0x10"
definition GF_END :: u64 where "GF_END = 0x1d"
definition GF_START_NO_PRIORITY :: u64 where "GF_START_NO_PRIORITY = 0x30"
definition GF_END_NO_PRIORITY :: u64 where "GF_END_NO_PRIORITY = 0x3d"
definition FIRST_OBJECT_BIT :: u64 where "FIRST_OBJECT_BIT = 0x40"

lemmas group_flag_consts = GF_START_def GF_END_def GF_START_NO_PRIORITY_def GF_END_NO_PRIORITY_def FIRST_OBJECT_BIT_def

unbundle bit_operations_syntax

definition group_flags_encode :: "ietf_version \<Rightarrow> group_flags \<Rightarrow> encode_error + u64" where
  "group_flags_encode v f =
     (if has_subgroup f \<and> has_subgroup_object f then Inl InvalidState
      else
        let base = (if has_priority f then GF_START else GF_START_NO_PRIORITY);
          i = (if has_extensions f then base OR 0x01 else base);
          i = (if has_subgroup_object f then i OR 0x02 else i);
          i = (if has_subgroup f then i OR 0x04 else i);
          i = (if has_end f then i OR 0x08 else i);
          i = (if is_legacy_version v then i else i OR FIRST_OBJECT_BIT)
        in Inr i)"

definition group_flags_decode :: "u64 \<Rightarrow> ietf_version \<Rightarrow> decode_error + group_flags" where
  "group_flags_decode i v =
     (let i = (if is_legacy_version v then i else i AND NOT FIRST_OBJECT_BIT)
      in and_then
        (if GF_START \<le> i \<and> i \<le> GF_END then Inr (True, i)
         else if GF_START_NO_PRIORITY \<le> i \<and> i \<le> GF_END_NO_PRIORITY then Inr (False, i - (GF_START_NO_PRIORITY - GF_START))
         else Inl InvalidValue)
        (\<lambda>(pri, base).
          let ext = base AND 0x01 \<noteq> 0; obj = base AND 0x02 \<noteq> 0; sub = base AND 0x04 \<noteq> 0; fin = base AND 0x08 \<noteq> 0
          in if sub \<and> obj then Inl InvalidValue
             else Inr \<lparr>has_extensions = ext, has_subgroup = sub, has_subgroup_object = obj, has_end = fin, has_priority = pri\<rparr>))"

definition group_flags_default :: group_flags where
  "group_flags_default =
     \<lparr>has_extensions = False, has_subgroup = False, has_subgroup_object = False, has_end = True, has_priority = True\<rparr>"

record group_header =
  gh_track_alias :: u64
  gh_group_id :: u64
  gh_sub_group_id :: u64
  gh_publisher_priority :: u8
  gh_flags :: group_flags

definition group_header_encode :: "'w buf_mut \<Rightarrow> ietf_version \<Rightarrow> group_header \<Rightarrow> (encode_error, 'w) encoder" where
  "group_header_encode B v m =
     ebind (\<lambda>w. and_then (group_flags_encode v (gh_flags m)) (\<lambda>i. u64_encode B (Ietf v) i w))
    (ebind (u64_encode B (Ietf v) (gh_track_alias m))
    (ebind (u64_encode B (Ietf v) (gh_group_id m))
    (ebind (if \<not> has_subgroup (gh_flags m) \<and> gh_sub_group_id m \<noteq> 0 then efail InvalidState else enil)
    (ebind (if has_subgroup (gh_flags m) then u64_encode B (Ietf v) (gh_sub_group_id m) else enil)
       (if has_priority (gh_flags m) then u8_encode B (gh_publisher_priority m) else enil)))))"

definition group_header_decode :: "ietf_version \<Rightarrow> (decode_error, group_header) decoder" where
  "group_header_decode v =
     dbind (dbind (u64_decode (Ietf v)) (\<lambda>i r. and_then (group_flags_decode i v) (\<lambda>f. Inr (f, r)))) (\<lambda>flags.
     dbind (u64_decode (Ietf v)) (\<lambda>alias. dbind (u64_decode (Ietf v)) (\<lambda>grp.
     dbind (if has_subgroup flags then u64_decode (Ietf v) else dret 0) (\<lambda>sub.
     dbind (if has_priority flags then u8_decode else dret 128) (\<lambda>pri.
     dret \<lparr>gh_track_alias = alias, gh_group_id = grp, gh_sub_group_id = sub, gh_publisher_priority = pri, gh_flags = flags\<rparr>)))))"

end
