(* ===== verification/Ietf_Codec.thy ===== *)
theory Ietf_Codec
  imports Ietf_Messages
begin

text \<open>
  What the peer decodes of each message of the IETF drafts, and that it decodes it. \<open>*_seen v m\<close> is the part
  of \<open>m\<close> that version \<open>v\<close> carries: the unspecified group order comes back as descending from draft 15 on,
  and the fields a draft does not have come back as their defaults.
\<close>

section \<open>Parts\<close>

text \<open>A small number written as one byte is read as a varint.\<close>

lemma decode_small_byte:
  "u64_decode (Ietf v) (0 # r) = Inr (0, r)" "u64_decode (Ietf v) (1 # r) = Inr (1, r)"
  "u64_decode (Ietf v) (2 # r) = Inr (2, r)" "u64_decode (Ietf v) (3 # r) = Inr (3, r)"
  by (cases v; simp add: u64_decode_def decode_quic_def decode_leading_ones_def leading_ones_simp)+

context writer
begin

lemma small_emits [codec_intros]:
  "emits content (u8_encode B 0) (u8_encode sizer_writer 0) (u64_decode (Ietf v)) 0"
  "emits content (u8_encode B 1) (u8_encode sizer_writer 1) (u64_decode (Ietf v)) 1"
  "emits content (u8_encode B 2) (u8_encode sizer_writer 2) (u64_decode (Ietf v)) 2"
  "emits content (u8_encode B 3) (u8_encode sizer_writer 3) (u64_decode (Ietf v)) 3"
  unfolding u8_encode_def
  by (rule check_then_emits [where bs = "[0]"] check_then_emits [where bs = "[1]"] check_then_emits [where bs = "[2]"]
      check_then_emits [where bs = "[3]"]; auto simp: content_put_u8 decode_small_byte u64_decode_Nil intro!: reads_ConsI; fail)+

lemma no_parameters_emits [codec_intros]:
  "draft14_16 v \<Longrightarrow> emits content (u8_encode B 0) (u8_encode sizer_writer 0) (parameters_decode v) parameters_default"
  unfolding parameters_decode_def by (simp only: if_True) (rule emits_map [OF small_emits(1)], simp)

lemma no_params_emits [codec_intros]:
  "emits content (encode_params B v []) (encode_params sizer_writer v []) (decode_params v []) Map.empty"
  by (rule params_emits [where n = 0]) (simp_all add: emits_nil)

lemma reply_id_emits [codec_intros]:
  "emits content (reply_id_encode B v r) (reply_id_encode sizer_writer v r) (reply_id_decode v) r"
proof (cases "draft14_16 v")
  case True
  then show ?thesis
    unfolding reply_id_encode_def reply_id_decode_def if_P [OF True]
    by (cases r) (simp add: emits_fail, simp, rule emits_map [OF request_id_emits], simp)
next
  case False
  then show ?thesis
    unfolding reply_id_encode_def reply_id_decode_def if_not_P [OF False] by (cases r) (simp_all add: emits_fail emits_nil)
qed

lemma required_delta_emits [codec_intros]:
  "emits content (required_delta_encode B v) (required_delta_encode sizer_writer v) (required_delta_decode v) ()"
  unfolding required_delta_encode_def required_delta_decode_def
  by (cases "v = Draft17"; simp; (rule emits_nil | rule emits_map [OF u64_emits], simp))

lemma order_byte_emits [codec_intros]:
  "emits content (group_order_encode B g) (group_order_encode sizer_writer g) u8_decode (group_order_code g)"
  unfolding group_order_encode_def by (rule u8_emits)

lemma filter_code_emits [codec_intros]:
  "emits content (filter_type_encode B v f) (filter_type_encode sizer_writer v f) (u64_decode (Ietf v)) (filter_type_code f)"
  unfolding filter_type_encode_def by (rule u64_emits)

lemma fetch_type_emits [codec_intros]:
  assumes "\<And>ns t s e. k = Standalone ns t s e \<Longrightarrow> namespace_ok ns \<and> utf8 t"
  shows "emits content (fetch_type_encode B v k) (fetch_type_encode sizer_writer v k) (fetch_type_decode v) k"
  unfolding fetch_type_decode_def
  by (insert assms, cases k; simp; (rule emits_bind codec_intros | (simp; fail) | rule emits_map | simp)+)

end

section \<open>What each version carries\<close>

definition order_seen :: "ietf_version \<Rightarrow> group_order \<Rightarrow> group_order" where
  "order_seen v g = (if v = Draft14 then g else any_to_descending g)"

definition request_error_seen :: "ietf_version \<Rightarrow> request_error \<Rightarrow> request_error" where
  "request_error_seen v m = (if v = Draft14 \<or> v = Draft15 then m\<lparr>rerr_retry_interval := 0\<rparr> else m)"

definition ietf_subscribe_seen :: "ietf_version \<Rightarrow> ietf_subscribe \<Rightarrow> ietf_subscribe" where
  "ietf_subscribe_seen v m = m\<lparr>isub_group_order := order_seen v (isub_group_order m)\<rparr>"

definition ietf_subscribe_update_seen :: "ietf_version \<Rightarrow> ietf_subscribe_update \<Rightarrow> ietf_subscribe_update" where
  "ietf_subscribe_update_seen v m =
     (if v = Draft14 then m else m\<lparr>isup_start := \<lparr>loc_group = 0, loc_object = 0\<rparr>, isup_end_group := 0\<rparr>)"

definition publish_seen :: "ietf_version \<Rightarrow> publish \<Rightarrow> publish" where
  "publish_seen v m = m\<lparr>pub_group_order := order_seen v (pub_group_order m)\<rparr>"

definition publish_ok_seen :: "ietf_version \<Rightarrow> publish_ok \<Rightarrow> publish_ok" where
  "publish_ok_seen v m = m\<lparr>pok_group_order := order_seen v (pok_group_order m)\<rparr>"

definition ietf_fetch_seen :: "ietf_version \<Rightarrow> ietf_fetch \<Rightarrow> ietf_fetch" where
  "ietf_fetch_seen v m = m\<lparr>ifetch_group_order := order_seen v (ifetch_group_order m)\<rparr>"

definition fetch_ok_seen :: "ietf_version \<Rightarrow> fetch_ok \<Rightarrow> fetch_ok" where
  "fetch_ok_seen v m = m\<lparr>fok_group_order := order_seen v (fok_group_order m)\<rparr>"

definition publish_namespace_done_seen :: "ietf_version \<Rightarrow> publish_namespace_done \<Rightarrow> publish_namespace_done" where
  "publish_namespace_done_seen v m = (if v = Draft16 then m\<lparr>pndone_namespace := []\<rparr> else m\<lparr>pndone_request_id := 0\<rparr>)"

definition publish_namespace_cancel_seen :: "ietf_version \<Rightarrow> publish_namespace_cancel \<Rightarrow> publish_namespace_cancel" where
  "publish_namespace_cancel_seen v m = (if v = Draft16 then m\<lparr>pncan_namespace := []\<rparr> else m\<lparr>pncan_request_id := 0\<rparr>)"

definition subscribe_namespace_legacy_seen :: "ietf_version \<Rightarrow> subscribe_namespace_legacy \<Rightarrow> subscribe_namespace_legacy" where
  "subscribe_namespace_legacy_seen v m = (if v = Draft16 \<or> v = Draft17 then m else m\<lparr>snl_options := 1\<rparr>)"

definition ietf_goaway_seen :: "ietf_version \<Rightarrow> ietf_goaway \<Rightarrow> ietf_goaway" where
  "ietf_goaway_seen v m = (if draft14_16 v then m\<lparr>igoaway_timeout := 0\<rparr> else m)"

section \<open>The codec laws\<close>

lemma ebind_efail [simp]: "ebind (efail err) e = efail err"
  by (simp add: ebind_def efail_def)

lemma enil_ebind [simp]: "ebind enil e = e"
  by (simp add: ebind_def enil_def)

lemma emits_skip: "d = dret a \<Longrightarrow> emits content e sz (f a) b \<Longrightarrow> emits content e sz (dbind d f) b"
  by (simp add: dbind_dret)

lemma filter_range_relative: "f = NextGroup \<or> f = LargestObject \<Longrightarrow> filter_range_decode v f = dret ()"
  by (auto simp: filter_range_decode_def)

context writer
begin

lemma max_request_id_emits [codec_intros]:
  "emits content (max_request_id_encode_msg B v m) (max_request_id_encode_msg sizer_writer v m) (max_request_id_decode_msg v) m"
  unfolding max_request_id_encode_msg_def max_request_id_decode_msg_def
  by (cases m; (rule emits_bind emits_map codec_intros | simp; fail)+)

lemma requests_blocked_emits [codec_intros]:
  "emits content (requests_blocked_encode_msg B v m) (requests_blocked_encode_msg sizer_writer v m) (requests_blocked_decode_msg v) m"
  unfolding requests_blocked_encode_msg_def requests_blocked_decode_msg_def
  by (cases m; (rule emits_bind emits_map codec_intros | simp; fail)+)

lemma request_ok_emits [codec_intros]:
  "emits content (request_ok_encode_msg B v m) (request_ok_encode_msg sizer_writer v m) (request_ok_decode_msg v) m"
  unfolding request_ok_encode_msg_def request_ok_decode_msg_def
  by (cases m; (rule emits_bind emits_map codec_intros | simp; fail)+)

lemma unsubscribe_emits [codec_intros]:
  "emits content (unsubscribe_encode_msg B v m) (unsubscribe_encode_msg sizer_writer v m) (unsubscribe_decode_msg v) m"
  unfolding unsubscribe_encode_msg_def unsubscribe_decode_msg_def
  by (cases m; (rule emits_bind emits_map codec_intros | simp; fail)+)

lemma publish_namespace_ok_emits [codec_intros]:
  "emits content (publish_namespace_ok_encode_msg B v m) (publish_namespace_ok_encode_msg sizer_writer v m) (publish_namespace_ok_decode_msg v) m"
  unfolding publish_namespace_ok_encode_msg_def publish_namespace_ok_decode_msg_def
  by (cases m; (rule emits_bind emits_map codec_intros | simp; fail)+)

lemma subscribe_namespace_ok_emits [codec_intros]:
  "emits content (subscribe_namespace_ok_encode_msg B v m) (subscribe_namespace_ok_encode_msg sizer_writer v m) (subscribe_namespace_ok_decode_msg v) m"
  unfolding subscribe_namespace_ok_encode_msg_def subscribe_namespace_ok_decode_msg_def
  by (cases m; (rule emits_bind emits_map codec_intros | simp; fail)+)

lemma unsubscribe_namespace_emits [codec_intros]:
  "emits content (unsubscribe_namespace_encode_msg B v m) (unsubscribe_namespace_encode_msg sizer_writer v m) (unsubscribe_namespace_decode_msg v) m"
  unfolding unsubscribe_namespace_encode_msg_def unsubscribe_namespace_decode_msg_def
  by (cases m; (rule emits_bind emits_map codec_intros | simp; fail)+)

lemma fetch_cancel_emits [codec_intros]:
  "emits content (fetch_cancel_encode_msg B v m) (fetch_cancel_encode_msg sizer_writer v m) (fetch_cancel_decode_msg v) m"
  unfolding fetch_cancel_encode_msg_def fetch_cancel_decode_msg_def
  by (cases m; (rule emits_bind emits_map codec_intros | simp; fail)+)

lemma fetch_header_emits [codec_intros]:
  "emits content (fetch_header_encode B v m) (fetch_header_encode sizer_writer v m) (fetch_header_decode v) m"
  unfolding fetch_header_encode_def fetch_header_decode_def
  by (cases m; (rule emits_bind emits_map codec_intros | simp; fail)+)

lemma subscribe_error_emits [codec_intros]:
  assumes "utf8 (serr_reason m)"
  shows "emits content (subscribe_error_encode_msg B v m) (subscribe_error_encode_msg sizer_writer v m) (subscribe_error_decode_msg v) m"
  unfolding subscribe_error_encode_msg_def subscribe_error_decode_msg_def
  by (insert assms, cases m; (rule emits_bind emits_map codec_intros | simp; fail)+)

lemma publish_error_emits [codec_intros]:
  assumes "utf8 (perr_reason m)"
  shows "emits content (publish_error_encode_msg B v m) (publish_error_encode_msg sizer_writer v m) (publish_error_decode_msg v) m"
  unfolding publish_error_encode_msg_def publish_error_decode_msg_def
  by (insert assms, cases m; (rule emits_bind emits_map codec_intros | simp; fail)+)

lemma publish_namespace_error_emits [codec_intros]:
  assumes "utf8 (pnerr_reason m)"
  shows "emits content (publish_namespace_error_encode_msg B v m) (publish_namespace_error_encode_msg sizer_writer v m) (publish_namespace_error_decode_msg v) m"
  unfolding publish_namespace_error_encode_msg_def publish_namespace_error_decode_msg_def
  by (insert assms, cases m; (rule emits_bind emits_map codec_intros | simp; fail)+)

lemma subscribe_namespace_error_emits [codec_intros]:
  assumes "utf8 (snerr_reason m)"
  shows "emits content (subscribe_namespace_error_encode_msg B v m) (subscribe_namespace_error_encode_msg sizer_writer v m) (subscribe_namespace_error_decode_msg v) m"
  unfolding subscribe_namespace_error_encode_msg_def subscribe_namespace_error_decode_msg_def
  by (insert assms, cases m; (rule emits_bind emits_map codec_intros | simp; fail)+)

lemma fetch_error_emits [codec_intros]:
  assumes "utf8 (ferr_reason m)"
  shows "emits content (fetch_error_encode_msg B v m) (fetch_error_encode_msg sizer_writer v m) (fetch_error_decode_msg v) m"
  unfolding fetch_error_encode_msg_def fetch_error_decode_msg_def
  by (insert assms, cases m; (rule emits_bind emits_map codec_intros | simp; fail)+)

lemma publish_done_emits [codec_intros]:
  assumes "utf8 (pdone_reason m)"
  shows "emits content (publish_done_encode_msg B v m) (publish_done_encode_msg sizer_writer v m) (publish_done_decode_msg v) m"
  unfolding publish_done_encode_msg_def publish_done_decode_msg_def
  by (insert assms, cases m; (rule emits_bind emits_map codec_intros | simp; fail)+)

lemma publish_namespace_emits [codec_intros]:
  assumes "namespace_ok (pns_namespace m)"
  shows "emits content (publish_namespace_encode_msg B v m) (publish_namespace_encode_msg sizer_writer v m) (publish_namespace_decode_msg v) m"
  unfolding publish_namespace_encode_msg_def publish_namespace_decode_msg_def
  by (insert assms, cases m; (rule emits_bind emits_map codec_intros | simp; fail)+)

lemma namespace_msg_emits [codec_intros]:
  assumes "namespace_ok (nspc_suffix m)"
  shows "emits content (namespace_msg_encode_msg B v m) (namespace_msg_encode_msg sizer_writer v m) (namespace_msg_decode_msg v) m"
  unfolding namespace_msg_encode_msg_def namespace_msg_decode_msg_def
  by (insert assms, cases m; (rule emits_bind emits_map codec_intros | simp; fail)+)

lemma namespace_done_emits [codec_intros]:
  assumes "namespace_ok (nsdone_suffix m)"
  shows "emits content (namespace_done_encode_msg B v m) (namespace_done_encode_msg sizer_writer v m) (namespace_done_decode_msg v) m"
  unfolding namespace_done_encode_msg_def namespace_done_decode_msg_def
  by (insert assms, cases m; (rule emits_bind emits_map codec_intros | simp; fail)+)

lemma request_error_emits [codec_intros]:
  assumes "utf8 (rerr_reason m)"
  shows "emits content (request_error_encode_msg B v m) (request_error_encode_msg sizer_writer v m) (request_error_decode_msg v) (request_error_seen v m)"
  unfolding request_error_encode_msg_def request_error_decode_msg_def
  by (insert assms, cases m; cases "v = Draft14 \<or> v = Draft15"; simp add: request_error_seen_def dbind_norm;
    (rule emits_bind emits_map codec_intros | simp; fail)+)

lemma ietf_subscribe_emits [codec_intros]:
  assumes "namespace_ok (isub_namespace m)" "utf8 (isub_name m)"
    "v = Draft14 \<Longrightarrow> isub_filter_type m = NextGroup \<or> isub_filter_type m = LargestObject"
  shows "emits content (ietf_subscribe_encode_msg B v m) (ietf_subscribe_encode_msg sizer_writer v m)
     (ietf_subscribe_decode_msg v) (ietf_subscribe_seen v m)"
proof (cases "v = Draft14")
  case True
  then have "filter_range_decode v (isub_filter_type m) = dret ()" using assms(3) by (intro filter_range_relative) simp
  with True assms(1,2) show ?thesis
    unfolding ietf_subscribe_encode_msg_def ietf_subscribe_decode_msg_def
    by - (cases m; simp add: ietf_subscribe_seen_def order_seen_def;
      (rule emits_bind codec_intros | (simp; fail) | (rule emits_skip, (simp; fail)) | rule emits_map | simp)+)
next
  case False
  with assms(1,2) show ?thesis
    unfolding ietf_subscribe_encode_msg_def ietf_subscribe_decode_msg_def
    by - (cases m; simp add: ietf_subscribe_seen_def order_seen_def;
      (rule emits_bind codec_intros params_intros | (simp add: word_le_nat_alt; fail) | rule emits_map)+)
qed

lemma ietf_subscribe_ok_emits:
  "emits_whole content (ietf_subscribe_ok_encode_msg B v m) (ietf_subscribe_ok_encode_msg sizer_writer v m) (ietf_subscribe_ok_decode_msg v) m"
proof (cases "v = Draft14")
  case True
  then show ?thesis
    unfolding ietf_subscribe_ok_encode_msg_def ietf_subscribe_ok_decode_msg_def
    by - (rule emits_whole, cases m; simp;
      ((rule emits_skip, (simp; fail)) | rule emits_bind codec_intros params_intros
        | (simp add: word_le_nat_alt; fail) | rule emits_map | simp)+)
next
  case False
  then show ?thesis
    unfolding ietf_subscribe_ok_encode_msg_def ietf_subscribe_ok_decode_msg_def
    by - (cases m; simp;
      (rule emits_whole_bind emits_bind codec_intros params_intros | (simp add: word_le_nat_alt; fail)
        | rule emits_whole_end | (simp add: dbind_def dret_def; fail))+)
qed

lemma ietf_subscribe_update_emits [codec_intros]:
  "emits content (ietf_subscribe_update_encode_msg B v m) (ietf_subscribe_update_encode_msg sizer_writer v m) (ietf_subscribe_update_decode_msg v) (ietf_subscribe_update_seen v m)"
  unfolding ietf_subscribe_update_encode_msg_def ietf_subscribe_update_decode_msg_def
  by (cases m; cases v; cases "isup_subscription_id m"; simp add: ietf_subscribe_update_seen_def update_params_def update_spec_def;
      ((rule emits_skip, (simp; fail)) | rule emits_bind codec_intros params_intros
        | (simp add: word_le_nat_alt; fail) | rule emits_map | simp)+)

lemma publish_emits:
  assumes "namespace_ok (pub_namespace m)" "utf8 (pub_name m)"
  shows "emits_whole content (publish_encode_msg B v m) (publish_encode_msg sizer_writer v m) (publish_decode_msg v) (publish_seen v m)"
proof (cases "v = Draft14")
  case True
  then show ?thesis
    unfolding publish_encode_msg_def publish_decode_msg_def
    by - (insert assms, rule emits_whole, cases "pub_largest m"; cases m; simp add: publish_seen_def order_seen_def ebind_assoc;
      ((rule emits_skip, (simp; fail)) | rule emits_bind codec_intros params_intros
        | (simp add: word_le_nat_alt; fail) | rule emits_map | simp)+)
next
  case False
  then show ?thesis
    unfolding publish_encode_msg_def publish_decode_msg_def
    by - (insert assms, cases "pub_largest m"; cases m; simp add: publish_seen_def order_seen_def ebind_assoc;
      (rule emits_whole_bind emits_bind codec_intros params_intros | (simp add: word_le_nat_alt; fail)
        | rule emits_whole_end | (simp add: dbind_def dret_def; fail))+)
qed

lemma publish_ok_emits [codec_intros]:
  assumes "v = Draft14 \<Longrightarrow> pok_filter_type m = NextGroup \<or> pok_filter_type m = LargestObject"
  shows "emits content (publish_ok_encode_msg B v m) (publish_ok_encode_msg sizer_writer v m) (publish_ok_decode_msg v) (publish_ok_seen v m)"
proof (cases "v = Draft14")
  case True
  then have "filter_range_decode v (pok_filter_type m) = dret ()" using assms by (intro filter_range_relative) simp
  with True show ?thesis
    unfolding publish_ok_encode_msg_def publish_ok_decode_msg_def
    by - (cases m; simp add: publish_ok_seen_def order_seen_def;
      ((rule emits_skip, (simp; fail)) | rule emits_bind codec_intros | (simp; fail) | rule emits_map | simp)+)
next
  case False
  then show ?thesis
    unfolding publish_ok_encode_msg_def publish_ok_decode_msg_def
    by - (cases m; simp add: publish_ok_seen_def order_seen_def;
      (rule emits_bind codec_intros params_intros | (simp add: word_le_nat_alt; fail) | rule emits_map)+)
qed

lemma publish_namespace_done_emits [codec_intros]:
  assumes "namespace_ok (pndone_namespace m)"
  shows "emits content (publish_namespace_done_encode_msg B v m) (publish_namespace_done_encode_msg sizer_writer v m) (publish_namespace_done_decode_msg v) (publish_namespace_done_seen v m)"
  unfolding publish_namespace_done_encode_msg_def publish_namespace_done_decode_msg_def
  by (insert assms, cases m; cases v; simp add: publish_namespace_done_seen_def;
      ((rule emits_skip, (simp; fail)) | rule emits_bind codec_intros params_intros
        | (simp add: word_le_nat_alt; fail) | rule emits_map | simp)+)

lemma publish_namespace_cancel_emits [codec_intros]:
  assumes "namespace_ok (pncan_namespace m)" "utf8 (pncan_reason m)"
  shows "emits content (publish_namespace_cancel_encode_msg B v m) (publish_namespace_cancel_encode_msg sizer_writer v m) (publish_namespace_cancel_decode_msg v) (publish_namespace_cancel_seen v m)"
  unfolding publish_namespace_cancel_encode_msg_def publish_namespace_cancel_decode_msg_def
  by (insert assms, cases m; cases v; simp add: publish_namespace_cancel_seen_def dbind_norm;
      ((rule emits_skip, (simp; fail)) | rule emits_bind codec_intros params_intros
        | (simp add: word_le_nat_alt; fail) | rule emits_map | simp)+)

lemma subscribe_namespace_emits [codec_intros]:
  assumes "namespace_ok (sns_namespace m)"
  shows "emits content (subscribe_namespace_encode_msg B v m) (subscribe_namespace_encode_msg sizer_writer v m) (subscribe_namespace_decode_msg v) m"
  unfolding subscribe_namespace_encode_msg_def subscribe_namespace_decode_msg_def
  by (insert assms, cases m; cases "is_legacy_version v"; simp;
      ((rule emits_skip, (simp; fail)) | rule emits_bind codec_intros params_intros
        | (simp add: word_le_nat_alt; fail) | rule emits_map | simp)+)

lemma subscribe_namespace_legacy_emits [codec_intros]:
  assumes "namespace_ok (snl_namespace m)"
  shows "emits content (subscribe_namespace_legacy_encode_msg B v m) (subscribe_namespace_legacy_encode_msg sizer_writer v m) (subscribe_namespace_legacy_decode_msg v) (subscribe_namespace_legacy_seen v m)"
  unfolding subscribe_namespace_legacy_encode_msg_def subscribe_namespace_legacy_decode_msg_def
  by (insert assms, cases m; cases v; simp add: subscribe_namespace_legacy_seen_def;
      ((rule emits_skip, (simp; fail)) | rule emits_bind codec_intros params_intros
        | (simp add: word_le_nat_alt; fail) | rule emits_map | simp)+)

lemma publish_blocked_emits [codec_intros]:
  assumes "namespace_ok (pblk_suffix m)" "utf8 (pblk_name m)"
  shows "emits content (publish_blocked_encode_msg B v m) (publish_blocked_encode_msg sizer_writer v m) (publish_blocked_decode_msg v) m"
  unfolding publish_blocked_encode_msg_def publish_blocked_decode_msg_def
  by (insert assms, cases m; cases "v = Draft17"; simp;
      ((rule emits_skip, (simp; fail)) | rule emits_bind codec_intros params_intros
        | (simp add: word_le_nat_alt; fail) | rule emits_map | simp)+)

lemma ietf_fetch_emits [codec_intros]:
  assumes "\<And>ns t s e. ifetch_kind m = Standalone ns t s e \<Longrightarrow> namespace_ok ns \<and> utf8 t"
  shows "emits content (ietf_fetch_encode_msg B v m) (ietf_fetch_encode_msg sizer_writer v m) (ietf_fetch_decode_msg v) (ietf_fetch_seen v m)"
  unfolding ietf_fetch_encode_msg_def ietf_fetch_decode_msg_def
  by (insert assms, cases m; cases "v = Draft14"; simp add: ietf_fetch_seen_def order_seen_def;
      ((rule emits_skip, (simp; fail)) | rule emits_bind codec_intros params_intros
        | (simp add: word_le_nat_alt; fail) | rule emits_map | simp)+)

lemma fetch_ok_emits:
  "emits_whole content (fetch_ok_encode_msg B v m) (fetch_ok_encode_msg sizer_writer v m) (fetch_ok_decode_msg v) (fetch_ok_seen v m)"
proof (cases "v = Draft14")
  case True
  then show ?thesis
    unfolding fetch_ok_encode_msg_def fetch_ok_decode_msg_def
    by - (rule emits_whole, cases m; simp add: fetch_ok_seen_def order_seen_def;
      ((rule emits_skip, (simp; fail)) | rule emits_bind codec_intros params_intros
        | (simp add: word_le_nat_alt; fail) | rule emits_map | simp)+)
next
  case False
  then show ?thesis
    unfolding fetch_ok_encode_msg_def fetch_ok_decode_msg_def
    by - (cases m; simp add: fetch_ok_seen_def order_seen_def;
      (rule emits_whole_bind emits_bind codec_intros params_intros | (simp add: word_le_nat_alt; fail)
        | rule emits_whole_end | (simp add: dbind_def dret_def; fail))+)
qed

lemma track_status_emits [codec_intros]:
  assumes "namespace_ok (ts_namespace m)" "utf8 (ts_name m)"
  shows "emits content (track_status_encode_msg B v m) (track_status_encode_msg sizer_writer v m) (track_status_decode_msg v) m"
  unfolding track_status_encode_msg_def track_status_decode_msg_def
  by (insert assms, cases m; cases "v = Draft14"; simp add: dbind_norm;
      ((rule emits_skip, (simp; fail)) | rule emits_bind codec_intros params_intros
        | (simp add: word_le_nat_alt; fail) | rule emits_map | simp)+)

lemma ietf_goaway_emits:
  assumes "utf8 (igoaway_uri m)"
  shows "emits_whole content (ietf_goaway_encode_msg B v m) (ietf_goaway_encode_msg sizer_writer v m) (ietf_goaway_decode_msg v) (ietf_goaway_seen v m)"
proof (cases "v = Draft18")
  case True
  with assms show ?thesis
    unfolding ietf_goaway_encode_msg_def ietf_goaway_decode_msg_def
    by - (cases m; simp add: ietf_goaway_seen_def dbind_norm;
      (rule emits_whole_bind codec_intros | assumption | rule emits_whole_end | (simp add: dbind_def dret_def has_remaining_def; fail))+)
next
  case False
  with assms show ?thesis
    unfolding ietf_goaway_encode_msg_def ietf_goaway_decode_msg_def
    by - (rule emits_whole, cases m; cases v; simp add: ietf_goaway_seen_def dbind_norm;
      (rule emits_bind codec_intros | assumption | rule emits_map | (simp; fail))+)
qed

lemma track_status_code_emits [codec_intros]:
  "emits content (track_status_code_encode B v c) (track_status_code_encode sizer_writer v c) (track_status_code_decode v) c"
  unfolding track_status_code_encode_def track_status_code_decode_def
  by (rule emits_map [OF u64_emits]) (cases c; simp)

end

section \<open>Group headers\<close>

end
