(* ===== verification/Ietf_Wire.thy ===== *)
theory Ietf_Wire
  imports Ietf_Codec
begin

text \<open>
  The properties of the messages of the IETF drafts: the room the encoders need, so that a message with
  fields in range is written, and that the peer decodes it.
\<close>

section \<open>Group headers\<close>

lemma group_flags_round_trip:
  assumes "group_flags_encode v f = Inr i"
  shows "group_flags_decode i v = Inr f"
proof -
  obtain a b c d e where f: "f = \<lparr>has_extensions = a, has_subgroup = b, has_subgroup_object = c, has_end = d, has_priority = e\<rparr>"
    by (cases f)
  show ?thesis
    using assms unfolding f group_flags_encode_def group_flags_decode_def group_flag_consts
    by (cases "is_legacy_version v"; cases a; cases b; cases c; cases d; cases e;
        simp del: is_legacy_version.simps; (elim subst)?; simp?)
qed

lemma group_flags_encode_small: "group_flags_encode v f = Inr i \<Longrightarrow> i \<le> varint_max"
proof -
  obtain a b c d e where f: "f = \<lparr>has_extensions = a, has_subgroup = b, has_subgroup_object = c, has_end = d, has_priority = e\<rparr>"
    by (cases f)
  assume "group_flags_encode v f = Inr i"
  then show ?thesis
    unfolding f group_flags_encode_def group_flag_consts varint_max_def
    by (cases "is_legacy_version v"; cases a; cases b; cases c; cases d; cases e;
        simp del: is_legacy_version.simps add: push_bit_of_1; (elim subst)?; simp?)
qed

definition group_header_seen :: "group_header \<Rightarrow> group_header" where
  "group_header_seen m = (if has_priority (gh_flags m) then m else m\<lparr>gh_publisher_priority := 128\<rparr>)"

definition group_header_ok :: "group_header \<Rightarrow> bool" where
  "group_header_ok m \<longleftrightarrow> \<not> (has_subgroup (gh_flags m) \<and> has_subgroup_object (gh_flags m))
     \<and> (\<not> has_subgroup (gh_flags m) \<longrightarrow> gh_sub_group_id m = 0)
     \<and> gh_track_alias m \<le> varint_max \<and> gh_group_id m \<le> varint_max \<and> gh_sub_group_id m \<le> varint_max"

lemma group_flags_encode_ok: "group_header_ok m \<Longrightarrow> \<exists>i. group_flags_encode v (gh_flags m) = Inr i"
  by (simp add: group_flags_encode_def group_header_ok_def Let_def)

context writer
begin

lemma group_header_emits:
  assumes "group_header_ok m"
  shows "emits content (group_header_encode B v m) (group_header_encode sizer_writer v m) (group_header_decode v) (group_header_seen m)"
proof -
  obtain i where i: "group_flags_encode v (gh_flags m) = Inr i" using group_flags_encode_ok [OF assms] by blast
  have flags: "emits content (\<lambda>w. and_then (group_flags_encode v (gh_flags m)) (\<lambda>i. u64_encode B (Ietf v) i w))
      (\<lambda>w. and_then (group_flags_encode v (gh_flags m)) (\<lambda>i. u64_encode sizer_writer (Ietf v) i w))
      (dbind (u64_decode (Ietf v)) (\<lambda>i r. and_then (group_flags_decode i v) (\<lambda>f. Inr (f, r)))) (gh_flags m)"
    unfolding i and_then_simps by (rule emits_map [OF u64_emits]) (simp add: group_flags_round_trip [OF i] dret_def)
  show ?thesis
    unfolding group_header_encode_def group_header_decode_def
    by (rule emits_bind [OF flags]) (insert assms, cases "has_subgroup (gh_flags m)"; cases "has_priority (gh_flags m)"; cases m;
        simp add: group_header_ok_def group_header_seen_def dbind_norm; (rule emits_bind emits_map codec_intros | simp; fail)+)
qed

lemma group_header_writes:
  assumes "group_header_ok m"
  shows "writes B (group_header_encode B v m) (group_header_encode sizer_writer v m) 37"
proof -
  obtain i where i: "group_flags_encode v (gh_flags m) = Inr i" using group_flags_encode_ok [OF assms] by blast
  note small = group_flags_encode_small [OF i]
  show ?thesis
    unfolding group_header_encode_def i and_then_simps
    by (insert assms small, cases "has_subgroup (gh_flags m)"; cases "has_priority (gh_flags m)";
        simp add: group_header_ok_def; (rule writes_mono, (rule writes_bind writes_enil size_intros | simp; fail)+))
qed

end

section \<open>Room for the parts of a message\<close>

lemma length_split_slash: "length s = sum_list (map length (split_slash s)) + (length (split_slash s) - 1)"
proof (induction s)
  case (Cons c s)
  obtain p ps where "split_slash s = p # ps" by (cases "split_slash s") auto
  with Cons show ?case by simp
qed simp

lemma of_bool_small: "(of_bool b :: u64) \<le> varint_max"
  by (cases b) simp_all

lemma u8_small: "(ucast (x :: u8) :: u64) \<le> varint_max"
  using u8_as_u64(2) [of x] by (rule order_trans) (simp add: varint_max_def push_bit_of_1)

context writer
begin

lemma request_id_writes [size_intros]:
  "r \<le> varint_max \<Longrightarrow> writes B (request_id_encode B v r) (request_id_encode sizer_writer v r) 9"
  unfolding request_id_encode_def by (rule u64_writes)

lemma namespace_writes [size_intros]:
  assumes "length (parts ns) \<le> 32" "path_ok ns" "length ns \<le> 0xFFFF"
  shows "writes B (encode_namespace B ns v) (encode_namespace sizer_writer ns v) (297 + length ns)"
proof (cases "ns = []")
  case True
  then show ?thesis
    unfolding encode_namespace_def by (simp, intro writes_mono [OF u64_writes]) simp_all
next
  case False
  let ?ps = "split_slash ns"
  have n: "length ?ps \<le> 32" using assms(1,2) False by (simp add: parts_path)
  have len: "length p \<le> unat varint_max" if "p \<in> set ?ps" for p
  proof -
    have "length p \<le> sum_list (map length ?ps)" using that by (intro member_le_sum_list) simp_all
    then show ?thesis using length_split_slash [of ns] assms(3) by (simp add: unat_varint_max)
  qed
  have "writes B (eseq (map (string_encode B (Ietf v)) ?ps)) (eseq (map (string_encode sizer_writer (Ietf v)) ?ps))
     (sum_list (map (\<lambda>p. 9 + length p) ?ps))"
    using len by (intro writes_seq string_writes) simp
  moreover have "sum_list (map (\<lambda>p. 9 + length p) ?ps) \<le> 288 + length ns"
    using length_split_slash [of ns] n by (simp add: sum_list_addf sum_list_triv)
  ultimately have body: "writes B (eseq (map (string_encode B (Ietf v)) ?ps)) (eseq (map (string_encode sizer_writer (Ietf v)) ?ps)) (288 + length ns)"
    by (rule writes_mono)
  have "(of_nat (length ?ps) :: u64) \<le> varint_max"
    using n by (simp add: word_le_nat_alt unat_of_nat take_bit_nat_eq_self unat_varint_max)
  from writes_bind [OF u64_writes [OF this] body] n False show ?thesis by (simp add: encode_namespace_def Let_def)
qed

lemma location_writes [size_intros]:
  assumes "loc_group l \<le> varint_max" "loc_object l \<le> varint_max"
  shows "writes B (location_encode B v l) (location_encode sizer_writer v l) 18"
  unfolding location_encode_def using writes_bind [OF u64_writes [OF assms(1)] u64_writes [OF assms(2)]] by simp

lemma group_order_writes [size_intros]: "writes B (group_order_encode B g) (group_order_encode sizer_writer g) 1"
  unfolding group_order_encode_def by (rule u8_writes)

lemma filter_type_writes [size_intros]: "writes B (filter_type_encode B v f) (filter_type_encode sizer_writer v f) 9"
  unfolding filter_type_encode_def by (rule u64_writes) simp

lemma param_bool_writes [size_intros]: "writes B (param_bool_encode B v b) (param_bool_encode sizer_writer v b) 9"
  unfolding param_bool_encode_def
  by (cases "draft14_16 v") (simp_all add: u64_writes of_bool_small writes_mono [OF bool_writes])

lemma param_u8_writes [size_intros]: "writes B (param_u8_encode B v x) (param_u8_encode sizer_writer v x) 9"
  unfolding param_u8_encode_def
  by (cases "draft14_16 v") (simp_all add: u64_writes u8_small writes_mono [OF u8_writes])

lemma param_order_writes [size_intros]: "writes B (param_order_encode B v g) (param_order_encode sizer_writer v g) 9"
  unfolding param_order_encode_def by (rule param_u8_writes)

lemma nested_writes:
  assumes "emits (\<lambda>out. out) e sz d a" "writes bytes_mut e sz n" "n \<le> 100"
  shows "writes B (nested_encode B v e) (nested_encode sizer_writer v e) (9 + n)"
proof -
  have "n \<le> remaining_mut bytes_mut []" using assms(3) by (simp add: bytes_mut_def)
  then obtain w' bs where w': "e [] = Inr w'" "w' = [] @ bs" "length bs \<le> n" using emits_writes [OF assms(1,2)] by blast
  then have "writes B (bytes_encode B (Ietf v) bs) (bytes_encode sizer_writer (Ietf v) bs) (9 + length bs)"
    using assms(3) by (intro bytes_writes) (simp add: unat_varint_max)
  then have "writes B (bytes_encode B (Ietf v) bs) (bytes_encode sizer_writer (Ietf v) bs) (9 + n)"
    using w' by (elim writes_mono) simp
  then show ?thesis using w' by (simp add: nested_encode_def [abs_def] encode_bytes_def)
qed

end

context writer
begin

lemma param_filter_writes [size_intros]: "writes B (param_filter_encode B v f) (param_filter_encode sizer_writer v f) 18"
  unfolding param_filter_encode_def Let_def
  by (rule writes_mono, rule nested_writes, rule bytes_mut.filter_type_emits, rule bytes_mut.filter_type_writes) simp_all

lemma param_location_writes [size_intros]:
  assumes "loc_group l \<le> varint_max" "loc_object l \<le> varint_max"
  shows "writes B (param_location_encode B v l) (param_location_encode sizer_writer v l) 27"
proof (cases "draft14_16 v")
  case True
  then show ?thesis
    unfolding param_location_encode_def if_P [OF True] location_encode_def [symmetric]
    by (intro writes_mono [OF nested_writes [OF bytes_mut.location_emits bytes_mut.location_writes [OF assms]]]) simp_all
next
  case False
  then show ?thesis
    unfolding param_location_encode_def if_not_P [OF False] location_encode_def [symmetric]
    by (intro writes_mono [OF location_writes [OF assms]]) simp
qed

lemma params_loop_writes [size_intros]:
  "writes B (encode_params_loop B v first prev []) (encode_params_loop sizer_writer v first prev []) 0"
  "writes B (encode_params_loop B v first prev ps) (encode_params_loop sizer_writer v first prev qs) n \<Longrightarrow>
   writes B (encode_params_loop B v first prev ((key, None) # ps)) (encode_params_loop sizer_writer v first prev ((key, None) # qs)) n"
  by (simp_all add: writes_enil)

lemma params_loop_writes_present [size_intros]:
  assumes "writes B e sz n" "writes B (encode_params_loop B v False key ps) (encode_params_loop sizer_writer v False key qs) m"
    "first \<or> prev \<le> key" "key \<le> varint_max"
  shows "writes B (encode_params_loop B v first prev ((key, Some e) # ps)) (encode_params_loop sizer_writer v first prev ((key, Some sz) # qs)) (9 + (n + m))"
proof -
  have "key - prev \<le> key" if "prev \<le> key" using that by (simp add: word_le_nat_alt unat_sub)
  then have "(if v = Draft14 \<or> v = Draft15 then key else if first then key else key - prev) \<le> varint_max"
    using assms(3,4) by auto
  from writes_bind [OF u64_writes [OF this] writes_bind [OF assms(1,2)]] show ?thesis by simp
qed

lemma params_writes [size_intros]:
  assumes "writes B (encode_params_loop B v True 0 ps) (encode_params_loop sizer_writer v True 0 qs) n"
    "present_count ps = k" "present_count qs = k" "k \<le> 64"
  shows "writes B (encode_params B v ps) (encode_params sizer_writer v qs) (9 + n)"
  unfolding encode_params_def assms(2,3) using assms(1,4) by (intro writes_bind usize_writes) (simp add: unat_varint_max)

lemma reply_id_writes [size_intros]:
  assumes "(r \<noteq> None) = draft14_16 v" "\<And>i. r = Some i \<Longrightarrow> i \<le> varint_max"
  shows "writes B (reply_id_encode B v r) (reply_id_encode sizer_writer v r) 9"
  using assms unfolding reply_id_encode_def
  by (cases r) (auto simp: request_id_writes intro: writes_mono [OF writes_enil])

lemma required_delta_writes [size_intros]: "writes B (required_delta_encode B v) (required_delta_encode sizer_writer v) 9"
  unfolding required_delta_encode_def by (auto intro: u64_writes writes_mono [OF writes_enil])

end

section \<open>The control messages together\<close>

text \<open>
  The messages as one type. \<open>cm_decode v m\<close> decodes the kind of message that \<open>m\<close> is, which is the type
  parameter of the Rust decoder.
\<close>

datatype control_message =
    CmSubscribe ietf_subscribe
  | CmSubscribeOk ietf_subscribe_ok
  | CmSubscribeError subscribe_error
  | CmUnsubscribe unsubscribe
  | CmSubscribeUpdate ietf_subscribe_update
  | CmPublish publish
  | CmPublishOk publish_ok
  | CmPublishError publish_error
  | CmPublishDone publish_done
  | CmPublishNamespace publish_namespace
  | CmPublishNamespaceOk publish_namespace_ok
  | CmPublishNamespaceError publish_namespace_error
  | CmPublishNamespaceDone publish_namespace_done
  | CmPublishNamespaceCancel publish_namespace_cancel
  | CmSubscribeNamespace subscribe_namespace
  | CmSubscribeNamespaceLegacy subscribe_namespace_legacy
  | CmSubscribeNamespaceOk subscribe_namespace_ok
  | CmSubscribeNamespaceError subscribe_namespace_error
  | CmUnsubscribeNamespace unsubscribe_namespace
  | CmNamespace namespace_msg
  | CmNamespaceDone namespace_done
  | CmPublishBlocked publish_blocked
  | CmFetch ietf_fetch
  | CmFetchOk fetch_ok
  | CmFetchError fetch_error
  | CmFetchCancel fetch_cancel
  | CmTrackStatus track_status
  | CmGoaway ietf_goaway
  | CmMaxRequestId max_request_id
  | CmRequestsBlocked requests_blocked
  | CmRequestOk request_ok
  | CmRequestError request_error

fun cm_encode :: "'w buf_mut \<Rightarrow> ietf_version \<Rightarrow> control_message \<Rightarrow> (encode_error, 'w) encoder" where
  "cm_encode B v (CmSubscribe m) = ietf_subscribe_encode_msg B v m"
| "cm_encode B v (CmSubscribeOk m) = ietf_subscribe_ok_encode_msg B v m"
| "cm_encode B v (CmSubscribeError m) = subscribe_error_encode_msg B v m"
| "cm_encode B v (CmUnsubscribe m) = unsubscribe_encode_msg B v m"
| "cm_encode B v (CmSubscribeUpdate m) = ietf_subscribe_update_encode_msg B v m"
| "cm_encode B v (CmPublish m) = publish_encode_msg B v m"
| "cm_encode B v (CmPublishOk m) = publish_ok_encode_msg B v m"
| "cm_encode B v (CmPublishError m) = publish_error_encode_msg B v m"
| "cm_encode B v (CmPublishDone m) = publish_done_encode_msg B v m"
| "cm_encode B v (CmPublishNamespace m) = publish_namespace_encode_msg B v m"
| "cm_encode B v (CmPublishNamespaceOk m) = publish_namespace_ok_encode_msg B v m"
| "cm_encode B v (CmPublishNamespaceError m) = publish_namespace_error_encode_msg B v m"
| "cm_encode B v (CmPublishNamespaceDone m) = publish_namespace_done_encode_msg B v m"
| "cm_encode B v (CmPublishNamespaceCancel m) = publish_namespace_cancel_encode_msg B v m"
| "cm_encode B v (CmSubscribeNamespace m) = subscribe_namespace_encode_msg B v m"
| "cm_encode B v (CmSubscribeNamespaceLegacy m) = subscribe_namespace_legacy_encode_msg B v m"
| "cm_encode B v (CmSubscribeNamespaceOk m) = subscribe_namespace_ok_encode_msg B v m"
| "cm_encode B v (CmSubscribeNamespaceError m) = subscribe_namespace_error_encode_msg B v m"
| "cm_encode B v (CmUnsubscribeNamespace m) = unsubscribe_namespace_encode_msg B v m"
| "cm_encode B v (CmNamespace m) = namespace_msg_encode_msg B v m"
| "cm_encode B v (CmNamespaceDone m) = namespace_done_encode_msg B v m"
| "cm_encode B v (CmPublishBlocked m) = publish_blocked_encode_msg B v m"
| "cm_encode B v (CmFetch m) = ietf_fetch_encode_msg B v m"
| "cm_encode B v (CmFetchOk m) = fetch_ok_encode_msg B v m"
| "cm_encode B v (CmFetchError m) = fetch_error_encode_msg B v m"
| "cm_encode B v (CmFetchCancel m) = fetch_cancel_encode_msg B v m"
| "cm_encode B v (CmTrackStatus m) = track_status_encode_msg B v m"
| "cm_encode B v (CmGoaway m) = ietf_goaway_encode_msg B v m"
| "cm_encode B v (CmMaxRequestId m) = max_request_id_encode_msg B v m"
| "cm_encode B v (CmRequestsBlocked m) = requests_blocked_encode_msg B v m"
| "cm_encode B v (CmRequestOk m) = request_ok_encode_msg B v m"
| "cm_encode B v (CmRequestError m) = request_error_encode_msg B v m"

fun cm_decode :: "ietf_version \<Rightarrow> control_message \<Rightarrow> (decode_error, control_message) decoder" where
  "cm_decode v (CmSubscribe _) = dbind (ietf_subscribe_decode_msg v) (\<lambda>m. dret (CmSubscribe m))"
| "cm_decode v (CmSubscribeOk _) = dbind (ietf_subscribe_ok_decode_msg v) (\<lambda>m. dret (CmSubscribeOk m))"
| "cm_decode v (CmSubscribeError _) = dbind (subscribe_error_decode_msg v) (\<lambda>m. dret (CmSubscribeError m))"
| "cm_decode v (CmUnsubscribe _) = dbind (unsubscribe_decode_msg v) (\<lambda>m. dret (CmUnsubscribe m))"
| "cm_decode v (CmSubscribeUpdate _) = dbind (ietf_subscribe_update_decode_msg v) (\<lambda>m. dret (CmSubscribeUpdate m))"
| "cm_decode v (CmPublish _) = dbind (publish_decode_msg v) (\<lambda>m. dret (CmPublish m))"
| "cm_decode v (CmPublishOk _) = dbind (publish_ok_decode_msg v) (\<lambda>m. dret (CmPublishOk m))"
| "cm_decode v (CmPublishError _) = dbind (publish_error_decode_msg v) (\<lambda>m. dret (CmPublishError m))"
| "cm_decode v (CmPublishDone _) = dbind (publish_done_decode_msg v) (\<lambda>m. dret (CmPublishDone m))"
| "cm_decode v (CmPublishNamespace _) = dbind (publish_namespace_decode_msg v) (\<lambda>m. dret (CmPublishNamespace m))"
| "cm_decode v (CmPublishNamespaceOk _) = dbind (publish_namespace_ok_decode_msg v) (\<lambda>m. dret (CmPublishNamespaceOk m))"
| "cm_decode v (CmPublishNamespaceError _) = dbind (publish_namespace_error_decode_msg v) (\<lambda>m. dret (CmPublishNamespaceError m))"
| "cm_decode v (CmPublishNamespaceDone _) = dbind (publish_namespace_done_decode_msg v) (\<lambda>m. dret (CmPublishNamespaceDone m))"
| "cm_decode v (CmPublishNamespaceCancel _) = dbind (publish_namespace_cancel_decode_msg v) (\<lambda>m. dret (CmPublishNamespaceCancel m))"
| "cm_decode v (CmSubscribeNamespace _) = dbind (subscribe_namespace_decode_msg v) (\<lambda>m. dret (CmSubscribeNamespace m))"
| "cm_decode v (CmSubscribeNamespaceLegacy _) = dbind (subscribe_namespace_legacy_decode_msg v) (\<lambda>m. dret (CmSubscribeNamespaceLegacy m))"
| "cm_decode v (CmSubscribeNamespaceOk _) = dbind (subscribe_namespace_ok_decode_msg v) (\<lambda>m. dret (CmSubscribeNamespaceOk m))"
| "cm_decode v (CmSubscribeNamespaceError _) = dbind (subscribe_namespace_error_decode_msg v) (\<lambda>m. dret (CmSubscribeNamespaceError m))"
| "cm_decode v (CmUnsubscribeNamespace _) = dbind (unsubscribe_namespace_decode_msg v) (\<lambda>m. dret (CmUnsubscribeNamespace m))"
| "cm_decode v (CmNamespace _) = dbind (namespace_msg_decode_msg v) (\<lambda>m. dret (CmNamespace m))"
| "cm_decode v (CmNamespaceDone _) = dbind (namespace_done_decode_msg v) (\<lambda>m. dret (CmNamespaceDone m))"
| "cm_decode v (CmPublishBlocked _) = dbind (publish_blocked_decode_msg v) (\<lambda>m. dret (CmPublishBlocked m))"
| "cm_decode v (CmFetch _) = dbind (ietf_fetch_decode_msg v) (\<lambda>m. dret (CmFetch m))"
| "cm_decode v (CmFetchOk _) = dbind (fetch_ok_decode_msg v) (\<lambda>m. dret (CmFetchOk m))"
| "cm_decode v (CmFetchError _) = dbind (fetch_error_decode_msg v) (\<lambda>m. dret (CmFetchError m))"
| "cm_decode v (CmFetchCancel _) = dbind (fetch_cancel_decode_msg v) (\<lambda>m. dret (CmFetchCancel m))"
| "cm_decode v (CmTrackStatus _) = dbind (track_status_decode_msg v) (\<lambda>m. dret (CmTrackStatus m))"
| "cm_decode v (CmGoaway _) = dbind (ietf_goaway_decode_msg v) (\<lambda>m. dret (CmGoaway m))"
| "cm_decode v (CmMaxRequestId _) = dbind (max_request_id_decode_msg v) (\<lambda>m. dret (CmMaxRequestId m))"
| "cm_decode v (CmRequestsBlocked _) = dbind (requests_blocked_decode_msg v) (\<lambda>m. dret (CmRequestsBlocked m))"
| "cm_decode v (CmRequestOk _) = dbind (request_ok_decode_msg v) (\<lambda>m. dret (CmRequestOk m))"
| "cm_decode v (CmRequestError _) = dbind (request_error_decode_msg v) (\<lambda>m. dret (CmRequestError m))"

definition ns_ok :: "path \<Rightarrow> bool" where
  "ns_ok ns \<longleftrightarrow> namespace_ok ns \<and> length (parts ns) \<le> 32"

definition reply_ok :: "ietf_version \<Rightarrow> request_id option \<Rightarrow> bool" where
  "reply_ok v r \<longleftrightarrow> (r \<noteq> None) = draft14_16 v \<and> (\<forall>i. r = Some i \<longrightarrow> i \<le> varint_max)"

fun fetch_kind_ok :: "fetch_type \<Rightarrow> bool" where
  "fetch_kind_ok (Standalone ns t s e) \<longleftrightarrow> ns_ok ns \<and> utf8 t \<and> loc_group s \<le> varint_max \<and> loc_object s \<le> varint_max
     \<and> loc_group e \<le> varint_max \<and> loc_object e \<le> varint_max"
| "fetch_kind_ok (RelativeJoining r n) \<longleftrightarrow> r \<le> varint_max \<and> n \<le> varint_max"
| "fetch_kind_ok (AbsoluteJoining r n) \<longleftrightarrow> r \<le> varint_max \<and> n \<le> varint_max"

fun fetch_kind_length :: "fetch_type \<Rightarrow> nat" where
  "fetch_kind_length (Standalone ns t s e) = length ns + length t"
| "fetch_kind_length _ = 0"

text \<open>The messages that a version can carry, with fields in range.\<close>

fun cm_ok :: "ietf_version \<Rightarrow> control_message \<Rightarrow> bool" where
  "cm_ok v (CmSubscribe m) \<longleftrightarrow> isub_request_id m \<le> varint_max \<and> ns_ok (isub_namespace m) \<and> utf8 (isub_name m) \<and> (v = Draft14 \<longrightarrow> isub_filter_type m = NextGroup \<or> isub_filter_type m = LargestObject)"
| "cm_ok v (CmSubscribeOk m) \<longleftrightarrow> reply_ok v (isok_request_id m) \<and> isok_track_alias m \<le> varint_max"
| "cm_ok v (CmSubscribeError m) \<longleftrightarrow> serr_request_id m \<le> varint_max \<and> serr_error_code m \<le> varint_max \<and> utf8 (serr_reason m)"
| "cm_ok v (CmUnsubscribe m) \<longleftrightarrow> unsub_request_id m \<le> varint_max"
| "cm_ok v (CmSubscribeUpdate m) \<longleftrightarrow> isup_request_id m \<le> varint_max \<and> reply_ok v (isup_subscription_id m) \<and> loc_group (isup_start m) \<le> varint_max \<and> loc_object (isup_start m) \<le> varint_max \<and> isup_end_group m \<le> varint_max"
| "cm_ok v (CmPublish m) \<longleftrightarrow> pub_request_id m \<le> varint_max \<and> ns_ok (pub_namespace m) \<and> utf8 (pub_name m) \<and> pub_track_alias m \<le> varint_max \<and> (\<forall>l. pub_largest m = Some l \<longrightarrow> loc_group l \<le> varint_max \<and> loc_object l \<le> varint_max)"
| "cm_ok v (CmPublishOk m) \<longleftrightarrow> reply_ok v (pok_request_id m) \<and> (v = Draft14 \<longrightarrow> pok_filter_type m = NextGroup \<or> pok_filter_type m = LargestObject)"
| "cm_ok v (CmPublishError m) \<longleftrightarrow> perr_request_id m \<le> varint_max \<and> perr_error_code m \<le> varint_max \<and> utf8 (perr_reason m)"
| "cm_ok v (CmPublishDone m) \<longleftrightarrow> reply_ok v (pdone_request_id m) \<and> pdone_status_code m \<le> varint_max \<and> pdone_stream_count m \<le> varint_max \<and> utf8 (pdone_reason m)"
| "cm_ok v (CmPublishNamespace m) \<longleftrightarrow> pns_request_id m \<le> varint_max \<and> ns_ok (pns_namespace m)"
| "cm_ok v (CmPublishNamespaceOk m) \<longleftrightarrow> pnok_request_id m \<le> varint_max"
| "cm_ok v (CmPublishNamespaceError m) \<longleftrightarrow> pnerr_request_id m \<le> varint_max \<and> pnerr_error_code m \<le> varint_max \<and> utf8 (pnerr_reason m)"
| "cm_ok v (CmPublishNamespaceDone m) \<longleftrightarrow> draft14_16 v \<and> pndone_request_id m \<le> varint_max \<and> ns_ok (pndone_namespace m)"
| "cm_ok v (CmPublishNamespaceCancel m) \<longleftrightarrow> draft14_16 v \<and> pncan_request_id m \<le> varint_max \<and> ns_ok (pncan_namespace m) \<and> pncan_error_code m \<le> varint_max \<and> utf8 (pncan_reason m)"
| "cm_ok v (CmSubscribeNamespace m) \<longleftrightarrow> \<not> is_legacy_version v \<and> sns_request_id m \<le> varint_max \<and> ns_ok (sns_namespace m)"
| "cm_ok v (CmSubscribeNamespaceLegacy m) \<longleftrightarrow> is_legacy_version v \<and> snl_request_id m \<le> varint_max \<and> ns_ok (snl_namespace m) \<and> snl_options m \<le> varint_max"
| "cm_ok v (CmSubscribeNamespaceOk m) \<longleftrightarrow> snok_request_id m \<le> varint_max"
| "cm_ok v (CmSubscribeNamespaceError m) \<longleftrightarrow> snerr_request_id m \<le> varint_max \<and> snerr_error_code m \<le> varint_max \<and> utf8 (snerr_reason m)"
| "cm_ok v (CmUnsubscribeNamespace m) \<longleftrightarrow> unsns_request_id m \<le> varint_max"
| "cm_ok v (CmNamespace m) \<longleftrightarrow> ns_ok (nspc_suffix m)"
| "cm_ok v (CmNamespaceDone m) \<longleftrightarrow> ns_ok (nsdone_suffix m)"
| "cm_ok v (CmPublishBlocked m) \<longleftrightarrow> v = Draft17 \<and> ns_ok (pblk_suffix m) \<and> utf8 (pblk_name m)"
| "cm_ok v (CmFetch m) \<longleftrightarrow> ifetch_request_id m \<le> varint_max \<and> fetch_kind_ok (ifetch_kind m)"
| "cm_ok v (CmFetchOk m) \<longleftrightarrow> reply_ok v (fok_request_id m) \<and> loc_group (fok_end_location m) \<le> varint_max \<and> loc_object (fok_end_location m) \<le> varint_max"
| "cm_ok v (CmFetchError m) \<longleftrightarrow> ferr_request_id m \<le> varint_max \<and> ferr_error_code m \<le> varint_max \<and> utf8 (ferr_reason m)"
| "cm_ok v (CmFetchCancel m) \<longleftrightarrow> fcan_request_id m \<le> varint_max"
| "cm_ok v (CmTrackStatus m) \<longleftrightarrow> ts_request_id m \<le> varint_max \<and> ns_ok (ts_namespace m) \<and> utf8 (ts_name m)"
| "cm_ok v (CmGoaway m) \<longleftrightarrow> utf8 (igoaway_uri m) \<and> igoaway_timeout m \<le> varint_max"
| "cm_ok v (CmMaxRequestId m) \<longleftrightarrow> maxrid_request_id m \<le> varint_max"
| "cm_ok v (CmRequestsBlocked m) \<longleftrightarrow> blocked_request_id m \<le> varint_max"
| "cm_ok v (CmRequestOk m) \<longleftrightarrow> reply_ok v (rok_request_id m)"
| "cm_ok v (CmRequestError m) \<longleftrightarrow> reply_ok v (rerr_request_id m) \<and> rerr_error_code m \<le> varint_max \<and> rerr_retry_interval m \<le> varint_max \<and> utf8 (rerr_reason m)"

fun cm_text :: "control_message \<Rightarrow> nat" where
  "cm_text (CmSubscribe m) = length (isub_namespace m) + length (isub_name m)"
| "cm_text (CmSubscribeOk m) = 0"
| "cm_text (CmSubscribeError m) = length (serr_reason m)"
| "cm_text (CmUnsubscribe m) = 0"
| "cm_text (CmSubscribeUpdate m) = 0"
| "cm_text (CmPublish m) = length (pub_namespace m) + length (pub_name m)"
| "cm_text (CmPublishOk m) = 0"
| "cm_text (CmPublishError m) = length (perr_reason m)"
| "cm_text (CmPublishDone m) = length (pdone_reason m)"
| "cm_text (CmPublishNamespace m) = length (pns_namespace m)"
| "cm_text (CmPublishNamespaceOk m) = 0"
| "cm_text (CmPublishNamespaceError m) = length (pnerr_reason m)"
| "cm_text (CmPublishNamespaceDone m) = length (pndone_namespace m)"
| "cm_text (CmPublishNamespaceCancel m) = length (pncan_namespace m) + length (pncan_reason m)"
| "cm_text (CmSubscribeNamespace m) = length (sns_namespace m)"
| "cm_text (CmSubscribeNamespaceLegacy m) = length (snl_namespace m)"
| "cm_text (CmSubscribeNamespaceOk m) = 0"
| "cm_text (CmSubscribeNamespaceError m) = length (snerr_reason m)"
| "cm_text (CmUnsubscribeNamespace m) = 0"
| "cm_text (CmNamespace m) = length (nspc_suffix m)"
| "cm_text (CmNamespaceDone m) = length (nsdone_suffix m)"
| "cm_text (CmPublishBlocked m) = length (pblk_suffix m) + length (pblk_name m)"
| "cm_text (CmFetch m) = fetch_kind_length (ifetch_kind m)"
| "cm_text (CmFetchOk m) = 0"
| "cm_text (CmFetchError m) = length (ferr_reason m)"
| "cm_text (CmFetchCancel m) = 0"
| "cm_text (CmTrackStatus m) = length (ts_namespace m) + length (ts_name m)"
| "cm_text (CmGoaway m) = length (igoaway_uri m)"
| "cm_text (CmMaxRequestId m) = 0"
| "cm_text (CmRequestsBlocked m) = 0"
| "cm_text (CmRequestOk m) = 0"
| "cm_text (CmRequestError m) = length (rerr_reason m)"

fun cm_seen :: "ietf_version \<Rightarrow> control_message \<Rightarrow> control_message" where
  "cm_seen v (CmSubscribe m) = CmSubscribe (ietf_subscribe_seen v m)"
| "cm_seen v (CmSubscribeOk m) = CmSubscribeOk m"
| "cm_seen v (CmSubscribeError m) = CmSubscribeError m"
| "cm_seen v (CmUnsubscribe m) = CmUnsubscribe m"
| "cm_seen v (CmSubscribeUpdate m) = CmSubscribeUpdate (ietf_subscribe_update_seen v m)"
| "cm_seen v (CmPublish m) = CmPublish (publish_seen v m)"
| "cm_seen v (CmPublishOk m) = CmPublishOk (publish_ok_seen v m)"
| "cm_seen v (CmPublishError m) = CmPublishError m"
| "cm_seen v (CmPublishDone m) = CmPublishDone m"
| "cm_seen v (CmPublishNamespace m) = CmPublishNamespace m"
| "cm_seen v (CmPublishNamespaceOk m) = CmPublishNamespaceOk m"
| "cm_seen v (CmPublishNamespaceError m) = CmPublishNamespaceError m"
| "cm_seen v (CmPublishNamespaceDone m) = CmPublishNamespaceDone (publish_namespace_done_seen v m)"
| "cm_seen v (CmPublishNamespaceCancel m) = CmPublishNamespaceCancel (publish_namespace_cancel_seen v m)"
| "cm_seen v (CmSubscribeNamespace m) = CmSubscribeNamespace m"
| "cm_seen v (CmSubscribeNamespaceLegacy m) = CmSubscribeNamespaceLegacy (subscribe_namespace_legacy_seen v m)"
| "cm_seen v (CmSubscribeNamespaceOk m) = CmSubscribeNamespaceOk m"
| "cm_seen v (CmSubscribeNamespaceError m) = CmSubscribeNamespaceError m"
| "cm_seen v (CmUnsubscribeNamespace m) = CmUnsubscribeNamespace m"
| "cm_seen v (CmNamespace m) = CmNamespace m"
| "cm_seen v (CmNamespaceDone m) = CmNamespaceDone m"
| "cm_seen v (CmPublishBlocked m) = CmPublishBlocked m"
| "cm_seen v (CmFetch m) = CmFetch (ietf_fetch_seen v m)"
| "cm_seen v (CmFetchOk m) = CmFetchOk (fetch_ok_seen v m)"
| "cm_seen v (CmFetchError m) = CmFetchError m"
| "cm_seen v (CmFetchCancel m) = CmFetchCancel m"
| "cm_seen v (CmTrackStatus m) = CmTrackStatus m"
| "cm_seen v (CmGoaway m) = CmGoaway (ietf_goaway_seen v m)"
| "cm_seen v (CmMaxRequestId m) = CmMaxRequestId m"
| "cm_seen v (CmRequestsBlocked m) = CmRequestsBlocked m"
| "cm_seen v (CmRequestOk m) = CmRequestOk m"
| "cm_seen v (CmRequestError m) = CmRequestError (request_error_seen v m)"

definition cm_size :: "control_message \<Rightarrow> nat" where
  "cm_size m = 450 + cm_text m"

lemma emits_whole_map:
  assumes "emits_whole content e sz d a"
  shows "emits_whole content e sz (dbind d (\<lambda>m. dret (f m))) (f a)"
  unfolding emits_whole_def
proof (intro allI impI)
  fix w w'
  assume "e w = Inr w'"
  from emits_wholeE [OF assms this] obtain bs where "content w' = content w @ bs" "\<forall>s. sz s = Inr (sizer_add (length bs) s)"
    "d bs = Inr (a, [])" .
  then show "\<exists>bs. content w' = content w @ bs \<and> (\<forall>s. sz s = Inr (sizer_add (length bs) s)) \<and> dbind d (\<lambda>m. dret (f m)) bs = Inr (f a, [])"
    by (intro exI [of _ bs]) (simp add: dbind_def dret_def)
qed

context writer
begin

lemma fetch_type_writes [size_intros]:
  assumes "fetch_kind_ok k" "fetch_kind_length k \<le> 0xFFFF"
  shows "writes B (fetch_type_encode B v k) (fetch_type_encode sizer_writer v k) (350 + fetch_kind_length k)"
  by (insert assms, cases k; simp add: ns_ok_def namespace_ok_def;
      (rule writes_mono, (rule writes_bind size_intros | (simp add: unat_varint_max; fail))+))

lemma cm_emits:
  assumes "cm_ok v m"
  shows "emits_whole content (cm_encode B v m) (cm_encode sizer_writer v m) (cm_decode v m) (cm_seen v m)"
  using assms
proof (cases m)
  case (CmSubscribe x)
  with assms show ?thesis by - (simp, rule emits_whole_map, rule emits_whole, rule ietf_subscribe_emits; auto simp: ns_ok_def)
next
  case (CmSubscribeOk x)
  with assms show ?thesis by - (simp, rule emits_whole_map, rule ietf_subscribe_ok_emits; auto simp: ns_ok_def)
next
  case (CmSubscribeError x)
  with assms show ?thesis by - (simp, rule emits_whole_map, rule emits_whole, rule subscribe_error_emits; auto simp: ns_ok_def)
next
  case (CmUnsubscribe x)
  with assms show ?thesis by - (simp, rule emits_whole_map, rule emits_whole, rule unsubscribe_emits; auto simp: ns_ok_def)
next
  case (CmSubscribeUpdate x)
  with assms show ?thesis by - (simp, rule emits_whole_map, rule emits_whole, rule ietf_subscribe_update_emits; auto simp: ns_ok_def)
next
  case (CmPublish x)
  with assms show ?thesis by - (simp, rule emits_whole_map, rule publish_emits; auto simp: ns_ok_def)
next
  case (CmPublishOk x)
  with assms show ?thesis by - (simp, rule emits_whole_map, rule emits_whole, rule publish_ok_emits; auto simp: ns_ok_def)
next
  case (CmPublishError x)
  with assms show ?thesis by - (simp, rule emits_whole_map, rule emits_whole, rule publish_error_emits; auto simp: ns_ok_def)
next
  case (CmPublishDone x)
  with assms show ?thesis by - (simp, rule emits_whole_map, rule emits_whole, rule publish_done_emits; auto simp: ns_ok_def)
next
  case (CmPublishNamespace x)
  with assms show ?thesis by - (simp, rule emits_whole_map, rule emits_whole, rule publish_namespace_emits; auto simp: ns_ok_def)
next
  case (CmPublishNamespaceOk x)
  with assms show ?thesis by - (simp, rule emits_whole_map, rule emits_whole, rule publish_namespace_ok_emits; auto simp: ns_ok_def)
next
  case (CmPublishNamespaceError x)
  with assms show ?thesis by - (simp, rule emits_whole_map, rule emits_whole, rule publish_namespace_error_emits; auto simp: ns_ok_def)
next
  case (CmPublishNamespaceDone x)
  with assms show ?thesis by - (simp, rule emits_whole_map, rule emits_whole, rule publish_namespace_done_emits; auto simp: ns_ok_def)
next
  case (CmPublishNamespaceCancel x)
  with assms show ?thesis by - (simp, rule emits_whole_map, rule emits_whole, rule publish_namespace_cancel_emits; auto simp: ns_ok_def)
next
  case (CmSubscribeNamespace x)
  with assms show ?thesis by - (simp, rule emits_whole_map, rule emits_whole, rule subscribe_namespace_emits; auto simp: ns_ok_def)
next
  case (CmSubscribeNamespaceLegacy x)
  with assms show ?thesis by - (simp, rule emits_whole_map, rule emits_whole, rule subscribe_namespace_legacy_emits; auto simp: ns_ok_def)
next
  case (CmSubscribeNamespaceOk x)
  with assms show ?thesis by - (simp, rule emits_whole_map, rule emits_whole, rule subscribe_namespace_ok_emits; auto simp: ns_ok_def)
next
  case (CmSubscribeNamespaceError x)
  with assms show ?thesis by - (simp, rule emits_whole_map, rule emits_whole, rule subscribe_namespace_error_emits; auto simp: ns_ok_def)
next
  case (CmUnsubscribeNamespace x)
  with assms show ?thesis by - (simp, rule emits_whole_map, rule emits_whole, rule unsubscribe_namespace_emits; auto simp: ns_ok_def)
next
  case (CmNamespace x)
  with assms show ?thesis by - (simp, rule emits_whole_map, rule emits_whole, rule namespace_msg_emits; auto simp: ns_ok_def)
next
  case (CmNamespaceDone x)
  with assms show ?thesis by - (simp, rule emits_whole_map, rule emits_whole, rule namespace_done_emits; auto simp: ns_ok_def)
next
  case (CmPublishBlocked x)
  with assms show ?thesis by - (simp, rule emits_whole_map, rule emits_whole, rule publish_blocked_emits; auto simp: ns_ok_def)
next
  case (CmFetch x)
  with assms show ?thesis by - (simp, rule emits_whole_map, rule emits_whole, rule ietf_fetch_emits; auto simp: ns_ok_def)
next
  case (CmFetchOk x)
  with assms show ?thesis by - (simp, rule emits_whole_map, rule fetch_ok_emits; auto simp: ns_ok_def)
next
  case (CmFetchError x)
  with assms show ?thesis by - (simp, rule emits_whole_map, rule emits_whole, rule fetch_error_emits; auto simp: ns_ok_def)
next
  case (CmFetchCancel x)
  with assms show ?thesis by - (simp, rule emits_whole_map, rule emits_whole, rule fetch_cancel_emits; auto simp: ns_ok_def)
next
  case (CmTrackStatus x)
  with assms show ?thesis by - (simp, rule emits_whole_map, rule emits_whole, rule track_status_emits; auto simp: ns_ok_def)
next
  case (CmGoaway x)
  with assms show ?thesis by - (simp, rule emits_whole_map, rule ietf_goaway_emits; auto simp: ns_ok_def)
next
  case (CmMaxRequestId x)
  with assms show ?thesis by - (simp, rule emits_whole_map, rule emits_whole, rule max_request_id_emits; auto simp: ns_ok_def)
next
  case (CmRequestsBlocked x)
  with assms show ?thesis by - (simp, rule emits_whole_map, rule emits_whole, rule requests_blocked_emits; auto simp: ns_ok_def)
next
  case (CmRequestOk x)
  with assms show ?thesis by - (simp, rule emits_whole_map, rule emits_whole, rule request_ok_emits; auto simp: ns_ok_def)
next
  case (CmRequestError x)
  with assms show ?thesis by - (simp, rule emits_whole_map, rule emits_whole, rule request_error_emits; auto simp: ns_ok_def)
qed

lemma cm_writes:
  assumes "cm_ok v m" "cm_size m \<le> 0xFFFF"
  shows "writes B (cm_encode B v m) (cm_encode sizer_writer v m) (cm_size m)"
  using assms
proof (cases m)
  case (CmSubscribe x)
  with assms show ?thesis
    by - (cases "v = Draft14"; simp add: cm_size_def ietf_subscribe_encode_msg_def ns_ok_def namespace_ok_def reply_ok_def del: draft14_16.simps is_legacy_version.simps;
      (rule writes_mono, (rule writes_bind writes_enil size_intros | (simp add: unat_varint_max word_le_nat_alt; fail))+))
next
  case (CmSubscribeOk x)
  with assms show ?thesis
    by - (cases "v = Draft14"; simp add: cm_size_def ietf_subscribe_ok_encode_msg_def ns_ok_def namespace_ok_def reply_ok_def del: draft14_16.simps is_legacy_version.simps;
      (rule writes_mono, (rule writes_bind writes_enil size_intros | (simp add: unat_varint_max word_le_nat_alt; fail))+))
next
  case (CmSubscribeError x)
  with assms show ?thesis
    by - (simp add: cm_size_def subscribe_error_encode_msg_def ns_ok_def namespace_ok_def reply_ok_def del: draft14_16.simps is_legacy_version.simps;
      (rule writes_mono, (rule writes_bind writes_enil size_intros | (simp add: unat_varint_max word_le_nat_alt; fail))+))
next
  case (CmUnsubscribe x)
  with assms show ?thesis
    by - (simp add: cm_size_def unsubscribe_encode_msg_def ns_ok_def namespace_ok_def reply_ok_def del: draft14_16.simps is_legacy_version.simps;
      (rule writes_mono, (rule writes_bind writes_enil size_intros | (simp add: unat_varint_max word_le_nat_alt; fail))+))
next
  case (CmSubscribeUpdate x)
  with assms show ?thesis
    by - (cases v; cases "isup_subscription_id x"; simp add: cm_size_def ietf_subscribe_update_encode_msg_def update_params_def ns_ok_def namespace_ok_def reply_ok_def del: draft14_16.simps is_legacy_version.simps;
      (rule writes_mono, (rule writes_bind writes_enil size_intros | (simp add: unat_varint_max word_le_nat_alt; fail))+))
next
  case (CmPublish x)
  with assms show ?thesis
    by - (cases "v = Draft14"; cases "pub_largest x"; simp add: cm_size_def publish_encode_msg_def ns_ok_def namespace_ok_def reply_ok_def del: draft14_16.simps is_legacy_version.simps;
      (rule writes_mono, (rule writes_bind writes_enil size_intros | (simp add: unat_varint_max word_le_nat_alt; fail))+))
next
  case (CmPublishOk x)
  with assms show ?thesis
    by - (cases "v = Draft14"; simp add: cm_size_def publish_ok_encode_msg_def ns_ok_def namespace_ok_def reply_ok_def del: draft14_16.simps is_legacy_version.simps;
      (rule writes_mono, (rule writes_bind writes_enil size_intros | (simp add: unat_varint_max word_le_nat_alt; fail))+))
next
  case (CmPublishError x)
  with assms show ?thesis
    by - (simp add: cm_size_def publish_error_encode_msg_def ns_ok_def namespace_ok_def reply_ok_def del: draft14_16.simps is_legacy_version.simps;
      (rule writes_mono, (rule writes_bind writes_enil size_intros | (simp add: unat_varint_max word_le_nat_alt; fail))+))
next
  case (CmPublishDone x)
  with assms show ?thesis
    by - (simp add: cm_size_def publish_done_encode_msg_def ns_ok_def namespace_ok_def reply_ok_def del: draft14_16.simps is_legacy_version.simps;
      (rule writes_mono, (rule writes_bind writes_enil size_intros | (simp add: unat_varint_max word_le_nat_alt; fail))+))
next
  case (CmPublishNamespace x)
  with assms show ?thesis
    by - (simp add: cm_size_def publish_namespace_encode_msg_def ns_ok_def namespace_ok_def reply_ok_def del: draft14_16.simps is_legacy_version.simps;
      (rule writes_mono, (rule writes_bind writes_enil size_intros | (simp add: unat_varint_max word_le_nat_alt; fail))+))
next
  case (CmPublishNamespaceOk x)
  with assms show ?thesis
    by - (simp add: cm_size_def publish_namespace_ok_encode_msg_def ns_ok_def namespace_ok_def reply_ok_def del: draft14_16.simps is_legacy_version.simps;
      (rule writes_mono, (rule writes_bind writes_enil size_intros | (simp add: unat_varint_max word_le_nat_alt; fail))+))
next
  case (CmPublishNamespaceError x)
  with assms show ?thesis
    by - (simp add: cm_size_def publish_namespace_error_encode_msg_def ns_ok_def namespace_ok_def reply_ok_def del: draft14_16.simps is_legacy_version.simps;
      (rule writes_mono, (rule writes_bind writes_enil size_intros | (simp add: unat_varint_max word_le_nat_alt; fail))+))
next
  case (CmPublishNamespaceDone x)
  with assms show ?thesis
    by - (cases v; simp add: cm_size_def publish_namespace_done_encode_msg_def ns_ok_def namespace_ok_def reply_ok_def del: draft14_16.simps is_legacy_version.simps;
      (rule writes_mono, (rule writes_bind writes_enil size_intros | (simp add: unat_varint_max word_le_nat_alt; fail))+))
next
  case (CmPublishNamespaceCancel x)
  with assms show ?thesis
    by - (cases v; simp add: cm_size_def publish_namespace_cancel_encode_msg_def ns_ok_def namespace_ok_def reply_ok_def del: draft14_16.simps is_legacy_version.simps;
      (rule writes_mono, (rule writes_bind writes_enil size_intros | (simp add: unat_varint_max word_le_nat_alt; fail))+))
next
  case (CmSubscribeNamespace x)
  with assms show ?thesis
    by - (simp add: cm_size_def subscribe_namespace_encode_msg_def ns_ok_def namespace_ok_def reply_ok_def del: draft14_16.simps is_legacy_version.simps;
      (rule writes_mono, (rule writes_bind writes_enil size_intros | (simp add: unat_varint_max word_le_nat_alt; fail))+))
next
  case (CmSubscribeNamespaceLegacy x)
  with assms show ?thesis
    by - (cases v; simp add: cm_size_def subscribe_namespace_legacy_encode_msg_def ns_ok_def namespace_ok_def reply_ok_def del: draft14_16.simps is_legacy_version.simps;
      (rule writes_mono, (rule writes_bind writes_enil size_intros | (simp add: unat_varint_max word_le_nat_alt; fail))+))
next
  case (CmSubscribeNamespaceOk x)
  with assms show ?thesis
    by - (simp add: cm_size_def subscribe_namespace_ok_encode_msg_def ns_ok_def namespace_ok_def reply_ok_def del: draft14_16.simps is_legacy_version.simps;
      (rule writes_mono, (rule writes_bind writes_enil size_intros | (simp add: unat_varint_max word_le_nat_alt; fail))+))
next
  case (CmSubscribeNamespaceError x)
  with assms show ?thesis
    by - (simp add: cm_size_def subscribe_namespace_error_encode_msg_def ns_ok_def namespace_ok_def reply_ok_def del: draft14_16.simps is_legacy_version.simps;
      (rule writes_mono, (rule writes_bind writes_enil size_intros | (simp add: unat_varint_max word_le_nat_alt; fail))+))
next
  case (CmUnsubscribeNamespace x)
  with assms show ?thesis
    by - (simp add: cm_size_def unsubscribe_namespace_encode_msg_def ns_ok_def namespace_ok_def reply_ok_def del: draft14_16.simps is_legacy_version.simps;
      (rule writes_mono, (rule writes_bind writes_enil size_intros | (simp add: unat_varint_max word_le_nat_alt; fail))+))
next
  case (CmNamespace x)
  with assms show ?thesis
    by - (simp add: cm_size_def namespace_msg_encode_msg_def ns_ok_def namespace_ok_def reply_ok_def del: draft14_16.simps is_legacy_version.simps;
      (rule writes_mono, (rule writes_bind writes_enil size_intros | (simp add: unat_varint_max word_le_nat_alt; fail))+))
next
  case (CmNamespaceDone x)
  with assms show ?thesis
    by - (simp add: cm_size_def namespace_done_encode_msg_def ns_ok_def namespace_ok_def reply_ok_def del: draft14_16.simps is_legacy_version.simps;
      (rule writes_mono, (rule writes_bind writes_enil size_intros | (simp add: unat_varint_max word_le_nat_alt; fail))+))
next
  case (CmPublishBlocked x)
  with assms show ?thesis
    by - (simp add: cm_size_def publish_blocked_encode_msg_def ns_ok_def namespace_ok_def reply_ok_def del: draft14_16.simps is_legacy_version.simps;
      (rule writes_mono, (rule writes_bind writes_enil size_intros | (simp add: unat_varint_max word_le_nat_alt; fail))+))
next
  case (CmFetch x)
  with assms show ?thesis
    by - (cases "v = Draft14"; simp add: cm_size_def ietf_fetch_encode_msg_def ns_ok_def namespace_ok_def reply_ok_def del: draft14_16.simps is_legacy_version.simps;
      (rule writes_mono, (rule writes_bind writes_enil size_intros | (simp add: unat_varint_max word_le_nat_alt; fail))+))
next
  case (CmFetchOk x)
  with assms show ?thesis
    by - (cases "v = Draft14"; simp add: cm_size_def fetch_ok_encode_msg_def ns_ok_def namespace_ok_def reply_ok_def del: draft14_16.simps is_legacy_version.simps;
      (rule writes_mono, (rule writes_bind writes_enil size_intros | (simp add: unat_varint_max word_le_nat_alt; fail))+))
next
  case (CmFetchError x)
  with assms show ?thesis
    by - (simp add: cm_size_def fetch_error_encode_msg_def ns_ok_def namespace_ok_def reply_ok_def del: draft14_16.simps is_legacy_version.simps;
      (rule writes_mono, (rule writes_bind writes_enil size_intros | (simp add: unat_varint_max word_le_nat_alt; fail))+))
next
  case (CmFetchCancel x)
  with assms show ?thesis
    by - (simp add: cm_size_def fetch_cancel_encode_msg_def ns_ok_def namespace_ok_def reply_ok_def del: draft14_16.simps is_legacy_version.simps;
      (rule writes_mono, (rule writes_bind writes_enil size_intros | (simp add: unat_varint_max word_le_nat_alt; fail))+))
next
  case (CmTrackStatus x)
  with assms show ?thesis
    by - (cases "v = Draft14"; simp add: cm_size_def track_status_encode_msg_def ns_ok_def namespace_ok_def reply_ok_def del: draft14_16.simps is_legacy_version.simps;
      (rule writes_mono, (rule writes_bind writes_enil size_intros | (simp add: unat_varint_max word_le_nat_alt; fail))+))
next
  case (CmGoaway x)
  with assms show ?thesis
    by - (cases v; simp add: cm_size_def ietf_goaway_encode_msg_def;
      (rule writes_mono, (rule writes_bind writes_enil size_intros | (simp add: unat_varint_max word_le_nat_alt; fail))+))
next
  case (CmMaxRequestId x)
  with assms show ?thesis
    by - (simp add: cm_size_def max_request_id_encode_msg_def ns_ok_def namespace_ok_def reply_ok_def del: draft14_16.simps is_legacy_version.simps;
      (rule writes_mono, (rule writes_bind writes_enil size_intros | (simp add: unat_varint_max word_le_nat_alt; fail))+))
next
  case (CmRequestsBlocked x)
  with assms show ?thesis
    by - (simp add: cm_size_def requests_blocked_encode_msg_def ns_ok_def namespace_ok_def reply_ok_def del: draft14_16.simps is_legacy_version.simps;
      (rule writes_mono, (rule writes_bind writes_enil size_intros | (simp add: unat_varint_max word_le_nat_alt; fail))+))
next
  case (CmRequestOk x)
  with assms show ?thesis
    by - (simp add: cm_size_def request_ok_encode_msg_def ns_ok_def namespace_ok_def reply_ok_def del: draft14_16.simps is_legacy_version.simps;
      (rule writes_mono, (rule writes_bind writes_enil size_intros | (simp add: unat_varint_max word_le_nat_alt; fail))+))
next
  case (CmRequestError x)
  with assms show ?thesis
    by - (cases v; simp add: cm_size_def request_error_encode_msg_def ns_ok_def namespace_ok_def reply_ok_def del: draft14_16.simps is_legacy_version.simps;
      (rule writes_mono, (rule writes_bind writes_enil size_intros | (simp add: unat_varint_max word_le_nat_alt; fail))+))
qed

end

text \<open>
  C21: Every control message of the IETF drafts that the version has, with fields in range and at most
  \<open>0xFFFF\<close> bytes, is written with its size prefix by any writer with the room; the size field counts the
  body exactly; the peer decodes what the version carries of it and nothing after it; and every proper
  prefix of the message decodes to \<open>Short\<close>. A group order of 0 is in range also in PUBLISH and PUBLISH_OK, where the
  drafts call it a protocol error: the code writes and accepts it.
\<close>

theorem ietf_control_message_wire:
  assumes "writer B content" "cm_ok v m" "cm_size m \<le> 0xFFFF"
  shows "delivers B content (ietf_message_encode (cm_encode sizer_writer v m) (cm_encode B v m) B)
     (ietf_message_encode (cm_encode sizer_writer v m) (cm_encode sizer_writer v m) sizer_writer)
     (ietf_message_decode (cm_decode v m)) (cm_seen v m) (2 + cm_size m)"
  using assms
  by (intro deliversI writer.ietf_message_emits writer.cm_emits writer.ietf_message_writes writer.cm_writes)

theorem ietf_control_message_wire_witness:
  "\<exists>m. isub_namespace m = ''live/cam'' \<and> isub_group_order m = AnyOrder \<and>
     delivers bytes_mut (\<lambda>out. out)
       (ietf_message_encode (ietf_subscribe_encode_msg sizer_writer Draft17 m) (ietf_subscribe_encode_msg bytes_mut Draft17 m) bytes_mut)
       (ietf_message_encode (ietf_subscribe_encode_msg sizer_writer Draft17 m) (ietf_subscribe_encode_msg sizer_writer Draft17 m) sizer_writer)
       (ietf_message_decode (dbind (ietf_subscribe_decode_msg Draft17) (\<lambda>m. dret (CmSubscribe m))))
       (CmSubscribe (m\<lparr>isub_group_order := Descending\<rparr>)) 465"
proof -
  let ?m = "\<lparr>isub_request_id = 4, isub_namespace = ''live/cam'', isub_name = ''video'', isub_priority = 7,
    isub_group_order = AnyOrder, isub_filter_type = NextGroup\<rparr>"
  have "delivers bytes_mut (\<lambda>out. out)
       (ietf_message_encode (cm_encode sizer_writer Draft17 (CmSubscribe ?m)) (cm_encode bytes_mut Draft17 (CmSubscribe ?m)) bytes_mut)
       (ietf_message_encode (cm_encode sizer_writer Draft17 (CmSubscribe ?m)) (cm_encode sizer_writer Draft17 (CmSubscribe ?m)) sizer_writer)
       (ietf_message_decode (cm_decode Draft17 (CmSubscribe ?m))) (cm_seen Draft17 (CmSubscribe ?m)) (2 + cm_size (CmSubscribe ?m))"
    by (rule ietf_control_message_wire [OF bytes_mut.writer_axioms])
      (simp_all add: ns_ok_def namespace_ok_def parts_def path_ok_def as_bytes_def byte_of_char_def varint_max_def push_bit_of_1 cm_size_def)
  then show ?thesis
    by (intro exI [of _ ?m]) (simp add: cm_size_def ietf_subscribe_seen_def order_seen_def)
qed

text \<open>
  C30: A group header whose flags do not ask for both kinds of subgroup id, with ids in range, is written at
  every draft; the peer reads the same header, with the default priority 128 when the flags leave the
  priority out, and a truncated header is reported as \<open>Short\<close>.
\<close>

theorem group_header_wire:
  assumes "writer B content" "group_header_ok m"
  shows "delivers B content (group_header_encode B v m) (group_header_encode sizer_writer v m)
     (group_header_decode v) (group_header_seen m) 37"
  using assms by (intro deliversI writer.group_header_emits writer.group_header_writes)

theorem group_header_wire_witness:
  "delivers bytes_mut (\<lambda>out. out)
     (group_header_encode bytes_mut Draft18 \<lparr>gh_track_alias = 5, gh_group_id = 7, gh_sub_group_id = 0, gh_publisher_priority = 3, gh_flags = group_flags_default\<rparr>)
     (group_header_encode sizer_writer Draft18 \<lparr>gh_track_alias = 5, gh_group_id = 7, gh_sub_group_id = 0, gh_publisher_priority = 3, gh_flags = group_flags_default\<rparr>)
     (group_header_decode Draft18)
     \<lparr>gh_track_alias = 5, gh_group_id = 7, gh_sub_group_id = 0, gh_publisher_priority = 3, gh_flags = group_flags_default\<rparr> 37"
  using group_header_wire [OF bytes_mut.writer_axioms, of "\<lparr>gh_track_alias = 5, gh_group_id = 7, gh_sub_group_id = 0,
      gh_publisher_priority = 3, gh_flags = group_flags_default\<rparr>" Draft18]
  by (simp add: group_header_ok_def group_header_seen_def group_flags_default_def varint_max_def push_bit_of_1)

end
