(* ===== verification/Ietf_Session.thy ===== *)
theory Ietf_Session
  imports Handshake Ietf_Wire
begin

unbundle bit_operations_syntax

text \<open>
  How a moq-transport session takes in streams (\<open>relay/rs/moq-net/src/ietf/session.rs\<close>, and \<open>handle_stream\<close> of
  \<open>publisher.rs\<close> and \<open>subscriber.rs\<close>): unidirectional streams carry groups, or SETUP and then GOAWAY; a
  bidirectional stream opens with one request. A loop that serves a stream is modelled by what it does
  with one stream; the tasks it spawns run on their own.
\<close>

section \<open>Message types\<close>

fun cm_id :: "control_message \<Rightarrow> u64" where
  "cm_id (CmSubscribe _) = 0x03"
| "cm_id (CmSubscribeOk _) = 0x04"
| "cm_id (CmSubscribeError _) = 0x05"
| "cm_id (CmUnsubscribe _) = 0x0a"
| "cm_id (CmSubscribeUpdate _) = 0x02"
| "cm_id (CmPublish _) = 0x1D"
| "cm_id (CmPublishOk _) = 0x1E"
| "cm_id (CmPublishError _) = 0x1F"
| "cm_id (CmPublishDone _) = 0x0b"
| "cm_id (CmPublishNamespace _) = 0x06"
| "cm_id (CmPublishNamespaceOk _) = 0x07"
| "cm_id (CmPublishNamespaceError _) = 0x08"
| "cm_id (CmPublishNamespaceDone _) = 0x09"
| "cm_id (CmPublishNamespaceCancel _) = 0x0c"
| "cm_id (CmSubscribeNamespace _) = 0x50"
| "cm_id (CmSubscribeNamespaceLegacy _) = 0x11"
| "cm_id (CmSubscribeNamespaceOk _) = 0x12"
| "cm_id (CmSubscribeNamespaceError _) = 0x13"
| "cm_id (CmUnsubscribeNamespace _) = 0x14"
| "cm_id (CmNamespace _) = 0x08"
| "cm_id (CmNamespaceDone _) = 0x0E"
| "cm_id (CmPublishBlocked _) = 0x0F"
| "cm_id (CmFetch _) = 0x16"
| "cm_id (CmFetchOk _) = 0x18"
| "cm_id (CmFetchError _) = 0x19"
| "cm_id (CmFetchCancel _) = 0x17"
| "cm_id (CmTrackStatus _) = 0x0d"
| "cm_id (CmGoaway _) = 0x10"
| "cm_id (CmMaxRequestId _) = 0x15"
| "cm_id (CmRequestsBlocked _) = 0x1a"
| "cm_id (CmRequestOk _) = 0x07"
| "cm_id (CmRequestError _) = 0x05"

text \<open>\<open>Writer::encode_message\<close>, and the two calls of \<open>Writer::encode\<close> in its place: the type, then the message.\<close>

definition encode_message :: "'w buf_mut \<Rightarrow> ietf_version \<Rightarrow> control_message \<Rightarrow> (encode_error, 'w) encoder" where
  "encode_message B v m =
     ebind (u64_encode B (Ietf v) (cm_id m)) (ietf_message_encode (cm_encode sizer_writer v m) (cm_encode B v m) B)"

text \<open>The three reads at the head of every stream: the type, the size and the body.\<close>

definition read_message :: "ietf_version \<Rightarrow> reader \<Rightarrow> moq_error + (u64 \<times> byte list) \<times> reader" where
  "read_message v r =
     and_then (reader_decode (u64_decode (Ietf v)) r) (\<lambda>(ty, r).
       and_then (reader_decode u16_decode r) (\<lambda>(sz, r).
         and_then (read_exact (unat sz) r) (\<lambda>(data, r). Inr ((ty, data), r))))"

section \<open>Unidirectional streams\<close>

datatype uni_task =
    UniSetup "moq_error + unit"
  | UniGroup "moq_error + reader"

text \<open>What \<open>run_setup\<close> writes on its stream.\<close>

definition run_setup :: "ietf_version \<Rightarrow> moq_error + byte list" where
  "run_setup v =
     and_then (map_err ErrEncode (encode_bytes (parameters_encode bytes_mut v
         (set_bytes Implementation (as_bytes ''moq-lite-rs'') parameters_default)))) (\<lambda>ps.
       map_err ErrEncode (encode_bytes (setup_encode bytes_mut (Ietf v) \<lparr>setup_parameters = ps\<rparr>)))"

definition run_goaway :: "ietf_version \<Rightarrow> reader \<Rightarrow> moq_error + unit" where
  "run_goaway v r =
     and_then (decode_maybe (u64_decode (Ietf v)) r) (\<lambda>(ty, r).
       case ty of
         None \<Rightarrow> Inr ()
       | Some ty \<Rightarrow>
           and_then (reader_decode u16_decode r) (\<lambda>(sz, r).
             and_then (read_exact (unat sz) r) (\<lambda>(data, r).
               if ty = 0x10 then and_then (map_err ErrDecode (ietf_goaway_decode_msg v data)) (\<lambda>_. Inl ErrUnsupported)
               else Inl ErrUnexpectedMessage)))"

definition run_setup_stream :: "ietf_version \<Rightarrow> reader \<Rightarrow> moq_error + unit" where
  "run_setup_stream v r = and_then (reader_decode (setup_decode (Ietf v)) r) (\<lambda>(_, r). run_goaway v r)"

definition group_stream_type :: "u64 \<Rightarrow> bool" where
  "group_stream_type kind \<longleftrightarrow> kind \<le> 0xff \<and> kind AND 0x90 = 0x10"

definition FETCH_HEADER_TYPE :: u64 where "FETCH_HEADER_TYPE = 0x5"

text \<open>A stream that is a group goes on to \<open>recv_group\<close> with its type still unread.\<close>

definition run_uni_group :: "ietf_version \<Rightarrow> reader \<Rightarrow> moq_error + reader" where
  "run_uni_group v r =
     and_then (reader_peek (u64_decode (Ietf v)) r) (\<lambda>(kind, r).
       if group_stream_type kind then Inr r
       else if kind = FETCH_HEADER_TYPE then Inl ErrUnsupported
       else Inl ErrUnexpectedStream)"

text \<open>One round of \<open>run_unis\<close>: an error ends the session, otherwise a task serves the stream.\<close>

definition run_uni :: "ietf_version \<Rightarrow> reader \<Rightarrow> moq_error + uni_task" where
  "run_uni v r =
     and_then (reader_peek (u64_decode (Ietf v)) r) (\<lambda>(kind, r).
       if kind = SETUP_V17 then Inr (UniSetup (run_setup_stream v r))
       else Inr (UniGroup (run_uni_group v r)))"

section \<open>Bidirectional streams\<close>

datatype handler =
    HandleSubscribe ietf_subscribe
  | HandleFetch ietf_fetch
  | HandleSubscribeNamespace subscribe_namespace
  | HandleNothing
  | HandlePublish publish
  | HandlePublishNamespace publish_namespace

text \<open>A body is decoded whole: what is left of it is an error.\<close>

definition decode_body :: "(decode_error, 'a) decoder \<Rightarrow> byte list \<Rightarrow> moq_error + 'a" where
  "decode_body d data = and_then (map_err ErrDecode (d data)) (\<lambda>(m, rest). if rest \<noteq> [] then Inl ErrWrongSize else Inr m)"

definition publisher_handle :: "ietf_version \<Rightarrow> u64 \<Rightarrow> byte list \<Rightarrow> moq_error + handler" where
  "publisher_handle v ty data =
     (if ty = 0x03 then and_then (decode_body (ietf_subscribe_decode_msg v) data) (\<lambda>m. Inr (HandleSubscribe m))
      else if ty = 0x16 then and_then (decode_body (ietf_fetch_decode_msg v) data) (\<lambda>m. Inr (HandleFetch m))
      else if ty = 0x50 then and_then (decode_body (subscribe_namespace_decode_msg v) data) (\<lambda>m. Inr (HandleSubscribeNamespace m))
      else if ty = 0x11 then and_then (decode_body (subscribe_namespace_legacy_decode_msg v) data) (\<lambda>m.
        Inr (HandleSubscribeNamespace \<lparr>sns_request_id = snl_request_id m, sns_namespace = snl_namespace m\<rparr>))
      else if ty = 0x0d then Inr HandleNothing
      else Inl ErrUnexpectedStream)"

definition subscriber_handle :: "ietf_version \<Rightarrow> u64 \<Rightarrow> byte list \<Rightarrow> moq_error + handler" where
  "subscriber_handle v ty data =
     (if ty = 0x1D then and_then (decode_body (publish_decode_msg v) data) (\<lambda>m. Inr (HandlePublish m))
      else if ty = 0x06 then and_then (decode_body (publish_namespace_decode_msg v) data) (\<lambda>m. Inr (HandlePublishNamespace m))
      else Inl ErrUnexpectedStream)"

text \<open>One round of \<open>run_dispatch\<close>.\<close>

definition dispatch_stream :: "ietf_version \<Rightarrow> reader \<Rightarrow> moq_error + handler \<times> reader" where
  "dispatch_stream v r =
     and_then (read_message v r) (\<lambda>((ty, data), r).
       if ty \<in> {0x03, 0x16, 0x50, 0x11, 0x0d} then and_then (publisher_handle v ty data) (\<lambda>h. Inr (h, r))
       else if ty \<in> {0x1D, 0x06} then and_then (subscriber_handle v ty data) (\<lambda>h. Inr (h, r))
       else Inl ErrUnexpectedStream)"

section \<open>Reading a message that was written\<close>

lemma ietf_message_bytes:
  assumes "emits_whole content e sz d a" "writer B content" "ietf_message_encode sz e B w = Inr w'"
  obtains body where "content w' = content w @ be_bytes 2 (of_nat (length body) :: u16) @ body" "length body \<le> 0xFFFF"
    "d body = Inr (a, [])"
proof -
  obtain s w1 where s: "sz sizer_new = Inr s" "sizer_size s \<le> 0xFFFF" and w1: "u16_encode B (of_nat (sizer_size s)) w = Inr w1"
    and e: "e w1 = Inr w'"
    using assms(3) by (auto simp: ietf_message_encode_def and_then_Inr_conv ebind_Inr_conv split: if_splits)
  obtain body where body: "content w' = content w1 @ body" "\<forall>s. sz s = Inr (sizer_add (length body) s)" "d body = Inr (a, [])"
    by (rule emits_wholeE [OF assms(1) e])
  have n: "sizer_size s = length body" using body(2) s(1) by (metis sizer_size_add sizer_size_new add_0 sum.inject(2))
  have "content w1 = content w @ be_bytes 2 (of_nat (length body) :: u16)"
    using w1 writer.content_put_u16 [OF assms(2)] unfolding n u16_encode_def
    by (auto simp: ebind_Inr_conv check_remaining_def split: if_splits)
  with body s n show thesis by (intro that) simp_all
qed

lemma encode_message_bytes:
  assumes "cm_ok v m" "encode_bytes (encode_message bytes_mut v m) = Inr bs"
  obtains ty body where "u64_encode bytes_mut (Ietf v) (cm_id m) [] = Inr ty" "reads (u64_decode (Ietf v)) ty (cm_id m)"
    "bs = ty @ be_bytes 2 (of_nat (length body) :: u16) @ body" "length body \<le> 0xFFFF" "cm_decode v m body = Inr (cm_seen v m, [])"
proof -
  obtain w where w: "u64_encode bytes_mut (Ietf v) (cm_id m) [] = Inr w"
    "ietf_message_encode (cm_encode sizer_writer v m) (cm_encode bytes_mut v m) bytes_mut w = Inr bs"
    using assms(2) by (auto simp: encode_message_def encode_bytes_def ebind_Inr_conv)
  obtain ty where "w = ty" "reads (u64_decode (Ietf v)) ty (cm_id m)"
    by (rule emitsE [OF bytes_mut.u64_emits w(1)]) simp
  moreover obtain body where "bs = w @ be_bytes 2 (of_nat (length body) :: u16) @ body" "length body \<le> 0xFFFF"
    "cm_decode v m body = Inr (cm_seen v m, [])"
    by (rule ietf_message_bytes [OF bytes_mut.cm_emits [OF assms(1)] bytes_mut.writer_axioms w(2)])
  ultimately show thesis using w(1) by (intro that) simp_all
qed

lemma encode_message_nonempty:
  assumes "cm_ok v m" "encode_bytes (encode_message bytes_mut v m) = Inr bs"
  shows "bs \<noteq> []"
proof -
  obtain ty body where "bs = ty @ be_bytes 2 (of_nat (length body) :: u16) @ body"
    by (rule encode_message_bytes [OF assms]) (rule that)
  then have "2 \<le> length bs" by simp
  then show ?thesis by auto
qed

lemma encode_message_ok:
  assumes "cm_ok v m" "cm_size m \<le> 0xFFFF"
  obtains bs where "encode_bytes (encode_message bytes_mut v m) = Inr bs"
proof -
  have "cm_id m \<le> varint_max" by (cases m) (simp_all add: varint_max_def push_bit_of_1)
  then have w: "writes bytes_mut (encode_message bytes_mut v m) (encode_message sizer_writer v m) (9 + (2 + cm_size m))"
    unfolding encode_message_def
    by (intro writes_bind bytes_mut.u64_writes bytes_mut.ietf_message_writes bytes_mut.cm_writes assms)
  show thesis using that writesD [OF w, of "[]"] assms(2) by (auto simp: encode_bytes_def bytes_mut_def)
qed

lemma read_message_framed:
  assumes "reads (u64_decode (Ietf v)) ty i" "length body \<le> 0xFFFF"
    "unread r = ty @ be_bytes 2 (of_nat (length body) :: u16) @ body @ rest"
  shows "\<exists>r'. read_message v r = Inr ((i, body), r') \<and> unread r' = rest"
proof -
  obtain r1 where r1: "reader_decode (u64_decode (Ietf v)) r = Inr (i, r1)"
    "unread r1 = be_bytes 2 (of_nat (length body) :: u16) @ body @ rest"
    using reader_decode_reads [OF assms(1,3)] by auto
  obtain r2 where r2: "reader_decode u16_decode r1 = Inr (of_nat (length body), r2)" "unread r2 = body @ rest"
    using reader_decode_reads [OF reads_u16 r1(2)] by auto
  have n: "unat (of_nat (length body) :: u16) = length body" using assms(2) by (simp add: unat_of_nat take_bit_nat_eq_self)
  obtain r3 where "read_exact (length body) r2 = Inr (body, r3)" "unread r3 = rest"
    using read_exact_reads [of "length body" r2] r2(2) by auto
  with r1 r2 n show ?thesis by (intro exI [of _ r3]) (simp add: read_message_def)
qed

text \<open>A message read back from a stream, however it arrives: its type, and a body with the fields that the draft carries.\<close>

lemma read_message_written:
  assumes "cm_ok v m" "encode_bytes (encode_message bytes_mut v m) = Inr bs" "unread r = bs @ rest"
  obtains body r' where "read_message v r = Inr ((cm_id m, body), r')" "unread r' = rest"
    "cm_decode v m body = Inr (cm_seen v m, [])"
proof -
  obtain ty body where bs: "reads (u64_decode (Ietf v)) ty (cm_id m)" "bs = ty @ be_bytes 2 (of_nat (length body) :: u16) @ body"
    "length body \<le> 0xFFFF" "cm_decode v m body = Inr (cm_seen v m, [])"
    by (rule encode_message_bytes [OF assms(1,2)]) (rule that)
  with read_message_framed [OF bs(1,3), of r rest] assms(3) that show thesis by auto
qed

section \<open>Properties\<close>

text \<open>What a request makes the session do.\<close>

fun handler_of :: "control_message \<Rightarrow> handler option" where
  "handler_of (CmSubscribe m) = Some (HandleSubscribe m)"
| "handler_of (CmFetch m) = Some (HandleFetch m)"
| "handler_of (CmSubscribeNamespace m) = Some (HandleSubscribeNamespace m)"
| "handler_of (CmSubscribeNamespaceLegacy m) =
     Some (HandleSubscribeNamespace \<lparr>sns_request_id = snl_request_id m, sns_namespace = snl_namespace m\<rparr>)"
| "handler_of (CmTrackStatus m) = Some HandleNothing"
| "handler_of (CmPublish m) = Some (HandlePublish m)"
| "handler_of (CmPublishNamespace m) = Some (HandlePublishNamespace m)"
| "handler_of _ = None"

lemma dbind_dret_Inr: "dbind d (\<lambda>m. dret (f m)) bs = Inr (f a, []) \<Longrightarrow> (\<And>x y. f x = f y \<Longrightarrow> x = y) \<Longrightarrow> d bs = Inr (a, [])"
  by (auto simp: dbind_Inr_conv dret_app)

lemma dispatch_written:
  assumes "cm_ok v m" "encode_bytes (encode_message bytes_mut v m) = Inr bs" "unread r = bs @ rest"
  shows "case handler_of (cm_seen v m) of
      Some h \<Rightarrow> \<exists>r'. dispatch_stream v r = Inr (h, r') \<and> unread r' = rest
    | None \<Rightarrow> dispatch_stream v r = Inl ErrUnexpectedStream"
proof -
  obtain body r' where "read_message v r = Inr ((cm_id m, body), r')" "unread r' = rest"
    "cm_decode v m body = Inr (cm_seen v m, [])"
    by (rule read_message_written [OF assms])
  then show ?thesis
    by (cases m) (auto simp: dispatch_stream_def publisher_handle_def subscriber_handle_def decode_body_def dest!: dbind_dret_Inr)
qed

text \<open>
  C34: A request that a peer writes on a new bidirectional stream is dispatched to its handler with the
  fields that the draft carries, however the transport splits it, and what follows on the stream is left
  to the handler; a message that is not a request is refused.
\<close>

theorem request_dispatched:
  assumes "cm_ok v m" "encode_bytes (encode_message bytes_mut v m) = Inr bs" "unread r = bs @ rest"
  shows "case handler_of (cm_seen v m) of
      Some h \<Rightarrow> \<exists>r'. dispatch_stream v r = Inr (h, r') \<and> unread r' = rest
    | None \<Rightarrow> dispatch_stream v r = Inl ErrUnexpectedStream"
  using assms by (rule dispatch_written)

theorem request_dispatched_witness:
  "\<exists>bs. encode_bytes (encode_message bytes_mut Draft15 (CmPublishNamespace \<lparr>pns_request_id = 2, pns_namespace = ''live''\<rparr>)) = Inr bs
     \<and> (\<exists>r'. dispatch_stream Draft15 (reader_new \<lparr>chunks = map (\<lambda>b. [b]) bs, failure = None\<rparr>)
          = Inr (HandlePublishNamespace \<lparr>pns_request_id = 2, pns_namespace = ''live''\<rparr>, r') \<and> unread r' = [])"
proof -
  let ?m = "CmPublishNamespace \<lparr>pns_request_id = 2, pns_namespace = ''live''\<rparr>"
  have ok: "cm_ok Draft15 ?m"
    by (simp add: ns_ok_def namespace_ok_def varint_max_def push_bit_of_1) code_simp
  obtain bs where bs: "encode_bytes (encode_message bytes_mut Draft15 ?m) = Inr bs"
    by (rule encode_message_ok [OF ok]) (simp add: cm_size_def)
  have "concat (map (\<lambda>b. [b]) bs) = bs" by (induction bs) simp_all
  with request_dispatched [OF ok bs, of "reader_new \<lparr>chunks = map (\<lambda>b. [b]) bs, failure = None\<rparr>" "[]"] bs
  show ?thesis by simp
qed

section \<open>Group streams\<close>

lemma word_between: "a \<le> (x :: 'a::len word) \<Longrightarrow> x \<le> b \<Longrightarrow> x \<in> set (map of_nat [unat a..<Suc (unat b)])"
  by (simp only: word_le_nat_alt set_map set_upt, rule image_eqI [of _ _ "unat x"]) simp_all

lemma group_flags_values:
  assumes "group_flags_decode i v = Inr f"
  shows "(if is_legacy_version v then i else i AND NOT FIRST_OBJECT_BIT)
    \<in> set (map of_nat [16..<30]) \<union> set (map of_nat [48..<62])"
proof -
  let ?i = "if is_legacy_version v then i else i AND NOT FIRST_OBJECT_BIT"
  have "GF_START \<le> ?i \<and> ?i \<le> GF_END \<or> GF_START_NO_PRIORITY \<le> ?i \<and> ?i \<le> GF_END_NO_PRIORITY"
    using assms unfolding group_flags_decode_def Let_def by (auto simp: and_then_def split: if_splits)
  then show ?thesis
    using word_between [of GF_START ?i GF_END] word_between [of GF_START_NO_PRIORITY ?i GF_END_NO_PRIORITY]
    unfolding group_flag_consts by auto
qed

lemma split_bit: "i = (i AND NOT (2 ^ n)) OR (if bit i n then 2 ^ n else (0 :: 'a::len word))"
  by (rule bit_word_eqI) (auto simp: bit_simps)

lemma group_flags_stream_type: "group_flags_decode i v = Inr f \<Longrightarrow> group_stream_type i \<and> i \<noteq> SETUP_V17"
proof -
  assume *: "group_flags_decode i v = Inr f"
  let ?vals = "map of_nat ([16..<30] @ [48..<62]) :: u64 list"
  have "i \<in> set (?vals @ map (\<lambda>x. x OR 0x40) ?vals)"
    using group_flags_values [OF *] split_bit [of i 6] unfolding FIRST_OBJECT_BIT_def
    by (cases "is_legacy_version v"; cases "bit i 6") (auto simp del: is_legacy_version.simps)
  moreover have "list_all (\<lambda>i. group_stream_type i \<and> i \<noteq> SETUP_V17) (?vals @ map (\<lambda>x. x OR 0x40) ?vals)"
    by code_simp
  ultimately show ?thesis unfolding list_all_iff by (rule bspec [rotated])
qed

lemma stable_group_header: "stable_decoder (group_header_decode v)"
proof -
  have "stable_decoder (\<lambda>r. and_then (group_flags_decode i v) (\<lambda>f. Inr (f, r)))" for i
    by (cases "group_flags_decode i v") (simp_all add: stable_value stable_error)
  then show ?thesis unfolding group_header_decode_def by (intro stable_intros)
qed

text \<open>
  C35: A group stream is recognised: a stream whose bytes begin with a group header of the draft is handed on
  as a group, however it arrives, and the header is then read from it with nothing lost.
\<close>

theorem group_stream_recognised:
  assumes "group_header_decode v (unread r) = Inr (m, rest)"
  shows "\<exists>q r'. run_uni v r = Inr (UniGroup (Inr q)) \<and> reader_decode (group_header_decode v) q = Inr (m, r')
    \<and> unread r' = rest"
proof -
  obtain i b f where i: "u64_decode (Ietf v) (unread r) = Inr (i, b)" and f: "group_flags_decode i v = Inr f"
    using assms by (auto simp: group_header_decode_def dbind_Inr_conv and_then_Inr_conv)
  obtain q1 where q1: "reader_peek (u64_decode (Ietf v)) r = Inr (i, q1)" "unread q1 = unread r"
    by (rule reader_peek_stable [OF stable_u64 i])
  obtain q2 where q2: "reader_peek (u64_decode (Ietf v)) q1 = Inr (i, q2)" "unread q2 = unread r"
    by (rule reader_peek_stable [OF stable_u64 i [folded q1(2)]]) (simp add: q1(2))
  have "run_uni v r = Inr (UniGroup (Inr q2))"
    using q1(1) q2(1) group_flags_stream_type [OF f] by (simp add: run_uni_def run_uni_group_def)
  moreover have "\<exists>r'. reader_decode (group_header_decode v) q2 = Inr (m, r') \<and> unread r' = rest"
    using reader_decode_stable [OF stable_group_header, of v q2] assms q2(2) by auto
  ultimately show ?thesis by blast
qed

theorem group_stream_recognised_witness:
  "\<exists>q r'. run_uni Draft18 (reader_new \<lparr>chunks = [[0x70], [7], [], [3, 9]], failure = None\<rparr>) = Inr (UniGroup (Inr q))
     \<and> reader_decode (group_header_decode Draft18) q
       = Inr (\<lparr>gh_track_alias = 7, gh_group_id = 3, gh_sub_group_id = 0, gh_publisher_priority = 128,
           gh_flags = \<lparr>has_extensions = False, has_subgroup = False, has_subgroup_object = False, has_end = False, has_priority = False\<rparr>\<rparr>, r')
     \<and> unread r' = [9]"
proof -
  have "group_header_decode Draft18 [0x70, 7, 3, 9]
    = Inr (\<lparr>gh_track_alias = 7, gh_group_id = 3, gh_sub_group_id = 0, gh_publisher_priority = 128,
           gh_flags = \<lparr>has_extensions = False, has_subgroup = False, has_subgroup_object = False, has_end = False, has_priority = False\<rparr>\<rparr>, [9])"
    by code_simp
  then show ?thesis
    using group_stream_recognised [of Draft18 "reader_new \<lparr>chunks = [[0x70], [7], [], [3, 9]], failure = None\<rparr>"] by simp
qed

section \<open>The setup stream\<close>

lemma stable_setup: "stable_decoder (setup_decode v)"
  unfolding setup_decode_def by (intro stable_intros)

text \<open>
  A session of draft 14, 15 or 16 has no SETUP on unidirectional streams, but a stream that opens with the type
  of SETUP is still taken for one, and decoding it panics.
\<close>

theorem setup_stream_panics:
  assumes "draft14_16 v" "u64_decode (Ietf v) (unread r) = Inr (SETUP_V17, rest)"
  shows "run_uni v r = Inr (UniSetup (Inl (ErrDecode DecodePanic)))"
proof -
  obtain q where q: "reader_peek (u64_decode (Ietf v)) r = Inr (SETUP_V17, q)" "unread q = unread r"
    by (rule reader_peek_stable [OF stable_u64 assms(2)])
  have "setup_decode (Ietf v) bs = Inl DecodePanic" for bs
    using assms(1) by (cases v) (simp_all add: setup_decode_def dfail_def)
  then have "reader_decode (setup_decode (Ietf v)) q = Inl (ErrDecode DecodePanic)"
    by (simp add: reader_decode.simps)
  with q show ?thesis by (simp add: run_uni_def run_setup_stream_def)
qed

theorem setup_stream_panics_witness:
  "run_uni Draft14 (reader_new \<lparr>chunks = [[0x6F, 0]], failure = None\<rparr>) = Inr (UniSetup (Inl (ErrDecode DecodePanic)))"
proof -
  have "u64_decode (Ietf Draft14) [0x6F, 0] = Inr (SETUP_V17, [])" by code_simp
  then show ?thesis
    using setup_stream_panics [of Draft14 "reader_new \<lparr>chunks = [[0x6F, 0]], failure = None\<rparr>" "[]"] by simp
qed

lemma run_setup_reads:
  assumes "\<not> draft14_16 v"
  obtains bs m where "run_setup v = Inr bs" "reads (setup_decode (Ietf v)) bs m"
proof -
  let ?ps = "set_bytes Implementation (as_bytes ''moq-lite-rs'') parameters_default"
  have ps: "?ps = \<lparr>par_vars = [], par_bytes = [(Implementation, as_bytes ''moq-lite-rs'')]\<rparr>"
    by (simp add: parameters_default_def set_bytes_def)
  have ok: "parameters_ok ?ps" "parameters_fit ?ps" "parameters_size ?ps \<le> 100"
    unfolding ps by (simp_all add: parameters_ok_def parameters_fit_def all_params_def MAX_PARAMS_def parameters_size_def
        MAX_KVP_VALUE_LEN_def varint_max_def push_bit_of_1 varint_kind.simps bytes_kind.simps)
  obtain w where w: "encode_bytes (parameters_encode bytes_mut v ?ps) = Inr w" "length w \<le> 0xFFFF"
    by (rule encode_bytes_whole [OF bytes_mut.parameters_emits_whole [OF ok(1) parameters_fit_bytes [OF ok(2)]]
          bytes_mut.parameters_writes [OF ok(1,2)], of v]) (use ok(3) that in simp_all)
  have v: "setup_check_version (Ietf v)" using assms by (cases v) simp_all
  obtain bs where "encode_bytes (setup_encode bytes_mut (Ietf v) \<lparr>setup_parameters = w\<rparr>) = Inr bs"
    "reads (setup_decode (Ietf v)) bs \<lparr>setup_parameters = w\<rparr>"
    using encode_bytes_reads [OF bytes_mut.setup_emits [OF v] bytes_mut.setup_writes [OF v], of "\<lparr>setup_parameters = w\<rparr>"] w(2) by auto
  with w(1) show thesis by (intro that [of bs]) (simp_all add: run_setup_def)
qed

lemma has_more_end:
  assumes "unread r = []" "[] \<notin> set (chunks (rd_stream r))" "failure (rd_stream r) = None"
  shows "has_more r = Inr (False, r)"
proof -
  have "chunks (rd_stream r) = []" using assms(1,2) by (cases "chunks (rd_stream r)") (auto simp: unread_def)
  then show ?thesis using assms by (simp add: has_more_def read_more_def unread_def)
qed

lemma has_more_data:
  assumes "unread r \<noteq> []"
  obtains q where "has_more r = Inr (True, q)" "unread q = unread r"
proof (cases "rd_buffer r = []")
  case True
  then obtain c cs where "chunks (rd_stream r) = c # cs" using assms by (cases "chunks (rd_stream r)") (simp_all add: unread_def)
  with True show thesis
    by (intro that [of "r\<lparr>rd_stream := (rd_stream r)\<lparr>chunks := cs\<rparr>, rd_buffer := c\<rparr>"]) (simp_all add: has_more_def read_more_def unread_def)
qed (simp add: that has_more_def)

lemma run_goaway_read:
  assumes "unread r \<noteq> []"
  obtains q where "unread q = unread r" "run_goaway v r = and_then (read_message v q) (\<lambda>((ty, data), _).
    if ty = 0x10 then and_then (map_err ErrDecode (ietf_goaway_decode_msg v data)) (\<lambda>_. Inl ErrUnsupported) else Inl ErrUnexpectedMessage)"
proof -
  obtain q where q: "has_more r = Inr (True, q)" "unread q = unread r" by (rule has_more_data [OF assms])
  have "run_goaway v r = and_then (read_message v q) (\<lambda>((ty, data), _).
    if ty = 0x10 then and_then (map_err ErrDecode (ietf_goaway_decode_msg v data)) (\<lambda>_. Inl ErrUnsupported) else Inl ErrUnexpectedMessage)"
    unfolding run_goaway_def read_message_def decode_maybe_def q
    by (simp add: and_then_def split: sum.split prod.split)
  with q(2) show thesis by (rule that)
qed

text \<open>
  The peers of a session of draft 17 or later agree on the setup stream: what one writes on it is taken as
  SETUP by the other, which then ends quietly when the stream closes and reports the session unsupported
  when a GOAWAY arrives.
\<close>

theorem setup_stream_served:
  assumes "\<not> draft14_16 v" "cm_ok v (CmGoaway g)" "encode_bytes (encode_message bytes_mut v (CmGoaway g)) = Inr goaway"
  shows "\<exists>setup_bytes. run_setup v = Inr setup_bytes
    \<and> (\<forall>r rest. unread r = setup_bytes @ goaway @ rest \<longrightarrow> run_uni v r = Inr (UniSetup (Inl ErrUnsupported)))
    \<and> (\<forall>r. unread r = setup_bytes \<and> [] \<notin> set (chunks (rd_stream r)) \<and> failure (rd_stream r) = None
          \<longrightarrow> run_uni v r = Inr (UniSetup (Inr ())))"
proof -
  obtain bs m where bs: "run_setup v = Inr bs" "reads (setup_decode (Ietf v)) bs m" by (rule run_setup_reads [OF assms(1)])
  have start: "\<exists>r'. run_uni v r = Inr (UniSetup (run_goaway v r')) \<and> unread r' = rest \<and> failure (rd_stream r') = failure (rd_stream r)
      \<and> set (chunks (rd_stream r')) \<subseteq> set (chunks (rd_stream r))" if r: "unread r = bs @ rest" for r rest
  proof -
    have "setup_decode (Ietf v) (unread r) = Inr (m, rest)" using bs(2) r by (simp add: reads_def)
    then obtain b where "u64_decode (Ietf v) (unread r) = Inr (SETUP_V17, b)"
      by (auto simp: setup_decode_def dbind_Inr_conv dfail_def split: if_splits)
    then obtain q where q: "reader_peek (u64_decode (Ietf v)) r = Inr (SETUP_V17, q)" "unread q = unread r"
      "failure (rd_stream q) = failure (rd_stream r)" "set (chunks (rd_stream q)) \<subseteq> set (chunks (rd_stream r))"
      by (rule reader_peek_stable [OF stable_u64])
    obtain r' where r': "reader_decode (setup_decode (Ietf v)) q = Inr (m, r')" "unread r' = rest" "failure (rd_stream r') = failure (rd_stream q)"
      using reader_decode_reads [OF bs(2), of q rest] q(2) r by auto
    with q reader_decode_chunks [OF r'(1)] show ?thesis by (auto simp: run_uni_def run_setup_stream_def)
  qed
  have "run_uni v r = Inr (UniSetup (Inl ErrUnsupported))" if r: "unread r = bs @ goaway @ rest" for r rest
  proof -
    obtain r' where r': "run_uni v r = Inr (UniSetup (run_goaway v r'))" "unread r' = goaway @ rest" using start [OF r] by blast
    then have "unread r' \<noteq> []" using encode_message_nonempty [OF assms(2,3)] by auto
    then obtain q where q: "unread q = unread r'" "run_goaway v r' = and_then (read_message v q) (\<lambda>((ty, data), _).
        if ty = 0x10 then and_then (map_err ErrDecode (ietf_goaway_decode_msg v data)) (\<lambda>_. Inl ErrUnsupported) else Inl ErrUnexpectedMessage)"
      by (rule run_goaway_read)
    obtain body q' where "read_message v q = Inr ((0x10, body), q')" "ietf_goaway_decode_msg v body = Inr (ietf_goaway_seen v g, [])"
      by (rule read_message_written [OF assms(2,3), of q rest]) (auto simp: q(1) r'(2) dest!: dbind_dret_Inr intro: that)
    then show ?thesis using q(2) r'(1) by simp
  qed
  moreover have "run_uni v r = Inr (UniSetup (Inr ()))"
    if r: "unread r = bs" "[] \<notin> set (chunks (rd_stream r))" "failure (rd_stream r) = None" for r
  proof -
    obtain r' where r': "run_uni v r = Inr (UniSetup (run_goaway v r'))" "unread r' = []" "failure (rd_stream r') = None"
      "[] \<notin> set (chunks (rd_stream r'))"
      using start [of r "[]"] r by auto
    have "has_more r' = Inr (False, r')" by (rule has_more_end) (use r' in simp_all)
    then show ?thesis using r'(1) by (simp add: run_goaway_def decode_maybe_def)
  qed
  ultimately show ?thesis using bs(1) by blast
qed

theorem setup_stream_served_witness:
  "\<exists>goaway setup_bytes. encode_bytes (encode_message bytes_mut Draft17 (CmGoaway \<lparr>igoaway_uri = ''moq'', igoaway_timeout = 5\<rparr>)) = Inr goaway
     \<and> run_setup Draft17 = Inr setup_bytes
     \<and> run_uni Draft17 (reader_new \<lparr>chunks = [setup_bytes, goaway], failure = None\<rparr>) = Inr (UniSetup (Inl ErrUnsupported))"
proof -
  let ?m = "CmGoaway \<lparr>igoaway_uri = ''moq'', igoaway_timeout = 5\<rparr>"
  have ok: "cm_ok Draft17 ?m" by (simp add: ns_ok_def varint_max_def push_bit_of_1) code_simp
  obtain bs where bs: "encode_bytes (encode_message bytes_mut Draft17 ?m) = Inr bs"
    by (rule encode_message_ok [OF ok]) (simp add: cm_size_def)
  from setup_stream_served [OF _ ok bs] obtain s where "run_setup Draft17 = Inr s"
    "\<forall>r rest. unread r = s @ bs @ rest \<longrightarrow> run_uni Draft17 r = Inr (UniSetup (Inl ErrUnsupported))"
    by auto
  with bs show ?thesis by (intro exI [of _ bs] exI [of _ s]) simp
qed

end
