(* ===== verification/Ietf_Control.thy ===== *)
theory Ietf_Control
  imports Ietf_Params Transport
begin

text \<open>
  Request ids of a moq-transport session (\<open>relay/rs/moq-net/src/ietf/control.rs\<close>): how they are given out, and
  how tasks wait for the limit that the peer sets.

  The state is behind a lock, so every use of it is one step, and the steps of the tasks come in any order. A task
  that the limit stops waits for the \<open>Notify\<close> of tokio, which is not part of the sources: here it is the list of what
  was done with it, and a parameter \<open>ready\<close> says when the future of a task is ready.
\<close>

section \<open>The state and its operations\<close>

record control =
  rid_next :: request_id
  rid_max :: "request_id option"

definition control_new :: "request_id option \<Rightarrow> bool \<Rightarrow> control" where
  "control_new limit client = \<lparr>rid_next = (if client then 0 else 1), rid_max = limit\<rparr>"

definition raise_max :: "request_id \<Rightarrow> control \<Rightarrow> control" where
  "raise_max limit c = c\<lparr>rid_max := Some limit\<rparr>"

text \<open>One look at the state: an id, or nothing while the limit does not allow it.\<close>

definition rid_allowed :: "control \<Rightarrow> bool" where
  "rid_allowed c = (case rid_max c of None \<Rightarrow> True | Some limit \<Rightarrow> rid_next c < limit)"

definition take_request_id :: "control \<Rightarrow> (request_id \<times> control) option" where
  "take_request_id c =
     (if rid_allowed c then Some (fst (increment (rid_next c)), c\<lparr>rid_next := snd (increment (rid_next c))\<rparr>) else None)"

section \<open>The tasks\<close>

text \<open>
  A future of the \<open>Notify\<close> is created for a task, and all that were created are notified. What the code relies on is
  that \<open>notify_waiters\<close> makes every future ready that was created before, polled or not; when else one is ready is left
  open.
\<close>

datatype notify_event = Created nat | NotifyWaiters

definition notify_waiters_wakes :: "(notify_event list \<Rightarrow> nat \<Rightarrow> bool) \<Rightarrow> bool" where
  "notify_waiters_wakes ready \<longleftrightarrow>
     (\<forall>h t h'. Created t \<notin> set h' \<and> NotifyWaiters \<in> set h' \<longrightarrow> ready (h @ Created t # h') t)"

text \<open>The state with the tasks that wait in \<open>select!\<close>, the ids that were given out and to whom, and the tasks that failed.\<close>

record control_tasks =
  ct_control :: control
  ct_notify :: "notify_event list"
  ct_waiting :: "nat set"
  ct_given :: "(nat \<times> request_id) list"
  ct_failed :: "nat list"

definition control_start :: "request_id option \<Rightarrow> bool \<Rightarrow> control_tasks" where
  "control_start limit client =
     \<lparr>ct_control = control_new limit client, ct_notify = [], ct_waiting = {}, ct_given = [], ct_failed = []\<rparr>"

definition set_max_request_id :: "request_id \<Rightarrow> control_tasks \<Rightarrow> control_tasks" where
  "set_max_request_id limit st =
     st\<lparr>ct_control := raise_max limit (ct_control st), ct_notify := ct_notify st @ [NotifyWaiters]\<rparr>"

text \<open>A round of the loop of \<open>next_request_id\<close>, up to the \<open>select!\<close>, and its end by the time-out.\<close>

definition next_request_id :: "nat \<Rightarrow> control_tasks \<Rightarrow> control_tasks" where
  "next_request_id t st =
     (case take_request_id (ct_control st) of
        Some (i, c) \<Rightarrow> st\<lparr>ct_control := c, ct_waiting := ct_waiting st - {t}, ct_given := ct_given st @ [(t, i)]\<rparr>
      | None \<Rightarrow> st\<lparr>ct_notify := ct_notify st @ [Created t], ct_waiting := insert t (ct_waiting st)\<rparr>)"

definition request_timeout :: "nat \<Rightarrow> control_tasks \<Rightarrow> control_tasks" where
  "request_timeout t st = st\<lparr>ct_waiting := ct_waiting st - {t}, ct_failed := ct_failed st @ [t]\<rparr>"

text \<open>A task that waits goes on only when its future is ready or its time is over.\<close>

datatype control_op = RaiseMax request_id | LookId nat | TimeOut nat

definition asleep :: "(notify_event list \<Rightarrow> nat \<Rightarrow> bool) \<Rightarrow> nat \<Rightarrow> control_tasks \<Rightarrow> bool" where
  "asleep ready t st \<longleftrightarrow> t \<in> ct_waiting st \<and> \<not> ready (ct_notify st) t"

fun control_step :: "(notify_event list \<Rightarrow> nat \<Rightarrow> bool) \<Rightarrow> control_op \<Rightarrow> control_tasks \<Rightarrow> control_tasks" where
  "control_step ready (RaiseMax limit) st = set_max_request_id limit st"
| "control_step ready (LookId t) st = (if asleep ready t st then st else next_request_id t st)"
| "control_step ready (TimeOut t) st = (if t \<in> ct_waiting st then request_timeout t st else st)"

definition control_run :: "(notify_event list \<Rightarrow> nat \<Rightarrow> bool) \<Rightarrow> request_id option \<Rightarrow> bool \<Rightarrow> control_op list \<Rightarrow> control_tasks" where
  "control_run ready limit client ops = fold (control_step ready) ops (control_start limit client)"

text \<open>The limit in force after some steps: the last one that the peer set.\<close>

fun in_force :: "request_id option \<Rightarrow> control_op list \<Rightarrow> request_id option" where
  "in_force limit [] = limit"
| "in_force limit (RaiseMax l # ops) = in_force (Some l) ops"
| "in_force limit (x # ops) = in_force limit ops"

section \<open>The ids that are given out\<close>

lemma control_run_snoc: "control_run ready limit client (ops @ [x]) = control_step ready x (control_run ready limit client ops)"
  by (simp add: control_run_def)

lemma in_force_snoc: "in_force limit (ops @ [x]) = (case x of RaiseMax l \<Rightarrow> Some l | _ \<Rightarrow> in_force limit ops)"
  by (induction limit ops rule: in_force.induct) (cases x, auto)+

lemma run_limit: "rid_max (ct_control (control_run ready limit client ops)) = in_force limit ops"
proof (induction ops rule: rev_induct)
  case (snoc x ops)
  then show ?case unfolding control_run_snoc in_force_snoc
    by (cases x) (auto simp: set_max_request_id_def raise_max_def next_request_id_def take_request_id_def request_timeout_def)
qed (simp add: control_run_def control_start_def control_new_def)

lemma next_request_id_cases:
  "next_request_id t st = (if rid_allowed (ct_control st)
     then st\<lparr>ct_control := (ct_control st)\<lparr>rid_next := rid_next (ct_control st) + 2\<rparr>, ct_waiting := ct_waiting st - {t},
       ct_given := ct_given st @ [(t, rid_next (ct_control st))]\<rparr>
     else st\<lparr>ct_notify := ct_notify st @ [Created t], ct_waiting := insert t (ct_waiting st)\<rparr>)"
  by (simp add: next_request_id_def take_request_id_def increment_def)

lemma run_ids:
  "\<exists>n \<le> length ops. map snd (ct_given (control_run ready limit client ops)) = map (\<lambda>k. (if client then 0 else 1) + of_nat (2 * k)) [0..<n]
     \<and> rid_next (ct_control (control_run ready limit client ops)) = (if client then 0 else 1) + of_nat (2 * n)"
proof (induction ops rule: rev_induct)
  case Nil
  then show ?case by (simp add: control_run_def control_start_def control_new_def)
next
  case (snoc x ops)
  let ?st = "control_run ready limit client ops"
  obtain n where n: "n \<le> length ops" "map snd (ct_given ?st) = map (\<lambda>k. (if client then 0 else 1) + of_nat (2 * k)) [0..<n]"
    "rid_next (ct_control ?st) = (if client then 0 else 1) + of_nat (2 * n)"
    using snoc by blast
  show ?case
  proof (cases "\<exists>t. x = LookId t \<and> \<not> asleep ready t ?st \<and> rid_allowed (ct_control ?st)")
    case True
    then show ?thesis using n by (intro exI [of _ "Suc n"]) (auto simp: control_run_snoc next_request_id_cases)
  next
    case False
    then show ?thesis using n unfolding control_run_snoc
      by (intro exI [of _ n]) (cases x; auto simp: set_max_request_id_def raise_max_def next_request_id_cases request_timeout_def)
  qed
qed

lemma unat_request_id:
  assumes "k < 2 ^ 63" "b < 2"
  shows "unat (of_nat b + of_nat (2 * k) :: u64) = b + 2 * k"
proof -
  have "b + 2 * k < 2 ^ 64" using assms by (simp add: power_Suc)
  then have "unat (of_nat (b + 2 * k) :: u64) = b + 2 * k" by (simp add: unat_of_nat del: of_nat_add of_nat_mult)
  then show ?thesis by (simp only: of_nat_add)
qed

lemma run_ids_unat:
  assumes "length ops \<le> 2 ^ 63"
  shows "\<exists>n. map unat (map snd (ct_given (control_run ready limit client ops))) = map (\<lambda>k. (if client then 0 else 1) + 2 * k) [0..<n]"
proof -
  obtain n where n: "n \<le> length ops"
    "map snd (ct_given (control_run ready limit client ops)) = map (\<lambda>k. (if client then 0 else 1) + of_nat (2 * k)) [0..<n]"
    using run_ids [of ops ready limit client] by blast
  have "unat ((if client then 0 else 1) + of_nat (2 * k) :: u64) = (if client then 0 else 1) + 2 * k" if "k < n" for k
    using unat_request_id [of k "if client then 0 else 1"] that n(1) assms by (cases client) simp_all
  then show ?thesis unfolding n(2) by (intro exI [of _ n]) (simp del: of_nat_mult)
qed

lemma run_ids_distinct:
  assumes "length ops \<le> 2 ^ 63"
  shows "distinct (map snd (ct_given (control_run ready limit client ops)))"
    "i \<in> set (map snd (ct_given (control_run ready limit client ops))) \<Longrightarrow> even (unat i) = client"
proof -
  obtain n where n: "map unat (map snd (ct_given (control_run ready limit client ops))) = map (\<lambda>k. (if client then 0 else 1) + 2 * k) [0..<n]"
    using run_ids_unat [OF assms] by blast
  have "distinct (map unat (map snd (ct_given (control_run ready limit client ops))))" unfolding n by (auto simp: distinct_map inj_on_def)
  then show "distinct (map snd (ct_given (control_run ready limit client ops)))" by (simp only: distinct_map)
  show "even (unat i) = client" if "i \<in> set (map snd (ct_given (control_run ready limit client ops)))"
    using arg_cong [OF n, of "\<lambda>xs. list_all (\<lambda>x. even x = client) xs"] that by (auto simp: list_all_iff split: if_splits)
qed

lemma given_below:
  assumes "ct_given (control_run ready limit client (ops @ [x])) = ct_given (control_run ready limit client ops) @ [(t, i)]"
    and "in_force limit ops = Some l"
  shows "i < l"
proof -
  let ?st = "control_run ready limit client ops"
  have "rid_allowed (ct_control ?st) \<and> i = rid_next (ct_control ?st)"
    using assms(1) unfolding control_run_snoc
    by (cases x) (auto simp: set_max_request_id_def next_request_id_cases request_timeout_def split: if_splits)
  then show ?thesis using assms(2) by (simp add: rid_allowed_def run_limit)
qed

section \<open>Waiting for the limit\<close>

text \<open>The future of a task that waits was created when the limit stopped it, and the limit still does or it was notified since.\<close>

definition waiting_inv :: "control_tasks \<Rightarrow> bool" where
  "waiting_inv st \<longleftrightarrow> (\<forall>t \<in> ct_waiting st. \<exists>h h'. ct_notify st = h @ Created t # h' \<and> Created t \<notin> set h'
     \<and> (NotifyWaiters \<in> set h' \<or> \<not> rid_allowed (ct_control st)))"

lemma waiting_inv_step:
  assumes "waiting_inv st"
  shows "waiting_inv (control_step ready x st)"
  unfolding waiting_inv_def
proof
  fix t assume t: "t \<in> ct_waiting (control_step ready x st)"
  let ?st = "control_step ready x st"
  let ?goal = "\<exists>h h'. ct_notify ?st = h @ Created t # h' \<and> Created t \<notin> set h' \<and> (NotifyWaiters \<in> set h' \<or> \<not> rid_allowed (ct_control ?st))"
  show ?goal
  proof (cases "\<exists>t'. x = LookId t' \<and> \<not> asleep ready t' st \<and> \<not> rid_allowed (ct_control st) \<and> t' = t")
    case True
    then show ?thesis by (intro exI [of _ "ct_notify st"] exI [of _ "[]"]) (auto simp: next_request_id_cases)
  next
    case False
    then have "t \<in> ct_waiting st" using t
      by (cases x) (auto simp: set_max_request_id_def next_request_id_cases request_timeout_def split: if_splits)
    then obtain h h' where h: "ct_notify st = h @ Created t # h'" "Created t \<notin> set h'" "NotifyWaiters \<in> set h' \<or> \<not> rid_allowed (ct_control st)"
      using assms unfolding waiting_inv_def by blast
    obtain h'' where "ct_notify ?st = h @ Created t # h' @ h''" "Created t \<notin> set h''"
        "NotifyWaiters \<in> set h'' \<or> ct_control ?st = ct_control st \<or> rid_allowed (ct_control st)"
    proof (cases x)
      case (RaiseMax l)
      then show ?thesis using h(1) that [of "[NotifyWaiters]"] by (simp add: set_max_request_id_def)
    next
      case (LookId t')
      show ?thesis
      proof (cases "asleep ready t' st \<or> rid_allowed (ct_control st)")
        case True
        then show ?thesis using LookId h(1) that [of "[]"] by (auto simp: next_request_id_cases)
      next
        case nogo: False
        then show ?thesis using LookId h(1) False that [of "[Created t']"] by (auto simp: next_request_id_cases)
      qed
    next
      case (TimeOut t')
      then show ?thesis using h(1) that [of "[]"] by (simp add: request_timeout_def)
    qed
    then show ?thesis using h by (intro exI [of _ h] exI [of _ "h' @ h''"]) auto
  qed
qed

lemma run_waiting_inv: "waiting_inv (control_run ready limit client ops)"
proof (induction ops rule: rev_induct)
  case (snoc x ops)
  then show ?case unfolding control_run_snoc by (rule waiting_inv_step)
qed (simp add: waiting_inv_def control_run_def control_start_def)

lemma notified_ready:
  assumes "notify_waiters_wakes ready" "waiting_inv st" "t \<in> ct_waiting st"
  shows "asleep ready t st \<Longrightarrow> \<not> rid_allowed (ct_control st)" "\<not> asleep ready t (set_max_request_id l st)"
proof -
  obtain h h' where h: "ct_notify st = h @ Created t # h'" "Created t \<notin> set h'" "NotifyWaiters \<in> set h' \<or> \<not> rid_allowed (ct_control st)"
    using assms(2,3) unfolding waiting_inv_def by blast
  show "\<not> rid_allowed (ct_control st)" if "asleep ready t st"
    using h assms(1) that unfolding notify_waiters_wakes_def asleep_def by metis
  have "ready (h @ Created t # h' @ [NotifyWaiters]) t" using assms(1) h(2) by (simp add: notify_waiters_wakes_def)
  then show "\<not> asleep ready t (set_max_request_id l st)" by (simp add: asleep_def set_max_request_id_def h(1))
qed

section \<open>Properties\<close>

text \<open>
  C22: Whatever the tasks of a session do, and whenever a waiting task goes on, the ids of its requests are distinct and
  of the parity of its role, even at the client and odd at the server, so that no id of one peer is an id of the other.
  At both, an id that is given out while a limit is in force, the one of the setup or the last one that the peer
  sent, is below that limit. (There are no more steps than a 64-bit number has values with one bit fixed.)
\<close>

theorem request_ids_unique:
  assumes "length ops \<le> 2 ^ 63" "length ops' \<le> 2 ^ 63"
    and "client_ids = map snd (ct_given (control_run ready limit True ops))"
    and "server_ids = map snd (ct_given (control_run ready' limit' False ops'))"
  shows "distinct client_ids \<and> distinct server_ids \<and> set client_ids \<inter> set server_ids = {}
    \<and> (\<forall>i \<in> set client_ids. even (unat i)) \<and> (\<forall>i \<in> set server_ids. odd (unat i))
    \<and> (\<forall>wakes setup client before x t i l.
         ct_given (control_run wakes setup client (before @ [x])) = ct_given (control_run wakes setup client before) @ [(t, i)]
         \<and> in_force setup before = Some l \<longrightarrow> i < l)"
proof -
  note c = run_ids_distinct [OF assms(1), where ready = ready and limit = limit and client = True]
    and s = run_ids_distinct [OF assms(2), where ready = ready' and limit = limit' and client = False]
  have e: "\<forall>i \<in> set client_ids. even (unat i)" unfolding assms(3) using c(2) by blast
  have o: "\<forall>i \<in> set server_ids. odd (unat i)" unfolding assms(4) using s(2) by blast
  have d: "set client_ids \<inter> set server_ids = {}" using e o by blast
  have b: "\<forall>wakes setup client before x t i l.
      ct_given (control_run wakes setup client (before @ [x])) = ct_given (control_run wakes setup client before) @ [(t, i)]
      \<and> in_force setup before = Some l \<longrightarrow> i < l"
    using given_below by blast
  show ?thesis by (intro conjI c(1) [folded assms(3)] s(1) [folded assms(4)] d e o b)
qed

text \<open>The behaviour of \<open>Notify\<close> at its simplest: a future is ready when it was notified after it was created.\<close>

definition example_ready :: "notify_event list \<Rightarrow> nat \<Rightarrow> bool" where
  "example_ready h t \<longleftrightarrow> NotifyWaiters \<in> set (takeWhile (\<lambda>e. e \<noteq> Created t) (rev h))"

lemma example_ready_ok: "notify_waiters_wakes example_ready"
  unfolding notify_waiters_wakes_def
proof (intro allI impI)
  fix h h' :: "notify_event list" and t
  assume a: "Created t \<notin> set h' \<and> NotifyWaiters \<in> set h'"
  then have "takeWhile (\<lambda>e. e \<noteq> Created t) (rev h' @ Created t # rev h) = rev h'" by (subst takeWhile_append2) auto
  then show "example_ready (h @ Created t # h') t" using a by (simp add: example_ready_def)
qed

definition example_tasks :: "control_op list" where
  "example_tasks = [LookId 7, LookId 7, LookId 7, LookId 8, RaiseMax 5, LookId 7, LookId 8]"

theorem request_ids_unique_witness:
  "map snd (ct_given (control_run example_ready (Some 3) True example_tasks)) = [0, 2, 4]
   \<and> distinct (map snd (ct_given (control_run example_ready (Some 3) True example_tasks)))
   \<and> {0, 2, 4} \<inter> set (map snd (ct_given (control_run example_ready None False [LookId 1, LookId 2]))) = {}"
proof -
  have c: "[0, 2, 4] = map snd (ct_given (control_run example_ready (Some 3) True example_tasks))" by code_simp
  have s: "[1, 3] = map snd (ct_given (control_run example_ready None False [LookId 1, LookId 2]))" by code_simp
  show ?thesis using request_ids_unique [OF _ _ c s] unfolding c [symmetric] s [symmetric] by (simp add: example_tasks_def)
qed

text \<open>
  C39: No raise of the limit is missed by a task that waits for it. Whatever the tasks did: a task sleeps only while a
  limit is in force that the next id is not below; one that does not sleep and looks gets the next id when no limit is
  in force or the id is below it, and otherwise waits; and after a new limit no task that waits
  sleeps on, so that one that then looks gets the next id when it is below the new limit.
\<close>

theorem request_id_wait:
  assumes "notify_waiters_wakes ready" "st = control_run ready limit client ops"
  shows "(asleep ready t st \<longrightarrow> (\<exists>l. in_force limit ops = Some l \<and> l \<le> rid_next (ct_control st)))
    \<and> (\<not> asleep ready t st \<longrightarrow>
         (if \<forall>l. in_force limit ops = Some l \<longrightarrow> rid_next (ct_control st) < l
          then ct_given (control_step ready (LookId t) st) = ct_given st @ [(t, rid_next (ct_control st))]
          else ct_given (control_step ready (LookId t) st) = ct_given st \<and> t \<in> ct_waiting (control_step ready (LookId t) st)))
    \<and> (t \<in> ct_waiting st \<longrightarrow> \<not> asleep ready t (control_step ready (RaiseMax l) st)
         \<and> (rid_next (ct_control st) < l \<longrightarrow>
              ct_given (control_step ready (LookId t) (control_step ready (RaiseMax l) st)) = ct_given st @ [(t, rid_next (ct_control st))]))"
proof -
  have max: "rid_max (ct_control st) = in_force limit ops" unfolding assms(2) by (rule run_limit)
  have allowed: "rid_allowed (ct_control st) \<longleftrightarrow> (\<forall>l. in_force limit ops = Some l \<longrightarrow> rid_next (ct_control st) < l)"
    unfolding rid_allowed_def max by (auto split: option.split)
  have inv: "waiting_inv st" unfolding assms(2) by (rule run_waiting_inv)
  note ready = notified_ready [OF assms(1) inv]
  have 1: "\<exists>l. in_force limit ops = Some l \<and> l \<le> rid_next (ct_control st)" if "asleep ready t st"
    using ready(1) [OF _ that] that allowed by (auto simp: asleep_def linorder_not_less)
  have 2: "ct_given (control_step ready (LookId t) (set_max_request_id l st)) = ct_given st @ [(t, rid_next (ct_control st))]"
    if "t \<in> ct_waiting st" "rid_next (ct_control st) < l"
    using ready(2) [OF that(1), of l] that(2) by (simp add: next_request_id_cases) (simp add: set_max_request_id_def raise_max_def rid_allowed_def)
  show ?thesis using 1 2 ready(2) by (auto simp: next_request_id_cases allowed)
qed

theorem request_id_wait_witness:
  "\<exists>st. st = control_run example_ready (Some 1) True [LookId 7, LookId 8] \<and> asleep example_ready 8 st
     \<and> \<not> asleep example_ready 8 (control_step example_ready (RaiseMax 4) st)
     \<and> ct_given (control_step example_ready (LookId 8) (control_step example_ready (RaiseMax 4) st)) = [(7, 0), (8, 2)]"
proof -
  define st where "st = control_run example_ready (Some 1) True [LookId 7, LookId 8]"
  have s: "asleep example_ready 8 st" "ct_given st = [(7, 0)]" "rid_next (ct_control st) = 2" "8 \<in> ct_waiting st"
    unfolding st_def by code_simp+
  show ?thesis using request_id_wait [OF example_ready_ok st_def, of 8 4] s st_def by (simp del: control_step.simps)
qed

end
