(* ===== verification/Ietf_Adapter.thy ===== *)
theory Ietf_Adapter
  imports Ietf_Session Ietf_Control
begin

text \<open>
  The adapter of drafts 14 to 16 (\<open>relay/rs/moq-net/src/ietf/adapter.rs\<close>). These drafts carry every request and
  every reply on one control stream; the adapter gives each request a virtual stream of its own, so that
  the rest of the session is written as for the later drafts.

  A channel is a number; sending on one is an entry of the log \<open>ad_events\<close>, in order, and what was put on
  the control stream is \<open>ad_out\<close>. The receiver of a virtual stream is given the messages that its
  channel delivers.
\<close>

section \<open>Receiving on a virtual stream\<close>

record virtual_recv =
  vr_buffer :: "byte list"
  vr_rx :: "byte list list"
  vr_closed :: bool

definition vr_new :: "byte list \<Rightarrow> byte list list \<Rightarrow> virtual_recv" where
  "vr_new initial rx = \<lparr>vr_buffer = initial, vr_rx = rx, vr_closed = False\<rparr>"

definition vr_fill :: "virtual_recv \<Rightarrow> bool \<times> virtual_recv" where
  "vr_fill s =
     (if vr_buffer s \<noteq> [] then (True, s)
      else if vr_closed s then (False, s)
      else (case vr_rx s of
              d # rx \<Rightarrow> (True, s\<lparr>vr_buffer := d, vr_rx := rx\<rparr>)
            | [] \<Rightarrow> (False, s\<lparr>vr_closed := True\<rparr>)))"

definition vr_read_buf :: "nat \<Rightarrow> virtual_recv \<Rightarrow> byte list option \<times> virtual_recv" where
  "vr_read_buf limit s =
     (case vr_fill s of
        (False, s) \<Rightarrow> (None, s)
      | (True, s) \<Rightarrow>
          (let n = min limit (length (vr_buffer s))
           in (Some (take n (vr_buffer s)), s\<lparr>vr_buffer := drop n (vr_buffer s)\<rparr>)))"

section \<open>The shared state\<close>

datatype adapter_event =
    Incoming nat "byte list"
  | Follow nat "byte list"

record adapter =
  ad_streams :: "request_id \<rightharpoonup> nat"
  ad_namespaces :: "path \<rightharpoonup> request_id"
  ad_fresh :: nat
  ad_events :: "adapter_event list"
  ad_out :: "byte list list"
  ad_writer_alive :: bool
  ad_control :: control

definition adapter_new :: "control \<Rightarrow> adapter" where
  "adapter_new c = \<lparr>ad_streams = Map.empty, ad_namespaces = Map.empty, ad_fresh = 0, ad_events = [], ad_out = [],
     ad_writer_alive = True, ad_control = c\<rparr>"

definition control_send :: "byte list \<Rightarrow> adapter \<Rightarrow> moq_error + adapter" where
  "control_send bs ad = (if ad_writer_alive ad then Inr (ad\<lparr>ad_out := ad_out ad @ [bs]\<rparr>) else Inl ErrClosed)"

definition follow_send :: "nat \<Rightarrow> byte list \<Rightarrow> adapter \<Rightarrow> adapter" where
  "follow_send ch raw ad = ad\<lparr>ad_events := ad_events ad @ [Follow ch raw]\<rparr>"

section \<open>Sending on a virtual stream\<close>

text \<open>A stream that was opened here holds back its bytes until it knows the id of its request.\<close>

record registration =
  reg_channel :: nat
  reg_buf :: "byte list"

definition try_parse :: "ietf_version \<Rightarrow> byte list \<Rightarrow> adapter \<Rightarrow> moq_error + request_id option \<times> adapter" where
  "try_parse v buf ad =
     (case u64_decode (Ietf v) buf of
        Inl _ \<Rightarrow> Inr (None, ad)
      | Inr (ty, r) \<Rightarrow>
          (case u16_decode r of
             Inl _ \<Rightarrow> Inr (None, ad)
           | Inr (sz, r) \<Rightarrow>
               (let message_len = (length buf - length r) + unat sz
                in if length buf < message_len then Inr (None, ad)
                   else
                     (case request_id_decode v r of
                        Inl e \<Rightarrow> Inl (ErrDecode e)
                      | Inr (rid, r) \<Rightarrow>
                          if ty = 0x06 then
                            (let r = (if v = Draft17 then (case u64_decode (Ietf v) r of Inr (_, r) \<Rightarrow> r | Inl _ \<Rightarrow> drop 1 r) else r)
                             in case decode_namespace v r of
                                  Inr (ns, _) \<Rightarrow> Inr (Some rid, ad\<lparr>ad_namespaces := (ad_namespaces ad)(ns \<mapsto> rid)\<rparr>)
                                | Inl _ \<Rightarrow> Inr (Some rid, ad))
                          else Inr (Some rid, ad)))))"

definition register :: "registration \<Rightarrow> request_id \<Rightarrow> adapter \<Rightarrow> adapter" where
  "register reg rid ad = ad\<lparr>ad_streams := (ad_streams ad)(rid \<mapsto> reg_channel reg)\<rparr>"

text \<open>\<open>write\<close>: the result, what is still pending, and the state.\<close>

definition vs_write :: "ietf_version \<Rightarrow> byte list \<Rightarrow> registration option \<Rightarrow> adapter
    \<Rightarrow> (moq_error + nat) \<times> registration option \<times> adapter" where
  "vs_write v buf pending ad =
     (case pending of
        Some reg \<Rightarrow>
          (let reg = reg\<lparr>reg_buf := reg_buf reg @ buf\<rparr>
           in case try_parse v (reg_buf reg) ad of
                Inl e \<Rightarrow> (Inl e, Some reg, ad)
              | Inr (None, ad) \<Rightarrow> (Inr (length buf), Some reg, ad)
              | Inr (Some rid, ad) \<Rightarrow>
                  (let ad = register reg rid ad
                   in case control_send (reg_buf reg) ad of
                        Inl e \<Rightarrow> (Inl e, None, ad)
                      | Inr ad \<Rightarrow> (Inr (length buf), None, ad)))
      | None \<Rightarrow>
          (case control_send buf ad of
             Inl e \<Rightarrow> (Inl e, None, ad)
           | Inr ad \<Rightarrow> (Inr (length buf), None, ad)))"

definition vs_finish :: "registration option \<Rightarrow> adapter \<Rightarrow> adapter" where
  "vs_finish pending ad =
     (case pending of
        Some reg \<Rightarrow> if reg_buf reg \<noteq> [] then (case control_send (reg_buf reg) ad of Inr ad \<Rightarrow> ad | Inl _ \<Rightarrow> ad) else ad
      | None \<Rightarrow> ad)"

definition open_bi :: "adapter \<Rightarrow> registration \<times> adapter" where
  "open_bi ad = (\<lparr>reg_channel = ad_fresh ad, reg_buf = []\<rparr>, ad\<lparr>ad_fresh := Suc (ad_fresh ad)\<rparr>)"

section \<open>Routing the control stream\<close>

datatype route =
    NewRequest request_id
  | Response request_id
  | FollowUp request_id
  | CloseStream request_id
  | RouteMaxRequestId request_id
  | RouteGoAway

definition encode_raw :: "ietf_version \<Rightarrow> u64 \<Rightarrow> u16 \<Rightarrow> byte list \<Rightarrow> byte list option" where
  "encode_raw v ty sz body =
     (case encode_bytes (ebind (u64_encode bytes_mut (Ietf v) ty) (u16_encode bytes_mut sz)) of
        Inr header \<Rightarrow> Some (header @ body)
      | Inl _ \<Rightarrow> None)"

definition decode_request_id :: "ietf_version \<Rightarrow> byte list \<Rightarrow> moq_error + request_id" where
  "decode_request_id v body = and_then (map_err ErrDecode (request_id_decode v body)) (\<lambda>(rid, _). Inr rid)"

definition decode_publish_namespace_body :: "ietf_version \<Rightarrow> byte list \<Rightarrow> moq_error + path" where
  "decode_publish_namespace_body v body =
     and_then (map_err ErrDecode (dbind (request_id_decode v) (\<lambda>_.
       dbind (if v = Draft17 then dbind (u64_decode (Ietf v)) (\<lambda>_. dret ()) else dret ()) (\<lambda>_. decode_namespace v)) body))
     (\<lambda>(ns, _). Inr ns)"

definition lookup_namespace_request_id :: "ietf_version \<Rightarrow> adapter \<Rightarrow> byte list \<Rightarrow> moq_error + request_id" where
  "lookup_namespace_request_id v ad body =
     and_then (map_err ErrDecode (decode_namespace v body)) (\<lambda>(ns, _).
       case ad_namespaces ad ns of Some rid \<Rightarrow> Inr rid | None \<Rightarrow> Inl ErrNotFound)"

definition classify :: "ietf_version \<Rightarrow> adapter \<Rightarrow> u64 \<Rightarrow> byte list \<Rightarrow> moq_error + route \<times> adapter" where
  "classify v ad ty body =
     (let by_id = (\<lambda>route. and_then (decode_request_id v body) (\<lambda>rid. Inr (route rid, ad)));
          by_namespace = and_then (lookup_namespace_request_id v ad body) (\<lambda>rid. Inr (CloseStream rid, ad))
      in if ty = 0x03 \<or> ty = 0x16 \<or> ty = 0x1D then by_id NewRequest
         else if ty = 0x06 then
           and_then (decode_request_id v body) (\<lambda>rid.
             case decode_publish_namespace_body v body of
               Inr ns \<Rightarrow> Inr (NewRequest rid, ad\<lparr>ad_namespaces := (ad_namespaces ad)(ns \<mapsto> rid)\<rparr>)
             | Inl _ \<Rightarrow> Inr (NewRequest rid, ad))
         else if ty = 0x0d then by_id NewRequest
         else if ty = 0x11 then (if v = Draft14 \<or> v = Draft15 then by_id NewRequest else Inl ErrUnexpectedMessage)
         else if ty = SUBSCRIBE_TRACKS_ID then Inl ErrUnsupported
         else if ty = 0x04 then by_id Response
         else if ty = 0x05 then by_id CloseStream
         else if ty = 0x18 then by_id Response
         else if ty = 0x19 then (if v = Draft14 then by_id CloseStream else Inl ErrUnexpectedMessage)
         else if ty = 0x1E then by_id Response
         else if ty = 0x1F then by_id CloseStream
         else if ty = 0x07 then (if v = Draft14 \<or> v = Draft15 \<or> v = Draft16 then by_id Response else Inl ErrUnexpectedMessage)
         else if ty = 0x08 then (if v = Draft14 then by_id CloseStream else Inl ErrUnexpectedMessage)
         else if ty = 0x12 then (if v = Draft14 then by_id Response else Inl ErrUnexpectedMessage)
         else if ty = 0x13 then (if v = Draft14 then by_id CloseStream else Inl ErrUnexpectedMessage)
         else if ty = 0x02 then by_id FollowUp
         else if ty = 0x0a \<or> ty = 0x0b \<or> ty = 0x17 then by_id CloseStream
         else if ty = 0x09 \<or> ty = 0x0c then
           (if v = Draft16 then by_id CloseStream
            else if v = Draft14 \<or> v = Draft15 then by_namespace
            else Inl ErrUnexpectedMessage)
         else if ty = 0x14 then (if v = Draft14 \<or> v = Draft15 then by_id CloseStream else Inl ErrUnexpectedMessage)
         else if ty = 0x15 then by_id RouteMaxRequestId
         else if ty = 0x10 then Inr (RouteGoAway, ad)
         else Inl ErrUnexpectedMessage)"

fun apply_route :: "route \<Rightarrow> byte list \<Rightarrow> adapter \<Rightarrow> moq_error + adapter" where
  "apply_route (NewRequest rid) raw ad =
     Inr (ad\<lparr>ad_streams := (ad_streams ad)(rid \<mapsto> ad_fresh ad), ad_fresh := Suc (ad_fresh ad),
       ad_events := ad_events ad @ [Incoming (ad_fresh ad) raw]\<rparr>)"
| "apply_route (Response rid) raw ad =
     (case ad_streams ad rid of Some ch \<Rightarrow> Inr (follow_send ch raw ad) | None \<Rightarrow> Inr ad)"
| "apply_route (FollowUp rid) raw ad =
     (case ad_streams ad rid of Some ch \<Rightarrow> Inr (follow_send ch raw ad) | None \<Rightarrow> Inr ad)"
| "apply_route (CloseStream rid) raw ad =
     (case ad_streams ad rid of
        Some ch \<Rightarrow> Inr (follow_send ch raw (ad\<lparr>ad_streams := (ad_streams ad)(rid := None)\<rparr>))
      | None \<Rightarrow> Inr (ad\<lparr>ad_streams := (ad_streams ad)(rid := None)\<rparr>))"
| "apply_route (RouteMaxRequestId limit) raw ad = Inr (ad\<lparr>ad_control := raise_max limit (ad_control ad)\<rparr>)"
| "apply_route RouteGoAway raw ad = Inl ErrUnsupported"

text \<open>The dispatcher ends: every round takes at least the type of a message from the stream.\<close>

lemma u64_decode_shorter: "u64_decode v bs = Inr (i, rest) \<Longrightarrow> length rest < length bs"
proof -
  have "decode_quic bs = Inr (i, rest) \<Longrightarrow> length rest < length bs"
    by (auto simp: decode_quic_def Let_def split: list.splits if_splits)
  moreover have "decode_leading_ones w bs = Inr (i, rest) \<Longrightarrow> length rest < length bs" for w
    by (auto simp: decode_leading_ones_def Let_def split: list.splits if_splits)
  ultimately show "u64_decode v bs = Inr (i, rest) \<Longrightarrow> length rest < length bs"
    by (cases v) (auto simp: u64_decode_def split: ietf_version.splits)
qed

lemma u16_decode_shorter: "u16_decode bs = Inr (i, rest) \<Longrightarrow> length rest \<le> length bs"
  by (auto simp: u16_decode_def split: if_splits)

lemma reader_decode_unread:
  assumes "stable_decoder d" "reader_decode d r = Inr (a, r')"
  shows "d (unread r) = Inr (a, unread r')"
  using reader_decode_stable [OF assms(1), of r] assms(2) by (auto split: sum.splits decode_error.splits)

lemma has_more_unread: "has_more r = Inr (again, r') \<Longrightarrow> unread r' = unread r"
  by (auto simp: has_more_def read_more_def unread_def split: if_splits list.splits option.splits)

lemma decode_maybe_shorter:
  assumes "decode_maybe (u64_decode v) r = Inr (Some i, r')"
  shows "length (unread r') < length (unread r)"
proof -
  obtain r1 where "has_more r = Inr (True, r1)" "reader_decode (u64_decode v) r1 = Inr (i, r')"
    using assms by (auto simp: decode_maybe_def and_then_Inr_conv split: if_splits)
  then show ?thesis
    using u64_decode_shorter [OF reader_decode_unread [OF stable_u64]] has_more_unread by fastforce
qed

lemma read_exact_shorter: "read_exact n r = Inr (bs, r') \<Longrightarrow> length (unread r') \<le> length (unread r)"
  using read_exact_reads [of n r] read_exact_cut [of r n] by (cases "n \<le> length (unread r)") auto

function run_read :: "ietf_version \<Rightarrow> adapter \<Rightarrow> reader \<Rightarrow> (adapter \<times> (moq_error + unit)) option" where
  "run_read v ad r =
     (case decode_maybe (u64_decode (Ietf v)) r of
        Inl e \<Rightarrow> Some (ad, Inl e)
      | Inr (None, r) \<Rightarrow> Some (ad, Inr ())
      | Inr (Some ty, r) \<Rightarrow>
          (case reader_decode u16_decode r of
             Inl e \<Rightarrow> Some (ad, Inl e)
           | Inr (sz, r) \<Rightarrow>
               (case read_exact (unat sz) r of
                  Inl e \<Rightarrow> Some (ad, Inl e)
                | Inr (body, r) \<Rightarrow>
                    (case encode_raw v ty sz body of
                       None \<Rightarrow> None
                     | Some raw \<Rightarrow>
                         (case classify v ad ty body of
                            Inl e \<Rightarrow> Some (ad, Inl e)
                          | Inr (route, ad) \<Rightarrow>
                              (case apply_route route raw ad of
                                 Inl e \<Rightarrow> Some (ad, Inl e)
                               | Inr ad \<Rightarrow> run_read v ad r))))))"
  by pat_completeness auto
termination
proof (relation "measure (\<lambda>(v, ad, r). length (unread r))", goal_cases)
  case (2 v ad r p x r1 ty q sz r2 q' body r3 raw s route ad1 ad2)
  then show ?case
    using decode_maybe_shorter [of "Ietf v" r ty r1] u16_decode_shorter [OF reader_decode_unread [OF stable_u16, of r1 sz r2]]
      read_exact_shorter [of "unat sz" r2 body r3]
    by fastforce
qed simp

declare run_read.simps [simp del]

section \<open>The id at the head of a message\<close>

text \<open>\<open>keeps P d\<close>: every value that \<open>d\<close> reads satisfies \<open>P\<close>.\<close>

definition keeps :: "('a \<Rightarrow> bool) \<Rightarrow> (decode_error, 'a) decoder \<Rightarrow> bool" where
  "keeps P d \<longleftrightarrow> (\<forall>bs a rest. d bs = Inr (a, rest) \<longrightarrow> P a)"

named_theorems keeps_intros

lemma keeps_dret [keeps_intros]: "P a \<Longrightarrow> keeps P (dret a)"
  by (simp add: keeps_def dret_def)

lemma keeps_dfail [keeps_intros]: "keeps P (dfail e)"
  by (simp add: keeps_def dfail_def)

lemma keeps_bind [keeps_intros]: "(\<And>a. keeps P (f a)) \<Longrightarrow> keeps P (dbind d f)"
  by (auto simp: keeps_def dbind_Inr_conv)

lemma keeps_if [keeps_intros]: "keeps P d \<Longrightarrow> keeps P d' \<Longrightarrow> keeps P (if c then d else d')"
  by simp

lemma leading_id:
  assumes "dbind (request_id_decode v) f bs = Inr (m, r)" "\<And>i. keeps (\<lambda>m. g m = i) (f i)"
  shows "\<exists>rest. request_id_decode v bs = Inr (g m, rest)"
  using assms by (fastforce simp: dbind_Inr_conv keeps_def)

lemma leading_reply_id:
  assumes "draft14_16 v" "dbind (reply_id_decode v) f bs = Inr (m, r)" "\<And>i. keeps (\<lambda>m. g m = i) (f i)"
  shows "\<exists>rest i. g m = Some i \<and> request_id_decode v bs = Inr (i, rest)"
proof -
  obtain i rest where "reply_id_decode v bs = Inr (i, rest)" "f i rest = Inr (m, r)" using assms(2) by (auto simp: dbind_Inr_conv)
  then show ?thesis using assms(1,3) by (fastforce simp: reply_id_decode_def dbind_Inr_conv dret_def keeps_def)
qed

lemma request_leads:
  "ietf_subscribe_decode_msg v bs = Inr (m_isub, r) \<Longrightarrow> \<exists>rest. request_id_decode v bs = Inr (isub_request_id m_isub, rest)"
  "subscribe_error_decode_msg v bs = Inr (m_serr, r) \<Longrightarrow> \<exists>rest. request_id_decode v bs = Inr (serr_request_id m_serr, rest)"
  "unsubscribe_decode_msg v bs = Inr (m_unsub, r) \<Longrightarrow> \<exists>rest. request_id_decode v bs = Inr (unsub_request_id m_unsub, rest)"
  "publish_decode_msg v bs = Inr (m_pub, r) \<Longrightarrow> \<exists>rest. request_id_decode v bs = Inr (pub_request_id m_pub, rest)"
  "publish_error_decode_msg v bs = Inr (m_perr, r) \<Longrightarrow> \<exists>rest. request_id_decode v bs = Inr (perr_request_id m_perr, rest)"
  "publish_namespace_decode_msg v bs = Inr (m_pns, r) \<Longrightarrow> \<exists>rest. request_id_decode v bs = Inr (pns_request_id m_pns, rest)"
  "publish_namespace_ok_decode_msg v bs = Inr (m_pnok, r) \<Longrightarrow> \<exists>rest. request_id_decode v bs = Inr (pnok_request_id m_pnok, rest)"
  "publish_namespace_error_decode_msg v bs = Inr (m_pnerr, r) \<Longrightarrow> \<exists>rest. request_id_decode v bs = Inr (pnerr_request_id m_pnerr, rest)"
  "subscribe_namespace_ok_decode_msg v bs = Inr (m_snok, r) \<Longrightarrow> \<exists>rest. request_id_decode v bs = Inr (snok_request_id m_snok, rest)"
  "subscribe_namespace_error_decode_msg v bs = Inr (m_snerr, r) \<Longrightarrow> \<exists>rest. request_id_decode v bs = Inr (snerr_request_id m_snerr, rest)"
  "unsubscribe_namespace_decode_msg v bs = Inr (m_unsns, r) \<Longrightarrow> \<exists>rest. request_id_decode v bs = Inr (unsns_request_id m_unsns, rest)"
  "ietf_fetch_decode_msg v bs = Inr (m_ifetch, r) \<Longrightarrow> \<exists>rest. request_id_decode v bs = Inr (ifetch_request_id m_ifetch, rest)"
  "fetch_error_decode_msg v bs = Inr (m_ferr, r) \<Longrightarrow> \<exists>rest. request_id_decode v bs = Inr (ferr_request_id m_ferr, rest)"
  "fetch_cancel_decode_msg v bs = Inr (m_fcan, r) \<Longrightarrow> \<exists>rest. request_id_decode v bs = Inr (fcan_request_id m_fcan, rest)"
  "track_status_decode_msg v bs = Inr (m_ts, r) \<Longrightarrow> \<exists>rest. request_id_decode v bs = Inr (ts_request_id m_ts, rest)"
  "max_request_id_decode_msg v bs = Inr (m_maxrid, r) \<Longrightarrow> \<exists>rest. request_id_decode v bs = Inr (maxrid_request_id m_maxrid, rest)"
  unfolding ietf_subscribe_decode_msg_def subscribe_error_decode_msg_def unsubscribe_decode_msg_def publish_decode_msg_def publish_error_decode_msg_def publish_namespace_decode_msg_def publish_namespace_ok_decode_msg_def publish_namespace_error_decode_msg_def subscribe_namespace_ok_decode_msg_def subscribe_namespace_error_decode_msg_def unsubscribe_namespace_decode_msg_def ietf_fetch_decode_msg_def fetch_error_decode_msg_def fetch_cancel_decode_msg_def track_status_decode_msg_def max_request_id_decode_msg_def
  by (erule leading_id, (intro keeps_intros; simp))+

lemma update_leads:
  "ietf_subscribe_update_decode_msg v bs = Inr (m, r) \<Longrightarrow> \<exists>rest. request_id_decode v bs = Inr (isup_request_id m, rest)"
  unfolding ietf_subscribe_update_decode_msg_def
  by (cases v; simp only: ietf_version.case; erule leading_id, (intro keeps_intros; simp))

lemma legacy_leads:
  "subscribe_namespace_legacy_decode_msg v bs = Inr (m, r) \<Longrightarrow> \<exists>rest. request_id_decode v bs = Inr (snl_request_id m, rest)"
  unfolding subscribe_namespace_legacy_decode_msg_def
  by (cases "is_legacy_version v"; simp only: not_True_eq_False not_False_eq_True if_True if_False dfail_def)
    (erule leading_id, (intro keeps_intros; simp), simp)

lemma reply_leads:
  "draft14_16 v \<Longrightarrow> ietf_subscribe_ok_decode_msg v bs = Inr (m_isok, r) \<Longrightarrow>
     \<exists>rest i. isok_request_id m_isok = Some i \<and> request_id_decode v bs = Inr (i, rest)"
  "draft14_16 v \<Longrightarrow> publish_ok_decode_msg v bs = Inr (m_pok, r) \<Longrightarrow>
     \<exists>rest i. pok_request_id m_pok = Some i \<and> request_id_decode v bs = Inr (i, rest)"
  "draft14_16 v \<Longrightarrow> publish_done_decode_msg v bs = Inr (m_pdone, r) \<Longrightarrow>
     \<exists>rest i. pdone_request_id m_pdone = Some i \<and> request_id_decode v bs = Inr (i, rest)"
  "draft14_16 v \<Longrightarrow> fetch_ok_decode_msg v bs = Inr (m_fok, r) \<Longrightarrow>
     \<exists>rest i. fok_request_id m_fok = Some i \<and> request_id_decode v bs = Inr (i, rest)"
  "draft14_16 v \<Longrightarrow> request_ok_decode_msg v bs = Inr (m_rok, r) \<Longrightarrow>
     \<exists>rest i. rok_request_id m_rok = Some i \<and> request_id_decode v bs = Inr (i, rest)"
  "draft14_16 v \<Longrightarrow> request_error_decode_msg v bs = Inr (m_rerr, r) \<Longrightarrow>
     \<exists>rest i. rerr_request_id m_rerr = Some i \<and> request_id_decode v bs = Inr (i, rest)"
  unfolding ietf_subscribe_ok_decode_msg_def publish_ok_decode_msg_def publish_done_decode_msg_def fetch_ok_decode_msg_def request_ok_decode_msg_def request_error_decode_msg_def
  by (erule (1) leading_reply_id, (intro keeps_intros; simp))+

section \<open>Routing by message\<close>

text \<open>
  The routing table as a function of the message. A reply goes to the stream of the request it answers,
  and a message that ends a request closes its stream. A message of a later draft, or one that belongs on
  another stream, is refused.
\<close>

definition only_in :: "ietf_version list \<Rightarrow> ietf_version \<Rightarrow> route \<Rightarrow> moq_error + route" where
  "only_in vs v rt = (if v \<in> set vs then Inr rt else Inl ErrUnexpectedMessage)"

definition close_namespace :: "(path \<rightharpoonup> request_id) \<Rightarrow> path \<Rightarrow> moq_error + route" where
  "close_namespace nss ns = (case nss ns of Some i \<Rightarrow> Inr (CloseStream i) | None \<Rightarrow> Inl ErrNotFound)"

fun message_route :: "ietf_version \<Rightarrow> (path \<rightharpoonup> request_id) \<Rightarrow> control_message \<Rightarrow> moq_error + route" where
  "message_route v nss (CmSubscribe m) = Inr (NewRequest (isub_request_id m))"
| "message_route v nss (CmFetch m) = Inr (NewRequest (ifetch_request_id m))"
| "message_route v nss (CmPublish m) = Inr (NewRequest (pub_request_id m))"
| "message_route v nss (CmPublishNamespace m) = Inr (NewRequest (pns_request_id m))"
| "message_route v nss (CmTrackStatus m) = Inr (NewRequest (ts_request_id m))"
| "message_route v nss (CmSubscribeNamespaceLegacy m) = only_in [Draft14, Draft15] v (NewRequest (snl_request_id m))"
| "message_route v nss (CmSubscribeOk m) = Inr (Response (the (isok_request_id m)))"
| "message_route v nss (CmFetchOk m) = Inr (Response (the (fok_request_id m)))"
| "message_route v nss (CmPublishOk m) = Inr (Response (the (pok_request_id m)))"
| "message_route v nss (CmRequestOk m) = Inr (Response (the (rok_request_id m)))"
| "message_route v nss (CmPublishNamespaceOk m) = Inr (Response (pnok_request_id m))"
| "message_route v nss (CmSubscribeNamespaceOk m) = only_in [Draft14] v (Response (snok_request_id m))"
| "message_route v nss (CmSubscribeError m) = Inr (CloseStream (serr_request_id m))"
| "message_route v nss (CmRequestError m) = Inr (CloseStream (the (rerr_request_id m)))"
| "message_route v nss (CmFetchError m) = only_in [Draft14] v (CloseStream (ferr_request_id m))"
| "message_route v nss (CmPublishError m) = Inr (CloseStream (perr_request_id m))"
| "message_route v nss (CmPublishNamespaceError m) = only_in [Draft14] v (CloseStream (pnerr_request_id m))"
| "message_route v nss (CmSubscribeNamespaceError m) = only_in [Draft14] v (CloseStream (snerr_request_id m))"
| "message_route v nss (CmSubscribeUpdate m) = Inr (FollowUp (isup_request_id m))"
| "message_route v nss (CmUnsubscribe m) = Inr (CloseStream (unsub_request_id m))"
| "message_route v nss (CmPublishDone m) = Inr (CloseStream (the (pdone_request_id m)))"
| "message_route v nss (CmFetchCancel m) = Inr (CloseStream (fcan_request_id m))"
| "message_route v nss (CmPublishNamespaceDone m) =
     (if v = Draft16 then Inr (CloseStream (pndone_request_id m)) else close_namespace nss (pndone_namespace m))"
| "message_route v nss (CmPublishNamespaceCancel m) =
     (if v = Draft16 then Inr (CloseStream (pncan_request_id m)) else close_namespace nss (pncan_namespace m))"
| "message_route v nss (CmUnsubscribeNamespace m) = only_in [Draft14, Draft15] v (CloseStream (unsns_request_id m))"
| "message_route v nss (CmMaxRequestId m) = Inr (RouteMaxRequestId (maxrid_request_id m))"
| "message_route v nss (CmGoaway m) = Inr RouteGoAway"
| "message_route v nss _ = Inl ErrUnexpectedMessage"

text \<open>\<open>Namespace\<close> shares its type with a message of draft 14 and never travels on the control stream.\<close>

fun on_control :: "control_message \<Rightarrow> bool" where
  "on_control (CmNamespace m) = False"
| "on_control m = True"

fun remember_namespace :: "control_message \<Rightarrow> adapter \<Rightarrow> adapter" where
  "remember_namespace (CmPublishNamespace m) ad =
     ad\<lparr>ad_namespaces := (ad_namespaces ad)(pns_namespace m \<mapsto> pns_request_id m)\<rparr>"
| "remember_namespace m ad = ad"

lemma decode_request_idI: "\<exists>rest. request_id_decode v bs = Inr (i, rest) \<Longrightarrow> decode_request_id v bs = Inr i"
  by (auto simp: decode_request_id_def)

text \<open>The request id at the head of a message on the control stream.\<close>

fun message_id :: "ietf_version \<Rightarrow> control_message \<Rightarrow> request_id option" where
  "message_id v (CmSubscribe m) = Some (isub_request_id m)"
| "message_id v (CmFetch m) = Some (ifetch_request_id m)"
| "message_id v (CmPublish m) = Some (pub_request_id m)"
| "message_id v (CmPublishNamespace m) = Some (pns_request_id m)"
| "message_id v (CmTrackStatus m) = Some (ts_request_id m)"
| "message_id v (CmSubscribeNamespaceLegacy m) = Some (snl_request_id m)"
| "message_id v (CmSubscribeOk m) = isok_request_id m"
| "message_id v (CmFetchOk m) = fok_request_id m"
| "message_id v (CmPublishOk m) = pok_request_id m"
| "message_id v (CmRequestOk m) = rok_request_id m"
| "message_id v (CmPublishNamespaceOk m) = Some (pnok_request_id m)"
| "message_id v (CmSubscribeNamespaceOk m) = Some (snok_request_id m)"
| "message_id v (CmSubscribeError m) = Some (serr_request_id m)"
| "message_id v (CmRequestError m) = rerr_request_id m"
| "message_id v (CmFetchError m) = Some (ferr_request_id m)"
| "message_id v (CmPublishError m) = Some (perr_request_id m)"
| "message_id v (CmPublishNamespaceError m) = Some (pnerr_request_id m)"
| "message_id v (CmSubscribeNamespaceError m) = Some (snerr_request_id m)"
| "message_id v (CmSubscribeUpdate m) = Some (isup_request_id m)"
| "message_id v (CmUnsubscribe m) = Some (unsub_request_id m)"
| "message_id v (CmPublishDone m) = pdone_request_id m"
| "message_id v (CmFetchCancel m) = Some (fcan_request_id m)"
| "message_id v (CmPublishNamespaceDone m) = (if v = Draft16 then Some (pndone_request_id m) else None)"
| "message_id v (CmPublishNamespaceCancel m) = (if v = Draft16 then Some (pncan_request_id m) else None)"
| "message_id v (CmUnsubscribeNamespace m) = Some (unsns_request_id m)"
| "message_id v (CmMaxRequestId m) = Some (maxrid_request_id m)"
| "message_id v _ = None"

lemma reply_head: "\<exists>rest i. x = Some i \<and> request_id_decode v bs = Inr (i, rest) \<Longrightarrow> x = Some (the x) \<and> decode_request_id v bs = Inr (the x)"
  by (auto simp: decode_request_id_def)

lemmas message_heads =
  request_leads [THEN decode_request_idI] update_leads [THEN decode_request_idI] legacy_leads [THEN decode_request_idI]
  reply_leads [THEN reply_head]

lemmas message_seen_defs =
  ietf_subscribe_seen_def ietf_subscribe_update_seen_def publish_seen_def publish_ok_seen_def publish_namespace_done_seen_def
  publish_namespace_cancel_seen_def subscribe_namespace_legacy_seen_def ietf_fetch_seen_def fetch_ok_seen_def request_error_seen_def

lemma seen_record_eqs:
  "\<lparr>pndone_namespace = a, pndone_request_id = i\<rparr> = x\<lparr>pndone_namespace := c\<rparr> \<longleftrightarrow> a = c \<and> i = pndone_request_id x"
  "\<lparr>pndone_namespace = a, pndone_request_id = i\<rparr> = x\<lparr>pndone_request_id := j\<rparr> \<longleftrightarrow> a = pndone_namespace x \<and> i = j"
  "\<lparr>pncan_namespace = a, pncan_request_id = i, pncan_error_code = e, pncan_reason = f\<rparr> = y\<lparr>pncan_namespace := c\<rparr>
     \<longleftrightarrow> a = c \<and> i = pncan_request_id y \<and> e = pncan_error_code y \<and> f = pncan_reason y"
  "\<lparr>pncan_namespace = a, pncan_request_id = i, pncan_error_code = e, pncan_reason = f\<rparr> = y\<lparr>pncan_request_id := j\<rparr>
     \<longleftrightarrow> a = pncan_namespace y \<and> i = j \<and> e = pncan_error_code y \<and> f = pncan_reason y"
  by (cases x; cases y; auto)+

lemma message_head:
  assumes "draft14_16 v" "cm_decode v m body = Inr (cm_seen v m, [])" "message_id v m = Some i"
  shows "decode_request_id v body = Inr i"
proof (cases "(\<exists>x. m = CmPublishNamespaceDone x) \<or> (\<exists>x. m = CmPublishNamespaceCancel x)")
  case True
  with assms show ?thesis
    by (auto simp: publish_namespace_done_decode_msg_def publish_namespace_cancel_decode_msg_def message_seen_defs
        decode_request_id_def dbind_Inr_conv dret_def seen_record_eqs split: if_splits dest!: dbind_dret_Inr)
next
  case False
  with assms show ?thesis
    by (cases m) (auto simp del: draft14_16.simps simp: message_seen_defs split: if_splits dest!: dbind_dret_Inr dest: message_heads)
qed

lemma namespace_head:
  assumes "v = Draft14 \<or> v = Draft15" "cm_decode v m body = Inr (cm_seen v m, [])"
    and "m = CmPublishNamespaceDone x \<and> ns = pndone_namespace x \<or> m = CmPublishNamespaceCancel y \<and> ns = pncan_namespace y"
  shows "\<exists>rest. decode_namespace v body = Inr (ns, rest)"
  using assms
  by (auto simp: publish_namespace_done_decode_msg_def publish_namespace_cancel_decode_msg_def message_seen_defs
      dbind_Inr_conv dret_def seen_record_eqs split: if_splits dest!: dbind_dret_Inr)

lemma announced_namespace:
  assumes "publish_namespace_decode_msg v body = Inr (x, [])"
  shows "decode_publish_namespace_body v body = Inr (pns_namespace x)"
  using assms
  by (auto simp: publish_namespace_decode_msg_def decode_publish_namespace_body_def required_delta_decode_def
      dbind_Inr_conv dret_def dbind_Inr split: if_splits)

lemma classify_message:
  assumes "draft14_16 v" "cm_ok v m" "on_control m" "cm_decode v m body = Inr (cm_seen v m, [])"
  shows "classify v ad (cm_id m) body = and_then (message_route v (ad_namespaces ad) m) (\<lambda>rt. Inr (rt, remember_namespace m ad))"
proof (cases "message_id v m")
  case (Some i)
  note head = message_head [OF assms(1,4) Some]
  have pns: "m = CmPublishNamespace x \<Longrightarrow> decode_publish_namespace_body v body = Inr (pns_namespace x)" for x
    using assms(4) by (auto dest!: dbind_dret_Inr dest: announced_namespace)
  show ?thesis using assms(1,3) Some head pns
    by (cases m) (auto simp: classify_def SUBSCRIBE_TRACKS_ID_def only_in_def split: if_splits ietf_version.splits)
next
  case None
  show ?thesis
  proof (cases "(\<exists>x. m = CmPublishNamespaceDone x) \<or> (\<exists>x. m = CmPublishNamespaceCancel x)")
    case True
    then have v: "v = Draft14 \<or> v = Draft15" using None assms(1) by (cases v) auto
    with True namespace_head [OF v assms(4)] show ?thesis
      by (fastforce simp: classify_def SUBSCRIBE_TRACKS_ID_def lookup_namespace_request_id_def close_namespace_def split: option.split)
  next
    case False
    with None assms(1-3) show ?thesis
      by (cases m) (auto simp: classify_def SUBSCRIBE_TRACKS_ID_def reply_ok_def)
  qed
qed

section \<open>Reading the control stream\<close>

definition clean :: "reader \<Rightarrow> bool" where
  "clean r \<longleftrightarrow> [] \<notin> set (chunks (rd_stream r)) \<and> failure (rd_stream r) = None"

lemma read_more_clean: "read_more r = Inr (again, r') \<Longrightarrow> clean r \<Longrightarrow> clean r'"
  by (auto simp: read_more_def clean_def split: list.splits option.splits)

lemma has_more_clean: "has_more r = Inr (again, r') \<Longrightarrow> clean r \<Longrightarrow> clean r'"
  by (auto simp: has_more_def split: if_splits dest: read_more_clean)

lemma reader_decode_clean: "reader_decode d r = Inr (a, r') \<Longrightarrow> clean r \<Longrightarrow> clean r'"
proof (induction "length (chunks (rd_stream r))" arbitrary: r rule: less_induct)
  case less
  from less.prems(1) show ?case
  proof (cases rule: reader_decode_cases)
    case (1 rest)
    then show ?thesis using less.prems(2) by (simp add: clean_def)
  next
    case (2 r1)
    then show ?thesis using less.hyps [OF read_more_shorter [OF 2(2)] 2(3)] read_more_clean [OF 2(2) less.prems(2)] by simp
  qed
qed

lemma stream_read_clean:
  "stream_read n s = Inr (c, s') \<Longrightarrow> [] \<notin> set (chunks s) \<Longrightarrow> [] \<notin> set (chunks s') \<and> failure s' = failure s"
  by (auto simp: stream_read_def split: list.splits option.splits if_splits)

lemma read_exact_loop_clean:
  "read_exact_loop n buf s = Inr (bs, s') \<Longrightarrow> [] \<notin> set (chunks s) \<Longrightarrow> [] \<notin> set (chunks s') \<and> failure s' = failure s"
proof (induction n buf s rule: read_exact_loop.induct)
  case (1 n buf s)
  show ?case
  proof (cases "length buf < n")
    case True
    then obtain c s1 where s1: "stream_read (n - length buf) s = Inr (Some c, s1)" "read_exact_loop n (buf @ c) s1 = Inr (bs, s')"
      using "1.prems"(1) by (subst (asm) read_exact_loop.simps) (auto split: sum.splits option.splits)
    then show ?thesis using "1.IH" [OF True s1(1) refl refl s1(2)] stream_read_clean [OF s1(1) "1.prems"(2)] by simp
  next
    case False
    then show ?thesis using "1.prems" by (subst (asm) read_exact_loop.simps) simp
  qed
qed

lemma read_exact_clean: "read_exact n r = Inr (bs, r') \<Longrightarrow> clean r \<Longrightarrow> clean r'"
  by (auto simp: read_exact_def clean_def and_then_Inr_conv split: if_splits dest: read_exact_loop_clean)

lemma read_message_clean: "read_message v r = Inr (x, r') \<Longrightarrow> clean r \<Longrightarrow> clean r'"
  by (auto simp: read_message_def and_then_Inr_conv dest!: reader_decode_clean read_exact_clean)

lemma read_exact_length: "read_exact n r = Inr (bs, r') \<Longrightarrow> length bs = n"
  using read_exact_reads [of n r] read_exact_cut [of r n] by (cases "n \<le> length (unread r)") auto

text \<open>One round of the dispatcher.\<close>

lemma run_read_round:
  assumes "has_more r = Inr (True, q)" "read_message v q = Inr ((ty, body), r')"
    and "encode_raw v ty (of_nat (length body)) body = Some raw"
  shows "run_read v ad r = (case classify v ad ty body of Inl e \<Rightarrow> Some (ad, Inl e)
    | Inr (route, ad) \<Rightarrow> (case apply_route route raw ad of Inl e \<Rightarrow> Some (ad, Inl e) | Inr ad \<Rightarrow> run_read v ad r'))"
proof -
  obtain r1 sz r2 where r: "reader_decode (u64_decode (Ietf v)) q = Inr (ty, r1)" "reader_decode u16_decode r1 = Inr (sz, r2)"
    "read_exact (unat sz) r2 = Inr (body, r')"
    using assms(2) by (auto simp: read_message_def and_then_Inr_conv)
  have "sz = of_nat (length body)" using read_exact_length [OF r(3)] by simp
  with assms r show ?thesis by (subst run_read.simps) (simp add: decode_maybe_def)
qed

definition route_message :: "ietf_version \<Rightarrow> control_message \<Rightarrow> byte list \<Rightarrow> adapter \<Rightarrow> moq_error + adapter" where
  "route_message v m raw ad =
     and_then (message_route v (ad_namespaces ad) m) (\<lambda>rt. apply_route rt raw (remember_namespace m ad))"

fun route_all :: "ietf_version \<Rightarrow> adapter \<Rightarrow> (control_message \<times> byte list) list \<Rightarrow> adapter \<times> (moq_error + unit)" where
  "route_all v ad [] = (ad, Inr ())"
| "route_all v ad ((m, raw) # ms) =
     (case route_message v m raw ad of Inl e \<Rightarrow> (ad, Inl e) | Inr ad \<Rightarrow> route_all v ad ms)"

lemma read_message_raw:
  assumes "cm_ok v m" "encode_bytes (encode_message bytes_mut v m) = Inr raw" "unread r = raw @ rest"
  obtains body r' where "read_message v r = Inr ((cm_id m, body), r')" "unread r' = rest"
    "cm_decode v m body = Inr (cm_seen v m, [])" "encode_raw v (cm_id m) (of_nat (length body)) body = Some raw"
proof -
  obtain w body where w: "u64_encode bytes_mut (Ietf v) (cm_id m) [] = Inr w" "reads (u64_decode (Ietf v)) w (cm_id m)"
    "raw = w @ be_bytes 2 (of_nat (length body) :: u16) @ body" "length body \<le> 0xFFFF" "cm_decode v m body = Inr (cm_seen v m, [])"
    by (rule encode_message_bytes [OF assms(1,2)])
  have "cm_id m \<le> varint_max" by (cases m) (simp_all add: varint_max_def push_bit_of_1)
  then have "length w \<le> 9"
    using encode_bytes_reads [OF bytes_mut.u64_emits bytes_mut.u64_writes, of "cm_id m" "Ietf v"] w(1) by (simp add: encode_bytes_def)
  with w have "encode_raw v (cm_id m) (of_nat (length body)) body = Some raw"
    by (simp add: encode_raw_def encode_bytes_def ebind_def u16_encode_def check_remaining_def bytes_mut_def)
  moreover obtain r' where "read_message v r = Inr ((cm_id m, body), r')" "unread r' = rest"
    using read_message_framed [OF w(2,4), of r rest] assms(3) w(3) by auto
  ultimately show thesis using w(5) by (intro that)
qed

lemma apply_route_fails: "message_route v nss m = Inr rt \<Longrightarrow> apply_route rt raw ad = Inl e \<Longrightarrow> remember_namespace m ad' = ad'"
  by (cases m) (auto simp: only_in_def close_namespace_def split: if_splits option.splits)

lemma run_read_message:
  assumes "draft14_16 v" "cm_ok v m" "on_control m" "encode_bytes (encode_message bytes_mut v m) = Inr raw"
    and "unread r = raw @ rest" "clean r"
  obtains r' where "unread r' = rest" "clean r'"
    "run_read v ad r = (case route_message v m raw ad of Inl e \<Rightarrow> Some (ad, Inl e) | Inr ad \<Rightarrow> run_read v ad r')"
proof -
  have "unread r \<noteq> []" using encode_message_nonempty [OF assms(2,4)] assms(5) by auto
  then obtain q where q: "has_more r = Inr (True, q)" "unread q = raw @ rest" using has_more_data assms(5) by metis
  obtain body r' where r': "read_message v q = Inr ((cm_id m, body), r')" "unread r' = rest"
    "cm_decode v m body = Inr (cm_seen v m, [])" "encode_raw v (cm_id m) (of_nat (length body)) body = Some raw"
    by (rule read_message_raw [OF assms(2,4) q(2)])
  have "clean r'" using read_message_clean [OF r'(1)] has_more_clean [OF q(1)] assms(6) by simp
  moreover have "run_read v ad r = (case route_message v m raw ad of Inl e \<Rightarrow> Some (ad, Inl e) | Inr ad \<Rightarrow> run_read v ad r')"
    unfolding run_read_round [OF q(1) r'(1,4)] classify_message [OF assms(1-3) r'(3)] route_message_def
    by (auto simp: and_then_def dest: apply_route_fails split: sum.split)
  ultimately show thesis using r'(2) that by blast
qed

lemma run_read_messages:
  assumes "draft14_16 v" "unread r = concat (map snd ms)" "clean r"
    and "list_all (\<lambda>(m, raw). cm_ok v m \<and> on_control m \<and> encode_bytes (encode_message bytes_mut v m) = Inr raw) ms"
  shows "run_read v ad r = Some (route_all v ad ms)"
  using assms(2-4)
proof (induction ms arbitrary: ad r)
  case Nil
  then have "has_more r = Inr (False, r)" by (intro has_more_end) (simp_all add: clean_def)
  then show ?case by (subst run_read.simps) (simp add: decode_maybe_def)
next
  case (Cons p ms)
  obtain m raw where p: "p = (m, raw)" by fastforce
  obtain r' where r': "unread r' = concat (map snd ms)" "clean r'"
    "run_read v ad r = (case route_message v m raw ad of Inl e \<Rightarrow> Some (ad, Inl e) | Inr ad \<Rightarrow> run_read v ad r')"
    by (rule run_read_message [OF assms(1), of m raw r "concat (map snd ms)" ad]) (use Cons.prems p in auto)
  then show ?case using Cons.IH [OF r'(1,2)] Cons.prems(3) p by (auto split: sum.split)
qed

text \<open>
  C7: The dispatcher of the control stream implements the routing table: on a stream that carries any
  sequence of well-formed messages, however the transport splits it, it makes exactly the effects that the
  table gives for each message in turn, and forwards each message unchanged; it stops at the first message that the table
  refuses, with its error, and otherwise at the end of the stream.
\<close>

theorem control_stream_routed:
  assumes "draft14_16 v" "unread r = concat (map snd ms)" "clean r"
    and "list_all (\<lambda>(m, raw). cm_ok v m \<and> on_control m \<and> encode_bytes (encode_message bytes_mut v m) = Inr raw) ms"
  shows "run_read v ad r = Some (route_all v ad ms)"
  using assms by (rule run_read_messages)

theorem control_stream_routed_witness:
  "\<exists>raw1 raw2 ad'. encode_bytes (encode_message bytes_mut Draft15 (CmPublishNamespace \<lparr>pns_request_id = 1, pns_namespace = ''live''\<rparr>)) = Inr raw1
     \<and> encode_bytes (encode_message bytes_mut Draft15 (CmMaxRequestId \<lparr>maxrid_request_id = 10\<rparr>)) = Inr raw2
     \<and> run_read Draft15 (adapter_new (control_new (Some 0) True)) (reader_new \<lparr>chunks = [raw1, raw2], failure = None\<rparr>) = Some (ad', Inr ())
     \<and> ad_streams ad' 1 = Some 0 \<and> ad_events ad' = [Incoming 0 raw1] \<and> rid_max (ad_control ad') = Some 10"
proof -
  let ?m1 = "CmPublishNamespace \<lparr>pns_request_id = 1, pns_namespace = ''live''\<rparr>" and ?m2 = "CmMaxRequestId \<lparr>maxrid_request_id = 10\<rparr>"
  let ?ad = "adapter_new (control_new (Some 0) True)"
  have ok: "cm_ok Draft15 ?m1" "cm_ok Draft15 ?m2"
    by (simp add: ns_ok_def namespace_ok_def varint_max_def push_bit_of_1) (code_simp, simp add: varint_max_def push_bit_of_1)
  obtain raw1 where raw1: "encode_bytes (encode_message bytes_mut Draft15 ?m1) = Inr raw1"
    by (rule encode_message_ok [OF ok(1)]) (simp add: cm_size_def)
  obtain raw2 where raw2: "encode_bytes (encode_message bytes_mut Draft15 ?m2) = Inr raw2"
    by (rule encode_message_ok [OF ok(2)]) (simp add: cm_size_def)
  note raw = raw1 raw2
  then have "raw1 \<noteq> []" "raw2 \<noteq> []" using encode_message_nonempty ok by blast+
  then have "run_read Draft15 ?ad (reader_new \<lparr>chunks = [raw1, raw2], failure = None\<rparr>) = Some (route_all Draft15 ?ad [(?m1, raw1), (?m2, raw2)])"
    using ok raw by (intro control_stream_routed) (simp_all add: clean_def reader_new_def unread_def)
  with raw show ?thesis by (simp add: route_message_def adapter_new_def raise_max_def)
qed

section \<open>No panics\<close>

lemma read_type_bound:
  assumes "draft14_16 v" "decode_maybe (u64_decode (Ietf v)) r = Inr (Some ty, r')"
  shows "ty \<le> varint_max"
proof -
  obtain q where "reader_decode (u64_decode (Ietf v)) q = Inr (ty, r')"
    using assms(2) by (auto simp: decode_maybe_def and_then_Inr_conv split: if_splits)
  from reader_decode_unread [OF stable_u64 this] have "decode_quic (unread q) = Inr (ty, unread r')"
    using assms(1) by (cases v) (simp_all add: u64_decode_def)
  then show ?thesis unfolding varint_max_bits by (rule decode_quic_bound)
qed

lemma encode_raw_total:
  assumes "ty \<le> varint_max"
  shows "encode_raw v ty sz body \<noteq> None"
proof -
  have "writes bytes_mut (ebind (u64_encode bytes_mut (Ietf v) ty) (u16_encode bytes_mut sz))
      (ebind (u64_encode sizer_writer (Ietf v) ty) (u16_encode sizer_writer sz)) (9 + 2)"
    by (intro writes_bind bytes_mut.u64_writes bytes_mut.u16_writes assms)
  from writesD [OF this, of "[]"] show ?thesis by (auto simp: encode_raw_def encode_bytes_def bytes_mut_def)
qed

text \<open>
  C37: The dispatcher never panics: on any bytes, well formed or not, and at any state of the adapter, it
  returns, and the raw message that it rebuilds can always be encoded.
\<close>

theorem dispatcher_never_panics:
  assumes "draft14_16 v"
  shows "run_read v ad r \<noteq> None"
  using assms
proof (induction v ad r rule: run_read.induct)
  case (1 v ad r)
  have raw: "encode_raw v ty sz body \<noteq> None" if "decode_maybe (u64_decode (Ietf v)) r = Inr (Some ty, r')" for ty r' sz body
    using read_type_bound [OF "1.prems" that] by (rule encode_raw_total)
  show ?case using "1.IH" raw "1.prems"
    by (subst run_read.simps) (fastforce simp del: draft14_16.simps split: sum.split option.split)
qed

theorem dispatcher_never_panics_witness:
  "\<exists>res. run_read Draft14 (adapter_new (control_new None True)) (reader_new \<lparr>chunks = [[0xC0], [0, 0], [1, 2, 3]], failure = None\<rparr>) = Some res"
  using dispatcher_never_panics [of Draft14 "adapter_new (control_new None True)"] by simp

section \<open>Virtual receive streams\<close>

definition vr_stream :: "virtual_recv \<Rightarrow> recv_stream" where
  "vr_stream s = \<lparr>chunks = (if vr_buffer s = [] then [] else [vr_buffer s]) @ (if vr_closed s then [] else vr_rx s), failure = None\<rparr>"

text \<open>
  C38: A virtual receive stream is a receive stream: what it reads is what a stream of the transport reads that
  delivers the first message and then the messages of the channel, one chunk each, and ends when the
  channel is closed.
\<close>

theorem virtual_recv_refines:
  "stream_read limit (vr_stream s) = (let (c, s') = vr_read_buf limit s in Inr (c, vr_stream s'))"
  by (cases "vr_buffer s"; cases "vr_rx s")
    (auto simp: vr_stream_def vr_read_buf_def vr_fill_def stream_read_def Let_def min_def)

section \<open>Virtual send streams\<close>

lemma stable_repeat [stable_intros]: "stable_decoder d \<Longrightarrow> stable_decoder (drepeat n d)"
  by (induction n) (simp_all add: stable_intros)

lemma stable_pure [stable_intros]: "stable_decoder (\<lambda>r. and_then x (\<lambda>a. Inr (a, r)))"
  by (cases x) (simp_all add: stable_value stable_error)

lemma stable_string [stable_intros]: "stable_decoder (string_decode v)"
  unfolding string_decode_def bytes_decode_def by (intro stable_intros)

lemma stable_namespace: "stable_decoder (decode_namespace v)"
  unfolding decode_namespace_def by (intro stable_intros)

text \<open>The writes of a stream, one after the other, until one fails.\<close>

fun vs_write_all :: "ietf_version \<Rightarrow> byte list list \<Rightarrow> registration option \<Rightarrow> adapter
    \<Rightarrow> (moq_error + unit) \<times> registration option \<times> adapter" where
  "vs_write_all v [] pending ad = (Inr (), pending, ad)"
| "vs_write_all v (b # bs) pending ad =
     (case vs_write v b pending ad of
        (Inl e, pending, ad) \<Rightarrow> (Inl e, pending, ad)
      | (Inr _, pending, ad) \<Rightarrow> vs_write_all v bs pending ad)"

lemma try_parse_cut:
  assumes "cm_ok v m" "encode_bytes (encode_message bytes_mut v m) = Inr raw" "strict_prefix buf raw"
  shows "try_parse v buf ad = Inr (None, ad)"
proof -
  obtain w body where w: "reads (u64_decode (Ietf v)) w (cm_id m)"
    "raw = w @ be_bytes 2 (of_nat (length body) :: u16) @ body" "length body \<le> 0xFFFF"
    by (rule encode_message_bytes [OF assms(1,2)]) (rule that)
  let ?sz = "of_nat (length body) :: u16"
  have n: "unat ?sz = length body" using w(3) by (simp add: unat_of_nat take_bit_nat_eq_self)
  have p: "prefix buf (w @ be_bytes 2 ?sz @ body)" "buf \<noteq> w @ be_bytes 2 ?sz @ body" using assms(3) w(2) by auto
  consider "strict_prefix buf w" | b where "buf = w @ b" "strict_prefix b (be_bytes 2 ?sz)"
    | b where "buf = w @ be_bytes 2 ?sz @ b" "length b < length body"
  proof (cases "strict_prefix buf w")
    case False
    then obtain us where us: "buf = w @ us" "prefix us (be_bytes 2 ?sz @ body)"
      using p(1) by (auto simp: prefix_append strict_prefix_def)
    show thesis
    proof (cases "strict_prefix us (be_bytes 2 ?sz)")
      case False
      then obtain b where b: "us = be_bytes 2 ?sz @ b" "prefix b body" using us(2) by (auto simp: prefix_append strict_prefix_def)
      then have "length b < length body" using p(2) us(1) by (intro prefix_length_less) (auto simp: strict_prefix_def)
      then show thesis using that(3) us(1) b(1) by simp
    qed (use that(2) us(1) in simp)
  qed (rule that(1))
  then show ?thesis
  proof cases
    case 1
    then have "u64_decode (Ietf v) buf = Inl Short" using w(1) by (simp add: reads_def)
    then show ?thesis by (simp add: try_parse_def)
  next
    case 2
    then have "u64_decode (Ietf v) buf = Inr (cm_id m, b)" "u16_decode b = Inl Short"
      using w(1) reads_u16 [of ?sz] by (simp_all add: reads_def)
    then show ?thesis by (simp add: try_parse_def)
  next
    case 3
    then have "u64_decode (Ietf v) buf = Inr (cm_id m, be_bytes 2 ?sz @ b)" "u16_decode (be_bytes 2 ?sz @ b) = Inr (?sz, b)"
      using w(1) reads_u16 [of ?sz] by (simp_all add: reads_def)
    then show ?thesis using 3 n by (simp add: try_parse_def)
  qed
qed

lemma map_err_Inr_iff: "map_err f x = Inr a \<longleftrightarrow> x = Inr a"
  by (cases x) simp_all

lemma try_parse_whole:
  assumes "draft14_16 v" "cm_ok v m" "encode_bytes (encode_message bytes_mut v m) = Inr raw" "message_id v m = Some i"
  shows "try_parse v (raw @ rest) ad = Inr (Some i, remember_namespace m ad)"
proof -
  obtain w body where w: "reads (u64_decode (Ietf v)) w (cm_id m)"
    "raw = w @ be_bytes 2 (of_nat (length body) :: u16) @ body" "length body \<le> 0xFFFF" "cm_decode v m body = Inr (cm_seen v m, [])"
    by (rule encode_message_bytes [OF assms(2,3)]) (rule that)
  let ?sz = "of_nat (length body) :: u16"
  have n: "unat ?sz = length body" using w(3) by (simp add: unat_of_nat take_bit_nat_eq_self)
  have d: "u64_decode (Ietf v) (raw @ rest) = Inr (cm_id m, be_bytes 2 ?sz @ body @ rest)"
    "u16_decode (be_bytes 2 ?sz @ body @ rest) = Inr (?sz, body @ rest)"
    using w(1,2) reads_u16 [of ?sz] by (simp_all add: reads_def)
  obtain b where b: "request_id_decode v body = Inr (i, b)"
    using message_head [OF assms(1) w(4) assms(4)] by (auto simp: decode_request_id_def and_then_Inr_conv map_err_Inr_iff)
  have id: "request_id_decode v (body @ rest) = Inr (i, b @ rest)"
    using stable_Inr [OF stable_u64 [of "Ietf v"]] b unfolding request_id_decode_def by blast
  have ns: "\<exists>c. decode_namespace v (b @ rest) = Inr (pns_namespace x, c)" if "m = CmPublishNamespace x" for x
  proof -
    have "publish_namespace_decode_msg v body = Inr (x, [])" using w(4) that by (auto dest!: dbind_dret_Inr)
    then obtain c where "decode_namespace v b = Inr (pns_namespace x, c)"
      using assms(1) b by (cases v) (auto simp: publish_namespace_decode_msg_def required_delta_decode_def dbind_Inr_conv dret_def)
    then show ?thesis using stable_Inr [OF stable_namespace] by blast
  qed
  have v: "v \<noteq> Draft17" using assms(1) by auto
  show ?thesis using d id n v ns assms(4) w(2)
    by (cases m) (auto simp: try_parse_def)
qed

lemma vs_write_all_held:
  assumes "cm_ok v m" "encode_bytes (encode_message bytes_mut v m) = Inr raw" "strict_prefix (reg_buf reg @ concat bs) raw"
  shows "vs_write_all v bs (Some reg) ad = (Inr (), Some (reg\<lparr>reg_buf := reg_buf reg @ concat bs\<rparr>), ad)"
  using assms(3)
proof (induction bs arbitrary: reg)
  case (Cons b bs)
  have "strict_prefix (reg_buf reg @ b) raw" using Cons.prems by (auto simp: strict_prefix_def prefix_def)
  then have "try_parse v (reg_buf reg @ b) ad = Inr (None, ad)" by (rule try_parse_cut [OF assms(1,2)])
  then show ?case using Cons.IH [of "reg\<lparr>reg_buf := reg_buf reg @ b\<rparr>"] Cons.prems by (simp add: vs_write_def)
qed simp

lemma vs_write_all_sent:
  "ad_writer_alive ad \<Longrightarrow> \<exists>ad'. vs_write_all v bs None ad = (Inr (), None, ad') \<and> ad' = ad\<lparr>ad_out := ad_out ad @ bs\<rparr>"
  by (induction bs arbitrary: ad) (simp_all add: vs_write_def control_send_def)

lemma vs_write_all_append:
  "vs_write_all v (bs @ cs) pending ad =
     (case vs_write_all v bs pending ad of
        (Inl e, pending, ad) \<Rightarrow> (Inl e, pending, ad)
      | (Inr _, pending, ad) \<Rightarrow> vs_write_all v cs pending ad)"
  by (induction bs arbitrary: pending ad) (auto split: sum.split prod.split)

lemma split_at_message:
  assumes "\<not> strict_prefix (buf @ concat bs) raw" "prefix raw (buf @ concat bs)" "strict_prefix buf raw"
  obtains bs1 b bs2 where "bs = bs1 @ b # bs2" "strict_prefix (buf @ concat bs1) raw" "prefix raw (buf @ concat bs1 @ b)"
  using assms
proof (induction bs arbitrary: buf thesis)
  case (Cons b bs)
  show ?case
  proof (cases "prefix raw (buf @ b)")
    case True
    then show ?thesis using Cons.prems(1) [of "[]" b bs] Cons.prems(4) by simp
  next
    case False
    moreover have "prefix (buf @ b) (buf @ b @ concat bs)" by simp
    ultimately have b: "strict_prefix (buf @ b) raw" using Cons.prems(3) prefix_same_cases by (fastforce simp: strict_prefix_def)
    show ?thesis
      by (rule Cons.IH [of "buf @ b"])
        (use Cons.prems b in \<open>auto intro: Cons.prems(1) [of "b # bs1" for bs1, simplified]\<close>)
  qed
qed simp

text \<open>
  However the writes of a request are split, its stream puts nothing on the control stream and answers to no
  id until the request is whole; then it is registered under the id of the request, and the control stream gets exactly
  the bytes that were written, in order.
\<close>

lemma vs_write_all_request:
  assumes "draft14_16 v" "cm_ok v m" "encode_bytes (encode_message bytes_mut v m) = Inr raw" "message_id v m = Some i"
    and "ad_writer_alive ad"
  shows "(strict_prefix (concat bs) raw \<longrightarrow>
      vs_write_all v bs (Some \<lparr>reg_channel = ch, reg_buf = []\<rparr>) ad = (Inr (), Some \<lparr>reg_channel = ch, reg_buf = concat bs\<rparr>, ad))
    \<and> (concat bs = raw @ rest \<longrightarrow>
      (\<exists>ad'. vs_write_all v bs (Some \<lparr>reg_channel = ch, reg_buf = []\<rparr>) ad = (Inr (), None, ad')
        \<and> ad_streams ad' = (ad_streams ad)(i \<mapsto> ch) \<and> concat (ad_out ad') = concat (ad_out ad) @ raw @ rest
        \<and> ad_events ad' = ad_events ad \<and> ad_fresh ad' = ad_fresh ad))"
proof (intro conjI impI)
  let ?reg = "\<lparr>reg_channel = ch, reg_buf = []\<rparr>"
  show "vs_write_all v bs (Some ?reg) ad = (Inr (), Some \<lparr>reg_channel = ch, reg_buf = concat bs\<rparr>, ad)" if "strict_prefix (concat bs) raw"
    using vs_write_all_held [OF assms(2,3), of ?reg bs ad] that by simp
  assume c: "concat bs = raw @ rest"
  have raw: "raw \<noteq> []" by (rule encode_message_nonempty [OF assms(2,3)])
  obtain bs1 b bs2 where bs: "bs = bs1 @ b # bs2" "strict_prefix (concat bs1) raw" "prefix raw (concat bs1 @ b)"
    by (rule split_at_message [of "[]" bs raw]) (use c raw in \<open>auto simp: strict_prefix_def prefix_def\<close>)
  obtain rest1 where rest1: "concat bs1 @ b = raw @ rest1" using bs(3) by (auto simp: prefix_def)
  let ?ad = "(remember_namespace m ad)\<lparr>ad_streams := (ad_streams ad)(i \<mapsto> ch), ad_out := ad_out ad @ [raw @ rest1]\<rparr>"
  have same: "ad_streams (remember_namespace m ad) = ad_streams ad" "ad_out (remember_namespace m ad) = ad_out ad"
    "ad_writer_alive (remember_namespace m ad) = ad_writer_alive ad" "ad_events (remember_namespace m ad) = ad_events ad"
    "ad_fresh (remember_namespace m ad) = ad_fresh ad"
    by (cases m; simp)+
  have w1: "vs_write_all v bs1 (Some ?reg) ad = (Inr (), Some \<lparr>reg_channel = ch, reg_buf = concat bs1\<rparr>, ad)"
    using vs_write_all_held [OF assms(2,3), of ?reg bs1 ad] bs(2) by simp
  have w2: "vs_write v b (Some \<lparr>reg_channel = ch, reg_buf = concat bs1\<rparr>) ad = (Inr (length b), None, ?ad)"
    using try_parse_whole [OF assms(1-4), of rest1 ad] assms(5)
    by (simp add: vs_write_def rest1 control_send_def register_def same)
  obtain ad' where "vs_write_all v bs2 None ?ad = (Inr (), None, ad')" "ad' = ?ad\<lparr>ad_out := ad_out ?ad @ bs2\<rparr>"
    using vs_write_all_sent [of ?ad v bs2] assms(5) same by auto
  moreover have "raw @ rest = raw @ rest1 @ concat bs2" using c rest1 unfolding bs(1) by (metis append.assoc concat.simps(2) concat_append)
  ultimately show "\<exists>ad'. vs_write_all v bs (Some ?reg) ad = (Inr (), None, ad')
        \<and> ad_streams ad' = (ad_streams ad)(i \<mapsto> ch) \<and> concat (ad_out ad') = concat (ad_out ad) @ raw @ rest
        \<and> ad_events ad' = ad_events ad \<and> ad_fresh ad' = ad_fresh ad"
    using w1 w2 same by (intro exI [of _ ad']) (simp add: bs(1) vs_write_all_append)
qed

section \<open>Requests and replies, end to end\<close>

text \<open>
  C36: A request that is written on a virtual stream of one peer, however its writes and the bytes of the control
  stream are split, is taken by the other peer as a new virtual stream, which its session dispatches to the
  handler of the request.
\<close>

theorem request_reaches_handler:
  assumes "draft14_16 v" "cm_ok v m" "on_control m" "encode_bytes (encode_message bytes_mut v m) = Inr raw"
    and "message_route v (ad_namespaces peer) m = Inr (NewRequest i)" "message_id v m = Some i"
    and "open_bi ad = (reg, ad1)" "concat bs = raw" "ad_writer_alive ad" "ad_out ad = []"
  shows "\<exists>ad2. vs_write_all v bs (Some reg) ad1 = (Inr (), None, ad2) \<and> ad_streams ad2 i = Some (reg_channel reg)
    \<and> concat (ad_out ad2) = raw \<and> (\<forall>r. unread r = concat (ad_out ad2) \<and> clean r \<longrightarrow>
        (\<exists>peer2. run_read v peer r = Some (peer2, Inr ()) \<and> ad_events peer2 = ad_events peer @ [Incoming (ad_fresh peer) raw]
          \<and> ad_streams peer2 i = Some (ad_fresh peer)
          \<and> (\<forall>h. handler_of (cm_seen v m) = Some h \<longrightarrow>
              (\<exists>r'. dispatch_stream v (reader_new (vr_stream (vr_new raw []))) = Inr (h, r') \<and> unread r' = []))))"
proof -
  have reg: "reg = \<lparr>reg_channel = ad_fresh ad, reg_buf = []\<rparr>" and ad1: "ad1 = ad\<lparr>ad_fresh := Suc (ad_fresh ad)\<rparr>"
    using assms(7) by (auto simp: open_bi_def)
  obtain ad2 where ad2: "vs_write_all v bs (Some reg) ad1 = (Inr (), None, ad2)" "ad_streams ad2 = (ad_streams ad)(i \<mapsto> reg_channel reg)"
    "concat (ad_out ad2) = raw"
    using vs_write_all_request [OF assms(1,2,4,6), of ad1 bs "ad_fresh ad" "[]"] assms(8-10) reg ad1 by auto
  have served: "\<exists>peer2. run_read v peer r = Some (peer2, Inr ()) \<and> ad_events peer2 = ad_events peer @ [Incoming (ad_fresh peer) raw]
      \<and> ad_streams peer2 i = Some (ad_fresh peer)" if "unread r = raw" "clean r" for r
  proof -
    have "run_read v peer r = Some (route_all v peer [(m, raw)])"
      using that assms(1-4) by (intro run_read_messages) simp_all
    moreover have "ad_events (remember_namespace m peer) = ad_events peer" "ad_fresh (remember_namespace m peer) = ad_fresh peer"
      by (cases m; simp)+
    ultimately show ?thesis using assms(5) by (simp add: route_message_def)
  qed
  have "unread (reader_new (vr_stream (vr_new raw []))) = raw @ []"
    using encode_message_nonempty [OF assms(2,4)] by (simp add: vr_stream_def vr_new_def)
  from dispatch_written [OF assms(2,4) this]
  have "\<exists>r'. dispatch_stream v (reader_new (vr_stream (vr_new raw []))) = Inr (h, r') \<and> unread r' = []"
    if "handler_of (cm_seen v m) = Some h" for h
    using that by simp
  with ad2 served show ?thesis by auto
qed

theorem request_reaches_handler_witness:
  "\<exists>raw ad2 peer2 r'. encode_bytes (encode_message bytes_mut Draft16 (CmPublishNamespace \<lparr>pns_request_id = 4, pns_namespace = ''live''\<rparr>)) = Inr raw
     \<and> vs_write_all Draft16 [raw] (Some (fst (open_bi (adapter_new (control_new None True))))) (snd (open_bi (adapter_new (control_new None True))))
       = (Inr (), None, ad2)
     \<and> run_read Draft16 (adapter_new (control_new None False)) (reader_new \<lparr>chunks = [raw], failure = None\<rparr>) = Some (peer2, Inr ())
     \<and> ad_events peer2 = [Incoming 0 raw]
     \<and> dispatch_stream Draft16 (reader_new (vr_stream (vr_new raw []))) = Inr (HandlePublishNamespace \<lparr>pns_request_id = 4, pns_namespace = ''live''\<rparr>, r')"
proof -
  let ?m = "CmPublishNamespace \<lparr>pns_request_id = 4, pns_namespace = ''live''\<rparr>" and ?ad = "adapter_new (control_new None True)"
  let ?peer = "adapter_new (control_new None False)"
  have ok: "cm_ok Draft16 ?m" by (simp add: ns_ok_def namespace_ok_def varint_max_def push_bit_of_1) code_simp
  obtain raw where raw: "encode_bytes (encode_message bytes_mut Draft16 ?m) = Inr raw"
    by (rule encode_message_ok [OF ok]) (simp add: cm_size_def)
  have ne: "raw \<noteq> []" by (rule encode_message_nonempty [OF ok raw])
  from request_reaches_handler [OF _ ok _ raw, of ?peer 4 ?ad "fst (open_bi ?ad)" "snd (open_bi ?ad)" "[raw]"]
  obtain ad2 where ad2: "vs_write_all Draft16 [raw] (Some (fst (open_bi ?ad))) (snd (open_bi ?ad)) = (Inr (), None, ad2)"
    "concat (ad_out ad2) = raw"
    and served: "\<forall>r. unread r = concat (ad_out ad2) \<and> clean r \<longrightarrow>
        (\<exists>peer2. run_read Draft16 ?peer r = Some (peer2, Inr ()) \<and> ad_events peer2 = [Incoming 0 raw]
          \<and> (\<exists>r'. dispatch_stream Draft16 (reader_new (vr_stream (vr_new raw []))) = Inr (HandlePublishNamespace \<lparr>pns_request_id = 4, pns_namespace = ''live''\<rparr>, r')))"
    by (fastforce simp: adapter_new_def open_bi_def)
  show ?thesis using ad2 raw served [rule_format, of "reader_new \<lparr>chunks = [raw], failure = None\<rparr>"] ne
    by (auto simp: clean_def reader_new_def unread_def)
qed

section \<open>Streams and their requests\<close>

text \<open>
  What can happen to an adapter with the virtual send streams that were opened on it: a message comes, a stream is
  opened, written to or finished, and the writer of the control stream ends.
\<close>

inductive adapter_reach :: "ietf_version \<Rightarrow> adapter \<Rightarrow> registration option list \<Rightarrow> bool" for v where
  reach_new: "adapter_reach v (adapter_new c) []"
| reach_read: "adapter_reach v ad ps \<Longrightarrow> classify v ad ty body = Inr (rt, ad1) \<Longrightarrow> apply_route rt raw ad1 = Inr ad2
    \<Longrightarrow> adapter_reach v ad2 ps"
| reach_open: "adapter_reach v ad ps \<Longrightarrow> open_bi ad = (reg, ad') \<Longrightarrow> adapter_reach v ad' (ps @ [Some reg])"
| reach_write: "adapter_reach v ad ps \<Longrightarrow> k < length ps \<Longrightarrow> vs_write v buf (ps ! k) ad = (res, p, ad')
    \<Longrightarrow> adapter_reach v ad' (ps[k := p])"
| reach_finish: "adapter_reach v ad ps \<Longrightarrow> k < length ps \<Longrightarrow> adapter_reach v (vs_finish (ps ! k) ad) (ps[k := None])"
| reach_writer_ends: "adapter_reach v ad ps \<Longrightarrow> adapter_reach v (ad\<lparr>ad_writer_alive := False\<rparr>) ps"

fun held :: "registration option \<Rightarrow> nat list" where
  "held (Some reg) = [reg_channel reg]"
| "held None = []"

abbreviation all_held :: "registration option list \<Rightarrow> nat list" where
  "all_held ps \<equiv> concat (map held ps)"

definition owned :: "adapter \<Rightarrow> nat list \<Rightarrow> bool" where
  "owned ad hs \<longleftrightarrow> ran (ad_streams ad) \<subseteq> {..<ad_fresh ad} \<and> inj_on (ad_streams ad) (dom (ad_streams ad))
     \<and> distinct hs \<and> set hs \<subseteq> {..<ad_fresh ad} \<and> set hs \<inter> ran (ad_streams ad) = {}"

lemma classify_keeps:
  "classify v ad ty body = Inr (rt, ad1) \<Longrightarrow> ad_streams ad1 = ad_streams ad \<and> ad_fresh ad1 = ad_fresh ad \<and> ad_events ad1 = ad_events ad"
  unfolding classify_def Let_def
  by (cases "decode_publish_namespace_body v body") (auto simp: and_then_Inr_conv split: if_splits)

lemma try_parse_keeps:
  "try_parse v buf ad = Inr (x, ad1) \<Longrightarrow> ad_streams ad1 = ad_streams ad \<and> ad_fresh ad1 = ad_fresh ad"
  by (auto simp: try_parse_def Let_def split: sum.splits prod.splits if_splits)

lemma inj_on_fresh: "inj_on m (dom m) \<Longrightarrow> c \<notin> ran m \<Longrightarrow> inj_on (m(i \<mapsto> c)) (dom (m(i \<mapsto> c)))"
  by (auto simp: inj_on_def ran_def dom_def)

lemma ran_update: "ran (m(i \<mapsto> c)) \<subseteq> insert c (ran m)"
  by (auto simp: ran_def)

lemma ran_forget: "ran (m(i := None)) \<subseteq> ran m"
  by (auto simp: ran_def)

lemma owned_close: "owned ad hs \<Longrightarrow> owned (ad\<lparr>ad_streams := (ad_streams ad)(i := None)\<rparr>) hs"
proof -
  assume o: "owned ad hs"
  have "inj_on ((ad_streams ad)(i := None)) (dom ((ad_streams ad)(i := None)))"
    using o by (auto simp: owned_def inj_on_def)
  then show ?thesis using o ran_forget [of "ad_streams ad" i] unfolding owned_def by auto
qed

lemma owned_cong: "owned ad hs \<Longrightarrow> ad_streams ad' = ad_streams ad \<Longrightarrow> ad_fresh ad' = ad_fresh ad \<Longrightarrow> owned ad' hs"
  by (simp add: owned_def)

lemma owned_assign:
  assumes "owned ad hs" "ad_streams ad' = (ad_streams ad)(i \<mapsto> c)" "c \<notin> ran (ad_streams ad)" "c < ad_fresh ad'" "ad_fresh ad \<le> ad_fresh ad'"
    and "distinct hs'" "set hs' \<subseteq> set hs - {c}"
  shows "owned ad' hs'"
proof -
  have "inj_on (ad_streams ad') (dom (ad_streams ad'))"
    unfolding assms(2) using assms(1,3) by (intro inj_on_fresh) (simp_all add: owned_def)
  moreover have "ran (ad_streams ad') \<subseteq> insert c (ran (ad_streams ad))" unfolding assms(2) by (rule ran_update)
  moreover have "ran (ad_streams ad) \<subseteq> {..<ad_fresh ad'}" "set hs \<subseteq> {..<ad_fresh ad'}" "set hs \<inter> ran (ad_streams ad) = {}"
    using assms(1,5) by (fastforce simp: owned_def)+
  ultimately show ?thesis using assms(4,6,7) unfolding owned_def by blast
qed

lemma owned_route:
  assumes "owned ad hs" "apply_route rt raw ad = Inr ad'"
  shows "owned ad' hs"
proof (cases rt)
  case (NewRequest i)
  have "set hs \<subseteq> set hs - {ad_fresh ad}" "ad_fresh ad \<notin> ran (ad_streams ad)" "distinct hs" using assms(1) by (auto simp: owned_def)
  then show ?thesis using assms(2) NewRequest by (intro owned_assign [OF assms(1), of ad' i "ad_fresh ad"]) auto
next
  case (CloseStream i)
  then show ?thesis using assms(2) owned_close [OF assms(1), of i]
    by (auto simp: follow_send_def split: option.splits elim!: owned_cong)
qed (use assms in \<open>auto simp: follow_send_def split: option.splits elim!: owned_cong\<close>)

lemma vs_write_outcome:
  assumes "vs_write v buf pending ad = (res, p, ad')"
  shows "ad_fresh ad' = ad_fresh ad \<and> (held p = held pending \<and> ad_streams ad' = ad_streams ad
    \<or> p = None \<and> (\<exists>reg i. pending = Some reg \<and> ad_streams ad' = (ad_streams ad)(i \<mapsto> reg_channel reg)))"
proof (cases pending)
  case None
  with assms show ?thesis by (auto simp: vs_write_def control_send_def split: if_splits)
next
  case (Some reg)
  consider e where "try_parse v (reg_buf reg @ buf) ad = Inl e" | ad1 where "try_parse v (reg_buf reg @ buf) ad = Inr (None, ad1)"
    | i ad1 where "try_parse v (reg_buf reg @ buf) ad = Inr (Some i, ad1)"
    by (metis not_Some_eq old.sum.exhaust surj_pair)
  then show ?thesis
  proof cases
    case (3 i ad1)
    then have "p = None" "ad_fresh ad' = ad_fresh ad" "ad_streams ad' = (ad_streams ad)(i \<mapsto> reg_channel reg)"
      using assms Some try_parse_keeps [OF 3] by (auto simp: vs_write_def Let_def register_def control_send_def split: if_splits)
    then show ?thesis using Some by blast
  qed (use assms Some in \<open>auto simp: vs_write_def Let_def dest: try_parse_keeps\<close>)
qed

lemma owned_write:
  assumes "owned ad (all_held ps)" "k < length ps" "vs_write v buf (ps ! k) ad = (res, p, ad')"
  shows "owned ad' (all_held (ps[k := p]))"
proof -
  have "all_held ps = all_held (take k ps @ ps ! k # drop (Suc k) ps)" using assms(2) by (simp only: id_take_nth_drop [symmetric])
  then obtain xs ys where ps: "all_held ps = xs @ held (ps ! k) @ ys" "all_held (ps[k := p]) = xs @ held p @ ys"
    using assms(2) by (auto simp: upd_conv_take_nth_drop)
  note out = vs_write_outcome [OF assms(3)]
  show ?thesis
  proof (cases "held p = held (ps ! k) \<and> ad_streams ad' = ad_streams ad")
    case True
    then show ?thesis using owned_cong [OF assms(1)] out unfolding ps by simp
  next
    case False
    then obtain reg i where reg: "ps ! k = Some reg" "p = None" "ad_streams ad' = (ad_streams ad)(i \<mapsto> reg_channel reg)"
      using out by blast
    have o: "owned ad (xs @ reg_channel reg # ys)" using assms(1) reg(1) unfolding ps by simp
    then have "distinct (xs @ ys)" "set (xs @ ys) \<subseteq> set (xs @ reg_channel reg # ys) - {reg_channel reg}"
      "reg_channel reg \<notin> ran (ad_streams ad)" "reg_channel reg < ad_fresh ad"
      unfolding owned_def by auto
    moreover have "ad_fresh ad' = ad_fresh ad" using out by blast
    ultimately have "owned ad' (xs @ ys)" by (intro owned_assign [OF o reg(3)]) (simp_all only: order_refl not_False_eq_True)
    then show ?thesis using ps(2) reg(2) by simp
  qed
qed

lemma owned_open:
  "owned ad hs \<Longrightarrow> ad_streams ad' = ad_streams ad \<Longrightarrow> ad_fresh ad' = Suc (ad_fresh ad) \<Longrightarrow> owned ad' (hs @ [ad_fresh ad])"
  unfolding owned_def by fastforce

lemma owned_finish:
  assumes "owned ad (all_held ps)" "k < length ps"
  shows "owned (vs_finish (ps ! k) ad) (all_held (ps[k := None]))"
proof -
  have "all_held ps = all_held (take k ps @ ps ! k # drop (Suc k) ps)" using assms(2) by (simp only: id_take_nth_drop [symmetric])
  then obtain xs ys where ps: "all_held ps = xs @ held (ps ! k) @ ys" "all_held (ps[k := None]) = xs @ ys"
    using assms(2) by (auto simp: upd_conv_take_nth_drop)
  have "owned ad (xs @ ys)" using assms(1) unfolding ps owned_def by auto
  moreover have "ad_streams (vs_finish (ps ! k) ad) = ad_streams ad" "ad_fresh (vs_finish (ps ! k) ad) = ad_fresh ad"
    by (auto simp: vs_finish_def control_send_def split: option.splits)
  ultimately show ?thesis unfolding ps(2) by (rule owned_cong)
qed

lemma reach_owned: "adapter_reach v ad ps \<Longrightarrow> owned ad (all_held ps)"
proof (induction rule: adapter_reach.induct)
  case (reach_new c)
  show ?case by (simp add: owned_def adapter_new_def)
next
  case (reach_read ad ps ty body rt ad1 raw ad2)
  have "owned ad1 (all_held ps)" using classify_keeps [OF reach_read.hyps(2)] by (intro owned_cong [OF reach_read.IH]) simp_all
  then show ?case by (rule owned_route) (rule reach_read.hyps(3))
next
  case (reach_open ad ps reg ad')
  then have "reg_channel reg = ad_fresh ad" "ad_streams ad' = ad_streams ad" "ad_fresh ad' = Suc (ad_fresh ad)"
    by (auto simp: open_bi_def)
  then show ?case using owned_open [OF reach_open.IH, of ad'] by simp
next
  case (reach_write ad ps k buf res p ad')
  then show ?case by (intro owned_write)
next
  case (reach_finish ad ps k)
  then show ?case by (intro owned_finish)
next
  case (reach_writer_ends ad ps)
  show ?case by (rule owned_cong [OF reach_writer_ends.IH]) simp_all
qed

text \<open>
  C8: A reply reaches the stream of its request and no other: in every reachable state of the adapter a channel
  belongs to at most one request, and to none that is still being written, so that the reply that the
  peer sends for a request, however it arrives, is delivered on the channel of that request, where it is read
  back whole; the requests with other ids keep their channels, and a reply that ends the request
  gives up its id.
\<close>

theorem reply_reaches_request:
  assumes "draft14_16 v" "adapter_reach v ad ps" "ad_streams ad i = Some ch"
    and "cm_ok v m" "on_control m" "encode_bytes (encode_message bytes_mut v m) = Inr raw" "unread r = raw" "clean r"
    and route: "message_route v (ad_namespaces ad) m = Inr rt" "rt = Response i \<or> rt = CloseStream i"
  shows "(\<exists>ad'. run_read v ad r = Some (ad', Inr ()) \<and> ad_events ad' = ad_events ad @ [Follow ch raw]
      \<and> ad_streams ad' = (if rt = CloseStream i then (ad_streams ad)(i := None) else ad_streams ad))
    \<and> (\<forall>j. ad_streams ad j = Some ch \<longrightarrow> j = i) \<and> (\<forall>reg. Some reg \<in> set ps \<longrightarrow> reg_channel reg \<noteq> ch)
    \<and> (\<exists>body r'. read_message v (reader_new (vr_stream (vr_new [] [raw]))) = Inr ((cm_id m, body), r')
        \<and> cm_decode v m body = Inr (cm_seen v m, []))"
proof (intro conjI)
  have o: "owned ad (all_held ps)" by (rule reach_owned [OF assms(2)])
  show "\<forall>j. ad_streams ad j = Some ch \<longrightarrow> j = i" using o assms(3) by (auto simp: owned_def inj_on_def dom_def)
  have "ch \<in> ran (ad_streams ad)" using assms(3) by (rule ranI)
  moreover have "reg_channel reg \<in> set (all_held ps)" if "Some reg \<in> set ps" for reg using that by force
  ultimately show "\<forall>reg. Some reg \<in> set ps \<longrightarrow> reg_channel reg \<noteq> ch" using o unfolding owned_def by blast
  have "run_read v ad r = Some (route_all v ad [(m, raw)])" using assms by (intro run_read_messages) simp_all
  moreover have "remember_namespace m ad = ad" using route by (cases m) auto
  ultimately show "\<exists>ad'. run_read v ad r = Some (ad', Inr ()) \<and> ad_events ad' = ad_events ad @ [Follow ch raw]
      \<and> ad_streams ad' = (if rt = CloseStream i then (ad_streams ad)(i := None) else ad_streams ad)"
    using route assms(3) by (auto simp: route_message_def follow_send_def)
  have "unread (reader_new (vr_stream (vr_new [] [raw]))) = raw @ []" by (simp add: vr_stream_def vr_new_def)
  from read_message_written [OF assms(4,6) this]
  show "\<exists>body r'. read_message v (reader_new (vr_stream (vr_new [] [raw]))) = Inr ((cm_id m, body), r') \<and> cm_decode v m body = Inr (cm_seen v m, [])"
    by metis
qed

theorem reply_reaches_request_witness:
  "\<exists>ad raw ad'. encode_bytes (encode_message bytes_mut Draft14 (CmUnsubscribe \<lparr>unsub_request_id = 1\<rparr>)) = Inr raw
     \<and> adapter_reach Draft14 ad [] \<and> ad_streams ad 1 = Some 0
     \<and> run_read Draft14 ad (reader_new \<lparr>chunks = [raw], failure = None\<rparr>) = Some (ad', Inr ())
     \<and> ad_events ad' = ad_events ad @ [Follow 0 raw] \<and> ad_streams ad' 1 = None"
proof -
  let ?m = "CmUnsubscribe \<lparr>unsub_request_id = 1\<rparr>" and ?new = "adapter_new (control_new None True)"
  let ?ad = "?new\<lparr>ad_streams := (ad_streams ?new)(1 \<mapsto> ad_fresh ?new), ad_fresh := Suc (ad_fresh ?new),
    ad_events := ad_events ?new @ [Incoming (ad_fresh ?new) []]\<rparr>"
  have ok: "cm_ok Draft14 ?m" by (simp add: varint_max_def push_bit_of_1)
  obtain raw where raw: "encode_bytes (encode_message bytes_mut Draft14 ?m) = Inr raw"
    by (rule encode_message_ok [OF ok]) (simp add: cm_size_def)
  have ne: "raw \<noteq> []" by (rule encode_message_nonempty [OF ok raw])
  have "classify Draft14 ?new 3 [1] = Inr (NewRequest 1, ?new)"
    by (simp add: classify_def decode_request_id_def request_id_decode_def u64_decode_def decode_quic_def)
  then have reach: "adapter_reach Draft14 ?ad []" by (rule reach_read [OF reach_new]) simp
  from reply_reaches_request [OF _ reach _ ok _ raw, of 1 0 "reader_new \<lparr>chunks = [raw], failure = None\<rparr>" "CloseStream 1"] ne
  obtain ad' where "run_read Draft14 ?ad (reader_new \<lparr>chunks = [raw], failure = None\<rparr>) = Some (ad', Inr ())"
    "ad_events ad' = ad_events ?ad @ [Follow 0 raw]" "ad_streams ad' 1 = None"
    by (auto simp: adapter_new_def clean_def reader_new_def unread_def)
  with raw reach show ?thesis by (intro exI [of _ ?ad] exI [of _ raw] exI [of _ ad']) (simp add: adapter_new_def)
qed

section \<open>Messages that go astray\<close>

text \<open>
  SUBSCRIBE_UPDATE carries an id of its own and the id of the subscription it changes, and is routed by the
  first: unless that happens to be the id of an open request, it is dropped, although the stream of
  the subscription is open.
\<close>

theorem subscribe_update_dropped:
  assumes "draft14_16 v" "cm_ok v (CmSubscribeUpdate u)" "encode_bytes (encode_message bytes_mut v (CmSubscribeUpdate u)) = Inr raw"
    and "isup_subscription_id u = Some s" "ad_streams ad s = Some ch" "ad_streams ad (isup_request_id u) = None"
    and "unread r = raw" "clean r"
  shows "run_read v ad r = Some (ad, Inr ())"
proof -
  have "run_read v ad r = Some (route_all v ad [(CmSubscribeUpdate u, raw)])" using assms by (intro run_read_messages) simp_all
  with assms(6) show ?thesis by (simp add: route_message_def)
qed

theorem subscribe_update_dropped_witness:
  "\<exists>raw. encode_bytes (encode_message bytes_mut Draft14 (CmSubscribeUpdate \<lparr>isup_request_id = 2, isup_subscription_id = Some 0,
        isup_start = \<lparr>loc_group = 0, loc_object = 0\<rparr>, isup_end_group = 0, isup_priority = 7, isup_forward = True\<rparr>)) = Inr raw
     \<and> run_read Draft14 ((adapter_new (control_new None False))\<lparr>ad_streams := [0 \<mapsto> 5]\<rparr>) (reader_new \<lparr>chunks = [raw], failure = None\<rparr>)
       = Some ((adapter_new (control_new None False))\<lparr>ad_streams := [0 \<mapsto> 5]\<rparr>, Inr ())"
proof -
  let ?u = "\<lparr>isup_request_id = 2, isup_subscription_id = Some 0, isup_start = \<lparr>loc_group = 0, loc_object = 0\<rparr>,
    isup_end_group = 0, isup_priority = 7, isup_forward = True\<rparr>"
  let ?m = "CmSubscribeUpdate ?u" and ?ad = "(adapter_new (control_new None False))\<lparr>ad_streams := [0 \<mapsto> 5]\<rparr>"
  have ok: "cm_ok Draft14 ?m" by (simp add: varint_max_def push_bit_of_1 reply_ok_def)
  obtain raw where raw: "encode_bytes (encode_message bytes_mut Draft14 ?m) = Inr raw"
    by (rule encode_message_ok [OF ok]) (simp add: cm_size_def)
  have "run_read Draft14 ?ad (reader_new \<lparr>chunks = [raw], failure = None\<rparr>) = Some (?ad, Inr ())"
    by (rule subscribe_update_dropped [OF _ ok raw, of 0 ?ad 5])
      (use encode_message_nonempty [OF ok raw] in \<open>simp_all add: clean_def reader_new_def unread_def\<close>)
  with raw show ?thesis by blast
qed

text \<open>
  The map from namespaces to requests is shared by the two directions: when the peer announces a namespace that
  was announced to it, its later PUBLISH_NAMESPACE_CANCEL for the first announcement closes its own
  announcement, and the stream of the cancelled one stays open.
\<close>

theorem namespace_cancel_misrouted:
  assumes "v = Draft14 \<or> v = Draft15" "ad_streams ad i = Some ch" "ad_namespaces ad ns = Some i" "j \<noteq> i"
    and "cm_ok v (CmPublishNamespace \<lparr>pns_request_id = j, pns_namespace = ns\<rparr>)" "cm_ok v (CmPublishNamespaceCancel c)" "pncan_namespace c = ns"
    and "encode_bytes (encode_message bytes_mut v (CmPublishNamespace \<lparr>pns_request_id = j, pns_namespace = ns\<rparr>)) = Inr raw1"
    and "encode_bytes (encode_message bytes_mut v (CmPublishNamespaceCancel c)) = Inr raw2"
    and "unread r = raw1 @ raw2" "clean r"
  shows "\<exists>ad'. run_read v ad r = Some (ad', Inr ()) \<and> ad_streams ad' i = Some ch \<and> ad_streams ad' j = None
    \<and> ad_events ad' = ad_events ad @ [Incoming (ad_fresh ad) raw1, Follow (ad_fresh ad) raw2]"
proof -
  have "run_read v ad r = Some (route_all v ad [(CmPublishNamespace \<lparr>pns_request_id = j, pns_namespace = ns\<rparr>, raw1), (CmPublishNamespaceCancel c, raw2)])"
    using assms by (intro run_read_messages) auto
  with assms(1,2,4,7) show ?thesis by (auto simp: route_message_def close_namespace_def follow_send_def)
qed

theorem namespace_cancel_misrouted_witness:
  "\<exists>raw1 raw2 ad'. encode_bytes (encode_message bytes_mut Draft14 (CmPublishNamespace \<lparr>pns_request_id = 1, pns_namespace = ''live''\<rparr>)) = Inr raw1
     \<and> encode_bytes (encode_message bytes_mut Draft14 (CmPublishNamespaceCancel \<lparr>pncan_namespace = ''live'', pncan_request_id = 0,
          pncan_error_code = 0, pncan_reason = []\<rparr>)) = Inr raw2
     \<and> run_read Draft14 ((adapter_new (control_new None True))\<lparr>ad_streams := [0 \<mapsto> 5], ad_namespaces := [''live'' \<mapsto> 0], ad_fresh := 6\<rparr>)
          (reader_new \<lparr>chunks = [raw1, raw2], failure = None\<rparr>) = Some (ad', Inr ())
     \<and> ad_streams ad' 0 = Some 5 \<and> ad_events ad' = [Incoming 6 raw1, Follow 6 raw2]"
proof -
  let ?m1 = "CmPublishNamespace \<lparr>pns_request_id = 1, pns_namespace = ''live''\<rparr>"
  let ?c = "\<lparr>pncan_namespace = ''live'', pncan_request_id = 0, pncan_error_code = 0, pncan_reason = []\<rparr>"
  let ?ad = "(adapter_new (control_new None True))\<lparr>ad_streams := [0 \<mapsto> 5], ad_namespaces := [''live'' \<mapsto> 0], ad_fresh := 6\<rparr>"
  have ok1: "cm_ok Draft14 ?m1" by (simp add: ns_ok_def namespace_ok_def varint_max_def push_bit_of_1) code_simp
  have ok2: "cm_ok Draft14 (CmPublishNamespaceCancel ?c)" by (simp add: ns_ok_def namespace_ok_def varint_max_def push_bit_of_1) code_simp
  obtain raw1 where raw1: "encode_bytes (encode_message bytes_mut Draft14 ?m1) = Inr raw1"
    by (rule encode_message_ok [OF ok1]) (simp add: cm_size_def)
  obtain raw2 where raw2: "encode_bytes (encode_message bytes_mut Draft14 (CmPublishNamespaceCancel ?c)) = Inr raw2"
    by (rule encode_message_ok [OF ok2]) (simp add: cm_size_def)
  have ne: "raw1 \<noteq> []" "raw2 \<noteq> []" using encode_message_nonempty [OF ok1 raw1] encode_message_nonempty [OF ok2 raw2] by simp_all
  from namespace_cancel_misrouted [OF _ _ _ _ ok1 ok2 _ raw1 raw2, of ?ad 0 5 "reader_new \<lparr>chunks = [raw1, raw2], failure = None\<rparr>"] ne
  obtain ad' where "run_read Draft14 ?ad (reader_new \<lparr>chunks = [raw1, raw2], failure = None\<rparr>) = Some (ad', Inr ())"
    "ad_streams ad' 0 = Some 5" "ad_events ad' = [Incoming 6 raw1, Follow 6 raw2]"
    by (auto simp: clean_def reader_new_def unread_def adapter_new_def)
  with raw1 raw2 show ?thesis by blast
qed

end
