(* ===== verification/Origin_Route.thy ===== *)
theory Origin_Route
  imports Origin_List Paths "HOL-Library.Multiset"
begin

unbundle bit_operations_syntax

text \<open>
  How an origin chooses among the broadcasts at one path (\<open>relay/rs/moq-net/src/model/origin.rs\<close>): the ordering
  key of a route, and the leaf part of \<open>OriginNode::publish\<close> and \<open>OriginNode::remove\<close> with the
  notifications they make. A \<open>BroadcastConsumer\<close> is its identity, which is what \<open>is_clone\<close> compares, with its
  hops.
\<close>

section \<open>Route keys\<close>

definition SEED :: u64 where "SEED = 0x420C0DECB00B"

definition FNV_PRIME :: u64 where "FNV_PRIME = 0x00000100000001b3"

definition fnv_bytes :: "byte list \<Rightarrow> u64 \<Rightarrow> u64" where
  "fnv_bytes bs hash = foldl (\<lambda>hash b. (hash XOR ucast b) * FNV_PRIME) hash bs"

definition to_le_bytes :: "u64 \<Rightarrow> byte list" where
  "to_le_bytes x = rev (be_bytes 8 x)"

definition route_key :: "path \<Rightarrow> origin_list \<Rightarrow> nat \<times> u64" where
  "route_key name hops =
     (length hops, foldl (\<lambda>hash hop. fnv_bytes (to_le_bytes hop) hash) (fnv_bytes (as_bytes name) SEED) hops)"

fun key_less :: "nat \<times> u64 \<Rightarrow> nat \<times> u64 \<Rightarrow> bool" where
  "key_less (n, h) (n', h') \<longleftrightarrow> n < n' \<or> n = n' \<and> h < h'"

section \<open>The broadcasts at a path\<close>

record broadcast =
  bc_id :: nat
  bc_hops :: origin_list

definition is_clone :: "broadcast \<Rightarrow> broadcast \<Rightarrow> bool" where
  "is_clone b b' \<longleftrightarrow> bc_id b = bc_id b'"

record origin_broadcast =
  ob_path :: path
  ob_active :: broadcast
  ob_backup :: "broadcast list"

text \<open>What the consumers of the node and of the nodes above it are told.\<close>

datatype notice =
    Announce path broadcast
  | Reannounce path broadcast
  | Unannounce path

definition leaf_publish :: "path \<Rightarrow> broadcast \<Rightarrow> origin_broadcast option \<Rightarrow> origin_broadcast option \<times> notice option" where
  "leaf_publish full b current =
     (case current of
        Some existing \<Rightarrow>
          if is_clone (ob_active existing) b \<or> list_ex (\<lambda>x. is_clone x b) (ob_backup existing) then (current, None)
          else if key_less (route_key full (bc_hops b)) (route_key full (bc_hops (ob_active existing))) then
            (Some (existing\<lparr>ob_active := b, ob_backup := ob_backup existing @ [ob_active existing]\<rparr>), Some (Reannounce full b))
          else (Some (existing\<lparr>ob_backup := ob_backup existing @ [b]\<rparr>), None)
      | None \<Rightarrow> (Some \<lparr>ob_path = full, ob_active = b, ob_backup = []\<rparr>, Some (Announce full b)))"

text \<open>\<open>position\<close>, and \<open>min_by_key\<close> with its index: the first of the elements with the least key.\<close>

fun position :: "('a \<Rightarrow> bool) \<Rightarrow> 'a list \<Rightarrow> nat option" where
  "position P [] = None"
| "position P (x # xs) = (if P x then Some 0 else map_option Suc (position P xs))"

fun min_index :: "('a \<Rightarrow> nat \<times> u64) \<Rightarrow> 'a list \<Rightarrow> nat option" where
  "min_index f [] = None"
| "min_index f (x # xs) =
     (case min_index f xs of
        None \<Rightarrow> Some 0
      | Some i \<Rightarrow> if key_less (f (xs ! i)) (f x) then Some (Suc i) else Some 0)"

definition remove_at :: "nat \<Rightarrow> 'a list \<Rightarrow> 'a list" where
  "remove_at i xs = take i xs @ drop (Suc i) xs"

text \<open>\<open>None\<close> is the failed assertion.\<close>

definition leaf_remove :: "path \<Rightarrow> broadcast \<Rightarrow> origin_broadcast option \<Rightarrow> (origin_broadcast option \<times> notice option) option" where
  "leaf_remove full b current =
     (case current of
        None \<Rightarrow> Some (current, None)
      | Some entry \<Rightarrow>
          (case position (\<lambda>x. is_clone x b) (ob_backup entry) of
             Some pos \<Rightarrow> Some (Some (entry\<lparr>ob_backup := remove_at pos (ob_backup entry)\<rparr>), None)
           | None \<Rightarrow>
               if \<not> is_clone (ob_active entry) b then None
               else
                 (case min_index (\<lambda>x. route_key full (bc_hops x)) (ob_backup entry) of
                    Some i \<Rightarrow>
                      Some (Some (entry\<lparr>ob_active := ob_backup entry ! i, ob_backup := remove_at i (ob_backup entry)\<rparr>),
                        Some (Reannounce full (ob_backup entry ! i)))
                  | None \<Rightarrow> Some (None, Some (Unannounce full)))))"

section \<open>Lists and keys\<close>

lemma key_less_trans: "key_less a b \<Longrightarrow> key_less b c \<Longrightarrow> key_less a c"
  by (cases a; cases b; cases c) auto

lemma not_key_less_trans: "\<not> key_less a b \<Longrightarrow> \<not> key_less b c \<Longrightarrow> \<not> key_less a c"
  by (cases a; cases b; cases c) auto

lemma key_less_irrefl [simp]: "\<not> key_less a a"
  by (cases a) simp

lemma key_less_total: "\<not> key_less a b \<Longrightarrow> \<not> key_less b a \<Longrightarrow> a = b"
  by (cases a; cases b) auto

lemma position_Some: "position P xs = Some i \<Longrightarrow> i < length xs \<and> P (xs ! i)"
  by (induction xs arbitrary: i) (auto split: if_splits)

lemma position_None: "position P xs = None \<longleftrightarrow> (\<forall>x \<in> set xs. \<not> P x)"
  by (induction xs) auto

lemma min_index_Some: "min_index f xs = Some i \<Longrightarrow> i < length xs \<and> (\<forall>x \<in> set xs. \<not> key_less (f x) (f (xs ! i)))"
proof (induction xs arbitrary: i)
  case (Cons x xs)
  show ?case
  proof (cases "min_index f xs")
    case None
    then have "xs = []" by (cases xs) (auto split: option.splits if_splits)
    with Cons.prems None show ?thesis by auto
  next
    case (Some k)
    note k = Cons.IH [OF Some]
    show ?thesis
    proof (cases "key_less (f (xs ! k)) (f x)")
      case True
      then have "\<not> key_less (f x) (f (xs ! k))" using key_less_trans key_less_irrefl by blast
      with True k Some Cons.prems show ?thesis by auto
    next
      case False
      with k Some Cons.prems show ?thesis by (auto dest: not_key_less_trans)
    qed
  qed
qed simp

lemma min_index_None: "min_index f xs = None \<longleftrightarrow> xs = []"
  by (cases xs) (auto split: option.splits)

lemma mset_remove_at: "i < length xs \<Longrightarrow> mset xs = add_mset (xs ! i) (mset (remove_at i xs))"
  unfolding remove_at_def by (subst id_take_nth_drop [of i xs]) simp_all

section \<open>The life of a path\<close>

datatype leaf_op = Publish broadcast | Remove broadcast

definition leaf_step :: "path \<Rightarrow> leaf_op \<Rightarrow> origin_broadcast option \<Rightarrow> (origin_broadcast option \<times> notice option) option" where
  "leaf_step full x current = (case x of Publish b \<Rightarrow> Some (leaf_publish full b current) | Remove b \<Rightarrow> leaf_remove full b current)"

text \<open>What a consumer that was told everything takes to be the broadcast at the path.\<close>

fun told :: "notice option \<Rightarrow> broadcast option \<Rightarrow> broadcast option" where
  "told None seen = seen"
| "told (Some (Announce full b)) seen = Some b"
| "told (Some (Reannounce full b)) seen = Some b"
| "told (Some (Unannounce full)) seen = None"

fun leaf_run :: "path \<Rightarrow> leaf_op list \<Rightarrow> origin_broadcast option \<times> broadcast option
    \<Rightarrow> (origin_broadcast option \<times> broadcast option) option" where
  "leaf_run full [] st = Some st"
| "leaf_run full (x # xs) (current, seen) =
     (case leaf_step full x current of None \<Rightarrow> None | Some (current, n) \<Rightarrow> leaf_run full xs (current, told n seen))"

text \<open>
  The broadcasts that are live after the operations, and the operations as the callers of an origin make
  them: each live broadcast is published once, and removed when it closes.
\<close>

fun live_after :: "leaf_op list \<Rightarrow> broadcast list \<Rightarrow> broadcast list" where
  "live_after [] bs = bs"
| "live_after (Publish b # xs) bs = live_after xs (bs @ [b])"
| "live_after (Remove b # xs) bs = live_after xs (filter (\<lambda>x. \<not> is_clone x b) bs)"

fun well_used :: "leaf_op list \<Rightarrow> broadcast list \<Rightarrow> bool" where
  "well_used [] bs \<longleftrightarrow> True"
| "well_used (Publish b # xs) bs \<longleftrightarrow> \<not> list_ex (\<lambda>x. is_clone x b) bs \<and> well_used xs (bs @ [b])"
| "well_used (Remove b # xs) bs \<longleftrightarrow> b \<in> set bs \<and> well_used xs (filter (\<lambda>x. \<not> is_clone x b) bs)"

definition entry_list :: "origin_broadcast option \<Rightarrow> broadcast list" where
  "entry_list current = (case current of None \<Rightarrow> [] | Some e \<Rightarrow> ob_active e # ob_backup e)"

definition leaf_inv :: "path \<Rightarrow> broadcast list \<Rightarrow> origin_broadcast option \<Rightarrow> bool" where
  "leaf_inv full bs current \<longleftrightarrow> mset (entry_list current) = mset bs \<and> distinct (map bc_id bs)
     \<and> (\<forall>e. current = Some e \<longrightarrow> ob_path e = full
          \<and> (\<forall>b \<in> set bs. \<not> key_less (route_key full (bc_hops b)) (route_key full (bc_hops (ob_active e)))))"

lemma filter_clone:
  "distinct (map bc_id xs) \<Longrightarrow> b \<in> set xs \<Longrightarrow> add_mset b (mset (filter (\<lambda>x. \<not> is_clone x b) xs)) = mset xs"
proof (induction xs)
  case (Cons x xs)
  show ?case
  proof (cases "x = b")
    case True
    then have "filter (\<lambda>x. \<not> is_clone x b) xs = xs" using Cons.prems(1) by (auto simp: is_clone_def image_iff intro!: filter_True)
    with True show ?thesis by (simp add: is_clone_def)
  next
    case False
    then have "b \<in> set xs" "bc_id x \<noteq> bc_id b" using Cons.prems by auto
    then show ?thesis using Cons.IH Cons.prems(1) by (simp add: is_clone_def add_mset_commute)
  qed
qed simp

lemma clone_same: "distinct (map bc_id xs) \<Longrightarrow> x \<in> set xs \<Longrightarrow> b \<in> set xs \<Longrightarrow> is_clone x b \<Longrightarrow> x = b"
  by (auto simp: is_clone_def distinct_map inj_on_def)

lemma leaf_publish_inv:
  assumes "leaf_inv full bs current" "\<not> list_ex (\<lambda>x. is_clone x b) bs" "leaf_publish full b current = (current', n)"
  shows "leaf_inv full (bs @ [b]) current' \<and> told n (map_option ob_active current) = map_option ob_active current'"
proof (cases current)
  case None
  then show ?thesis using assms by (auto simp: leaf_inv_def leaf_publish_def entry_list_def)
next
  case (Some e)
  have set: "set bs = set (ob_active e # ob_backup e)"
    using assms(1) Some unfolding leaf_inv_def entry_list_def by (metis option.simps(5) set_mset_mset)
  then have "\<not> (is_clone (ob_active e) b \<or> list_ex (\<lambda>x. is_clone x b) (ob_backup e))"
    using assms(2) by (auto simp: list_ex_iff)
  then consider (better) "key_less (route_key full (bc_hops b)) (route_key full (bc_hops (ob_active e)))"
      "current' = Some (e\<lparr>ob_active := b, ob_backup := ob_backup e @ [ob_active e]\<rparr>)" "n = Some (Reannounce full b)"
    | (worse) "\<not> key_less (route_key full (bc_hops b)) (route_key full (bc_hops (ob_active e)))"
      "current' = Some (e\<lparr>ob_backup := ob_backup e @ [b]\<rparr>)" "n = None"
    using assms(3) Some by (auto simp: leaf_publish_def split: if_splits)
  moreover have "distinct (map bc_id (bs @ [b]))"
    using assms(1,2) by (auto simp: leaf_inv_def list_ex_iff is_clone_def)
  ultimately show ?thesis using assms(1) Some
    by cases (auto simp: leaf_inv_def entry_list_def dest: key_less_trans)
qed

lemma leaf_remove_inv:
  assumes "leaf_inv full bs current" "b \<in> set bs"
  shows "\<exists>current' n. leaf_remove full b current = Some (current', n) \<and> leaf_inv full (filter (\<lambda>x. \<not> is_clone x b) bs) current'
    \<and> told n (map_option ob_active current) = map_option ob_active current'"
proof -
  let ?bs = "filter (\<lambda>x. \<not> is_clone x b) bs"
  obtain e where e: "current = Some e" using assms by (cases current) (auto simp: leaf_inv_def entry_list_def)
  have inv: "mset (ob_active e # ob_backup e) = mset bs" "distinct (map bc_id bs)" "ob_path e = full"
    "\<forall>x \<in> set bs. \<not> key_less (route_key full (bc_hops x)) (route_key full (bc_hops (ob_active e)))"
    using assms(1) e by (auto simp: leaf_inv_def entry_list_def)
  then have set: "set bs = insert (ob_active e) (set (ob_backup e))" by (metis list.simps(15) set_mset_mset)
  have bs: "add_mset b (mset ?bs) = mset bs" by (rule filter_clone [OF inv(2) assms(2)])
  have d: "distinct (map bc_id ?bs)" using inv(2) by (simp add: distinct_map_filter)
  show ?thesis
  proof (cases "position (\<lambda>x. is_clone x b) (ob_backup e)")
    case (Some i)
    from position_Some [OF this] have i: "i < length (ob_backup e)" "ob_backup e ! i = b"
      using clone_same [OF inv(2) _ assms(2)] set by auto
    have "add_mset b (mset (ob_active e # remove_at i (ob_backup e))) = add_mset b (mset ?bs)"
      unfolding bs using mset_remove_at [OF i(1)] i(2) inv(1) by (simp add: add_mset_commute)
    then have "mset (ob_active e # remove_at i (ob_backup e)) = mset ?bs" by simp
    with Some e d inv(3,4) show ?thesis
      by (auto simp: leaf_remove_def leaf_inv_def entry_list_def)
  next
    case None
    then have a: "ob_active e = b" using assms(2) set unfolding position_None by (auto simp: is_clone_def)
    with inv(1) bs have backup: "mset (ob_backup e) = mset ?bs" by (metis add_mset_add_mset_same_iff mset.simps(2))
    show ?thesis
    proof (cases "min_index (\<lambda>x. route_key full (bc_hops x)) (ob_backup e)")
      case empty: None
      with None a e backup d show ?thesis
        by (auto simp: leaf_remove_def leaf_inv_def entry_list_def min_index_None is_clone_def)
    next
      case (Some i)
      note i = min_index_Some [OF Some]
      have "mset (ob_backup e ! i # remove_at i (ob_backup e)) = mset ?bs" using mset_remove_at [of i "ob_backup e"] i backup by simp
      moreover have "set ?bs = set (ob_backup e)" using backup by (metis set_mset_mset)
      ultimately show ?thesis using None Some a e d i inv(3) by (simp add: leaf_remove_def leaf_inv_def entry_list_def is_clone_def)
    qed
  qed
qed

lemma leaf_run_inv:
  "leaf_inv full bs current \<Longrightarrow> well_used xs bs \<Longrightarrow> seen = map_option ob_active current \<Longrightarrow>
   \<exists>current'. leaf_run full xs (current, seen) = Some (current', map_option ob_active current') \<and> leaf_inv full (live_after xs bs) current'"
proof (induction xs arbitrary: bs current seen)
  case (Cons x xs)
  show ?case
  proof (cases x)
    case (Publish b)
    obtain current1 n where 1: "leaf_publish full b current = (current1, n)" by fastforce
    from leaf_publish_inv [OF Cons.prems(1) _ 1] Cons.prems(2) Publish
    have "leaf_inv full (bs @ [b]) current1" "told n seen = map_option ob_active current1" by (auto simp: Cons.prems(3))
    with Cons.IH [of "bs @ [b]" current1 "told n seen"] Cons.prems(2) Publish 1 show ?thesis by (simp add: leaf_step_def)
  next
    case (Remove b)
    with Cons.prems(2) have b: "b \<in> set bs" by simp
    obtain current1 n where 1: "leaf_remove full b current = Some (current1, n)" "leaf_inv full (filter (\<lambda>x. \<not> is_clone x b) bs) current1"
      "told n seen = map_option ob_active current1"
      using leaf_remove_inv [OF Cons.prems(1) b] Cons.prems(3) by auto
    with Cons.IH [of "filter (\<lambda>x. \<not> is_clone x b) bs" current1 "told n seen"] Cons.prems(2) Remove show ?thesis by (simp add: leaf_step_def)
  qed
qed simp

lemma leaf_inv_empty: "leaf_inv full [] None"
  by (simp add: leaf_inv_def entry_list_def)

lemma leaf_inv_set: "leaf_inv full bs c \<Longrightarrow> set (entry_list c) = set bs"
  unfolding leaf_inv_def by (metis set_mset_mset)

lemma same_active:
  assumes "leaf_inv full bs cur" "leaf_inv full bs' cur'" "set bs' = set bs" "inj_on (\<lambda>b. route_key full (bc_hops b)) (set bs)"
  shows "map_option ob_active cur' = map_option ob_active cur"
proof (cases cur)
  case None
  then have "cur' = None" using leaf_inv_set [OF assms(1)] leaf_inv_set [OF assms(2)] assms(3) by (cases cur') (auto simp: entry_list_def)
  with None show ?thesis by simp
next
  case (Some e)
  then obtain e' where e': "cur' = Some e'" using leaf_inv_set [OF assms(1)] leaf_inv_set [OF assms(2)] assms(3) by (cases cur') (auto simp: entry_list_def)
  have "ob_active e \<in> set bs" "ob_active e' \<in> set bs"
    using leaf_inv_set [OF assms(1)] leaf_inv_set [OF assms(2)] assms(3) Some e' by (auto simp: entry_list_def)
  moreover from this have "route_key full (bc_hops (ob_active e)) = route_key full (bc_hops (ob_active e'))"
    using assms(1-3) Some e' by (intro key_less_total) (auto simp: leaf_inv_def)
  ultimately show ?thesis using assms(4) Some e' by (auto dest: inj_onD)
qed

section \<open>Properties\<close>

text \<open>
  C4: Whatever is published and closed at a path, as long as no broadcast is published again while it is there and
  what is closed is there: the origin does not fail, keeps exactly the live broadcasts, and its active one has
  the least key of them; consumers that were told of every change take the active one to be the broadcast at
  the path. So two origins with the same live broadcasts agree on the active one, in whatever order they came,
  when no two of these have the same key. The active one need not be the oldest.
\<close>

theorem best_route_active:
  assumes "well_used xs []"
  shows "\<exists>current. leaf_run full xs (None, None) = Some (current, map_option ob_active current)
      \<and> mset (entry_list current) = mset (live_after xs [])
      \<and> (\<forall>e. current = Some e \<longrightarrow> (\<forall>b \<in> set (live_after xs []).
            \<not> key_less (route_key full (bc_hops b)) (route_key full (bc_hops (ob_active e)))))
      \<and> (\<forall>ys. well_used ys [] \<and> set (live_after ys []) = set (live_after xs [])
            \<and> inj_on (\<lambda>b. route_key full (bc_hops b)) (set (live_after xs [])) \<longrightarrow>
            (\<exists>current'. leaf_run full ys (None, None) = Some (current', map_option ob_active current)
              \<and> map_option ob_active current' = map_option ob_active current))"
proof -
  obtain cur where cur: "leaf_run full xs (None, None) = Some (cur, map_option ob_active cur)" "leaf_inv full (live_after xs []) cur"
    using leaf_run_inv [OF leaf_inv_empty assms, of None full] by auto
  have "\<exists>current'. leaf_run full ys (None, None) = Some (current', map_option ob_active cur) \<and> map_option ob_active current' = map_option ob_active cur"
    if ys: "well_used ys []" "set (live_after ys []) = set (live_after xs [])" "inj_on (\<lambda>b. route_key full (bc_hops b)) (set (live_after xs []))" for ys
  proof -
    obtain cur' where cur': "leaf_run full ys (None, None) = Some (cur', map_option ob_active cur')" "leaf_inv full (live_after ys []) cur'"
      using leaf_run_inv [OF leaf_inv_empty ys(1), of None full] by auto
    then show ?thesis using same_active [OF cur(2) cur'(2) ys(2,3)] by auto
  qed
  with cur show ?thesis unfolding leaf_inv_def by (intro exI [of _ cur]) blast
qed

theorem best_route_active_witness:
  "\<exists>current. leaf_run ''live'' [Publish \<lparr>bc_id = 1, bc_hops = [5, 6]\<rparr>, Publish \<lparr>bc_id = 2, bc_hops = [7]\<rparr>] (None, None) = Some (current, Some \<lparr>bc_id = 2, bc_hops = [7]\<rparr>)
     \<and> (\<exists>current'. leaf_run ''live'' [Publish \<lparr>bc_id = 2, bc_hops = [7]\<rparr>, Publish \<lparr>bc_id = 1, bc_hops = [5, 6]\<rparr>] (None, None)
            = Some (current', Some \<lparr>bc_id = 2, bc_hops = [7]\<rparr>))"
proof -
  let ?a = "\<lparr>bc_id = 1, bc_hops = [5, 6]\<rparr>" and ?b = "\<lparr>bc_id = 2, bc_hops = [7]\<rparr>"
  have "inj_on (\<lambda>b. route_key ''live'' (bc_hops b)) {?a, ?b}" by (auto simp: inj_on_def route_key_def)
  then obtain current current' where "leaf_run ''live'' [Publish ?a, Publish ?b] (None, None) = Some (current, map_option ob_active current)"
    "leaf_run ''live'' [Publish ?b, Publish ?a] (None, None) = Some (current', map_option ob_active current)"
    using best_route_active [of "[Publish ?a, Publish ?b]" "''live''"] by (auto simp: is_clone_def insert_commute dest!: spec [of _ "[Publish ?b, Publish ?a]"])
  moreover from this(1) have "map_option ob_active current = Some ?b"
    by (auto simp: leaf_step_def leaf_publish_def is_clone_def route_key_def)
  ultimately show ?thesis by auto
qed

text \<open>
  A broadcast that is published twice at a path is kept once, but each publish removes it when it closes:
  with another broadcast at the path, the second removal fails its assertion.
\<close>

theorem duplicate_publish_panics:
  assumes "\<not> is_clone a b"
  shows "leaf_run full [Publish a, Publish b, Publish a, Remove a] (None, None) \<noteq> None
    \<and> leaf_run full [Publish a, Publish b, Publish a, Remove a, Remove a] (None, None) = None"
  using assms
  by (auto simp: leaf_step_def leaf_publish_def leaf_remove_def is_clone_def remove_at_def)

theorem duplicate_publish_panics_witness:
  "leaf_run ''live'' [Publish \<lparr>bc_id = 1, bc_hops = []\<rparr>, Publish \<lparr>bc_id = 2, bc_hops = []\<rparr>, Publish \<lparr>bc_id = 1, bc_hops = []\<rparr>,
     Remove \<lparr>bc_id = 1, bc_hops = []\<rparr>, Remove \<lparr>bc_id = 1, bc_hops = []\<rparr>] (None, None) = None"
  using duplicate_publish_panics [of "\<lparr>bc_id = 1, bc_hops = []\<rparr>" "\<lparr>bc_id = 2, bc_hops = []\<rparr>"] by (simp add: is_clone_def)

end
