(* ===== verification/Ordered_Map.thy ===== *)
theory Ordered_Map
  imports "HOL-Library.List_Lexorder" "HOL-Library.Char_ord"
begin

text \<open>
  \<open>BTreeMap\<close> of Rust's standard library: the list of its entries in the order of their keys. Strings are
  ordered by their bytes. Two ordered lists with the same lookups are the same list, so that equality of maps
  is equality of lists.
\<close>

fun bt_insert :: "'k::linorder \<Rightarrow> 'v \<Rightarrow> ('k \<times> 'v) list \<Rightarrow> ('k \<times> 'v) list" where
  "bt_insert k v [] = [(k, v)]"
| "bt_insert k v ((k', v') # xs) =
     (if k < k' then (k, v) # (k', v') # xs else if k = k' then (k, v) # xs else (k', v') # bt_insert k v xs)"

definition bt_remove :: "'k \<Rightarrow> ('k \<times> 'v) list \<Rightarrow> ('k \<times> 'v) list" where
  "bt_remove k xs = filter (\<lambda>(k', _). k' \<noteq> k) xs"

definition bt_sorted :: "('k::linorder \<times> 'v) list \<Rightarrow> bool" where
  "bt_sorted xs \<longleftrightarrow> sorted_wrt (<) (map fst xs)"

lemma map_of_bt_insert [simp]: "map_of (bt_insert k v xs) = (map_of xs)(k \<mapsto> v)"
  by (induction k v xs rule: bt_insert.induct) (auto simp: fun_eq_iff)

lemma map_of_bt_remove [simp]: "map_of (bt_remove k xs) = (map_of xs)(k := None)"
  by (induction xs) (auto simp: bt_remove_def fun_eq_iff)

lemma set_bt_insert: "set (map fst (bt_insert k v xs)) = insert k (set (map fst xs))"
  by (induction k v xs rule: bt_insert.induct) auto

lemma bt_sorted_insert: "bt_sorted xs \<Longrightarrow> bt_sorted (bt_insert k v xs)"
proof (induction k v xs rule: bt_insert.induct)
  case (2 k v k' v' xs)
  then show ?case using set_bt_insert [of k v xs] by (auto simp: bt_sorted_def)
qed (simp add: bt_sorted_def)

lemma bt_sorted_remove: "bt_sorted xs \<Longrightarrow> bt_sorted (bt_remove k xs)"
  by (induction xs) (auto simp: bt_sorted_def bt_remove_def)

lemma bt_remove_head: "bt_sorted ((p, u) # rest) \<Longrightarrow> bt_remove p ((p, u) # rest) = rest"
  by (auto simp: bt_remove_def bt_sorted_def intro!: filter_True)

lemma bt_insert_head: "bt_sorted ((p, u) # rest) \<Longrightarrow> bt_insert p v rest = (p, v) # rest"
  by (cases rest) (auto simp: bt_sorted_def)

lemma bt_sorted_Nil [simp]: "bt_sorted []"
  by (simp add: bt_sorted_def)

lemma bt_sorted_Cons: "bt_sorted ((k, v) # xs) \<longleftrightarrow> bt_sorted xs \<and> (\<forall>k' \<in> fst ` set xs. k < k')"
  by (auto simp: bt_sorted_def)

lemma bt_sorted_distinct: "bt_sorted xs \<Longrightarrow> distinct (map fst xs)"
  by (auto simp: bt_sorted_def strict_sorted_iff)

lemma bt_least:
  assumes "bt_sorted ((k, v) # xs)" "bt_sorted ((k', v') # ys)" "map_of ((k, v) # xs) = map_of ((k', v') # ys)"
  shows "k = k' \<and> v = v'"
proof -
  have "k' \<in> dom (map_of ((k, v) # xs))" "k \<in> dom (map_of ((k', v') # ys))" by (simp only: assms(3), simp) (simp only: assms(3) [symmetric], simp)
  then have "k \<le> k'" "k' \<le> k" using assms(1,2) by (auto simp: dom_map_of_conv_image_fst bt_sorted_Cons)
  then have "k = k'" by simp
  moreover from this have "v = v'" using fun_cong [OF assms(3), of k] by simp
  ultimately show ?thesis by simp
qed

lemma bt_ext: "bt_sorted xs \<Longrightarrow> bt_sorted ys \<Longrightarrow> map_of xs = map_of ys \<Longrightarrow> xs = ys"
proof (induction xs arbitrary: ys)
  case Nil
  then show ?case by (metis map_of.simps(1) map_of_eq_empty_iff)
next
  case (Cons x xs)
  obtain k v where x: "x = (k, v)" by (cases x)
  obtain y ys' where ys: "ys = y # ys'" using Cons.prems(3) by (metis list.exhaust map_of.simps(1) map_of_eq_empty_iff list.distinct(1))
  obtain k' v' where y: "y = (k', v')" by (cases y)
  have eq: "k = k' \<and> v = v'" using Cons.prems unfolding ys x y by (rule bt_least)
  have "map_of xs = map_of ys'"
  proof
    fix q
    have "k \<notin> fst ` set xs" "k \<notin> fst ` set ys'" using Cons.prems(1,2) eq by (auto simp: ys x y bt_sorted_Cons)
    then show "map_of xs q = map_of ys' q"
      using fun_cong [OF Cons.prems(3), of q] eq by (cases "q = k") (auto simp: ys x y map_of_eq_None_iff [symmetric])
  qed
  then have "xs = ys'" using Cons.prems(1,2) by (intro Cons.IH) (auto simp: ys x y bt_sorted_Cons)
  then show ?case using eq by (simp add: ys x y)
qed

end
