(* ===== verification/Origin_Announce.thy ===== *)
theory Origin_Announce
  imports Origin_Route Ordered_Map
begin

text \<open>
  The updates that wait for a consumer of an origin (\<open>relay/rs/moq-net/src/model/origin.rs\<close>, \<open>PendingUpdate\<close>,
  \<open>OriginConsumerState\<close> and \<open>OriginConsumerNotify\<close>): at most one entry for each path, in the order of the paths.
\<close>

section \<open>Pending updates\<close>

datatype pending_update =
    PendAnnounce broadcast
  | PendUnannounce
  | PendUnannounceAnnounce broadcast

type_synonym consumer_state = "(path \<times> pending_update) list"

definition apply_announce :: "path \<Rightarrow> broadcast \<Rightarrow> consumer_state \<Rightarrow> consumer_state" where
  "apply_announce p b st =
     (let new = (case map_of st p of
          None \<Rightarrow> PendAnnounce b
        | Some (PendAnnounce _) \<Rightarrow> PendAnnounce b
        | Some PendUnannounce \<Rightarrow> PendUnannounceAnnounce b
        | Some (PendUnannounceAnnounce _) \<Rightarrow> PendUnannounceAnnounce b)
      in bt_insert p new (bt_remove p st))"

definition apply_unannounce :: "path \<Rightarrow> consumer_state \<Rightarrow> consumer_state" where
  "apply_unannounce p st =
     (case map_of st p of
        Some (PendAnnounce _) \<Rightarrow> bt_remove p st
      | None \<Rightarrow> bt_insert p PendUnannounce (bt_remove p st)
      | Some PendUnannounce \<Rightarrow> bt_insert p PendUnannounce (bt_remove p st)
      | Some (PendUnannounceAnnounce _) \<Rightarrow> bt_insert p PendUnannounce (bt_remove p st))"

definition take_update :: "consumer_state \<Rightarrow> ((path \<times> broadcast option) \<times> consumer_state) option" where
  "take_update st =
     (case st of
        [] \<Rightarrow> None
      | (p, u) # rest \<Rightarrow>
          (case u of
             PendAnnounce b \<Rightarrow> Some ((p, Some b), bt_remove p st)
           | PendUnannounce \<Rightarrow> Some ((p, None), bt_remove p st)
           | PendUnannounceAnnounce b \<Rightarrow> Some ((p, None), bt_insert p (PendAnnounce b) (bt_remove p st))))"

text \<open>A notice for a consumer under \<open>root\<close>; \<open>None\<close> is the failed \<open>unwrap\<close> of a path outside it.\<close>

fun notify :: "path \<Rightarrow> notice \<Rightarrow> consumer_state \<Rightarrow> consumer_state option" where
  "notify root (Announce full b) st = map_option (\<lambda>p. apply_announce p b st) (strip_prefix full root)"
| "notify root (Reannounce full b) st = map_option (\<lambda>p. apply_announce p b (apply_unannounce p st)) (strip_prefix full root)"
| "notify root (Unannounce full) st = map_option (\<lambda>p. apply_unannounce p st) (strip_prefix full root)"

section \<open>What a consumer sees\<close>

text \<open>
  \<open>actual\<close> is what the notices say is at each path, and \<open>seen\<close> what the updates delivered so far say. A
  notice is in order when it announces at a free path, and replaces or ends an announcement that is there; an
  update is in order in the same way.
\<close>

type_synonym announce_update = "path \<times> broadcast option"

fun in_order :: "(path \<rightharpoonup> broadcast) \<Rightarrow> notice \<Rightarrow> bool" where
  "in_order actual (Announce p b) \<longleftrightarrow> actual p = None"
| "in_order actual (Reannounce p b) \<longleftrightarrow> actual p \<noteq> None"
| "in_order actual (Unannounce p) \<longleftrightarrow> actual p \<noteq> None"

fun follow :: "notice \<Rightarrow> (path \<rightharpoonup> broadcast) \<Rightarrow> (path \<rightharpoonup> broadcast)" where
  "follow (Announce p b) actual = actual(p \<mapsto> b)"
| "follow (Reannounce p b) actual = actual(p \<mapsto> b)"
| "follow (Unannounce p) actual = actual(p := None)"

text \<open>The notice with its path relative to \<open>root\<close>.\<close>

fun under_root :: "path \<Rightarrow> notice \<Rightarrow> notice option" where
  "under_root root (Announce full b) = map_option (\<lambda>p. Announce p b) (strip_prefix full root)"
| "under_root root (Reannounce full b) = map_option (\<lambda>p. Reannounce p b) (strip_prefix full root)"
| "under_root root (Unannounce full) = map_option Unannounce (strip_prefix full root)"

fun toggling :: "(path \<rightharpoonup> broadcast) \<Rightarrow> announce_update list \<Rightarrow> bool" where
  "toggling seen [] \<longleftrightarrow> True"
| "toggling seen ((p, u) # us) \<longleftrightarrow> (seen p = None) = (u \<noteq> None) \<and> toggling (seen(p := u)) us"

fun seen_after :: "announce_update list \<Rightarrow> (path \<rightharpoonup> broadcast) \<Rightarrow> (path \<rightharpoonup> broadcast)" where
  "seen_after [] seen = seen"
| "seen_after ((p, u) # us) seen = seen_after us (seen(p := u))"

lemma toggling_append: "toggling seen (us @ vs) \<longleftrightarrow> toggling seen us \<and> toggling (seen_after us seen) vs"
  by (induction us arbitrary: seen) auto

lemma seen_after_append: "seen_after (us @ vs) seen = seen_after vs (seen_after us seen)"
  by (induction us arbitrary: seen) auto

text \<open>What the entry of a path means, and the invariant over all paths.\<close>

fun pending_ok :: "pending_update option \<Rightarrow> broadcast option \<Rightarrow> broadcast option \<Rightarrow> bool" where
  "pending_ok None actual seen \<longleftrightarrow> seen = actual"
| "pending_ok (Some (PendAnnounce b)) actual seen \<longleftrightarrow> seen = None \<and> actual = Some b"
| "pending_ok (Some PendUnannounce) actual seen \<longleftrightarrow> seen \<noteq> None \<and> actual = None"
| "pending_ok (Some (PendUnannounceAnnounce b)) actual seen \<longleftrightarrow> seen \<noteq> None \<and> actual = Some b"

definition pending_inv :: "(path \<rightharpoonup> broadcast) \<Rightarrow> consumer_state \<Rightarrow> (path \<rightharpoonup> broadcast) \<Rightarrow> bool" where
  "pending_inv actual st seen \<longleftrightarrow> bt_sorted st \<and> (\<forall>p. pending_ok (map_of st p) (actual p) (seen p))"

lemma pending_inv_empty [simp]: "pending_inv actual [] actual"
  by (simp add: pending_inv_def bt_sorted_def)

lemma pending_invI:
  assumes "pending_inv actual st seen" "bt_sorted st'"
    and "\<And>q. q \<noteq> p \<Longrightarrow> map_of st' q = map_of st q \<and> actual' q = actual q \<and> seen' q = seen q"
    and "pending_ok (map_of st p) (actual p) (seen p) \<Longrightarrow> pending_ok (map_of st' p) (actual' p) (seen' p)"
  shows "pending_inv actual' st' seen'"
  unfolding pending_inv_def
proof (intro conjI allI)
  fix q
  show "pending_ok (map_of st' q) (actual' q) (seen' q)"
    using assms by (cases "q = p") (auto simp: pending_inv_def)
qed (rule assms(2))

lemma bt_sorted_apply:
  "bt_sorted st \<Longrightarrow> bt_sorted (apply_announce p b st)"
  "bt_sorted st \<Longrightarrow> bt_sorted (apply_unannounce p st)"
  by (auto simp: apply_announce_def apply_unannounce_def Let_def bt_sorted_insert bt_sorted_remove
      split: option.splits pending_update.splits)

lemma apply_announce_inv:
  assumes "pending_inv actual st seen" "actual p = None \<or> map_of st p = None \<and> seen p = None"
  shows "pending_inv (actual(p \<mapsto> b)) (apply_announce p b st) seen"
proof (rule pending_invI [OF assms(1), where p = p])
  show "bt_sorted (apply_announce p b st)" using assms(1) by (simp add: pending_inv_def bt_sorted_apply)
qed (use assms in \<open>auto simp: apply_announce_def Let_def split: option.splits pending_update.splits\<close>)

lemma apply_unannounce_inv:
  assumes "pending_inv actual st seen" "actual p \<noteq> None"
  shows "pending_inv (actual(p := None)) (apply_unannounce p st) seen"
proof (rule pending_invI [OF assms(1), where p = p])
  show "bt_sorted (apply_unannounce p st)" using assms(1) by (simp add: pending_inv_def bt_sorted_apply)
qed (use assms in \<open>auto simp: apply_unannounce_def split: option.splits pending_update.splits\<close>)

lemma notify_inv:
  assumes "pending_inv actual st seen" "under_root root n = Some r" "in_order actual r"
  shows "\<exists>st'. notify root n st = Some st' \<and> pending_inv (follow r actual) st' seen"
proof (cases n)
  case (Announce full b)
  with assms show ?thesis by (auto intro: apply_announce_inv)
next
  case (Reannounce full b)
  with assms obtain p where p: "strip_prefix full root = Some p" "r = Reannounce p b" "actual p \<noteq> None" by auto
  have "pending_inv ((actual(p := None))(p \<mapsto> b)) (apply_announce p b (apply_unannounce p st)) seen"
    using p by (intro apply_announce_inv apply_unannounce_inv assms(1)) auto
  with Reannounce p show ?thesis by simp
next
  case (Unannounce full)
  with assms obtain p where "strip_prefix full root = Some p" "r = Unannounce p" "actual p \<noteq> None" by auto
  with Unannounce show ?thesis using apply_unannounce_inv [OF assms(1)] by simp
qed

lemma take_update_inv:
  assumes "pending_inv actual st seen" "take_update st = Some ((p, u), st')"
  shows "pending_inv actual st' (seen(p := u)) \<and> (seen p = None) = (u \<noteq> None)"
proof -
  obtain w rest where st: "st = (p, w) # rest"
    using assms(2) by (cases st) (auto simp: take_update_def split: pending_update.splits)
  have "pending_ok (Some w) (actual p) (seen p)"
    using assms(1) st unfolding pending_inv_def by (metis map_of_Cons_code(2))
  moreover have "bt_sorted st'" using assms st
    by (auto simp: take_update_def pending_inv_def bt_sorted_insert bt_sorted_remove split: pending_update.splits)
  ultimately have "pending_inv actual st' (seen(p := u))"
    using assms(2) st by (intro pending_invI [OF assms(1), where p = p])
      (auto simp: take_update_def split: pending_update.splits)
  with assms(2) st \<open>pending_ok (Some w) (actual p) (seen p)\<close> show ?thesis
    by (cases w; cases u) (simp_all add: take_update_def)
qed

section \<open>A consumer that is notified and polled\<close>

datatype consumer_event = Notified notice | Taken

fun consumer_run :: "path \<Rightarrow> consumer_event list \<Rightarrow> consumer_state \<Rightarrow> (consumer_state \<times> announce_update list) option" where
  "consumer_run root [] st = Some (st, [])"
| "consumer_run root (Notified n # es) st =
     (case notify root n st of None \<Rightarrow> None | Some st' \<Rightarrow> consumer_run root es st')"
| "consumer_run root (Taken # es) st =
     (case take_update st of
        None \<Rightarrow> consumer_run root es st
      | Some (u, st') \<Rightarrow> map_option (map_prod (\<lambda>x. x) (Cons u)) (consumer_run root es st'))"

fun ordered :: "path \<Rightarrow> consumer_event list \<Rightarrow> (path \<rightharpoonup> broadcast) \<Rightarrow> bool" where
  "ordered root [] actual \<longleftrightarrow> True"
| "ordered root (Taken # es) actual \<longleftrightarrow> ordered root es actual"
| "ordered root (Notified n # es) actual \<longleftrightarrow>
     (case under_root root n of None \<Rightarrow> False | Some r \<Rightarrow> in_order actual r \<and> ordered root es (follow r actual))"

fun actual_after :: "path \<Rightarrow> consumer_event list \<Rightarrow> (path \<rightharpoonup> broadcast) \<Rightarrow> (path \<rightharpoonup> broadcast)" where
  "actual_after root [] actual = actual"
| "actual_after root (Taken # es) actual = actual_after root es actual"
| "actual_after root (Notified n # es) actual =
     actual_after root es (case under_root root n of None \<Rightarrow> actual | Some r \<Rightarrow> follow r actual)"

lemma consumer_run_inv:
  "pending_inv actual st seen \<Longrightarrow> ordered root es actual \<Longrightarrow>
   \<exists>st' us. consumer_run root es st = Some (st', us) \<and> toggling seen us
     \<and> pending_inv (actual_after root es actual) st' (seen_after us seen)"
proof (induction es arbitrary: actual st seen)
  case (Cons e es)
  show ?case
  proof (cases e)
    case (Notified n)
    then obtain r where r: "under_root root n = Some r" "in_order actual r" "ordered root es (follow r actual)"
      using Cons.prems(2) by (auto split: option.splits)
    obtain st1 where st1: "notify root n st = Some st1" "pending_inv (follow r actual) st1 seen"
      using notify_inv [OF Cons.prems(1) r(1,2)] by blast
    show ?thesis using Cons.IH [OF st1(2) r(3)] st1(1) Notified r(1) by simp
  next
    case Taken
    show ?thesis
    proof (cases "take_update st")
      case None
      then show ?thesis using Cons.IH [OF Cons.prems(1)] Cons.prems(2) Taken by simp
    next
      case (Some x)
      then obtain p u st1 where x: "take_update st = Some ((p, u), st1)" by (metis surj_pair)
      note inv = take_update_inv [OF Cons.prems(1) x]
      have "ordered root es actual" using Cons.prems(2) Taken by simp
      from Cons.IH [OF conjunct1 [OF inv] this] obtain st' us where "consumer_run root es st1 = Some (st', us)"
        "toggling (seen(p := u)) us" "pending_inv (actual_after root es actual) st' (seen_after us (seen(p := u)))" by blast
      then show ?thesis using x Taken inv by (intro exI [of _ st'] exI [of _ "(p, u) # us"]) simp
    qed
  qed
qed simp

text \<open>Each entry is delivered in at most two updates.\<close>

fun weight :: "pending_update \<Rightarrow> nat" where
  "weight (PendUnannounceAnnounce b) = 2"
| "weight u = 1"

fun pending_weight :: "consumer_state \<Rightarrow> nat" where
  "pending_weight [] = 0"
| "pending_weight ((p, u) # st) = weight u + pending_weight st"

lemma take_update_weight:
  assumes "bt_sorted st" "st \<noteq> []"
  shows "\<exists>u st'. take_update st = Some (u, st') \<and> pending_weight st = Suc (pending_weight st')"
proof -
  obtain p w rest where st: "st = (p, w) # rest" using assms(2) by (cases st) auto
  with assms(1) show ?thesis
    by (cases w) (auto simp: take_update_def bt_remove_head bt_insert_head)
qed

lemma drain:
  "pending_inv actual st seen \<Longrightarrow> pending_weight st \<le> n \<Longrightarrow>
   \<exists>us. consumer_run root (replicate n Taken) st = Some ([], us) \<and> toggling seen us \<and> seen_after us seen = actual"
proof (induction n arbitrary: st seen)
  case 0
  have "st = []"
  proof (cases st)
    case (Cons x xs)
    then show ?thesis using 0 by (cases x; cases "snd x") simp_all
  qed simp
  then show ?case using 0 by (auto simp: pending_inv_def)
next
  case (Suc n)
  show ?case
  proof (cases "st = []")
    case True
    then show ?thesis using Suc.IH [of "[]" seen] Suc.prems(1) by (simp add: take_update_def)
  next
    case False
    have "bt_sorted st" using Suc.prems(1) by (simp add: pending_inv_def)
    then obtain p u st' where t: "take_update st = Some ((p, u), st')"
      "pending_weight st = Suc (pending_weight st')"
      using take_update_weight [OF _ False] by (metis surj_pair)
    note inv = take_update_inv [OF Suc.prems(1) t(1)]
    have "pending_weight st' \<le> n" using Suc.prems(2) t(2) by simp
    from Suc.IH [OF conjunct1 [OF inv] this]
    obtain us where "consumer_run root (replicate n Taken) st' = Some ([], us)" "toggling (seen(p := u)) us"
      "seen_after us (seen(p := u)) = actual" by blast
    then show ?thesis using t(1) inv by (intro exI [of _ "(p, u) # us"]) simp
  qed
qed

lemma weight_bound: "pending_weight st \<le> 2 * length st"
proof (induction st)
  case (Cons x st)
  then show ?case by (cases x; cases "snd x") simp_all
qed simp

section \<open>Properties\<close>

text \<open>
  C9: A consumer that is told of every change in order is never lost: its updates announce only what it has not
  seen and withdraw only what it has, whatever was coalesced while it did not poll; the waiting updates have at
  most one entry for each path; and when it polls twice for each of them none is left and what it
  has seen is exactly what is there.
\<close>

theorem announcements_converge:
  assumes "ordered root es Map.empty"
  shows "\<exists>st us. consumer_run root es [] = Some (st, us) \<and> toggling Map.empty us \<and> distinct (map fst st)
     \<and> (\<exists>vs. consumer_run root (replicate (2 * length st) Taken) st = Some ([], vs)
          \<and> toggling Map.empty (us @ vs) \<and> seen_after (us @ vs) Map.empty = actual_after root es Map.empty)"
proof -
  obtain st us where run: "consumer_run root es [] = Some (st, us)" "toggling Map.empty us"
    "pending_inv (actual_after root es Map.empty) st (seen_after us Map.empty)"
    using consumer_run_inv [OF pending_inv_empty assms] by blast
  have "distinct (map fst st)" using run(3) strict_sorted_iff by (auto simp: pending_inv_def bt_sorted_def)
  moreover obtain vs where "consumer_run root (replicate (2 * length st) Taken) st = Some ([], vs)"
    "toggling (seen_after us Map.empty) vs" "seen_after vs (seen_after us Map.empty) = actual_after root es Map.empty"
    using drain [OF run(3) weight_bound] by blast
  ultimately show ?thesis using run by (auto simp: toggling_append seen_after_append)
qed

theorem announcements_converge_witness:
  "\<exists>st us. consumer_run ''a'' [Notified (Announce ''a/x'' \<lparr>bc_id = 1, bc_hops = []\<rparr>), Taken,
      Notified (Unannounce ''a/x''), Notified (Announce ''a/x'' \<lparr>bc_id = 2, bc_hops = []\<rparr>)] [] = Some (st, us)
     \<and> (\<exists>vs. consumer_run ''a'' (replicate (2 * length st) Taken) st = Some ([], vs)
         \<and> seen_after (us @ vs) Map.empty = [''x'' \<mapsto> \<lparr>bc_id = 2, bc_hops = []\<rparr>])"
proof -
  have "strip_prefix ''a/x'' ''a'' = Some ''x''" by code_simp
  then show ?thesis
    using announcements_converge [of "''a''" "[Notified (Announce ''a/x'' \<lparr>bc_id = 1, bc_hops = []\<rparr>), Taken,
      Notified (Unannounce ''a/x''), Notified (Announce ''a/x'' \<lparr>bc_id = 2, bc_hops = []\<rparr>)]"] by auto
qed

end
