(* ===== verification/Json_Diff.thy ===== *)
theory Json_Diff
  imports Prelude Ordered_Map
begin

text \<open>
  The merge patches of \<open>relay/rs/moq-json/src/diff.rs\<close>: a serializer that walks a new value beside the old JSON
  value and collects an RFC 7396 merge patch.

  A value of a type that implements \<open>Serialize\<close> is the tree of the calls it makes of a serializer (\<open>ser\<close>).
  \<open>serde_json\<close> and \<open>json_patch\<close> are not part of the repository: \<open>serde_json::to_value\<close> and
  \<open>json_patch::merge\<close> are parameters, and \<open>serde_json_value\<close> and \<open>rfc7396\<close> state what their documentation says of
  them. An object is an ordered map, as \<open>serde_json::Map\<close> is.
\<close>

section \<open>Values\<close>

text \<open>
  \<open>serde_json::Value\<close>. A number is an integer or a finite float; \<open>'f\<close> stands for the finite floats up to their
  equality.
\<close>

datatype 'f number = NInt int | NFloat 'f

datatype 'f json =
    JNull
  | JBool bool
  | JNumber "'f number"
  | JString string
  | JArray "'f json list"
  | JObject "(string \<times> 'f json) list"

text \<open>
  The calls that \<open>Serialize\<close> makes: the integers up to 64 bits, the 128-bit integers, the floats (which may be
  infinite or not a number), a character as the string of it, and the compound values with what is in them.
\<close>

datatype 'f ser =
    SBool bool
  | SInt int
  | SWide int
  | SFloat 'f
  | SNonFinite
  | SChar string
  | SStr string
  | SBytes "byte list"
  | SNone
  | SSome "'f ser"
  | SUnit
  | SUnitStruct string
  | SUnitVariant string
  | SNewtypeStruct "'f ser"
  | SNewtypeVariant string "'f ser"
  | SSeq "'f ser list"
  | STuple "'f ser list"
  | STupleStruct "'f ser list"
  | STupleVariant string "'f ser list"
  | SMap "('f ser \<times> 'f ser) list"
  | SStruct "(string \<times> 'f ser) list"
  | SStructVariant string "(string \<times> 'f ser) list"

text \<open>The message of an \<open>Error\<close>.\<close>

datatype json_error = JsonError string

section \<open>Keys\<close>

text \<open>Decimal digits, as \<open>to_string\<close> writes them.\<close>

fun nat_digits :: "nat \<Rightarrow> string" where
  "nat_digits n = (if n < 10 then [char_of (48 + n)] else nat_digits (n div 10) @ [char_of (48 + n mod 10)])"

declare nat_digits.simps [simp del]

definition int_to_string :: "int \<Rightarrow> string" where
  "int_to_string i = (if i < 0 then CHR ''-'' # nat_digits (nat (- i)) else nat_digits (nat i))"

fun key_ser :: "'f ser \<Rightarrow> json_error + string" where
  "key_ser (SStr s) = Inr s"
| "key_ser (SChar c) = Inr c"
| "key_ser (SBool b) = Inr (if b then ''true'' else ''false'')"
| "key_ser (SInt i) = Inr (int_to_string i)"
| "key_ser (SUnitVariant v) = Inr v"
| "key_ser (SNewtypeStruct x) = key_ser x"
| "key_ser (SSome x) = key_ser x"
| "key_ser (SWide i) = Inl (JsonError ''i128 is not supported'')"
| "key_ser (SFloat f) = Inl (JsonError ''float map key'')"
| "key_ser SNonFinite = Inl (JsonError ''float map key'')"
| "key_ser (SBytes bs) = Inl (JsonError ''bytes map key'')"
| "key_ser SNone = Inl (JsonError ''null map key'')"
| "key_ser SUnit = Inl (JsonError ''unit map key'')"
| "key_ser (SUnitStruct n) = Inl (JsonError ''unit struct map key'')"
| "key_ser (SNewtypeVariant v x) = Inl (JsonError ''newtype variant map key'')"
| "key_ser (SSeq xs) = Inl (JsonError ''seq map key'')"
| "key_ser (STuple xs) = Inl (JsonError ''tuple map key'')"
| "key_ser (STupleStruct xs) = Inl (JsonError ''tuple struct map key'')"
| "key_ser (STupleVariant v xs) = Inl (JsonError ''tuple variant map key'')"
| "key_ser (SMap es) = Inl (JsonError ''map map key'')"
| "key_ser (SStruct fs) = Inl (JsonError ''struct map key'')"
| "key_ser (SStructVariant v fs) = Inl (JsonError ''struct variant map key'')"

section \<open>The differ\<close>

datatype 'f node = Same | Diff "'f json"

text \<open>A verdict comes with whether it set the \<open>forced\<close> flag.\<close>

type_synonym 'f verdict = "'f node \<times> bool"

fun is_object :: "'f json \<Rightarrow> bool" where
  "is_object (JObject m) = True"
| "is_object v = False"

definition child :: "'f json \<Rightarrow> string \<Rightarrow> 'f json \<times> bool" where
  "child baseline key =
     (case baseline of
        JObject m \<Rightarrow> (case map_of m key of Some v \<Rightarrow> (v, True) | None \<Rightarrow> (JNull, False))
      | _ \<Rightarrow> (JNull, False))"

definition scalar :: "'f json \<Rightarrow> 'f json \<Rightarrow> 'f verdict" where
  "scalar baseline v = (if baseline = v then (Same, False) else (Diff v, v = JNull))"

record 'f map_diff =
  md_patch :: "(string \<times> 'f json) list"
  md_seen :: "string list"
  md_added_key :: bool

definition map_diff_new :: "'f map_diff" where
  "map_diff_new = \<lparr>md_patch = [], md_seen = [], md_added_key = False\<rparr>"

definition entry :: "string \<Rightarrow> bool \<Rightarrow> 'f node \<Rightarrow> 'f map_diff \<Rightarrow> 'f map_diff" where
  "entry key existed n md =
     md\<lparr>md_added_key := md_added_key md \<or> \<not> existed,
        md_patch := (case n of Diff v \<Rightarrow> bt_insert key v (md_patch md) | Same \<Rightarrow> md_patch md),
        md_seen := md_seen md @ [key]\<rparr>"

definition insert_deletions :: "string list \<Rightarrow> string list \<Rightarrow> (string \<times> 'f json) list \<Rightarrow> (string \<times> 'f json) list" where
  "insert_deletions seen keys patch = fold (\<lambda>k patch. if k \<in> set seen then patch else bt_insert k JNull patch) keys patch"

definition finish :: "'f json \<Rightarrow> 'f map_diff \<Rightarrow> 'f node" where
  "finish baseline md =
     (let patch = (case baseline of
          JObject base \<Rightarrow>
            if md_added_key md \<or> length (md_seen md) \<noteq> length base then insert_deletions (md_seen md) (map fst base) (md_patch md)
            else md_patch md
        | _ \<Rightarrow> md_patch md)
      in if patch = [] then Same else Diff (JObject patch))"

text \<open>
  A \<open>Value\<close> that is serialized offers itself as unit, boolean, number, string, sequence or map. The elements of
  an array come back unchanged from \<open>to_plain\<close>.
\<close>

fun differ_value :: "'f json \<Rightarrow> 'f json \<Rightarrow> 'f verdict"
  and differ_members :: "'f json \<Rightarrow> (string \<times> 'f json) list \<Rightarrow> 'f map_diff \<Rightarrow> 'f map_diff \<times> bool" where
  "differ_value baseline JNull = scalar baseline JNull"
| "differ_value baseline (JBool b) = scalar baseline (JBool b)"
| "differ_value baseline (JNumber n) = scalar baseline (JNumber n)"
| "differ_value baseline (JString s) = (if baseline = JString s then (Same, False) else (Diff (JString s), False))"
| "differ_value baseline (JArray xs) = scalar baseline (JArray xs)"
| "differ_value baseline (JObject m) =
     (case differ_members baseline m map_diff_new of (md, forced) \<Rightarrow> (finish baseline md, forced))"
| "differ_members baseline [] md = (md, False)"
| "differ_members baseline ((k, v) # m) md =
     (case child baseline k of (c, existed) \<Rightarrow>
      (case differ_value c v of (n, forced) \<Rightarrow>
      (case differ_members baseline m (entry k existed n md) of (md, forced') \<Rightarrow> (md, forced \<or> forced'))))"

definition variant_object :: "string \<Rightarrow> 'f json \<Rightarrow> 'f json" where
  "variant_object variant v = JObject (bt_insert variant v [])"

fun traverse :: "('a \<Rightarrow> 'e + 'b) \<Rightarrow> 'a list \<Rightarrow> 'e + 'b list" where
  "traverse f [] = Inr []"
| "traverse f (x # xs) = and_then (f x) (\<lambda>y. and_then (traverse f xs) (\<lambda>ys. Inr (y # ys)))"

definition object_of :: "(string \<times> 'f json) list \<Rightarrow> (string \<times> 'f json) list" where
  "object_of kvs = foldl (\<lambda>m (k, v). bt_insert k v m) [] kvs"

text \<open>A struct variant collects its fields with \<open>to_plain\<close>.\<close>

definition plain_fields :: "('f ser \<Rightarrow> json_error + 'f json) \<Rightarrow> (string \<times> 'f ser) list \<Rightarrow> json_error + (string \<times> 'f json) list" where
  "plain_fields to_value fs = traverse (\<lambda>(k, s). and_then (to_value s) (\<lambda>v. Inr (k, v))) fs"

fun differ :: "('f ser \<Rightarrow> json_error + 'f json) \<Rightarrow> 'f json \<Rightarrow> 'f ser \<Rightarrow> json_error + 'f verdict"
  and differ_map :: "('f ser \<Rightarrow> json_error + 'f json) \<Rightarrow> 'f json \<Rightarrow> ('f ser \<times> 'f ser) list \<Rightarrow> 'f map_diff \<Rightarrow> json_error + 'f map_diff \<times> bool"
  and differ_struct :: "('f ser \<Rightarrow> json_error + 'f json) \<Rightarrow> 'f json \<Rightarrow> (string \<times> 'f ser) list \<Rightarrow> 'f map_diff \<Rightarrow> json_error + 'f map_diff \<times> bool" where
  "differ tv baseline (SBool b) = Inr (scalar baseline (JBool b))"
| "differ tv baseline (SInt i) = Inr (scalar baseline (JNumber (NInt i)))"
| "differ tv baseline (SWide i) = and_then (tv (SWide i)) (\<lambda>v. Inr (scalar baseline v))"
| "differ tv baseline (SFloat f) = Inr (scalar baseline (JNumber (NFloat f)))"
| "differ tv baseline SNonFinite = Inr (scalar baseline JNull)"
| "differ tv baseline (SChar c) = Inr (scalar baseline (JString c))"
| "differ tv baseline (SStr s) = Inr (if baseline = JString s then (Same, False) else (Diff (JString s), False))"
| "differ tv baseline (SBytes bs) = and_then (tv (SBytes bs)) (\<lambda>v. Inr (scalar baseline v))"
| "differ tv baseline SNone = Inr (scalar baseline JNull)"
| "differ tv baseline (SSome x) = differ tv baseline x"
| "differ tv baseline SUnit = Inr (scalar baseline JNull)"
| "differ tv baseline (SUnitStruct n) = Inr (scalar baseline JNull)"
| "differ tv baseline (SUnitVariant v) = Inr (scalar baseline (JString v))"
| "differ tv baseline (SNewtypeStruct x) = differ tv baseline x"
| "differ tv baseline (SNewtypeVariant v x) = and_then (tv x) (\<lambda>y. Inr (differ_value baseline (variant_object v y)))"
| "differ tv baseline (SSeq xs) = and_then (traverse tv xs) (\<lambda>vs. Inr (scalar baseline (JArray vs)))"
| "differ tv baseline (STuple xs) = and_then (traverse tv xs) (\<lambda>vs. Inr (scalar baseline (JArray vs)))"
| "differ tv baseline (STupleStruct xs) = and_then (traverse tv xs) (\<lambda>vs. Inr (scalar baseline (JArray vs)))"
| "differ tv baseline (STupleVariant v xs) =
     and_then (traverse tv xs) (\<lambda>vs. Inr (differ_value baseline (variant_object v (JArray vs))))"
| "differ tv baseline (SMap es) =
     and_then (differ_map tv baseline es map_diff_new) (\<lambda>(md, forced). Inr (finish baseline md, forced))"
| "differ tv baseline (SStruct fs) =
     and_then (differ_struct tv baseline fs map_diff_new) (\<lambda>(md, forced). Inr (finish baseline md, forced))"
| "differ tv baseline (SStructVariant v fs) =
     and_then (plain_fields tv fs) (\<lambda>kvs. Inr (differ_value baseline (variant_object v (JObject (object_of kvs)))))"
| "differ_map tv baseline [] md = Inr (md, False)"
| "differ_map tv baseline ((ks, s) # es) md =
     and_then (key_ser ks) (\<lambda>k. case child baseline k of (c, existed) \<Rightarrow>
       and_then (differ tv c s) (\<lambda>(n, forced).
         and_then (differ_map tv baseline es (entry k existed n md)) (\<lambda>(md, forced'). Inr (md, forced \<or> forced'))))"
| "differ_struct tv baseline [] md = Inr (md, False)"
| "differ_struct tv baseline ((k, s) # fs) md =
     (case child baseline k of (c, existed) \<Rightarrow>
       and_then (differ tv c s) (\<lambda>(n, forced).
         and_then (differ_struct tv baseline fs (entry k existed n md)) (\<lambda>(md, forced'). Inr (md, forced \<or> forced'))))"

record 'f json_diff =
  jd_patch :: "'f json"
  jd_forced_snapshot :: bool

definition diff :: "('f ser \<Rightarrow> json_error + 'f json) \<Rightarrow> 'f json \<Rightarrow> 'f ser \<Rightarrow> 'f json_diff" where
  "diff to_value old new =
     (case differ to_value old new of
        Inr (Same, forced) \<Rightarrow> \<lparr>jd_patch = JObject [], jd_forced_snapshot = forced\<rparr>
      | Inr (Diff patch, forced) \<Rightarrow>
          \<lparr>jd_patch = patch, jd_forced_snapshot = forced \<or> \<not> is_object patch \<or> \<not> is_object old\<rparr>
      | Inl e \<Rightarrow> \<lparr>jd_patch = JObject [], jd_forced_snapshot = True\<rparr>)"

section \<open>Well-formed values\<close>

text \<open>The members of an object are kept in the order of their keys.\<close>

fun wf_json :: "'f json \<Rightarrow> bool" and wf_members :: "(string \<times> 'f json) list \<Rightarrow> bool" where
  "wf_json (JObject m) \<longleftrightarrow> bt_sorted m \<and> wf_members m"
| "wf_json v \<longleftrightarrow> True"
| "wf_members [] \<longleftrightarrow> True"
| "wf_members ((k, v) # m) \<longleftrightarrow> wf_json v \<and> wf_members m"

section \<open>What the libraries document\<close>

text \<open>RFC 7396, section 2: a member of the patch that is null deletes, an object merges, anything else replaces.\<close>

fun members :: "'f json \<Rightarrow> (string \<times> 'f json) list" where
  "members (JObject m) = m"
| "members v = []"

definition or_null :: "'f json option \<Rightarrow> 'f json" where
  "or_null x = (case x of Some v \<Rightarrow> v | None \<Rightarrow> JNull)"

definition rfc7396 :: "('f json \<Rightarrow> 'f json \<Rightarrow> 'f json) \<Rightarrow> bool" where
  "rfc7396 merge \<longleftrightarrow>
     (\<forall>target patch. \<not> is_object patch \<longrightarrow> merge target patch = patch)
   \<and> (\<forall>target ps. merge target (JObject ps) =
        JObject (foldl (\<lambda>m (k, x). if x = JNull then bt_remove k m else bt_insert k (merge (or_null (map_of m k)) x) m) (members target) ps))"

text \<open>
  \<open>serde_json::to_value\<close> maps the calls to JSON: a compound value converts when its parts do, a map or struct
  to the object of its entries, and a variant with content to an object with its name.
\<close>

definition serde_json_value :: "('f ser \<Rightarrow> json_error + 'f json) \<Rightarrow> bool" where
  "serde_json_value tv \<longleftrightarrow>
     (\<forall>b. tv (SBool b) = Inr (JBool b)) \<and> (\<forall>i. tv (SInt i) = Inr (JNumber (NInt i)))
   \<and> (\<forall>f. tv (SFloat f) = Inr (JNumber (NFloat f))) \<and> tv SNonFinite = Inr JNull
   \<and> (\<forall>c. tv (SChar c) = Inr (JString c)) \<and> (\<forall>s. tv (SStr s) = Inr (JString s))
   \<and> (\<forall>i v. tv (SWide i) = Inr v \<longrightarrow> v = JNumber (NInt i)) \<and> (\<forall>bs. tv (SBytes bs) = Inr (JArray (map (\<lambda>b. JNumber (NInt (uint b))) bs)))
   \<and> tv SNone = Inr JNull \<and> tv SUnit = Inr JNull \<and> (\<forall>n. tv (SUnitStruct n) = Inr JNull)
   \<and> (\<forall>v. tv (SUnitVariant v) = Inr (JString v)) \<and> (\<forall>x. tv (SSome x) = tv x) \<and> (\<forall>x. tv (SNewtypeStruct x) = tv x)
   \<and> (\<forall>xs. tv (SSeq xs) = and_then (traverse tv xs) (\<lambda>vs. Inr (JArray vs)))
   \<and> (\<forall>xs. tv (STuple xs) = and_then (traverse tv xs) (\<lambda>vs. Inr (JArray vs)))
   \<and> (\<forall>xs. tv (STupleStruct xs) = and_then (traverse tv xs) (\<lambda>vs. Inr (JArray vs)))
   \<and> (\<forall>v x. tv (SNewtypeVariant v x) = and_then (tv x) (\<lambda>y. Inr (JObject [(v, y)])))
   \<and> (\<forall>v xs. tv (STupleVariant v xs) = and_then (traverse tv xs) (\<lambda>vs. Inr (JObject [(v, JArray vs)])))
   \<and> (\<forall>fs. tv (SStruct fs) = and_then (plain_fields tv fs) (\<lambda>kvs. Inr (JObject (object_of kvs))))
   \<and> (\<forall>v fs. tv (SStructVariant v fs) = and_then (plain_fields tv fs) (\<lambda>kvs. Inr (JObject [(v, JObject (object_of kvs))])))
   \<and> (\<forall>s v. tv s = Inr v \<longrightarrow> wf_json v)
   \<and> (\<forall>es ks. traverse key_ser (map fst es) = Inr ks \<longrightarrow>
        tv (SMap es) = and_then (traverse tv (map snd es)) (\<lambda>vs. Inr (JObject (object_of (zip ks vs)))))"


section \<open>Which changes a merge patch can express\<close>

text \<open>
  Where there is nothing to merge into, an object must have a member and none that is null; a member that stays
  must be expressible against what it was, and one that comes new must not be null.
\<close>

fun fresh :: "'f json \<Rightarrow> bool" and fresh_members :: "(string \<times> 'f json) list \<Rightarrow> bool" where
  "fresh (JObject m) \<longleftrightarrow> m \<noteq> [] \<and> fresh_members m"
| "fresh v \<longleftrightarrow> True"
| "fresh_members [] \<longleftrightarrow> True"
| "fresh_members ((k, v) # m) \<longleftrightarrow> v \<noteq> JNull \<and> fresh v \<and> fresh_members m"

fun expressible :: "'f json \<Rightarrow> 'f json \<Rightarrow> bool"
  and expressible_members :: "(string \<times> 'f json) list \<Rightarrow> (string \<times> 'f json) list \<Rightarrow> bool" where
  "expressible old (JObject m) \<longleftrightarrow> (case old of JObject base \<Rightarrow> expressible_members base m | _ \<Rightarrow> fresh (JObject m))"
| "expressible old v \<longleftrightarrow> True"
| "expressible_members base [] \<longleftrightarrow> True"
| "expressible_members base ((k, v) # m) \<longleftrightarrow>
     (case map_of base k of Some old \<Rightarrow> expressible old v | None \<Rightarrow> v \<noteq> JNull \<and> fresh v) \<and> expressible_members base m"

text \<open>No map or struct offers a key twice.\<close>

fun keys_once :: "'f ser \<Rightarrow> bool" and map_once :: "('f ser \<times> 'f ser) list \<Rightarrow> bool" and fields_once :: "(string \<times> 'f ser) list \<Rightarrow> bool" where
  "keys_once (SSome x) \<longleftrightarrow> keys_once x"
| "keys_once (SNewtypeStruct x) \<longleftrightarrow> keys_once x"
| "keys_once (SMap es) \<longleftrightarrow> distinct (map (key_ser \<circ> fst) es) \<and> map_once es"
| "keys_once (SStruct fs) \<longleftrightarrow> distinct (map fst fs) \<and> fields_once fs"
| "keys_once s \<longleftrightarrow> True"
| "map_once [] \<longleftrightarrow> True"
| "map_once ((k, s) # es) \<longleftrightarrow> keys_once s \<and> map_once es"
| "fields_once [] \<longleftrightarrow> True"
| "fields_once ((k, s) # fs) \<longleftrightarrow> keys_once s \<and> fields_once fs"

end
