(* ===== verification/Json_Patch.thy ===== *)
theory Json_Patch
  imports Json_Diff
begin

text \<open>
  Why the patches of \<open>Json_Diff\<close> are right: merged into the old value they give the new one.
\<close>

section \<open>Members\<close>

lemma wf_members_iff: "wf_members m \<longleftrightarrow> (\<forall>(k, v) \<in> set m. wf_json v)"
  by (induction m) auto

lemma fresh_members_iff: "fresh_members m \<longleftrightarrow> (\<forall>(k, v) \<in> set m. v \<noteq> JNull \<and> fresh v)"
  by (induction m) auto

lemma expressible_members_iff:
  "expressible_members base m \<longleftrightarrow>
   (\<forall>(k, v) \<in> set m. case map_of base k of Some old \<Rightarrow> expressible old v | None \<Rightarrow> v \<noteq> JNull \<and> fresh v)"
  by (induction m) auto

lemma map_once_iff: "map_once es \<longleftrightarrow> (\<forall>(k, s) \<in> set es. keys_once s)"
  by (induction es) auto

lemma fields_once_iff: "fields_once fs \<longleftrightarrow> (\<forall>(k, s) \<in> set fs. keys_once s)"
  by (induction fs) auto

lemma wf_members_lookup: "wf_json b \<Longrightarrow> map_of (members b) k = Some v \<Longrightarrow> wf_json v"
  by (cases b) (auto simp: wf_members_iff dest: map_of_SomeD)

lemma bt_sorted_members: "wf_json b \<Longrightarrow> bt_sorted (members b)"
  by (cases b) auto

lemma child_eq: "child b k = (or_null (map_of (members b) k), map_of (members b) k \<noteq> None)"
  by (cases b) (auto simp: child_def or_null_def split: option.splits)

lemma wf_child: "wf_json b \<Longrightarrow> wf_json (or_null (map_of (members b) k))"
  by (auto simp: or_null_def wf_members_lookup split: option.splits)

text \<open>What an expressible object says of its members, seen from the child's baseline.\<close>

lemma fresh_expressible: "fresh v \<Longrightarrow> expressible JNull v"
  by (cases v) simp_all

lemma expressible_member:
  assumes "expressible b (JObject m)" "(k, v) \<in> set m"
  shows "expressible (or_null (map_of (members b) k)) v \<and> (map_of (members b) k = None \<longrightarrow> v \<noteq> JNull)"
proof (cases "is_object b")
  case True
  then obtain base where b: "b = JObject base" by (cases b) simp_all
  then have "case map_of base k of Some old \<Rightarrow> expressible old v | None \<Rightarrow> v \<noteq> JNull \<and> fresh v"
    using assms by (auto simp: expressible_members_iff)
  then show ?thesis using b fresh_expressible [of v] by (cases "map_of base k") (simp_all add: or_null_def)
next
  case False
  then have "fresh (JObject m)" "members b = []" using assms(1) by (cases b; simp)+
  then have "v \<noteq> JNull \<and> fresh v" using assms(2) by (auto simp: fresh_members_iff)
  then show ?thesis using fresh_expressible [of v] \<open>members b = []\<close> by (simp add: or_null_def)
qed

section \<open>Merging\<close>

lemma rfc_other: "rfc7396 merge \<Longrightarrow> \<not> is_object p \<Longrightarrow> merge t p = p"
  by (simp add: rfc7396_def)

definition merge_into :: "('f json \<Rightarrow> 'f json \<Rightarrow> 'f json) \<Rightarrow> (string \<times> 'f json) list \<Rightarrow> (string \<times> 'f json) list \<Rightarrow> (string \<times> 'f json) list" where
  "merge_into merge m ps =
     foldl (\<lambda>m (k, x). if x = JNull then bt_remove k m else bt_insert k (merge (or_null (map_of m k)) x) m) m ps"

lemma rfc_object: "rfc7396 merge \<Longrightarrow> merge t (JObject ps) = JObject (merge_into merge (members t) ps)"
  by (simp add: rfc7396_def merge_into_def)

lemma merge_into_sorted: "bt_sorted m \<Longrightarrow> bt_sorted (merge_into merge m ps)"
  by (induction ps arbitrary: m) (auto simp: merge_into_def bt_sorted_insert bt_sorted_remove)

lemma merge_into_lookup:
  "distinct (map fst ps) \<Longrightarrow> map_of (merge_into merge m ps) k =
     (case map_of ps k of
        None \<Rightarrow> map_of m k
      | Some x \<Rightarrow> if x = JNull then None else Some (merge (or_null (map_of m k)) x))"
proof (induction ps arbitrary: m)
  case (Cons p ps)
  obtain k' x where p: "p = (k', x)" by (cases p)
  let ?m = "if x = JNull then bt_remove k' m else bt_insert k' (merge (or_null (map_of m k')) x) m"
  have "merge_into merge m (p # ps) = merge_into merge ?m ps" by (simp add: merge_into_def p)
  moreover have "map_of ps k' = None" using Cons.prems p by (auto simp: map_of_eq_None_iff)
  ultimately show ?case using Cons.IH [of ?m] Cons.prems p by (cases "k = k'") (auto split: option.splits)
qed (simp add: merge_into_def)

section \<open>The entries of a map\<close>

definition entries :: "(string \<times> bool \<times> 'f node) list \<Rightarrow> 'f map_diff \<Rightarrow> 'f map_diff" where
  "entries rs md = foldl (\<lambda>md (k, existed, n). entry k existed n md) md rs"

lemma entries_simps [simp]:
  "entries [] md = md" "entries ((k, existed, n) # rs) md = entries rs (entry k existed n md)"
  by (simp_all add: entries_def)

lemma entries_seen: "md_seen (entries rs md) = md_seen md @ map fst rs"
  by (induction rs arbitrary: md) (auto simp: entry_def)

lemma entries_added: "md_added_key (entries rs md) \<longleftrightarrow> md_added_key md \<or> (\<exists>r \<in> set rs. \<not> fst (snd r))"
proof (induction rs arbitrary: md)
  case (Cons r rs)
  then show ?case by (cases r) (simp add: entry_def)
qed simp

lemma entries_sorted: "bt_sorted (md_patch md) \<Longrightarrow> bt_sorted (md_patch (entries rs md))"
  by (induction rs arbitrary: md) (auto simp: entry_def bt_sorted_insert split: node.splits)

fun node_patch :: "'f node \<Rightarrow> 'f json option" where
  "node_patch Same = None"
| "node_patch (Diff v) = Some v"

lemma entries_patch_other: "k \<notin> fst ` set rs \<Longrightarrow> map_of (md_patch (entries rs md)) k = map_of (md_patch md) k"
proof (induction rs arbitrary: md)
  case (Cons r rs)
  obtain k' ex n where r: "r = (k', ex, n)" by (cases r)
  then show ?case using Cons by (cases n) (simp_all add: entry_def)
qed simp

lemma entries_patch:
  "distinct (map fst rs) \<Longrightarrow> (k, ex, n) \<in> set rs \<Longrightarrow> map_of (md_patch md) k = None \<Longrightarrow>
   map_of (md_patch (entries rs md)) k = node_patch n"
proof (induction rs arbitrary: md)
  case (Cons r rs)
  obtain k' ex' n' where r: "r = (k', ex', n')" by (cases r)
  show ?case
  proof (cases "r = (k, ex, n)")
    case True
    then have "map_of (md_patch (entries (r # rs) md)) k = map_of (md_patch (entry k ex n md)) k"
      using Cons.prems(1) by (simp add: entries_patch_other)
    then show ?thesis using Cons.prems(3) by (cases n) (simp_all add: entry_def)
  next
    case False
    then have "(k, ex, n) \<in> set rs" "k \<noteq> k'" using Cons.prems(1,2) r by force+
    then show ?thesis using Cons r by (cases n') (simp_all add: entry_def)
  qed
qed simp

lemma insert_deletions_lookup:
  "map_of (insert_deletions seen keys patch) k = (if k \<in> set keys \<and> k \<notin> set seen then Some JNull else map_of patch k)"
  by (induction keys arbitrary: patch) (auto simp: insert_deletions_def)

lemma insert_deletions_sorted: "bt_sorted patch \<Longrightarrow> bt_sorted (insert_deletions seen keys patch)"
  by (induction keys arbitrary: patch) (auto simp: insert_deletions_def bt_sorted_insert)

text \<open>
  The patch of a map: an entry that differs, a deletion for each member that was not offered, and nothing else.
  The scan for deletions is skipped only when there is none.
\<close>

definition full_patch :: "'f json \<Rightarrow> (string \<times> bool \<times> 'f node) list \<Rightarrow> (string \<times> 'f json) list" where
  "full_patch b rs = insert_deletions (map fst rs) (map fst (members b)) (md_patch (entries rs map_diff_new))"

lemma offered_all:
  assumes "distinct (map fst rs)" "distinct (map fst m)" "length rs = length m" "\<forall>r \<in> set rs. map_of m (fst r) \<noteq> None"
  shows "fst ` set rs = fst ` set m"
proof (rule card_subset_eq)
  show "fst ` set rs \<subseteq> fst ` set m" using assms(4) by (auto simp: map_of_eq_None_iff)
  show "card (fst ` set rs) = card (fst ` set m)"
    using assms(1-3) by (metis distinct_card length_map list.set_map)
qed simp

lemma insert_deletions_none: "set keys \<subseteq> set seen \<Longrightarrow> insert_deletions seen keys patch = patch"
  by (induction keys) (auto simp: insert_deletions_def)

lemma finish_full:
  assumes "wf_json b" "distinct (map fst rs)" "\<forall>(k, ex, n) \<in> set rs. ex \<longleftrightarrow> map_of (members b) k \<noteq> None"
  shows "finish b (entries rs map_diff_new) = (if full_patch b rs = [] then Same else Diff (JObject (full_patch b rs)))"
proof (cases "is_object b")
  case True
  then obtain base where b: "b = JObject base" by (cases b) simp_all
  let ?md = "entries rs map_diff_new"
  have seen: "md_seen ?md = map fst rs" by (simp add: entries_seen map_diff_new_def)
  have "full_patch b rs = md_patch ?md" if "\<not> (md_added_key ?md \<or> length (md_seen ?md) \<noteq> length base)"
  proof -
    have "\<forall>r \<in> set rs. map_of base (fst r) \<noteq> None" "length rs = length base"
      using that assms(3) b unfolding entries_added seen by (force, simp)
    then have "fst ` set rs = fst ` set base" using assms(1,2) b by (intro offered_all) (auto simp: bt_sorted_distinct)
    then show ?thesis unfolding full_patch_def b members.simps by (intro insert_deletions_none) auto
  qed
  then show ?thesis by (simp add: finish_def full_patch_def b seen)
next
  case False
  then have "finish b md = (if md_patch md = [] then Same else Diff (JObject (md_patch md)))" "members b = []" for md
    by (cases b; simp add: finish_def)+
  then show ?thesis by (simp add: full_patch_def insert_deletions_def)
qed

lemma full_patch_sorted: "bt_sorted (full_patch b rs)"
  unfolding full_patch_def by (intro insert_deletions_sorted entries_sorted) (simp add: map_diff_new_def)

lemma full_patch_offered:
  assumes "distinct (map fst rs)" "(k, ex, n) \<in> set rs"
  shows "map_of (full_patch b rs) k = node_patch n"
proof -
  have "k \<in> set (map fst rs)" using assms(2) by force
  then show ?thesis unfolding full_patch_def insert_deletions_lookup
    using entries_patch [OF assms, of map_diff_new] by (simp add: map_diff_new_def)
qed

lemma full_patch_other:
  assumes "k \<notin> fst ` set rs"
  shows "map_of (full_patch b rs) k = (if map_of (members b) k = None then None else Some JNull)"
  using assms entries_patch_other [OF assms, of map_diff_new]
  by (auto simp: full_patch_def insert_deletions_lookup map_diff_new_def map_of_eq_None_iff)

section \<open>Verdicts\<close>

text \<open>A verdict follows the change from \<open>b\<close> to \<open>v\<close> when nothing changed, or when its patch merges to \<open>v\<close>.\<close>

definition follows :: "('f json \<Rightarrow> 'f json \<Rightarrow> 'f json) \<Rightarrow> 'f json \<Rightarrow> 'f json \<Rightarrow> 'f node \<Rightarrow> bool" where
  "follows merge b v n \<longleftrightarrow> (case n of Same \<Rightarrow> v = b | Diff p \<Rightarrow> p \<noteq> JNull \<and> merge b p = v)"

lemma scalar_follows:
  assumes "rfc7396 merge" "scalar b v = (n, False)" "\<not> is_object v"
  shows "follows merge b v n"
  using assms rfc_other [OF assms(1,3)] by (auto simp: scalar_def follows_def split: if_splits)

lemma string_follows:
  assumes "rfc7396 merge" "(if b = JString s then (Same, False) else (Diff (JString s), False)) = (n, False)"
  shows "follows merge b (JString s) n"
  using assms rfc_other [OF assms(1), of "JString s"] by (auto simp: follows_def split: if_splits)

lemma foldl_insert_lookup:
  "distinct (map fst kvs) \<Longrightarrow> map_of (foldl (\<lambda>m (k, v). bt_insert k v m) m kvs) k =
     (case map_of kvs k of Some v \<Rightarrow> Some v | None \<Rightarrow> map_of m k)"
proof (induction kvs arbitrary: m)
  case (Cons kv kvs)
  obtain k' v where kv: "kv = (k', v)" by (cases kv)
  then have "map_of kvs k' = None" using Cons.prems by (simp add: map_of_eq_None_iff)
  then show ?case using Cons kv by (cases "k = k'") (simp_all split: option.splits)
qed simp

lemma object_of_lookup: "distinct (map fst kvs) \<Longrightarrow> map_of (object_of kvs) k = map_of kvs k"
  unfolding object_of_def by (subst foldl_insert_lookup) (simp_all split: option.splits)

lemma object_of_sorted: "bt_sorted (object_of kvs)"
proof -
  have "bt_sorted m \<Longrightarrow> bt_sorted (foldl (\<lambda>m (k, v). bt_insert k v m) m kvs)" for m
    by (induction kvs arbitrary: m) (auto simp: bt_sorted_insert)
  then show ?thesis by (simp add: object_of_def)
qed

text \<open>
  The heart of the matter: when each entry's verdict follows the change of its member, the verdict of the map
  follows the change of the object.
\<close>

lemma finish_follows:
  assumes rfc: "rfc7396 merge" and wf: "wf_json b" and m: "bt_sorted m" and ex: "expressible b (JObject m)"
    and keys: "distinct (map fst rs)" "fst ` set rs = fst ` set m"
    and rs: "\<And>k e n. (k, e, n) \<in> set rs \<Longrightarrow> (e \<longleftrightarrow> map_of (members b) k \<noteq> None)
       \<and> (\<forall>v. map_of m k = Some v \<longrightarrow> follows merge (or_null (map_of (members b) k)) v n)"
  shows "follows merge b (JObject m) (finish b (entries rs map_diff_new))"
proof -
  let ?P = "full_patch b rs"
  have P: "distinct (map fst ?P)" by (rule bt_sorted_distinct [OF full_patch_sorted])
  have lookup: "map_of (merge_into merge (members b) ?P) k = map_of m k" for k
  proof (cases "k \<in> fst ` set rs")
    case True
    then obtain e n where r: "(k, e, n) \<in> set rs" by force
    obtain v where v: "map_of m k = Some v" using True keys(2) by (metis map_of_eq_None_iff option.exhaust)
    note em = expressible_member [OF ex map_of_SomeD [OF v]]
    have f: "follows merge (or_null (map_of (members b) k)) v n" using rs [OF r] v by blast
    show ?thesis
    proof (cases n)
      case Same
      then have "map_of (members b) k = Some v" using f em by (cases "map_of (members b) k") (auto simp: follows_def or_null_def)
      then show ?thesis using full_patch_offered [OF keys(1) r] Same v by (simp add: merge_into_lookup [OF P])
    next
      case (Diff p)
      then show ?thesis using full_patch_offered [OF keys(1) r] f v by (simp add: merge_into_lookup [OF P] follows_def)
    qed
  next
    case False
    then have "map_of m k = None" using keys(2) by (simp add: map_of_eq_None_iff)
    then show ?thesis using full_patch_other [OF False] by (simp add: merge_into_lookup [OF P])
  qed
  have eq: "merge_into merge (members b) ?P = m"
    using lookup by (intro bt_ext merge_into_sorted bt_sorted_members wf m) blast
  have fin: "finish b (entries rs map_diff_new) = (if ?P = [] then Same else Diff (JObject ?P))"
    using rs by (intro finish_full wf keys) blast
  show ?thesis
  proof (cases "?P = []")
    case True
    then have "members b = m" using eq by (simp add: merge_into_def)
    moreover have "is_object b"
    proof (rule ccontr)
      assume "\<not> is_object b"
      then have "members b = []" "fresh (JObject m)" using ex by (cases b; simp)+
      then show False using \<open>members b = m\<close> by simp
    qed
    ultimately have "b = JObject m" by (cases b) simp_all
    then show ?thesis using fin True by (simp add: follows_def)
  next
    case False
    then show ?thesis using fin eq rfc_object [OF rfc, of b ?P] by (simp add: follows_def)
  qed
qed

section \<open>The differ is right\<close>

lemma traverse_Inr: "traverse f xs = Inr ys \<longleftrightarrow> list_all2 (\<lambda>x y. f x = Inr y) xs ys"
proof (induction xs arbitrary: ys)
  case (Cons x xs)
  show ?case by (cases ys) (auto simp: and_then_Inr_conv Cons.IH)
qed auto

lemma differ_members_run:
  "differ_members b m md = (md', f) \<Longrightarrow> \<exists>rs. md' = entries rs md \<and>
     list_all2 (\<lambda>(k, v) (k', e, n). k' = k \<and> (e \<longleftrightarrow> map_of (members b) k \<noteq> None)
       \<and> (\<exists>f'. differ_value (or_null (map_of (members b) k)) v = (n, f') \<and> (f' \<longrightarrow> f))) m rs"
proof (induction m arbitrary: md f)
  case (Cons kv m)
  obtain k v where kv: "kv = (k, v)" by (cases kv)
  obtain n f1 where n: "differ_value (or_null (map_of (members b) k)) v = (n, f1)" by fastforce
  let ?e = "map_of (members b) k \<noteq> None"
  obtain f2 where f2: "differ_members b m (entry k ?e n md) = (md', f2)" "f \<longleftrightarrow> f1 \<or> f2"
    using Cons.prems n unfolding kv by (auto simp: child_eq split: prod.splits)
  obtain rs where rs: "md' = entries rs (entry k ?e n md)"
    "list_all2 (\<lambda>(k, v) (k', e, n). k' = k \<and> (e \<longleftrightarrow> map_of (members b) k \<noteq> None)
       \<and> (\<exists>f'. differ_value (or_null (map_of (members b) k)) v = (n, f') \<and> (f' \<longrightarrow> f2))) m rs"
    using Cons.IH [OF f2(1)] by blast
  have "list_all2 (\<lambda>(k, v) (k', e, n). k' = k \<and> (e \<longleftrightarrow> map_of (members b) k \<noteq> None)
       \<and> (\<exists>f'. differ_value (or_null (map_of (members b) k)) v = (n, f') \<and> (f' \<longrightarrow> f))) m rs"
    using rs(2) f2(2) by (auto elim!: list_all2_mono)
  then show ?case using rs(1) n f2(2) kv by (intro exI [of _ "(k, ?e, n) # rs"]) simp
qed (intro exI [of _ "[]"], simp)

lemma run_entries:
  assumes "list_all2 (\<lambda>(k, v) (k', e, n). k' = k \<and> Q k v e n) m rs"
  shows "map fst rs = map fst m" "(k, e, n) \<in> set rs \<Longrightarrow> \<exists>v. (k, v) \<in> set m \<and> Q k v e n"
  using assms by (induction m rs) auto

lemma differ_value_follows:
  assumes "rfc7396 merge"
  shows "differ_value b v = (n, False) \<Longrightarrow> wf_json b \<Longrightarrow> wf_json v \<Longrightarrow> expressible b v \<Longrightarrow> follows merge b v n"
proof (induction v arbitrary: b n)
  case (JObject m)
  obtain md where md: "differ_members b m map_diff_new = (md, False)" "n = finish b md"
    using JObject.prems(1) by (auto split: prod.splits)
  obtain rs where rs: "md = entries rs map_diff_new"
    "list_all2 (\<lambda>(k, v) (k', e, n). k' = k \<and> (e \<longleftrightarrow> map_of (members b) k \<noteq> None)
       \<and> (\<exists>f'. differ_value (or_null (map_of (members b) k)) v = (n, f') \<and> (f' \<longrightarrow> False))) m rs"
    using differ_members_run [OF md(1)] by blast
  note run = run_entries [OF rs(2)]
  have m: "bt_sorted m" "distinct (map fst m)" using JObject.prems(3) by (simp_all add: bt_sorted_distinct)
  have "follows merge b (JObject m) (finish b (entries rs map_diff_new))"
  proof (rule finish_follows [OF assms JObject.prems(2) m(1) JObject.prems(4)])
    show "distinct (map fst rs)" "fst ` set rs = fst ` set m" using run(1) m(2) by (simp, metis list.set_map)
    fix k e x assume "(k, e, x) \<in> set rs"
    then obtain v where v: "(k, v) \<in> set m" "e \<longleftrightarrow> map_of (members b) k \<noteq> None"
      "differ_value (or_null (map_of (members b) k)) v = (x, False)" using run(2) by (metis (full_types))
    have "follows merge (or_null (map_of (members b) k)) v x"
    proof (rule JObject.IH [OF v(1) _ v(3)])
      show "wf_json v" using v(1) JObject.prems(3) by (auto simp: wf_members_iff)
      show "expressible (or_null (map_of (members b) k)) v" using expressible_member [OF JObject.prems(4) v(1)] by blast
    qed (simp_all add: wf_child JObject.prems(2))
    then show "(e \<longleftrightarrow> map_of (members b) k \<noteq> None)
       \<and> (\<forall>v. map_of m k = Some v \<longrightarrow> follows merge (or_null (map_of (members b) k)) v x)"
      using v(1,2) m(2) by auto
  qed
  then show ?case using md(2) rs(1) by simp
qed (simp_all add: scalar_follows [OF assms] string_follows [OF assms])

lemma differ_struct_map: "differ_struct tv b fs md = differ_map tv b (map (\<lambda>(k, s). (SStr k, s)) fs) md"
  by (induction fs arbitrary: md) (auto split: prod.splits)

lemma differ_map_run:
  "differ_map tv b es md = Inr (md', f) \<Longrightarrow> \<exists>rs. md' = entries rs md \<and>
     list_all2 (\<lambda>(ks, s) (k, e, n). key_ser ks = Inr k \<and> (e \<longleftrightarrow> map_of (members b) k \<noteq> None)
       \<and> (\<exists>f'. differ tv (or_null (map_of (members b) k)) s = Inr (n, f') \<and> (f' \<longrightarrow> f))) es rs"
proof (induction es arbitrary: md f)
  case (Cons x es)
  obtain ks s where x: "x = (ks, s)" by (cases x)
  obtain k n f1 f2 where 1: "key_ser ks = Inr k" "differ tv (or_null (map_of (members b) k)) s = Inr (n, f1)"
    "differ_map tv b es (entry k (map_of (members b) k \<noteq> None) n md) = Inr (md', f2)" "f \<longleftrightarrow> f1 \<or> f2"
    using Cons.prems unfolding x by (auto simp: child_eq and_then_Inr_conv)
  obtain rs where rs: "md' = entries rs (entry k (map_of (members b) k \<noteq> None) n md)"
    "list_all2 (\<lambda>(ks, s) (k, e, n). key_ser ks = Inr k \<and> (e \<longleftrightarrow> map_of (members b) k \<noteq> None)
       \<and> (\<exists>f'. differ tv (or_null (map_of (members b) k)) s = Inr (n, f') \<and> (f' \<longrightarrow> f2))) es rs"
    using Cons.IH [OF 1(3)] by blast
  have "list_all2 (\<lambda>(ks, s) (k, e, n). key_ser ks = Inr k \<and> (e \<longleftrightarrow> map_of (members b) k \<noteq> None)
       \<and> (\<exists>f'. differ tv (or_null (map_of (members b) k)) s = Inr (n, f') \<and> (f' \<longrightarrow> f))) es rs"
    using rs(2) 1(4) by (auto elim!: list_all2_mono)
  then show ?case using rs(1) 1 x by (intro exI [of _ "(k, map_of (members b) k \<noteq> None, n) # rs"]) simp
qed (intro exI [of _ "[]"], simp)

lemma map_run_entries:
  assumes "list_all2 (\<lambda>(ks, s) (k, e, n). key_ser ks = Inr k \<and> Q k s e n) es rs" "list_all2 (\<lambda>x y. tv x = Inr y) (map snd es) vs"
  shows "traverse key_ser (map fst es) = Inr (map fst rs)" "length vs = length rs"
    "(k, e, n) \<in> set rs \<Longrightarrow> \<exists>ks s v. (ks, s) \<in> set es \<and> tv s = Inr v \<and> (k, v) \<in> set (zip (map fst rs) vs) \<and> Q k s e n"
proof -
  show "traverse key_ser (map fst es) = Inr (map fst rs)" using assms(1) by (induction es rs) auto
  show len: "length vs = length rs" using assms by (auto dest!: list_all2_lengthD)
  assume "(k, e, n) \<in> set rs"
  then obtain i where i: "i < length rs" "rs ! i = (k, e, n)" by (metis in_set_conv_nth)
  obtain ks s where es: "es ! i = (ks, s)" by fastforce
  have "i < length es" using i(1) assms(1) by (auto dest!: list_all2_lengthD)
  then have "(ks, s) \<in> set es" "Q k s e n" "tv s = Inr (vs ! i)"
    using list_all2_nthD [OF assms(1), of i] list_all2_nthD [OF assms(2), of i] i es nth_mem [of i es] by auto
  moreover have "(k, vs ! i) \<in> set (zip (map fst rs) vs)" using i len by (auto simp: in_set_zip intro!: exI [of _ i])
  ultimately show "\<exists>ks s v. (ks, s) \<in> set es \<and> tv s = Inr v \<and> (k, v) \<in> set (zip (map fst rs) vs) \<and> Q k s e n" by blast
qed

lemma map_follows:
  assumes rfc: "rfc7396 merge" and wf: "wf_json b"
    and IH: "\<And>ks s c v n. (ks, s) \<in> set es \<Longrightarrow> differ tv c s = Inr (n, False) \<Longrightarrow> tv s = Inr v \<Longrightarrow> wf_json c
       \<Longrightarrow> expressible c v \<Longrightarrow> follows merge c v n"
    and run: "differ_map tv b es map_diff_new = Inr (md, False)" and once: "distinct (map (key_ser \<circ> fst) es)"
    and vs: "traverse tv (map snd es) = Inr vs" and ks: "traverse key_ser (map fst es) = Inr ks"
    and ex: "expressible b (JObject (object_of (zip ks vs)))"
  shows "follows merge b (JObject (object_of (zip ks vs))) (finish b md)"
proof -
  obtain rs where rs: "md = entries rs map_diff_new"
    "list_all2 (\<lambda>(ks, s) (k, e, n). key_ser ks = Inr k \<and> (e \<longleftrightarrow> map_of (members b) k \<noteq> None)
       \<and> (\<exists>f'. differ tv (or_null (map_of (members b) k)) s = Inr (n, f') \<and> (f' \<longrightarrow> False))) es rs"
    using differ_map_run [OF run] by blast
  note r = map_run_entries [OF rs(2) vs [unfolded traverse_Inr]]
  have ks_eq: "ks = map fst rs" using r(1) ks by simp
  have "map (key_ser \<circ> fst) es = map Inr (map fst rs)" using rs(2) by (induction es rs) auto
  then have d: "distinct (map fst rs)" using once distinct_map [of Inr "map fst rs"] by metis
  have zip: "map fst (zip ks vs) = map fst rs" using r(2) ks_eq by simp
  then have lookup: "map_of (object_of (zip ks vs)) k = map_of (zip ks vs) k" for k
    using d by (intro object_of_lookup) simp
  show ?thesis unfolding rs(1)
  proof (rule finish_follows [OF rfc wf object_of_sorted ex d])
    have "dom (map_of (object_of (zip ks vs))) = dom (map_of (zip ks vs))" using lookup by (simp add: dom_def)
    then show "fst ` set rs = fst ` set (object_of (zip ks vs))" unfolding dom_map_of_conv_image_fst using zip by (metis list.set_map)
    fix k e n assume "(k, e, n) \<in> set rs"
    then obtain ks' s v where s: "(ks', s) \<in> set es" "tv s = Inr v" "(k, v) \<in> set (zip ks vs)"
      "e \<longleftrightarrow> map_of (members b) k \<noteq> None" "differ tv (or_null (map_of (members b) k)) s = Inr (n, False)"
      using r(3) [of k e n] unfolding ks_eq by (metis (full_types))
    have kv: "map_of (object_of (zip ks vs)) k = Some v" unfolding lookup using s(3) d zip by simp
    have "follows merge (or_null (map_of (members b) k)) v n"
      using expressible_member [OF ex map_of_SomeD [OF kv]] by (intro IH [OF s(1,5,2)]) (simp_all add: wf_child wf)
    then show "(e \<longleftrightarrow> map_of (members b) k \<noteq> None)
       \<and> (\<forall>v. map_of (object_of (zip ks vs)) k = Some v \<longrightarrow> follows merge (or_null (map_of (members b) k)) v n)"
      using s(4) kv by simp
  qed
qed

lemma serde_simps:
  assumes "serde_json_value tv"
  shows "tv (SBool b) = Inr (JBool b)" "tv (SInt i) = Inr (JNumber (NInt i))" "tv (SFloat f) = Inr (JNumber (NFloat f))"
    "tv SNonFinite = Inr JNull" "tv (SChar c) = Inr (JString c)" "tv (SStr str) = Inr (JString str)" "tv SNone = Inr JNull"
    "tv SUnit = Inr JNull" "tv (SUnitStruct nm) = Inr JNull" "tv (SUnitVariant vn) = Inr (JString vn)"
    "tv (SSome x) = tv x" "tv (SNewtypeStruct x) = tv x"
    "tv (SBytes bs) = Inr (JArray (map (\<lambda>b. JNumber (NInt (uint b))) bs))"
    "tv (SSeq xs) = and_then (traverse tv xs) (\<lambda>vs. Inr (JArray vs))"
    "tv (STuple xs) = and_then (traverse tv xs) (\<lambda>vs. Inr (JArray vs))"
    "tv (STupleStruct xs) = and_then (traverse tv xs) (\<lambda>vs. Inr (JArray vs))"
    "tv (SNewtypeVariant vn x) = and_then (tv x) (\<lambda>y. Inr (JObject [(vn, y)]))"
    "tv (STupleVariant vn xs) = and_then (traverse tv xs) (\<lambda>vs. Inr (JObject [(vn, JArray vs)]))"
    "tv (SStruct fs) = and_then (plain_fields tv fs) (\<lambda>kvs. Inr (JObject (object_of kvs)))"
    "tv (SStructVariant vn fs) = and_then (plain_fields tv fs) (\<lambda>kvs. Inr (JObject [(vn, JObject (object_of kvs))]))"
    "tv (SWide i) = Inr v \<Longrightarrow> v = JNumber (NInt i)" "tv s = Inr v \<Longrightarrow> wf_json v"
    "traverse key_ser (map fst es) = Inr ks \<Longrightarrow>
        tv (SMap es) = and_then (traverse tv (map snd es)) (\<lambda>vs. Inr (JObject (object_of (zip ks vs))))"
  using assms unfolding serde_json_value_def by simp_all

lemma plain_fields_Inr: "plain_fields tv fs = Inr kvs \<Longrightarrow> \<exists>vs. traverse tv (map snd fs) = Inr vs \<and> kvs = zip (map fst fs) vs"
  unfolding plain_fields_def by (induction fs arbitrary: kvs) (auto simp: and_then_Inr_conv)

lemma variant_follows:
  assumes "rfc7396 merge" "differ_value b (variant_object vn y) = (n, False)" "wf_json b" "wf_json (JObject [(vn, y)])"
    "expressible b (JObject [(vn, y)])"
  shows "follows merge b (JObject [(vn, y)]) n"
  using assms by (intro differ_value_follows) (simp_all add: variant_object_def)

lemma differ_map_keys: "differ_map tv b es md = Inr x \<Longrightarrow> \<exists>ks. traverse key_ser (map fst es) = Inr ks"
proof (induction es arbitrary: md x)
  case (Cons e es)
  then show ?case by (cases e) (fastforce simp: and_then_Inr_conv child_eq)
qed simp

lemma map_case:
  assumes "rfc7396 merge" "serde_json_value tv" "wf_json b" "distinct (map (key_ser \<circ> fst) es)"
    and "\<And>ks s c v n. (ks, s) \<in> set es \<Longrightarrow> differ tv c s = Inr (n, False) \<Longrightarrow> tv s = Inr v \<Longrightarrow> wf_json c
       \<Longrightarrow> expressible c v \<Longrightarrow> follows merge c v n"
    and "differ_map tv b es map_diff_new = Inr (md, False)" "tv (SMap es) = Inr v" "expressible b v"
  shows "follows merge b v (finish b md)"
proof -
  obtain ks where ks: "traverse key_ser (map fst es) = Inr ks" using differ_map_keys [OF assms(6)] by blast
  obtain vs where vs: "traverse tv (map snd es) = Inr vs" "v = JObject (object_of (zip ks vs))"
    using assms(7) serde_simps(23) [OF assms(2) ks] by (auto simp: and_then_Inr_conv)
  show ?thesis unfolding vs(2)
    by (rule map_follows [OF assms(1,3) _ assms(6,4) vs(1) ks]) (use assms(5,8) vs(2) in blast)+
qed

lemma differ_follows:
  assumes rfc: "rfc7396 merge" and tv: "serde_json_value tv"
  shows "differ tv b s = Inr (n, False) \<Longrightarrow> tv s = Inr v \<Longrightarrow> keys_once s \<Longrightarrow> wf_json b \<Longrightarrow> expressible b v \<Longrightarrow> follows merge b v n"
proof (induction s arbitrary: b v n)
  case (SMap es)
  then obtain md where md: "differ_map tv b es map_diff_new = Inr (md, False)" "n = finish b md" by (auto simp: and_then_Inr_conv)
  show ?case unfolding md(2)
    by (rule map_case [OF rfc tv SMap.prems(4) _ _ md(1) SMap.prems(2,5)])
      (use SMap.IH SMap.prems(3) in \<open>auto simp: map_once_iff\<close>)
next
  case (SStruct fs)
  let ?es = "map (\<lambda>(k, s). (SStr k :: 'a ser, s)) fs"
  obtain md where md: "differ_map tv b ?es map_diff_new = Inr (md, False)" "n = finish b md"
    using SStruct.prems(1) by (auto simp: and_then_Inr_conv differ_struct_map)
  obtain kvs where kvs: "plain_fields tv fs = Inr kvs" "v = JObject (object_of kvs)"
    using SStruct.prems(2) by (auto simp: serde_simps [OF tv] and_then_Inr_conv)
  obtain vs where vs: "traverse tv (map snd fs) = Inr vs" "kvs = zip (map fst fs) vs" using plain_fields_Inr [OF kvs(1)] by blast
  have es: "map snd ?es = map snd fs" "traverse key_ser (map fst ?es) = Inr (map fst fs)"
    by (auto simp: traverse_Inr list_all2_conv_all_nth case_prod_beta)
  have "tv (SMap ?es) = Inr v" unfolding serde_simps(23) [OF tv es(2)] es(1) vs(1) using vs(2) kvs(2) by simp
  moreover have "distinct (map (key_ser \<circ> fst) ?es)"
  proof -
    have "map (key_ser \<circ> fst) ?es = map Inr (map fst fs)" by auto
    moreover have "distinct (map fst fs)" using SStruct.prems(3) by simp
    ultimately show ?thesis using distinct_map [of Inr "map fst fs"] by (metis inj_Inr inj_on_subset subset_UNIV)
  qed
  ultimately show ?case unfolding md(2)
    by (intro map_case [OF rfc tv SStruct.prems(4) _ _ md(1) _ SStruct.prems(5)])
      (use SStruct.IH SStruct.prems(3) in \<open>auto simp: fields_once_iff\<close>)
next
  case (SWide i)
  then have "scalar b v = (n, False)" by (simp add: and_then_Inr_conv)
  moreover have "\<not> is_object v" using serde_simps(21) [OF tv SWide.prems(2)] by simp
  ultimately show ?case by (rule scalar_follows [OF rfc])
next
  case (SNewtypeVariant vn x)
  then obtain y where y: "v = JObject [(vn, y)]" "differ_value b (variant_object vn y) = (n, False)"
    by (auto simp: serde_simps(17) [OF tv] and_then_Inr_conv)
  show ?case using variant_follows [OF rfc y(2) SNewtypeVariant.prems(4)] serde_simps(22) [OF tv SNewtypeVariant.prems(2)]
      SNewtypeVariant.prems(5) unfolding y(1) by blast
next
  case (STupleVariant vn xs)
  then obtain y where y: "v = JObject [(vn, y)]" "differ_value b (variant_object vn y) = (n, False)"
    by (auto simp: serde_simps(18) [OF tv] and_then_Inr_conv)
  show ?case using variant_follows [OF rfc y(2) STupleVariant.prems(4)] serde_simps(22) [OF tv STupleVariant.prems(2)]
      STupleVariant.prems(5) unfolding y(1) by blast
next
  case (SStructVariant vn fs)
  then obtain y where y: "v = JObject [(vn, y)]" "differ_value b (variant_object vn y) = (n, False)"
    by (auto simp: serde_simps(20) [OF tv] and_then_Inr_conv)
  show ?case using variant_follows [OF rfc y(2) SStructVariant.prems(4)] serde_simps(22) [OF tv SStructVariant.prems(2)]
      SStructVariant.prems(5) unfolding y(1) by blast
qed (auto simp: serde_simps(1-20) [OF tv] and_then_Inr_conv intro: scalar_follows [OF rfc] string_follows [OF rfc])

section \<open>Instances of the library functions\<close>

text \<open>Functions that satisfy what is assumed of the libraries.\<close>

fun plain_value :: "'f ser \<Rightarrow> json_error + 'f json" and plain_values :: "'f ser list \<Rightarrow> json_error + 'f json list"
  and plain_map :: "('f ser \<times> 'f ser) list \<Rightarrow> json_error + 'f json list" and plain_struct :: "(string \<times> 'f ser) list \<Rightarrow> json_error + (string \<times> 'f json) list" where
  "plain_value (SBool b) = Inr (JBool b)"
| "plain_value (SInt i) = Inr (JNumber (NInt i))"
| "plain_value (SWide i) = Inr (JNumber (NInt i))"
| "plain_value (SFloat f) = Inr (JNumber (NFloat f))"
| "plain_value SNonFinite = Inr JNull"
| "plain_value (SChar c) = Inr (JString c)"
| "plain_value (SStr s) = Inr (JString s)"
| "plain_value (SBytes bs) = Inr (JArray (map (\<lambda>b. JNumber (NInt (uint b))) bs))"
| "plain_value SNone = Inr JNull"
| "plain_value (SSome x) = plain_value x"
| "plain_value SUnit = Inr JNull"
| "plain_value (SUnitStruct n) = Inr JNull"
| "plain_value (SUnitVariant v) = Inr (JString v)"
| "plain_value (SNewtypeStruct x) = plain_value x"
| "plain_value (SNewtypeVariant v x) = and_then (plain_value x) (\<lambda>y. Inr (JObject [(v, y)]))"
| "plain_value (SSeq xs) = and_then (plain_values xs) (\<lambda>vs. Inr (JArray vs))"
| "plain_value (STuple xs) = and_then (plain_values xs) (\<lambda>vs. Inr (JArray vs))"
| "plain_value (STupleStruct xs) = and_then (plain_values xs) (\<lambda>vs. Inr (JArray vs))"
| "plain_value (STupleVariant v xs) = and_then (plain_values xs) (\<lambda>vs. Inr (JObject [(v, JArray vs)]))"
| "plain_value (SMap es) =
     and_then (traverse key_ser (map fst es)) (\<lambda>ks. and_then (plain_map es) (\<lambda>vs. Inr (JObject (object_of (zip ks vs)))))"
| "plain_value (SStruct fs) = and_then (plain_struct fs) (\<lambda>kvs. Inr (JObject (object_of kvs)))"
| "plain_value (SStructVariant v fs) = and_then (plain_struct fs) (\<lambda>kvs. Inr (JObject [(v, JObject (object_of kvs))]))"
| "plain_values [] = Inr []"
| "plain_values (x # xs) = and_then (plain_value x) (\<lambda>y. and_then (plain_values xs) (\<lambda>ys. Inr (y # ys)))"
| "plain_map [] = Inr []"
| "plain_map ((k, s) # es) = and_then (plain_value s) (\<lambda>y. and_then (plain_map es) (\<lambda>ys. Inr (y # ys)))"
| "plain_struct [] = Inr []"
| "plain_struct ((k, s) # fs) = and_then (plain_value s) (\<lambda>y. and_then (plain_struct fs) (\<lambda>ys. Inr ((k, y) # ys)))"

lemma plain_values_traverse: "plain_values xs = traverse plain_value xs"
  by (induction xs) simp_all

lemma plain_map_traverse: "plain_map es = traverse plain_value (map snd es)"
  by (induction es) auto

lemma plain_struct_traverse: "plain_struct fs = plain_fields plain_value fs"
  unfolding plain_fields_def by (induction fs) (auto simp: and_then_def split: sum.splits)

lemma wf_object_of: "(\<And>k v. (k, v) \<in> set kvs \<Longrightarrow> wf_json v) \<Longrightarrow> wf_json (JObject (object_of kvs))"
proof -
  assume a: "\<And>k v. (k, v) \<in> set kvs \<Longrightarrow> wf_json v"
  have "set (foldl (\<lambda>m (k, v). bt_insert k v m) m kvs) \<subseteq> set m \<union> set kvs" for m
  proof (induction kvs arbitrary: m)
    case (Cons kv kvs)
    have "set (bt_insert k v m) \<subseteq> insert (k, v) (set m)" for k v by (induction k v m rule: bt_insert.induct) auto
    then show ?case using Cons.IH by (cases kv) fastforce
  qed simp
  from this [of "[]"] show ?thesis using a object_of_sorted [of kvs] by (auto simp: wf_members_iff object_of_def)
qed

lemma traverse_mem: "traverse f xs = Inr ys \<Longrightarrow> y \<in> set ys \<Longrightarrow> \<exists>x \<in> set xs. f x = Inr y"
proof -
  assume a: "traverse f xs = Inr ys" "y \<in> set ys"
  then obtain i where i: "i < length ys" "ys ! i = y" by (auto simp: in_set_conv_nth)
  then have "i < length xs" "f (xs ! i) = Inr y" using a(1) by (auto simp: traverse_Inr list_all2_conv_all_nth)
  then show ?thesis using nth_mem by blast
qed

lemma plain_fields_mem: "plain_fields tv fs = Inr kvs \<Longrightarrow> (k, x) \<in> set kvs \<Longrightarrow> \<exists>s. (k, s) \<in> set fs \<and> tv s = Inr x"
proof -
  assume "plain_fields tv fs = Inr kvs" "(k, x) \<in> set kvs"
  from traverse_mem [OF this [unfolded plain_fields_def]]
  obtain e where e: "e \<in> set fs" "(case e of (k, s) \<Rightarrow> and_then (tv s) (\<lambda>v. Inr (k, v))) = Inr (k, x)" by blast
  obtain k' s where "e = (k', s)" by fastforce
  then show ?thesis using e by (auto simp: and_then_Inr_conv)
qed

lemma plain_value_wf: "plain_value s = Inr v \<Longrightarrow> wf_json v"
proof (induction s arbitrary: v)
  case (SMap es)
  from SMap.prems obtain ks vs where v: "traverse plain_value (map snd es) = Inr vs" "v = JObject (object_of (zip ks vs))"
    by (auto simp: and_then_Inr_conv plain_map_traverse)
  have "wf_json x" if x: "(k, x) \<in> set (zip ks vs)" for k x
  proof -
    obtain ks' s where s: "(ks', s) \<in> set es" "plain_value s = Inr x" using traverse_mem [OF v(1) set_zip_rightD [OF x]] by auto
    show ?thesis by (rule SMap.IH(2) [OF s(1) _ s(2)]) simp
  qed
  then show ?case unfolding v(2) by (intro wf_object_of) blast
next
  case (SStruct fs)
  from SStruct.prems obtain kvs where v: "plain_fields plain_value fs = Inr kvs" "v = JObject (object_of kvs)"
    by (auto simp: and_then_Inr_conv plain_struct_traverse)
  have "wf_json x" if x: "(k, x) \<in> set kvs" for k x
  proof -
    obtain s where s: "(k, s) \<in> set fs" "plain_value s = Inr x" using plain_fields_mem [OF v(1) x] by blast
    show ?thesis by (rule SStruct.IH [OF s(1) _ s(2)]) simp
  qed
  then show ?case unfolding v(2) by (intro wf_object_of) blast
next
  case (SStructVariant vn fs)
  from SStructVariant.prems obtain kvs where v: "plain_fields plain_value fs = Inr kvs" "v = JObject [(vn, JObject (object_of kvs))]"
    by (auto simp: and_then_Inr_conv plain_struct_traverse)
  have "wf_json x" if x: "(k, x) \<in> set kvs" for k x
  proof -
    obtain s where s: "(k, s) \<in> set fs" "plain_value s = Inr x" using plain_fields_mem [OF v(1) x] by blast
    show ?thesis by (rule SStructVariant.IH [OF s(1) _ s(2)]) simp
  qed
  then have "wf_json (JObject (object_of kvs))" by (intro wf_object_of) blast
  then show ?case unfolding v(2) by (simp add: bt_sorted_def)
next
  case (SNewtypeVariant vn x)
  from SNewtypeVariant.prems obtain y where "plain_value x = Inr y" "v = JObject [(vn, y)]" by (auto simp: and_then_Inr_conv)
  then show ?case using SNewtypeVariant.IH by (simp add: bt_sorted_def)
next
  case (STupleVariant vn xs)
  from STupleVariant.prems show ?case by (auto simp: and_then_Inr_conv bt_sorted_def)
next
  case (SSeq xs)
  from SSeq.prems show ?case by (auto simp: and_then_Inr_conv)
next
  case (STuple xs)
  from STuple.prems show ?case by (auto simp: and_then_Inr_conv)
next
  case (STupleStruct xs)
  from STupleStruct.prems show ?case by (auto simp: and_then_Inr_conv)
qed auto

lemma plain_value_ok: "serde_json_value plain_value"
  unfolding serde_json_value_def
  by (auto simp: plain_values_traverse plain_map_traverse plain_struct_traverse plain_value_wf)

fun merge_patch :: "'f json \<Rightarrow> 'f json \<Rightarrow> 'f json" and merge_patches :: "(string \<times> 'f json) list \<Rightarrow> (string \<times> 'f json) list \<Rightarrow> (string \<times> 'f json) list" where
  "merge_patch target (JObject ps) = JObject (merge_patches (members target) ps)"
| "merge_patch target p = p"
| "merge_patches m [] = m"
| "merge_patches m ((k, x) # ps) = merge_patches (if x = JNull then bt_remove k m else bt_insert k (merge_patch (or_null (map_of m k)) x) m) ps"

lemma merge_patches_fold: "merge_patches m ps = merge_into merge_patch m ps"
proof (induction ps arbitrary: m)
  case (Cons p ps)
  then show ?case by (cases p) (simp add: merge_into_def)
qed (simp add: merge_into_def)

lemma merge_patch_ok: "rfc7396 merge_patch"
  unfolding rfc7396_def
proof (intro conjI allI impI)
  fix target patch :: "'f json"
  assume "\<not> is_object patch"
  then show "merge_patch target patch = patch" by (cases patch) simp_all
qed (simp add: merge_patches_fold merge_into_def)

section \<open>Properties\<close>

text \<open>
  C12: When \<open>diff\<close> does not ask for a snapshot, the merge patch turns the old value into exactly the new one,
  provided that no key is offered twice and that what is new in it has no null member and no empty object; in
  particular an empty patch means that nothing changed.
\<close>

theorem json_patch_correct:
  assumes "rfc7396 merge" "serde_json_value to_value" "to_value new = Inr v" "keys_once new"
    and "wf_json old" "is_object old" "expressible old v" "\<not> jd_forced_snapshot (diff to_value old new)"
  shows "merge old (jd_patch (diff to_value old new)) = v
    \<and> (jd_patch (diff to_value old new) = JObject [] \<longrightarrow> v = old)"
proof -
  obtain n where n: "differ to_value old new = Inr (n, False)"
    using assms(8) by (auto simp: diff_def split: sum.splits node.splits)
  have f: "follows merge old v n" by (rule differ_follows [OF assms(1,2) n assms(3,4,5,7)])
  have empty: "merge old (JObject []) = old"
    using rfc_object [OF assms(1), of old "[]"] assms(6) by (cases old) (simp_all add: merge_into_def)
  show ?thesis
  proof (cases n)
    case Same
    then show ?thesis using f n empty by (simp add: diff_def follows_def)
  next
    case (Diff p)
    then show ?thesis using f n empty by (auto simp: diff_def follows_def)
  qed
qed

theorem json_patch_correct_witness:
  "merge_patch (JObject [(''a'', JNumber (NInt 1)), (''b'', JBool True)])
     (jd_patch (diff plain_value (JObject [(''a'', JNumber (NInt 1)), (''b'', JBool True)]) (SStruct [(''a'', SInt 2), (''c'', SStr ''x'')])))
     = (JObject [(''a'', JNumber (NInt 2)), (''c'', JString ''x'')] :: unit json)"
proof -
  let ?old = "JObject [(''a'', JNumber (NInt 1)), (''b'', JBool True)] :: unit json" and ?new = "SStruct [(''a'', SInt 2), (''c'', SStr ''x'')] :: unit ser"
  have v: "plain_value ?new = Inr (JObject [(''a'', JNumber (NInt 2)), (''c'', JString ''x'')])" by code_simp
  have "\<not> jd_forced_snapshot (diff plain_value ?old ?new)" by code_simp
  moreover have "keys_once ?new" "wf_json ?old" "is_object ?old" "expressible ?old (JObject [(''a'', JNumber (NInt 2)), (''c'', JString ''x'')])"
    by code_simp+
  ultimately show ?thesis using json_patch_correct [OF merge_patch_ok plain_value_ok v] by blast
qed

text \<open>
  What the provisos are for: an empty object that is new, or replaces a value of another kind, and a null
  that is new, are taken for no change at all, and no snapshot is forced.
\<close>

theorem empty_object_lost:
  assumes "\<not> is_object x"
  shows "diff to_value (JObject [(k, x)]) (SStruct [(k, SMap [])]) = \<lparr>jd_patch = JObject [], jd_forced_snapshot = False\<rparr>
    \<and> diff to_value (JObject []) (SStruct [(k, SMap [])]) = \<lparr>jd_patch = JObject [], jd_forced_snapshot = False\<rparr>
    \<and> diff to_value (JObject []) (SStruct [(k, SNone)]) = \<lparr>jd_patch = JObject [], jd_forced_snapshot = False\<rparr>"
proof -
  have "finish x map_diff_new = Same" using assms by (cases x) (simp_all add: finish_def map_diff_new_def)
  then show ?thesis
    by (simp add: diff_def child_def scalar_def finish_def entry_def map_diff_new_def insert_deletions_def)
qed

theorem empty_object_lost_witness:
  "diff plain_value (JObject [(''a'', JNumber (NInt 5))]) (SStruct [(''a'', SMap [])]) = (\<lparr>jd_patch = JObject [], jd_forced_snapshot = False\<rparr> :: unit json_diff)"
  proof -
  have "\<not> is_object (JNumber (NInt 5) :: unit json)" by simp
  from empty_object_lost [OF this, of plain_value "''a''"] show ?thesis by blast
qed

end
