(* ===== verification/Kio.thy ===== *)
theory Kio
  imports Main
begin

text \<open>
  The channels of \<open>relay/rs/kio\<close> that all shared state of \<open>moq-net\<close> lives in: a value behind a lock, with a flag
  that it is closed, counts of its producers and consumers, and the wakers of the tasks that wait for it. A waker
  is a number. A list of waiters holds weak references: \<open>alive\<close> says which wakers still have an owner. An
  operation under the lock is one step; what it returns last are the wakers that it wakes.
\<close>

section \<open>Lists of waiters\<close>

record waiter_list =
  wl_entries :: "nat list"
  wl_cursor :: nat

definition wl_new :: waiter_list where
  "wl_new = \<lparr>wl_entries = [], wl_cursor = 0\<rparr>"

text \<open>
  \<open>register\<close> looks at up to two slots from the cursor on for one whose owner is gone; \<open>None\<close> is an index out of
  bounds.
\<close>

fun register_scan :: "(nat \<Rightarrow> bool) \<Rightarrow> nat \<Rightarrow> nat \<Rightarrow> waiter_list \<Rightarrow> waiter_list option" where
  "register_scan alive w 0 l = Some (l\<lparr>wl_entries := wl_entries l @ [w]\<rparr>)"
| "register_scan alive w (Suc n) l =
     (if wl_cursor l \<ge> length (wl_entries l) then None
      else if \<not> alive (wl_entries l ! wl_cursor l) then Some (l\<lparr>wl_entries := (wl_entries l)[wl_cursor l := w]\<rparr>)
      else register_scan alive w n (l\<lparr>wl_cursor := (wl_cursor l + 1) mod length (wl_entries l)\<rparr>))"

definition wl_register :: "(nat \<Rightarrow> bool) \<Rightarrow> nat \<Rightarrow> waiter_list \<Rightarrow> waiter_list option" where
  "wl_register alive w l = register_scan alive w (min (length (wl_entries l)) 2) l"

definition wl_wake :: "(nat \<Rightarrow> bool) \<Rightarrow> waiter_list \<Rightarrow> nat list" where
  "wl_wake alive l = filter alive (wl_entries l)"

definition wl_ok :: "waiter_list \<Rightarrow> bool" where
  "wl_ok l \<longleftrightarrow> wl_cursor l < length (wl_entries l) \<or> wl_entries l = [] \<and> wl_cursor l = 0"

lemma register_scan_ok:
  assumes "wl_cursor l < length (wl_entries l)"
  shows "\<exists>l'. register_scan alive w n l = Some l' \<and> wl_ok l' \<and> w \<in> set (wl_entries l')
    \<and> {x \<in> set (wl_entries l'). alive x} \<supseteq> {x \<in> set (wl_entries l). alive x}
    \<and> set (wl_entries l') \<subseteq> insert w (set (wl_entries l)) \<and> length (wl_entries l') \<le> Suc (length (wl_entries l))"
  using assms
proof (induction n arbitrary: l)
  case 0
  then show ?case by (auto simp: wl_ok_def)
next
  case (Suc n)
  let ?es = "wl_entries l" and ?c = "wl_cursor l"
  show ?case
  proof (cases "alive (?es ! ?c)")
    case True
    have "(?c + 1) mod length ?es < length ?es" using Suc.prems by (intro mod_less_divisor) linarith
    then show ?thesis using Suc.IH [of "l\<lparr>wl_cursor := (?c + 1) mod length ?es\<rparr>"] Suc.prems True by simp
  next
    case False
    have "{x \<in> set ?es. alive x} \<subseteq> {x \<in> set (?es[?c := w]). alive x}"
    proof
      fix x assume "x \<in> {x \<in> set ?es. alive x}"
      then obtain i where "i < length ?es" "?es ! i = x" "alive x" by (auto simp: in_set_conv_nth)
      moreover from this False have "i \<noteq> ?c" by auto
      ultimately show "x \<in> {x \<in> set (?es[?c := w]). alive x}" using Suc.prems by (auto simp: in_set_conv_nth intro!: exI [of _ i])
    qed
    then show ?thesis using False Suc.prems set_update_subset_insert [of ?es ?c w] by (auto simp: wl_ok_def set_update_memI)
  qed
qed

lemma wl_register_ok:
  assumes "wl_ok l"
  shows "\<exists>l'. wl_register alive w l = Some l' \<and> wl_ok l' \<and> w \<in> set (wl_entries l')
    \<and> (\<forall>x \<in> set (wl_entries l). alive x \<longrightarrow> x \<in> set (wl_entries l'))"
proof (cases "wl_entries l = []")
  case True
  then show ?thesis using assms by (auto simp: wl_register_def wl_ok_def)
next
  case False
  then obtain l' where "register_scan alive w (min (length (wl_entries l)) 2) l = Some l'" "wl_ok l'" "w \<in> set (wl_entries l')"
    "{x \<in> set (wl_entries l). alive x} \<subseteq> {x \<in> set (wl_entries l'). alive x}"
    using register_scan_ok [of l alive w "min (length (wl_entries l)) 2"] assms unfolding wl_ok_def by auto
  then show ?thesis unfolding wl_register_def by blast
qed

section \<open>The channel\<close>

text \<open>
  The counts are atomic integers beside the lock. An operation that changes a count and then takes the lock is two
  steps, between which other tasks run: \<open>takes\<close> counts the tasks that made the first consumer or dropped the last
  one and have still to take the waiters for the count, \<open>closers\<close> those that dropped the last producer and have
  still to close, and \<open>upgrades\<close> those that have counted a producer and have still to see whether the channel is
  open. The steps of all tasks are in one order; the weak orderings of the atomic operations are not modelled, nor is
  the overflow of a count.
\<close>

record 'a chan =
  ch_value :: 'a
  ch_closed :: bool
  waiters_value :: waiter_list
  waiters_closed :: waiter_list
  waiters_consumer :: waiter_list
  producers :: nat
  consumers :: nat
  takes :: nat
  closers :: nat
  upgrades :: nat

definition chan_new :: "'a \<Rightarrow> 'a chan" where
  "chan_new v = \<lparr>ch_value = v, ch_closed = False, waiters_value = wl_new, waiters_closed = wl_new, waiters_consumer = wl_new,
     producers = 1, consumers = 0, takes = 0, closers = 0, upgrades = 0\<rparr>"

datatype 'r poll = Pending | Ready 'r

text \<open>
  The guard \<open>Mut\<close>: \<open>write\<close> hands it out while the channel is open, and dropping it after a change wakes who waits
  for the value, and everyone when the change closed the channel.
\<close>

definition chan_write :: "'a chan \<Rightarrow> 'a + 'a" where
  "chan_write c = (if ch_closed c then Inl (ch_value c) else Inr (ch_value c))"

definition mut_drop :: "(nat \<Rightarrow> bool) \<Rightarrow> bool \<Rightarrow> 'a chan \<Rightarrow> 'a chan \<times> nat list" where
  "mut_drop alive modified c =
     (if \<not> modified then (c, [])
      else if ch_closed c then
        (c\<lparr>waiters_value := wl_new, waiters_closed := wl_new, waiters_consumer := wl_new\<rparr>,
         wl_wake alive (waiters_value c) @ wl_wake alive (waiters_closed c) @ wl_wake alive (waiters_consumer c))
      else (c\<lparr>waiters_value := wl_new\<rparr>, wl_wake alive (waiters_value c)))"

definition chan_modify :: "(nat \<Rightarrow> bool) \<Rightarrow> ('a \<Rightarrow> 'a) \<Rightarrow> 'a chan \<Rightarrow> 'a chan \<times> nat list" where
  "chan_modify alive g c =
     (case chan_write c of Inl _ \<Rightarrow> (c, []) | Inr v \<Rightarrow> mut_drop alive True (c\<lparr>ch_value := g v\<rparr>))"

definition mut_close :: "(nat \<Rightarrow> bool) \<Rightarrow> ('a \<Rightarrow> 'a) \<Rightarrow> 'a chan \<Rightarrow> 'a chan \<times> nat list" where
  "mut_close alive g c =
     (case chan_write c of Inl _ \<Rightarrow> (c, []) | Inr v \<Rightarrow> mut_drop alive True (c\<lparr>ch_value := g v, ch_closed := True\<rparr>))"

definition chan_close :: "(nat \<Rightarrow> bool) \<Rightarrow> 'a chan \<Rightarrow> 'a chan \<times> nat list" where
  "chan_close alive c = mut_close alive (\<lambda>v. v) c"

text \<open>Dropping a producer: the count, and the lock that the last one takes.\<close>

definition drop_producer :: "'a chan \<Rightarrow> 'a chan" where
  "drop_producer c =
     (let prev = producers c; c = c\<lparr>producers := prev - 1\<rparr>
      in if prev > 1 then c else c\<lparr>closers := closers c + 1\<rparr>)"

definition close_last :: "(nat \<Rightarrow> bool) \<Rightarrow> 'a chan \<Rightarrow> 'a chan \<times> nat list" where
  "close_last alive c =
     (let c = c\<lparr>closers := closers c - 1\<rparr>
      in if ch_closed c then (c, [])
         else (c\<lparr>ch_closed := True, waiters_value := wl_new, waiters_closed := wl_new, waiters_consumer := wl_new\<rparr>,
           wl_wake alive (waiters_value c) @ wl_wake alive (waiters_closed c) @ wl_wake alive (waiters_consumer c)))"

definition clone_producer :: "'a chan \<Rightarrow> 'a chan" where
  "clone_producer c = c\<lparr>producers := producers c + 1\<rparr>"

definition is_last :: "'a chan \<Rightarrow> bool" where
  "is_last c \<longleftrightarrow> producers c = 1"

text \<open>A consumer or a weak reference that makes a producer: it is counted, and counted out again when the channel is closed.\<close>

definition produce_count :: "'a chan \<Rightarrow> 'a chan" where
  "produce_count c = c\<lparr>producers := producers c + 1, upgrades := upgrades c + 1\<rparr>"

definition chan_produce :: "'a chan \<Rightarrow> bool \<times> 'a chan" where
  "chan_produce c =
     (let c = c\<lparr>upgrades := upgrades c - 1\<rparr>
      in if ch_closed c then (False, c\<lparr>producers := producers c - 1\<rparr>) else (True, c))"

text \<open>
  The first consumer, and the drop of the last one: the count, and the lock under which the waiters are taken, in
  both cases.
\<close>

definition chan_consume :: "'a chan \<Rightarrow> 'a chan" where
  "chan_consume c =
     (let prev = consumers c; c = c\<lparr>consumers := prev + 1\<rparr>
      in if prev = 0 then c\<lparr>takes := takes c + 1\<rparr> else c)"

definition clone_consumer :: "'a chan \<Rightarrow> 'a chan" where
  "clone_consumer c = c\<lparr>consumers := consumers c + 1\<rparr>"

definition drop_consumer :: "'a chan \<Rightarrow> 'a chan" where
  "drop_consumer c =
     (let prev = consumers c; c = c\<lparr>consumers := prev - 1\<rparr>
      in if prev > 1 then c else c\<lparr>takes := takes c + 1\<rparr>)"

definition take_consumer :: "(nat \<Rightarrow> bool) \<Rightarrow> 'a chan \<Rightarrow> 'a chan \<times> nat list" where
  "take_consumer alive c = (c\<lparr>takes := takes c - 1, waiters_consumer := wl_new\<rparr>, wl_wake alive (waiters_consumer c))"

text \<open>The polls. \<open>None\<close> is a panic of \<open>register\<close>.\<close>

definition consumer_poll :: "(nat \<Rightarrow> bool) \<Rightarrow> nat \<Rightarrow> ('a \<Rightarrow> 'r poll) \<Rightarrow> 'a chan \<Rightarrow> (('a + 'r) poll \<times> 'a chan) option" where
  "consumer_poll alive w f c =
     (case f (ch_value c) of
        Ready r \<Rightarrow> Some (Ready (Inr r), c)
      | Pending \<Rightarrow>
          if ch_closed c then Some (Ready (Inl (ch_value c)), c)
          else map_option (\<lambda>l. (Pending, c\<lparr>waiters_value := l\<rparr>)) (wl_register alive w (waiters_value c)))"

definition producer_poll :: "(nat \<Rightarrow> bool) \<Rightarrow> nat \<Rightarrow> ('a \<Rightarrow> unit poll) \<Rightarrow> 'a chan \<Rightarrow> (('a + 'a) poll \<times> 'a chan) option" where
  "producer_poll alive w f c =
     (if ch_closed c then Some (Ready (Inl (ch_value c)), c)
      else case f (ch_value c) of
        Ready _ \<Rightarrow> Some (Ready (Inr (ch_value c)), c)
      | Pending \<Rightarrow> map_option (\<lambda>l. (Pending, c\<lparr>waiters_value := l\<rparr>)) (wl_register alive w (waiters_value c)))"

definition poll_closed :: "(nat \<Rightarrow> bool) \<Rightarrow> nat \<Rightarrow> 'a chan \<Rightarrow> (unit poll \<times> 'a chan) option" where
  "poll_closed alive w c =
     (if ch_closed c then Some (Ready (), c)
      else map_option (\<lambda>l. (Pending, c\<lparr>waiters_closed := l\<rparr>)) (wl_register alive w (waiters_closed c)))"

text \<open>
  \<open>poll_used\<close> and \<open>poll_unused\<close> load the count twice, under the lock, which does not keep the count from changing in
  between: \<open>seen\<close> is what the first load gave, and the count of \<open>c\<close> what the second gives. A weak reference loads
  first and locks then.
\<close>

definition poll_consumers :: "(nat \<Rightarrow> bool) \<Rightarrow> (nat \<Rightarrow> bool) \<Rightarrow> nat \<Rightarrow> nat \<Rightarrow> 'a chan \<Rightarrow> (unit option poll \<times> 'a chan) option" where
  "poll_consumers enough alive w seen c =
     (if ch_closed c then Some (Ready None, c)
      else if enough seen then Some (Ready (Some ()), c)
      else map_option (\<lambda>l. (if enough (consumers c) then Ready (Some ()) else Pending, c\<lparr>waiters_consumer := l\<rparr>))
        (wl_register alive w (waiters_consumer c)))"

definition poll_used :: "(nat \<Rightarrow> bool) \<Rightarrow> nat \<Rightarrow> nat \<Rightarrow> 'a chan \<Rightarrow> (unit option poll \<times> 'a chan) option" where
  "poll_used alive w seen c = poll_consumers (\<lambda>n. n > 0) alive w seen c"

definition poll_unused :: "(nat \<Rightarrow> bool) \<Rightarrow> nat \<Rightarrow> nat \<Rightarrow> 'a chan \<Rightarrow> (unit option poll \<times> 'a chan) option" where
  "poll_unused alive w seen c = poll_consumers (\<lambda>n. n = 0) alive w seen c"

definition weak_poll_consumers :: "(nat \<Rightarrow> bool) \<Rightarrow> (nat \<Rightarrow> bool) \<Rightarrow> nat \<Rightarrow> nat \<Rightarrow> 'a chan \<Rightarrow> (unit option poll \<times> 'a chan) option" where
  "weak_poll_consumers enough alive w seen c =
     (if enough seen then Some (Ready (Some ()), c)
      else if ch_closed c then Some (Ready None, c)
      else map_option (\<lambda>l. (if enough (consumers c) then Ready (Some ()) else Pending, c\<lparr>waiters_consumer := l\<rparr>))
        (wl_register alive w (waiters_consumer c)))"

definition weak_poll_used :: "(nat \<Rightarrow> bool) \<Rightarrow> nat \<Rightarrow> nat \<Rightarrow> 'a chan \<Rightarrow> (unit option poll \<times> 'a chan) option" where
  "weak_poll_used alive w seen c = weak_poll_consumers (\<lambda>n. n > 0) alive w seen c"

definition weak_poll_unused :: "(nat \<Rightarrow> bool) \<Rightarrow> nat \<Rightarrow> nat \<Rightarrow> 'a chan \<Rightarrow> (unit option poll \<times> 'a chan) option" where
  "weak_poll_unused alive w seen c = weak_poll_consumers (\<lambda>n. n = 0) alive w seen c"

section \<open>Runs\<close>

text \<open>What a task can wait for; the number is what the first load of the count gave.\<close>

datatype 'a wait =
    ForValue "'a \<Rightarrow> unit poll"
  | ForWrite "'a \<Rightarrow> unit poll"
  | ForClosed
  | ForUsed nat
  | ForUnused nat
  | WeakUsed nat
  | WeakUnused nat

fun is_pending :: "'r poll \<Rightarrow> bool" where
  "is_pending Pending \<longleftrightarrow> True"
| "is_pending (Ready _) \<longleftrightarrow> False"

text \<open>The poll for it: whether it is pending, and the channel then.\<close>

fun wait_poll :: "(nat \<Rightarrow> bool) \<Rightarrow> nat \<Rightarrow> 'a wait \<Rightarrow> 'a chan \<Rightarrow> (bool \<times> 'a chan) option" where
  "wait_poll alive w (ForValue f) c = map_option (map_prod is_pending id) (consumer_poll alive w f c)"
| "wait_poll alive w (ForWrite f) c = map_option (map_prod is_pending id) (producer_poll alive w f c)"
| "wait_poll alive w ForClosed c = map_option (map_prod is_pending id) (poll_closed alive w c)"
| "wait_poll alive w (ForUsed n) c = map_option (map_prod is_pending id) (poll_used alive w n c)"
| "wait_poll alive w (ForUnused n) c = map_option (map_prod is_pending id) (poll_unused alive w n c)"
| "wait_poll alive w (WeakUsed n) c = map_option (map_prod is_pending id) (weak_poll_used alive w n c)"
| "wait_poll alive w (WeakUnused n) c = map_option (map_prod is_pending id) (weak_poll_unused alive w n c)"

text \<open>That the task still has to wait, when \<open>v\<close> was the value that it saw.\<close>

fun still_waiting :: "'a wait \<Rightarrow> 'a \<Rightarrow> 'a chan \<Rightarrow> bool" where
  "still_waiting (ForValue f) v c \<longleftrightarrow> \<not> ch_closed c \<and> ch_value c = v \<and> f (ch_value c) = Pending"
| "still_waiting (ForWrite f) v c \<longleftrightarrow> \<not> ch_closed c \<and> ch_value c = v \<and> f (ch_value c) = Pending"
| "still_waiting ForClosed v c \<longleftrightarrow> \<not> ch_closed c"
| "still_waiting (ForUsed n) v c \<longleftrightarrow> \<not> ch_closed c \<and> consumers c = 0"
| "still_waiting (ForUnused n) v c \<longleftrightarrow> \<not> ch_closed c \<and> consumers c > 0"
| "still_waiting (WeakUsed n) v c \<longleftrightarrow> \<not> ch_closed c \<and> consumers c = 0"
| "still_waiting (WeakUnused n) v c \<longleftrightarrow> \<not> ch_closed c \<and> consumers c > 0"

fun for_count :: "'a wait \<Rightarrow> bool" where
  "for_count (ForUsed n) \<longleftrightarrow> True"
| "for_count (ForUnused n) \<longleftrightarrow> True"
| "for_count (WeakUsed n) \<longleftrightarrow> True"
| "for_count (WeakUnused n) \<longleftrightarrow> True"
| "for_count k \<longleftrightarrow> False"

text \<open>
  A step of any task: what it does, and which wakers have an owner at that time. A step that no task can take, because
  there is no handle to clone or to drop or because no task has come to that point, does nothing. The run collects
  the wakers that are woken; they are woken after the lock was released.
\<close>

datatype 'a chan_op =
    Modify "'a \<Rightarrow> 'a"
  | MutClose "'a \<Rightarrow> 'a"
  | Close
  | CloneProducer
  | DropProducer
  | CloseLast
  | ProduceCount
  | Produce
  | Consume
  | CloneConsumer
  | DropConsumer
  | TakeConsumer
  | Wait nat "'a wait"

fun chan_step :: "(nat \<Rightarrow> bool) \<Rightarrow> 'a chan_op \<Rightarrow> 'a chan \<Rightarrow> ('a chan \<times> nat list) option" where
  "chan_step alive (Modify g) c = Some (chan_modify alive g c)"
| "chan_step alive (MutClose g) c = Some (mut_close alive g c)"
| "chan_step alive Close c = Some (chan_close alive c)"
| "chan_step alive CloneProducer c = Some (if producers c > upgrades c then clone_producer c else c, [])"
| "chan_step alive DropProducer c = Some (if producers c > upgrades c then drop_producer c else c, [])"
| "chan_step alive CloseLast c = Some (if closers c > 0 then close_last alive c else (c, []))"
| "chan_step alive ProduceCount c = Some (produce_count c, [])"
| "chan_step alive Produce c = Some (if upgrades c > 0 then snd (chan_produce c) else c, [])"
| "chan_step alive Consume c = Some (chan_consume c, [])"
| "chan_step alive CloneConsumer c = Some (if consumers c > 0 then clone_consumer c else c, [])"
| "chan_step alive DropConsumer c = Some (if consumers c > 0 then drop_consumer c else c, [])"
| "chan_step alive TakeConsumer c = Some (if takes c > 0 then take_consumer alive c else (c, []))"
| "chan_step alive (Wait w k) c = map_option (\<lambda>(_, c). (c, [])) (wait_poll alive w k c)"

fun chan_run :: "((nat \<Rightarrow> bool) \<times> 'a chan_op) list \<Rightarrow> 'a chan \<Rightarrow> ('a chan \<times> nat list) option" where
  "chan_run [] c = Some (c, [])"
| "chan_run ((alive, x) # xs) c =
     (case chan_step alive x c of
        None \<Rightarrow> None
      | Some (c, woken) \<Rightarrow> map_option (\<lambda>(c, more_woken). (c, woken @ more_woken)) (chan_run xs c))"

definition chan_ok :: "'a chan \<Rightarrow> bool" where
  "chan_ok c \<longleftrightarrow> wl_ok (waiters_value c) \<and> wl_ok (waiters_closed c) \<and> wl_ok (waiters_consumer c)"

text \<open>A waiter that is parked, and what is still as it was when it was.\<close>

definition parked_value :: "nat \<Rightarrow> 'a chan \<Rightarrow> bool" where
  "parked_value w c \<longleftrightarrow> w \<in> set (wl_entries (waiters_value c))"

definition parked_closed :: "nat \<Rightarrow> 'a chan \<Rightarrow> bool" where
  "parked_closed w c \<longleftrightarrow> w \<in> set (wl_entries (waiters_closed c))"

definition parked_consumer :: "nat \<Rightarrow> 'a chan \<Rightarrow> bool" where
  "parked_consumer w c \<longleftrightarrow> w \<in> set (wl_entries (waiters_consumer c))"

lemmas chan_defs = chan_modify_def mut_close_def chan_close_def mut_drop_def chan_write_def clone_producer_def drop_producer_def
  close_last_def produce_count_def chan_produce_def chan_consume_def clone_consumer_def drop_consumer_def take_consumer_def Let_def

lemmas parked_defs = parked_value_def parked_closed_def parked_consumer_def

lemmas poll_defs = consumer_poll_def producer_poll_def poll_closed_def poll_used_def poll_unused_def poll_consumers_def
  weak_poll_used_def weak_poll_unused_def weak_poll_consumers_def

lemma wl_ok_new [simp]: "wl_ok wl_new"
  by (simp add: wl_ok_def wl_new_def)

lemma wl_new_entries [simp]: "wl_entries wl_new = []"
  by (simp add: wl_new_def)

text \<open>
  What a step keeps of a parked waiter that it does not wake. One that waits for the count is owed a wakeup from the
  moment on that the count has become zero or has stopped being zero.
\<close>

definition keeps :: "nat \<Rightarrow> nat list \<Rightarrow> 'a chan \<Rightarrow> 'a chan \<Rightarrow> bool" where
  "keeps w woken c c' \<longleftrightarrow>
     (parked_value w c \<longrightarrow> w \<in> set woken \<or> parked_value w c' \<and> ch_value c' = ch_value c \<and> ch_closed c' = ch_closed c)
   \<and> (parked_closed w c \<longrightarrow> w \<in> set woken \<or> parked_closed w c' \<and> ch_closed c' = ch_closed c)
   \<and> (parked_consumer w c \<longrightarrow> w \<in> set woken \<or> parked_consumer w c' \<and> ch_closed c' = ch_closed c
        \<and> takes c \<le> takes c' \<and> ((consumers c' = 0 \<longleftrightarrow> consumers c = 0) \<or> takes c' > 0))"

lemma keeps_refl [simp]: "keeps w [] c c"
  by (simp add: keeps_def)

lemma keeps_trans:
  assumes "keeps w ws c c1" "keeps w ws' c1 c2"
  shows "keeps w (ws @ ws') c c2"
proof -
  have "w \<in> set (ws @ ws') \<or> parked_consumer w c2 \<and> ch_closed c2 = ch_closed c
      \<and> takes c \<le> takes c2 \<and> ((consumers c2 = 0 \<longleftrightarrow> consumers c = 0) \<or> takes c2 > 0)" if "parked_consumer w c"
  proof (cases "w \<in> set (ws @ ws')")
    case False
    then have "parked_consumer w c1" "takes c \<le> takes c1" "(consumers c1 = 0 \<longleftrightarrow> consumers c = 0) \<or> takes c1 > 0" "ch_closed c1 = ch_closed c"
      using assms(1) that by (simp_all add: keeps_def)
    moreover from this False have "parked_consumer w c2" "takes c1 \<le> takes c2" "(consumers c2 = 0 \<longleftrightarrow> consumers c1 = 0) \<or> takes c2 > 0"
        "ch_closed c2 = ch_closed c1"
      using assms(2) by (simp_all add: keeps_def)
    ultimately show ?thesis by linarith
  qed simp
  then show ?thesis using assms by (auto simp: keeps_def)
qed

lemma register_keeps:
  assumes "chan_ok c"
  shows "\<exists>l. wl_register alive w' (waiters_value c) = Some l \<and> chan_ok (c\<lparr>waiters_value := l\<rparr>)
      \<and> w' \<in> set (wl_entries l) \<and> (\<forall>w. alive w \<longrightarrow> keeps w [] c (c\<lparr>waiters_value := l\<rparr>))"
    "\<exists>l. wl_register alive w' (waiters_closed c) = Some l \<and> chan_ok (c\<lparr>waiters_closed := l\<rparr>)
      \<and> w' \<in> set (wl_entries l) \<and> (\<forall>w. alive w \<longrightarrow> keeps w [] c (c\<lparr>waiters_closed := l\<rparr>))"
    "\<exists>l. wl_register alive w' (waiters_consumer c) = Some l \<and> chan_ok (c\<lparr>waiters_consumer := l\<rparr>)
      \<and> w' \<in> set (wl_entries l) \<and> (\<forall>w. alive w \<longrightarrow> keeps w [] c (c\<lparr>waiters_consumer := l\<rparr>))"
proof -
  have ok: "wl_ok (waiters_value c)" "wl_ok (waiters_closed c)" "wl_ok (waiters_consumer c)" using assms by (simp_all add: chan_ok_def)
  obtain l1 where "wl_register alive w' (waiters_value c) = Some l1" "wl_ok l1" "w' \<in> set (wl_entries l1)"
    "\<And>x. x \<in> set (wl_entries (waiters_value c)) \<Longrightarrow> alive x \<Longrightarrow> x \<in> set (wl_entries l1)"
    using wl_register_ok [OF ok(1), of alive w'] by blast
  then show "\<exists>l. wl_register alive w' (waiters_value c) = Some l \<and> chan_ok (c\<lparr>waiters_value := l\<rparr>)
      \<and> w' \<in> set (wl_entries l) \<and> (\<forall>w. alive w \<longrightarrow> keeps w [] c (c\<lparr>waiters_value := l\<rparr>))"
    using ok by (auto simp: chan_ok_def keeps_def parked_defs)
  obtain l2 where "wl_register alive w' (waiters_closed c) = Some l2" "wl_ok l2" "w' \<in> set (wl_entries l2)"
    "\<And>x. x \<in> set (wl_entries (waiters_closed c)) \<Longrightarrow> alive x \<Longrightarrow> x \<in> set (wl_entries l2)"
    using wl_register_ok [OF ok(2), of alive w'] by blast
  then show "\<exists>l. wl_register alive w' (waiters_closed c) = Some l \<and> chan_ok (c\<lparr>waiters_closed := l\<rparr>)
      \<and> w' \<in> set (wl_entries l) \<and> (\<forall>w. alive w \<longrightarrow> keeps w [] c (c\<lparr>waiters_closed := l\<rparr>))"
    using ok by (auto simp: chan_ok_def keeps_def parked_defs)
  obtain l3 where "wl_register alive w' (waiters_consumer c) = Some l3" "wl_ok l3" "w' \<in> set (wl_entries l3)"
    "\<And>x. x \<in> set (wl_entries (waiters_consumer c)) \<Longrightarrow> alive x \<Longrightarrow> x \<in> set (wl_entries l3)"
    using wl_register_ok [OF ok(3), of alive w'] by blast
  then show "\<exists>l. wl_register alive w' (waiters_consumer c) = Some l \<and> chan_ok (c\<lparr>waiters_consumer := l\<rparr>)
      \<and> w' \<in> set (wl_entries l) \<and> (\<forall>w. alive w \<longrightarrow> keeps w [] c (c\<lparr>waiters_consumer := l\<rparr>))"
    using ok by (auto simp: chan_ok_def keeps_def parked_defs)
qed

text \<open>A poll does not panic, and it keeps what it did not wake; one that is pending parks its waiter and the condition is unmet.\<close>

definition waits_in :: "'a wait \<Rightarrow> nat \<Rightarrow> 'a chan \<Rightarrow> bool" where
  "waits_in k w c \<longleftrightarrow> (case k of ForValue _ \<Rightarrow> parked_value w c | ForWrite _ \<Rightarrow> parked_value w c
     | ForClosed \<Rightarrow> parked_closed w c | _ \<Rightarrow> parked_consumer w c)"

lemma wait_poll_parks:
  assumes "chan_ok c"
  shows "\<exists>p c1. wait_poll alive w' k c = Some (p, c1) \<and> chan_ok c1 \<and> (\<forall>w. alive w \<longrightarrow> keeps w [] c c1)
    \<and> (p \<longrightarrow> still_waiting k (ch_value c) c1 \<and> waits_in k w' c1)"
proof (cases k)
  case (ForValue f)
  then show ?thesis using register_keeps(1) [OF assms, of alive w'] assms
    by (auto simp: poll_defs parked_defs waits_in_def split: poll.splits)
next
  case (ForWrite f)
  then show ?thesis using register_keeps(1) [OF assms, of alive w'] assms
    by (auto simp: poll_defs parked_defs waits_in_def split: poll.splits)
next
  case ForClosed
  then show ?thesis using register_keeps(2) [OF assms, of alive w'] assms
    by (auto simp: poll_defs parked_defs waits_in_def split: poll.splits)
qed (use register_keeps(3) [OF assms, of alive w'] assms in \<open>auto simp: poll_defs parked_defs waits_in_def split: poll.splits\<close>)

lemma chan_step_keeps:
  assumes "chan_ok c"
  shows "\<exists>c' woken. chan_step alive x c = Some (c', woken) \<and> chan_ok c' \<and> (alive w \<longrightarrow> keeps w woken c c')"
proof (cases x)
  case (Wait w' k)
  then show ?thesis using wait_poll_parks [OF assms, of alive w' k] by auto
qed (use assms in \<open>auto simp: chan_defs chan_ok_def keeps_def parked_defs wl_wake_def\<close>)

lemma chan_run_keeps:
  "chan_ok c \<Longrightarrow> \<exists>c' woken. chan_run xs c = Some (c', woken) \<and> chan_ok c'
     \<and> ((\<forall>(alive, x) \<in> set xs. alive w) \<longrightarrow> keeps w woken c c')"
proof (induction xs arbitrary: c)
  case (Cons ax xs)
  obtain alive x where ax: "ax = (alive, x)" by (cases ax)
  obtain c1 ws where 1: "chan_step alive x c = Some (c1, ws)" "chan_ok c1" "alive w \<longrightarrow> keeps w ws c c1"
    using chan_step_keeps [OF Cons.prems, of alive x w] by blast
  obtain c2 ws' where 2: "chan_run xs c1 = Some (c2, ws')" "chan_ok c2"
    "(\<forall>(alive, x) \<in> set xs. alive w) \<longrightarrow> keeps w ws' c1 c2"
    using Cons.IH [OF 1(2)] by blast
  show ?case using 1 2 ax by (auto intro: keeps_trans)
qed simp

lemma chan_new_ok: "chan_ok (chan_new v)"
  by (simp add: chan_ok_def chan_new_def)

lemma kept_waits:
  assumes "keeps w woken c1 c2" "still_waiting k v c1" "waits_in k w c1"
  shows "w \<in> set woken \<or> still_waiting k v c2
    \<or> for_count k \<and> \<not> ch_closed c2 \<and> takes c2 > 0 \<and> (\<forall>alive. alive w \<longrightarrow> w \<in> set (snd (take_consumer alive c2)))"
  using assms by (cases k) (auto simp: keeps_def waits_in_def parked_consumer_def take_consumer_def wl_wake_def)

section \<open>Properties\<close>

text \<open>
  C10: No wakeup is lost. Take a channel that any steps of any tasks have led to, and a task that polls it, as a
  consumer for its value, as a producer for write access, for the closing, or for the first consumer or for none,
  also through a weak reference and whatever count its first load gave. The poll does not panic. When it is pending,
  then after any further steps, during which its waker has an owner, the task has been woken; or its condition is
  still unmet, with the value and the closed flag that it saw; or it waits for the count of consumers, which a task
  has changed that has still to take the waiters, and this one wakes it when it does. No step panics.
\<close>

theorem no_lost_wakeup:
  assumes "\<forall>(alive, x) \<in> set xs. alive w"
  shows "\<exists>c ws. chan_run before (chan_new v) = Some (c, ws)
    \<and> (\<exists>pending c1. wait_poll alive w k c = Some (pending, c1)
        \<and> (\<exists>c2 woken. chan_run xs c1 = Some (c2, woken)
            \<and> (pending \<longrightarrow> w \<in> set woken \<or> still_waiting k (ch_value c) c2
                 \<or> for_count k \<and> \<not> ch_closed c2 \<and> takes c2 > 0
                   \<and> (\<forall>alive. alive w \<longrightarrow> w \<in> set (snd (take_consumer alive c2))))))"
proof -
  obtain c ws where c: "chan_run before (chan_new v) = Some (c, ws)" "chan_ok c" using chan_run_keeps [OF chan_new_ok, of before v] by blast
  obtain p c1 where c1: "wait_poll alive w k c = Some (p, c1)" "chan_ok c1" "p \<longrightarrow> still_waiting k (ch_value c) c1 \<and> waits_in k w c1"
    using wait_poll_parks [OF c(2), of alive w k] by blast
  obtain c2 woken where c2: "chan_run xs c1 = Some (c2, woken)" "keeps w woken c1 c2"
    using chan_run_keeps [OF c1(2), of xs w] assms by blast
  show ?thesis using c c1 c2 kept_waits [OF c2(2)] by blast
qed

theorem no_lost_wakeup_witness:
  "\<exists>c c1 c2 woken. chan_run [(\<lambda>_. True, Consume), (\<lambda>_. True, TakeConsumer)] (chan_new (0::nat)) = Some (c, [])
     \<and> wait_poll (\<lambda>_. True) 7 (ForUnused 1) c = Some (True, c1)
     \<and> chan_run [(\<lambda>_. True, DropConsumer), (\<lambda>_. True, TakeConsumer)] c1 = Some (c2, woken) \<and> 7 \<in> set woken"
proof -
  let ?before = "[(\<lambda>_::nat. True, Consume), (\<lambda>_. True, TakeConsumer)]" and ?xs = "[(\<lambda>_::nat. True, DropConsumer), (\<lambda>_. True, TakeConsumer)]"
  obtain c ws p c1 c2 woken where 1: "chan_run ?before (chan_new (0::nat)) = Some (c, ws)"
    "wait_poll (\<lambda>_. True) 7 (ForUnused 1) c = Some (p, c1)" "chan_run ?xs c1 = Some (c2, woken)"
    and 2: "p \<longrightarrow> 7 \<in> set woken \<or> still_waiting (ForUnused 1) (ch_value c) c2 \<or> takes c2 > 0"
    using no_lost_wakeup [of ?xs 7 ?before "0::nat" "\<lambda>_. True" "ForUnused 1"] by auto
  have c: "ws = []" "consumers c = 1" "takes c = 0" "\<not> ch_closed c" "waiters_consumer c = wl_new"
    using 1(1) by (auto simp: chan_defs chan_new_def wl_wake_def)
  from 1(2) c have c1: "p" "consumers c1 = 1" "takes c1 = 0" by (auto simp: poll_defs wl_register_def wl_new_def)
  from 1(3) c1(2,3) have "consumers c2 = 0" "takes c2 = 0" by (auto simp: chan_defs)
  with 1 2 c(1) c1(1) show ?thesis by fastforce
qed

end
