(* ===== verification/Model_Group.thy ===== *)
theory Model_Group
  imports Transport Kio
begin

text \<open>
  Frames and groups of the in-memory model (\<open>relay/rs/moq-net/src/model/frame.rs\<close>, \<open>model/group.rs\<close>). Frames and groups are
  shared between their producers and consumers, so they live in a store and handles are addresses. \<open>closed\<close> is
  the flag of the channel that holds the state; what a poll returns is a function of the state alone (who is
  woken is the business of \<open>Kio\<close>). Sizes and counts are natural numbers: they are bounded by the caches' limits.
\<close>

section \<open>Frames\<close>

definition MAX_FRAME_SIZE :: nat where "MAX_FRAME_SIZE = 32 * 1024 * 1024"

text \<open>The buffer of a frame is the bytes written so far, out of \<open>size\<close>.\<close>

record frame =
  fr_size :: nat
  fr_data :: "byte list"
  fr_fin :: bool
  fr_abort :: "moq_error option"
  fr_closed :: bool

definition frame_new :: "nat \<Rightarrow> frame" where
  "frame_new sz = \<lparr>fr_size = sz, fr_data = [], fr_fin = False, fr_abort = None, fr_closed = False\<rparr>"

definition or_dropped :: "moq_error option \<Rightarrow> moq_error" where
  "or_dropped a = (case a of Some e \<Rightarrow> e | None \<Rightarrow> ErrDropped)"

definition remaining_frame :: "frame \<Rightarrow> nat" where
  "remaining_frame f = fr_size f - length (fr_data f)"

text \<open>\<open>put_slice\<close> and \<open>advance_mut\<close>: the last byte also marks the frame as finished, while its channel is open.\<close>

definition frame_put :: "byte list \<Rightarrow> frame \<Rightarrow> frame" where
  "frame_put chunk f =
     (if chunk = [] then f
      else f\<lparr>fr_data := fr_data f @ chunk,
             fr_fin := fr_fin f \<or> \<not> fr_closed f \<and> length (fr_data f) + length chunk = fr_size f\<rparr>)"

definition frame_write :: "byte list \<Rightarrow> frame \<Rightarrow> moq_error + frame" where
  "frame_write chunk f =
     (if length chunk > remaining_frame f then Inl ErrWrongSize
      else case fr_abort f of Some e \<Rightarrow> Inl e | None \<Rightarrow> Inr (frame_put chunk f))"

definition frame_modify :: "frame \<Rightarrow> moq_error + frame" where
  "frame_modify f = (if fr_closed f then Inl (or_dropped (fr_abort f)) else Inr f)"

definition frame_finish :: "frame \<Rightarrow> moq_error + frame" where
  "frame_finish f =
     (if length (fr_data f) \<noteq> fr_size f then Inl ErrWrongSize
      else and_then (frame_modify f) (\<lambda>f. Inr (f\<lparr>fr_fin := True\<rparr>)))"

definition frame_abort :: "moq_error \<Rightarrow> frame \<Rightarrow> moq_error + frame" where
  "frame_abort e f = and_then (frame_modify f) (\<lambda>f. Inr (f\<lparr>fr_abort := Some e, fr_closed := True\<rparr>))"

text \<open>Dropping the last producer closes the channel.\<close>

definition frame_drop :: "frame \<Rightarrow> frame" where
  "frame_drop f = f\<lparr>fr_closed := True\<rparr>"

text \<open>A poll of a consumer, as in \<open>FrameConsumer::poll\<close>: a closed channel ends what is still pending.\<close>

definition settle :: "bool \<Rightarrow> moq_error option \<Rightarrow> (moq_error + 'r) poll \<Rightarrow> (moq_error + 'r) poll" where
  "settle closed abort p = (case p of Ready r \<Rightarrow> Ready r | Pending \<Rightarrow> if closed then Ready (Inl (or_dropped abort)) else Pending)"

text \<open>The consumer's cursor is \<open>read_idx\<close>; a poll returns the cursor after it.\<close>

definition poll_read_all :: "nat \<Rightarrow> frame \<Rightarrow> (moq_error + byte list \<times> nat) poll" where
  "poll_read_all idx f = settle (fr_closed f) (fr_abort f)
     (if fr_fin f then Ready (Inr (drop idx (fr_data f), fr_size f))
      else case fr_abort f of Some e \<Rightarrow> Ready (Inl e) | None \<Rightarrow> Pending)"

definition poll_read_chunk :: "nat \<Rightarrow> frame \<Rightarrow> (moq_error + byte list option \<times> nat) poll" where
  "poll_read_chunk idx f = settle (fr_closed f) (fr_abort f)
     (if length (fr_data f) > idx then Ready (Inr (Some (drop idx (fr_data f)), length (fr_data f)))
      else if fr_fin f then Ready (Inr (None, idx))
      else case fr_abort f of Some e \<Rightarrow> Ready (Inl e) | None \<Rightarrow> Pending)"

definition poll_read_all_chunks :: "nat \<Rightarrow> frame \<Rightarrow> (moq_error + byte list list \<times> nat) poll" where
  "poll_read_all_chunks idx f =
     (case poll_read_all idx f of
        Pending \<Rightarrow> Pending
      | Ready (Inl e) \<Rightarrow> Ready (Inl e)
      | Ready (Inr (bs, idx)) \<Rightarrow> Ready (Inr (if bs = [] then [] else [bs], idx)))"

section \<open>Groups\<close>

definition MAX_GROUP_CACHE :: nat where "MAX_GROUP_CACHE = 32 * 1024 * 1024"

definition MAX_GROUP_FRAMES :: nat where "MAX_GROUP_FRAMES = 1024"

text \<open>A group holds the addresses of its cached frames.\<close>

record group_state =
  gr_sequence :: nat
  gr_frames :: "nat list"
  gr_offset :: nat
  gr_cache :: nat
  gr_fin :: bool
  gr_abort :: "moq_error option"
  gr_closed :: bool

definition group_new :: "nat \<Rightarrow> group_state" where
  "group_new sq = \<lparr>gr_sequence = sq, gr_frames = [], gr_offset = 0, gr_cache = 0, gr_fin = False, gr_abort = None, gr_closed = False\<rparr>"

type_synonym frame_store = "frame list"

definition get_frame_state :: "nat \<Rightarrow> group_state \<Rightarrow> (moq_error + nat option) poll" where
  "get_frame_state index g =
     (if index < gr_offset g then Ready (Inl ErrCacheFull)
      else if index - gr_offset g < length (gr_frames g) then Ready (Inr (Some (gr_frames g ! (index - gr_offset g))))
      else if gr_fin g then Ready (Inr None)
      else case gr_abort g of Some e \<Rightarrow> Ready (Inl e) | None \<Rightarrow> Pending)"

definition group_finished_state :: "group_state \<Rightarrow> (moq_error + nat) poll" where
  "group_finished_state g =
     (if gr_fin g then Ready (Inr (gr_offset g + length (gr_frames g)))
      else case gr_abort g of Some e \<Rightarrow> Ready (Inl e) | None \<Rightarrow> Pending)"

text \<open>\<open>evict\<close>: frames, offset and cache of the group, until both limits hold.\<close>

fun evict :: "(nat \<Rightarrow> nat) \<Rightarrow> nat list \<Rightarrow> nat \<Rightarrow> nat \<Rightarrow> nat list \<times> nat \<times> nat" where
  "evict size_of [] offset cache = ([], offset, cache)"
| "evict size_of (f # fs) offset cache =
     (if cache > MAX_GROUP_CACHE \<or> length (f # fs) > MAX_GROUP_FRAMES
      then evict size_of fs (offset + 1) (cache - size_of f)
      else (f # fs, offset, cache))"

definition evict_group :: "frame_store \<Rightarrow> group_state \<Rightarrow> group_state" where
  "evict_group h g =
     (case evict (\<lambda>f. fr_size (h ! f)) (gr_frames g) (gr_offset g) (gr_cache g) of
        (fs, offset, cache) \<Rightarrow> g\<lparr>gr_frames := fs, gr_offset := offset, gr_cache := cache\<rparr>)"

definition group_modify :: "group_state \<Rightarrow> moq_error + group_state" where
  "group_modify g = (if gr_closed g then Inl (or_dropped (gr_abort g)) else Inr g)"

definition append_frame :: "frame_store \<Rightarrow> nat \<Rightarrow> group_state \<Rightarrow> moq_error + group_state" where
  "append_frame h f g =
     (if fr_size (h ! f) > MAX_FRAME_SIZE then Inl ErrFrameTooLarge
      else and_then (group_modify g) (\<lambda>g.
        if gr_fin g then Inl ErrClosed
        else Inr (evict_group h (g\<lparr>gr_cache := gr_cache g + fr_size (h ! f), gr_frames := gr_frames g @ [f]\<rparr>))))"

text \<open>\<open>create_frame\<close> allocates the frame and returns its address.\<close>

definition create_frame :: "nat \<Rightarrow> frame_store \<times> group_state \<Rightarrow> moq_error + nat \<times> frame_store \<times> group_state" where
  "create_frame sz = (\<lambda>(h, g).
     if sz > MAX_FRAME_SIZE then Inl ErrFrameTooLarge
     else let f = length h; h = h @ [frame_new sz]
          in and_then (append_frame h f g) (\<lambda>g. Inr (f, h, g)))"

definition group_write_frame :: "byte list \<Rightarrow> frame_store \<times> group_state \<Rightarrow> moq_error + frame_store \<times> group_state" where
  "group_write_frame bs hg =
     and_then (create_frame (length bs) hg) (\<lambda>(f, h, g).
       and_then (frame_write bs (h ! f)) (\<lambda>fr.
         and_then (frame_finish fr) (\<lambda>fr. Inr (h[f := fr], g))))"

definition frame_count :: "group_state \<Rightarrow> nat" where
  "frame_count g = gr_offset g + length (gr_frames g)"

definition group_finish :: "group_state \<Rightarrow> moq_error + group_state" where
  "group_finish g = and_then (group_modify g) (\<lambda>g. Inr (g\<lparr>gr_fin := True\<rparr>))"

definition group_abort :: "moq_error \<Rightarrow> group_state \<Rightarrow> moq_error + group_state" where
  "group_abort e g =
     and_then (group_modify g) (\<lambda>g. Inr (g\<lparr>gr_abort := Some e, gr_frames := [], gr_cache := 0, gr_closed := True\<rparr>))"

text \<open>Dropping the last producer: an unfinished group gives up its cache; then the channel closes.\<close>

definition group_drop :: "group_state \<Rightarrow> group_state" where
  "group_drop g =
     (if gr_closed g then g
      else (if gr_fin g then g else g\<lparr>gr_frames := [], gr_cache := 0\<rparr>)\<lparr>gr_closed := True\<rparr>)"

definition poll_get_frame :: "nat \<Rightarrow> group_state \<Rightarrow> (moq_error + nat option) poll" where
  "poll_get_frame index g = settle (gr_closed g) (gr_abort g) (get_frame_state index g)"

definition group_poll_finished :: "group_state \<Rightarrow> (moq_error + nat) poll" where
  "group_poll_finished g = settle (gr_closed g) (gr_abort g) (group_finished_state g)"

text \<open>A consumer of a group is its index; a poll returns the index after it.\<close>

definition poll_next_frame :: "nat \<Rightarrow> group_state \<Rightarrow> (moq_error + nat option) poll \<times> nat" where
  "poll_next_frame index g =
     (case poll_get_frame index g of
        Ready (Inr (Some f)) \<Rightarrow> (Ready (Inr (Some f)), index + 1)
      | p \<Rightarrow> (p, index))"

definition poll_read_frame :: "nat \<Rightarrow> frame_store \<times> group_state \<Rightarrow> (moq_error + byte list option) poll \<times> nat" where
  "poll_read_frame index = (\<lambda>(h, g).
     case poll_get_frame index g of
       Ready (Inr (Some f)) \<Rightarrow>
         (case poll_read_all 0 (h ! f) of
            Ready (Inr (bs, _)) \<Rightarrow> (Ready (Inr (Some bs)), index + 1)
          | Ready (Inl e) \<Rightarrow> (Ready (Inl e), index)
          | Pending \<Rightarrow> (Pending, index))
     | Ready (Inr None) \<Rightarrow> (Ready (Inr None), index)
     | Ready (Inl e) \<Rightarrow> (Ready (Inl e), index)
     | Pending \<Rightarrow> (Pending, index))"

section \<open>Chunks of a frame\<close>

text \<open>Writing chunks that fill the frame, and reading it between the writes.\<close>

fun frame_writes :: "byte list list \<Rightarrow> frame \<Rightarrow> moq_error + frame" where
  "frame_writes [] f = Inr f"
| "frame_writes (c # cs) f = and_then (frame_write c f) (frame_writes cs)"

definition frame_ok :: "frame \<Rightarrow> bool" where
  "frame_ok f \<longleftrightarrow> length (fr_data f) \<le> fr_size f \<and> (fr_fin f \<longrightarrow> length (fr_data f) = fr_size f)"

lemma frame_write_ok:
  assumes "frame_ok f" "\<not> fr_closed f" "fr_abort f = None" "length (fr_data f) + length c \<le> fr_size f"
  shows "\<exists>f'. frame_write c f = Inr f' \<and> frame_ok f' \<and> \<not> fr_closed f' \<and> fr_abort f' = None \<and> fr_size f' = fr_size f \<and> fr_data f' = fr_data f @ c"
  using assms by (auto simp: frame_write_def frame_put_def remaining_frame_def frame_ok_def)

lemma frame_writes_ok:
  "frame_ok f \<Longrightarrow> \<not> fr_closed f \<Longrightarrow> fr_abort f = None \<Longrightarrow> length (fr_data f) + length (concat cs) \<le> fr_size f \<Longrightarrow>
   \<exists>f'. frame_writes cs f = Inr f' \<and> frame_ok f' \<and> \<not> fr_closed f' \<and> fr_abort f' = None \<and> fr_size f' = fr_size f \<and> fr_data f' = fr_data f @ concat cs"
proof (induction cs arbitrary: f)
  case (Cons c cs)
  obtain f1 where f1: "frame_write c f = Inr f1" "frame_ok f1" "\<not> fr_closed f1" "fr_abort f1 = None" "fr_size f1 = fr_size f" "fr_data f1 = fr_data f @ c"
    using frame_write_ok [OF Cons.prems(1-3), of c] Cons.prems(4) by auto
  then show ?case using Cons.IH [OF f1(2-4)] Cons.prems(4) by simp
qed simp

section \<open>The cache of a group\<close>

text \<open>
  What a group holds when the payloads \<open>ds\<close> were written to it: the frames from \<open>offset\<close> on, complete, and their
  total size, within both limits. \<open>h\<close> is the store.
\<close>

definition holds :: "frame_store \<Rightarrow> byte list \<Rightarrow> nat \<Rightarrow> bool" where
  "holds h bs f \<longleftrightarrow> f < length h \<and> fr_size (h ! f) = length bs \<and> fr_data (h ! f) = bs \<and> fr_fin (h ! f)"

definition group_holds :: "byte list list \<Rightarrow> frame_store \<times> group_state \<Rightarrow> bool" where
  "group_holds ds = (\<lambda>(h, g). gr_offset g \<le> length ds \<and> list_all2 (holds h) (drop (gr_offset g) ds) (gr_frames g)
     \<and> gr_cache g = sum_list (map length (drop (gr_offset g) ds))
     \<and> gr_cache g \<le> MAX_GROUP_CACHE \<and> length (gr_frames g) \<le> MAX_GROUP_FRAMES
     \<and> gr_abort g = None \<and> \<not> gr_closed g)"

lemma evict_spec:
  assumes "cache = sum_list (map size_of fs)" "evict size_of fs offset cache = (fs', offset', cache')"
  shows "\<exists>k \<le> length fs. fs' = drop k fs \<and> offset' = offset + k \<and> cache' = sum_list (map size_of fs')
    \<and> cache' \<le> MAX_GROUP_CACHE \<and> length fs' \<le> MAX_GROUP_FRAMES
    \<and> (cache \<le> MAX_GROUP_CACHE \<and> length fs \<le> MAX_GROUP_FRAMES \<longrightarrow> k = 0)
    \<and> (fs \<noteq> [] \<and> size_of (last fs) \<le> MAX_GROUP_CACHE \<longrightarrow> fs' \<noteq> [])"
  using assms
proof (induction size_of fs offset cache rule: evict.induct)
  case (1 size_of offset cache)
  then show ?case by (auto simp: MAX_GROUP_CACHE_def)
next
  case (2 size_of f fs offset cache)
  show ?case
  proof (cases "cache > MAX_GROUP_CACHE \<or> length (f # fs) > MAX_GROUP_FRAMES")
    case True
    have "cache - size_of f = sum_list (map size_of fs)" using 2(2) by simp
    moreover have "evict size_of fs (offset + 1) (cache - size_of f) = (fs', offset', cache')" using 2(3) True by simp
    ultimately obtain k where k: "k \<le> length fs" "fs' = drop k fs" "offset' = offset + 1 + k" "cache' = sum_list (map size_of fs')"
      "cache' \<le> MAX_GROUP_CACHE" "length fs' \<le> MAX_GROUP_FRAMES" "fs \<noteq> [] \<and> size_of (last fs) \<le> MAX_GROUP_CACHE \<longrightarrow> fs' \<noteq> []"
      using 2(1) [OF True] by blast
    have "fs \<noteq> []" if "size_of (last (f # fs)) \<le> MAX_GROUP_CACHE"
    proof
      assume "fs = []"
      then show False using True 2(2) that by (auto simp: MAX_GROUP_FRAMES_def)
    qed
    then show ?thesis using k True by (intro exI [of _ "Suc k"]) auto
  next
    case False
    then show ?thesis using 2(2,3) by (intro exI [of _ 0]) auto
  qed
qed

lemma holds_mono: "holds h bs f \<Longrightarrow> holds (h @ h') bs f"
  by (simp add: holds_def nth_append)

lemma holds_new: "holds (h[f := fr]) bs x \<longleftrightarrow> (if x = f then f < length h \<and> fr_size fr = length bs \<and> fr_data fr = bs \<and> fr_fin fr else holds h bs x)"
  by (auto simp: holds_def)

lemma list_all2_drop_snoc: "n \<le> length xs \<Longrightarrow> list_all2 P (drop n xs) ys \<Longrightarrow> P x y \<Longrightarrow> list_all2 P (drop n (xs @ [x])) (ys @ [y])"
  by (simp add: list_all2_appendI)

lemma holds_sizes:
  assumes "list_all2 (holds h) ds fs" "\<And>x. x < length h \<Longrightarrow> fr_size (h' ! x) = fr_size (h ! x)"
  shows "map (\<lambda>f. fr_size (h' ! f)) fs = map length ds"
  using assms by (induction ds fs) (auto simp: holds_def)

definition complete_frame :: "byte list \<Rightarrow> frame" where
  "complete_frame d = \<lparr>fr_size = length d, fr_data = d, fr_fin = True, fr_abort = None, fr_closed = False\<rparr>"

lemma frame_fill: "and_then (frame_write d (frame_new (length d))) frame_finish = Inr (complete_frame d)"
  by (simp add: frame_write_def frame_put_def frame_new_def remaining_frame_def frame_finish_def frame_modify_def complete_frame_def)

lemma group_write_frame_eq:
  assumes "\<not> gr_fin g" "\<not> gr_closed g" "length d \<le> MAX_FRAME_SIZE"
  shows "group_write_frame d (h, g) = Inr (h @ [complete_frame d],
    evict_group (h @ [frame_new (length d)]) (g\<lparr>gr_cache := gr_cache g + length d, gr_frames := gr_frames g @ [length h]\<rparr>))"
proof -
  have "create_frame (length d) (h, g) = Inr (length h, h @ [frame_new (length d)],
    evict_group (h @ [frame_new (length d)]) (g\<lparr>gr_cache := gr_cache g + length d, gr_frames := gr_frames g @ [length h]\<rparr>))"
    using assms by (simp add: create_frame_def append_frame_def group_modify_def Let_def frame_new_def)
  moreover obtain fr where "frame_write d (frame_new (length d)) = Inr fr" "frame_finish fr = Inr (complete_frame d)"
    using frame_fill [of d] by (auto simp: and_then_Inr_conv)
  ultimately show ?thesis by (simp add: group_write_frame_def)
qed

text \<open>Writing a frame: the store grows by the frame, and the group holds one payload more.\<close>

lemma group_write_frame_ok:
  assumes "group_holds ds (h, g)" "\<not> gr_fin g" "length d \<le> MAX_FRAME_SIZE"
  shows "\<exists>g'. group_write_frame d (h, g) = Inr (h @ [complete_frame d], g') \<and> group_holds (ds @ [d]) (h @ [complete_frame d], g')
    \<and> gr_sequence g' = gr_sequence g \<and> gr_fin g' = gr_fin g \<and> gr_offset g' \<le> length ds
    \<and> (sum_list (map length (drop (gr_offset g) (ds @ [d]))) \<le> MAX_GROUP_CACHE
         \<and> length (drop (gr_offset g) (ds @ [d])) \<le> MAX_GROUP_FRAMES \<longrightarrow> gr_offset g' = gr_offset g)"
proof -
  let ?h = "h @ [frame_new (length d)]" and ?h' = "h @ [complete_frame d]"
  let ?sz = "\<lambda>f. fr_size (?h ! f)" and ?ds = "drop (gr_offset g) (ds @ [d])" and ?fs = "gr_frames g @ [length h]"
  have G: "gr_offset g \<le> length ds" "list_all2 (holds h) (drop (gr_offset g) ds) (gr_frames g)"
    "gr_cache g = sum_list (map length (drop (gr_offset g) ds))" "gr_abort g = None" "\<not> gr_closed g"
    using assms(1) by (simp_all add: group_holds_def)
  have all: "list_all2 (holds ?h') ?ds ?fs"
  proof (rule list_all2_drop_snoc [OF G(1)])
    show "list_all2 (holds ?h') (drop (gr_offset g) ds) (gr_frames g)" using G(2) by (rule list_all2_mono) (rule holds_mono)
  qed (simp add: holds_def complete_frame_def)
  have sizes: "map ?sz ?fs = map length ?ds"
    by (rule holds_sizes [OF all]) (auto simp: nth_append frame_new_def complete_frame_def less_Suc_eq)
  have cache: "gr_cache g + length d = sum_list (map ?sz ?fs)" unfolding sizes using G(1,3) by simp
  have "length h < length ?h" by simp
  then have last: "?fs \<noteq> [] \<and> ?sz (last ?fs) \<le> MAX_GROUP_CACHE" using assms(3) by (simp add: frame_new_def MAX_FRAME_SIZE_def MAX_GROUP_CACHE_def)
  obtain fs off c where ev: "evict ?sz ?fs (gr_offset g) (gr_cache g + length d) = (fs, off, c)" by (metis prod_cases3)
  obtain k where k: "k \<le> length ?fs" "fs = drop k ?fs" "off = gr_offset g + k"
    "c = sum_list (map ?sz fs)" "c \<le> MAX_GROUP_CACHE" "length fs \<le> MAX_GROUP_FRAMES"
    "gr_cache g + length d \<le> MAX_GROUP_CACHE \<and> length ?fs \<le> MAX_GROUP_FRAMES \<longrightarrow> k = 0" "fs \<noteq> []"
    using evict_spec [OF cache ev] last by blast
  have w: "group_write_frame d (h, g) = Inr (?h', g\<lparr>gr_cache := c, gr_frames := fs, gr_offset := off\<rparr>)"
    using group_write_frame_eq [OF assms(2) G(5) assms(3), of h] ev by (simp add: evict_group_def)
  have off: "drop off (ds @ [d]) = drop k ?ds" unfolding k(3) drop_drop by (simp only: add.commute)
  have "list_all2 (holds ?h') (drop off (ds @ [d])) fs" unfolding k(2) off using all by (rule list_all2_dropI)
  moreover have "c = sum_list (map length (drop off (ds @ [d])))"
    unfolding off k(4) k(2) drop_map [symmetric] sizes ..
  moreover have "off \<le> length ds"
  proof -
    have "length ?fs = length ds - gr_offset g + 1" using list_all2_lengthD [OF all] G(1) by simp
    moreover have "k < length ?fs" using k(2,8) by (metis drop_eq_Nil not_le)
    ultimately show ?thesis using k(3) G(1) by linarith
  qed
  moreover have "sum_list (map length ?ds) \<le> MAX_GROUP_CACHE \<and> length ?ds \<le> MAX_GROUP_FRAMES \<longrightarrow> off = gr_offset g"
    using k(3,7) unfolding cache sizes list_all2_lengthD [OF all] by auto
  ultimately show ?thesis using w k(5,6) G(4,5) by (simp add: group_holds_def)
qed

fun group_writes :: "byte list list \<Rightarrow> frame_store \<times> group_state \<Rightarrow> moq_error + frame_store \<times> group_state" where
  "group_writes [] hg = Inr hg"
| "group_writes (d # ds) hg = and_then (group_write_frame d hg) (group_writes ds)"

lemma group_writes_ok:
  "group_holds ds0 (h, g) \<Longrightarrow> \<not> gr_fin g \<Longrightarrow> \<forall>d \<in> set ds. length d \<le> MAX_FRAME_SIZE \<Longrightarrow>
   \<exists>h' g'. group_writes ds (h, g) = Inr (h', g') \<and> group_holds (ds0 @ ds) (h', g') \<and> \<not> gr_fin g'
     \<and> (ds \<noteq> [] \<longrightarrow> gr_offset g' < length (ds0 @ ds))
     \<and> (sum_list (map length (drop (gr_offset g) (ds0 @ ds))) \<le> MAX_GROUP_CACHE
         \<and> length (drop (gr_offset g) (ds0 @ ds)) \<le> MAX_GROUP_FRAMES \<longrightarrow> gr_offset g' = gr_offset g)"
proof (induction ds arbitrary: ds0 h g)
  case (Cons d ds)
  obtain g1 where g1: "group_write_frame d (h, g) = Inr (h @ [complete_frame d], g1)" "group_holds (ds0 @ [d]) (h @ [complete_frame d], g1)"
    "\<not> gr_fin g1" "gr_offset g1 \<le> length ds0"
    "sum_list (map length (drop (gr_offset g) (ds0 @ [d]))) \<le> MAX_GROUP_CACHE
         \<and> length (drop (gr_offset g) (ds0 @ [d])) \<le> MAX_GROUP_FRAMES \<longrightarrow> gr_offset g1 = gr_offset g"
    using group_write_frame_ok [OF Cons.prems(1,2), of d] Cons.prems(2,3) by auto
  obtain h' g' where g': "group_writes ds (h @ [complete_frame d], g1) = Inr (h', g')" "group_holds ((ds0 @ [d]) @ ds) (h', g')" "\<not> gr_fin g'"
    "ds \<noteq> [] \<longrightarrow> gr_offset g' < length ((ds0 @ [d]) @ ds)"
    "sum_list (map length (drop (gr_offset g1) ((ds0 @ [d]) @ ds))) \<le> MAX_GROUP_CACHE
         \<and> length (drop (gr_offset g1) ((ds0 @ [d]) @ ds)) \<le> MAX_GROUP_FRAMES \<longrightarrow> gr_offset g' = gr_offset g1"
    using Cons.IH [OF g1(2,3)] Cons.prems(3) by auto
  have le: "gr_offset g \<le> length ds0" using Cons.prems(1) by (simp add: group_holds_def)
  then have "gr_offset g' = gr_offset g" if "sum_list (map length (drop (gr_offset g) (ds0 @ d # ds))) \<le> MAX_GROUP_CACHE
         \<and> length (drop (gr_offset g) (ds0 @ d # ds)) \<le> MAX_GROUP_FRAMES"
    using that g1(5) g'(5) by (auto simp: le)
  moreover have "gr_offset g' < length (ds0 @ d # ds)" using g'(1,4) g1(4) by (cases "ds = []") auto
  ultimately show ?case using g1(1) g'(1-3) by simp
qed simp

lemma group_holds_new: "group_holds [] (h, group_new sq)"
  by (simp add: group_holds_def group_new_def)

lemma poll_read_frame_holds:
  assumes "group_holds ds (h, g)"
  shows "poll_read_frame i (h, g) =
     (if i < gr_offset g then (Ready (Inl ErrCacheFull), i)
      else if i < length ds then (Ready (Inr (Some (ds ! i))), i + 1)
      else if gr_fin g then (Ready (Inr None), i) else (Pending, i))"
proof -
  have G: "list_all2 (holds h) (drop (gr_offset g) ds) (gr_frames g)" "gr_abort g = None" "\<not> gr_closed g" "gr_offset g \<le> length ds"
    using assms by (simp_all add: group_holds_def)
  have len: "length (gr_frames g) = length ds - gr_offset g" using list_all2_lengthD [OF G(1)] by simp
  show ?thesis
  proof (cases "\<not> i < gr_offset g \<and> i < length ds")
    case True
    then have "i - gr_offset g < length (drop (gr_offset g) ds)" by (simp add: diff_less_mono)
    then have lt: "i - gr_offset g < length (gr_frames g)" using len by simp
    from list_all2_nthD2 [OF G(1) this] have "holds h (ds ! i) (gr_frames g ! (i - gr_offset g))" using True by simp
    then show ?thesis using True G(2,3) lt
      by (simp add: poll_read_frame_def poll_get_frame_def get_frame_state_def settle_def poll_read_all_def holds_def)
  next
    case False
    then show ?thesis using G(2-4) len
      by (auto simp: poll_read_frame_def poll_get_frame_def get_frame_state_def settle_def)
  qed
qed

section \<open>Properties\<close>

text \<open>
  C11: A reader of a group gets the frames that were written, whole and in order, at whatever time it reads; when
  it has fallen behind the cache it is told so instead of getting another frame; it waits at the end of an open
  group and ends with a finished one. Nothing is evicted while the limits hold, the newest frame is always
  there, and the cache is within its limits.
\<close>

theorem group_frames_in_order:
  assumes "\<forall>d \<in> set ds. length d \<le> MAX_FRAME_SIZE"
  shows "\<exists>h' g. group_writes ds (h, group_new sq) = Inr (h', g)
    \<and> (\<forall>i. poll_read_frame i (h', g) =
          (if i < gr_offset g then (Ready (Inl ErrCacheFull), i)
           else if i < length ds then (Ready (Inr (Some (ds ! i))), i + 1) else (Pending, i)))
    \<and> (\<exists>g'. group_finish g = Inr g' \<and> poll_read_frame (length ds) (h', g') = (Ready (Inr None), length ds)
          \<and> group_poll_finished g' = Ready (Inr (length ds)))
    \<and> (sum_list (map length ds) \<le> MAX_GROUP_CACHE \<and> length ds \<le> MAX_GROUP_FRAMES \<longrightarrow> gr_offset g = 0)
    \<and> (ds \<noteq> [] \<longrightarrow> gr_offset g < length ds)
    \<and> gr_cache g \<le> MAX_GROUP_CACHE \<and> length (gr_frames g) \<le> MAX_GROUP_FRAMES"
proof -
  have "\<not> gr_fin (group_new sq)" "gr_offset (group_new sq) = 0" by (simp_all add: group_new_def)
  then obtain h' g where g: "group_writes ds (h, group_new sq) = Inr (h', g)" "group_holds ds (h', g)" "\<not> gr_fin g"
    "ds \<noteq> [] \<longrightarrow> gr_offset g < length ds"
    "sum_list (map length ds) \<le> MAX_GROUP_CACHE \<and> length ds \<le> MAX_GROUP_FRAMES \<longrightarrow> gr_offset g = 0"
    using group_writes_ok [OF group_holds_new _ assms, of sq h] by auto
  let ?g = "g\<lparr>gr_fin := True\<rparr>"
  have fin: "group_finish g = Inr ?g" "group_holds ds (h', ?g)" "gr_offset ?g = gr_offset g" "gr_offset g \<le> length ds"
    using g(2) by (simp_all add: group_finish_def group_modify_def group_holds_def)
  have len: "gr_offset g + length (gr_frames g) = length ds" using g(2) by (auto simp: group_holds_def dest!: list_all2_lengthD)
  show ?thesis using g fin(1) len poll_read_frame_holds [OF g(2)] poll_read_frame_holds [OF fin(2), of "length ds"] fin(3,4)
    by (intro exI [of _ h'] exI [of _ g])
      (auto simp: group_holds_def group_poll_finished_def group_finished_state_def settle_def)
qed

theorem group_frames_in_order_witness:
  "\<exists>h g. group_writes [[1, 2], [3]] ([], group_new 0) = Inr (h, g) \<and> poll_read_frame 1 (h, g) = (Ready (Inr (Some [3])), 2)"
proof -
  have small: "\<forall>d \<in> set [[1, 2], [3 :: byte]]. length d \<le> MAX_FRAME_SIZE" by (simp add: MAX_FRAME_SIZE_def)
  from group_frames_in_order [OF this, of "[]" 0] obtain h g where "group_writes [[1, 2], [3]] ([], group_new 0) = Inr (h, g)"
    "poll_read_frame 1 (h, g) = (if 1 < gr_offset g then (Ready (Inl ErrCacheFull), 1) else (Ready (Inr (Some [3])), 2))" "gr_offset g = 0"
    by (auto simp: MAX_GROUP_CACHE_def MAX_GROUP_FRAMES_def)
  then show ?thesis by auto
qed

end
