(* ===== verification/Model_Track.thy ===== *)
theory Model_Track
  imports Model_Group
begin

text \<open>
  Tracks of the in-memory model (\<open>relay/rs/moq-net/src/model/track.rs\<close>): the groups of a track in the order they
  arrived, with tombstones for those that were evicted. A group is named by its address in the store of groups and
  its sequence number; times are in nanoseconds.
\<close>

definition MAX_GROUP_AGE :: nat where "MAX_GROUP_AGE = 5000000000"

definition u64_max :: nat where "u64_max = 18446744073709551615"

type_synonym group_handle = "nat \<times> nat"

abbreviation sequence :: "group_handle \<Rightarrow> nat" where
  "sequence \<equiv> snd"

type_synonym slot = "(group_handle \<times> nat) option"

record track_state =
  tk_groups :: "slot list"
  tk_duplicates :: "nat set"
  tk_offset :: nat
  tk_max :: "nat option"
  tk_final :: "nat option"
  tk_abort :: "moq_error option"
  tk_closed :: bool

definition track_new :: track_state where
  "track_new = \<lparr>tk_groups = [], tk_duplicates = {}, tk_offset = 0, tk_max = None, tk_final = None, tk_abort = None, tk_closed = False\<rparr>"

section \<open>The state\<close>

text \<open>The first slot from \<open>i\<close> on that has a group with a sequence of at least \<open>lower\<close>, and its place.\<close>

fun recv_scan :: "nat \<Rightarrow> nat \<Rightarrow> slot list \<Rightarrow> (group_handle \<times> nat) option" where
  "recv_scan lower i [] = None"
| "recv_scan lower i (None # slots) = recv_scan lower (i + 1) slots"
| "recv_scan lower i (Some (g, t) # slots) = (if sequence g \<ge> lower then Some (g, i) else recv_scan lower (i + 1) slots)"

definition ended :: "track_state \<Rightarrow> (moq_error + 'a option) poll" where
  "ended s = (if tk_final s \<noteq> None then Ready (Inr None) else case tk_abort s of Some e \<Rightarrow> Ready (Inl e) | None \<Rightarrow> Pending)"

definition recv_group_state :: "nat \<Rightarrow> nat \<Rightarrow> track_state \<Rightarrow> (moq_error + (group_handle \<times> nat) option) poll" where
  "recv_group_state index min_sequence s =
     (let start = index - tk_offset s
      in case recv_scan min_sequence (tk_offset s + start) (drop start (tk_groups s)) of
           Some (g, i) \<Rightarrow> Ready (Inr (Some (g, i)))
         | None \<Rightarrow> ended s)"

text \<open>
  The first group from \<open>i\<close> on, with a sequence of at least \<open>lower\<close>, whose first frame can be read; the flag says
  whether one was seen that is still to come.
\<close>

fun read_scan :: "(nat \<Rightarrow> frame_store \<times> group_state) \<Rightarrow> nat \<Rightarrow> nat \<Rightarrow> bool \<Rightarrow> slot list
    \<Rightarrow> bool + (moq_error + byte list \<times> nat \<times> nat)" where
  "read_scan store lower i pending [] = Inl pending"
| "read_scan store lower i pending (None # slots) = read_scan store lower (i + 1) pending slots"
| "read_scan store lower i pending (Some (g, t) # slots) =
     (if sequence g < lower then read_scan store lower (i + 1) pending slots
      else case fst (poll_read_frame 0 (store (fst g))) of
        Ready (Inr (Some bs)) \<Rightarrow> Inr (Inr (bs, i, sequence g))
      | Ready (Inr None) \<Rightarrow> read_scan store lower (i + 1) pending slots
      | Ready (Inl e) \<Rightarrow> Inr (Inl e)
      | Pending \<Rightarrow> read_scan store lower (i + 1) True slots)"

definition read_frame_state :: "(nat \<Rightarrow> frame_store \<times> group_state) \<Rightarrow> nat \<Rightarrow> nat \<Rightarrow> track_state
    \<Rightarrow> (moq_error + (byte list \<times> nat \<times> nat) option) poll" where
  "read_frame_state store index next_sequence s =
     (let start = index - tk_offset s
      in case read_scan store next_sequence (tk_offset s + start) False (drop start (tk_groups s)) of
           Inr (Inr r) \<Rightarrow> Ready (Inr (Some r))
         | Inr (Inl e) \<Rightarrow> Ready (Inl e)
         | Inl pending \<Rightarrow> if pending then Pending else ended s)"

definition get_group_state :: "nat \<Rightarrow> track_state \<Rightarrow> (moq_error + group_handle option) poll" where
  "get_group_state sq s =
     (case find (\<lambda>g. sequence g = sq) (map fst (List.map_filter (\<lambda>x. x) (tk_groups s))) of
        Some g \<Rightarrow> Ready (Inr (Some g))
      | None \<Rightarrow>
          if (case tk_final s of Some fin \<Rightarrow> sq \<ge> fin | None \<Rightarrow> False) then Ready (Inr None)
          else case tk_abort s of Some e \<Rightarrow> Ready (Inl e) | None \<Rightarrow> Pending)"

definition track_closed_state :: "track_state \<Rightarrow> (moq_error + unit) poll" where
  "track_closed_state s =
     (if tk_final s \<noteq> None then Ready (Inr ()) else case tk_abort s of Some e \<Rightarrow> Ready (Inl e) | None \<Rightarrow> Pending)"

definition track_finished_state :: "track_state \<Rightarrow> (moq_error + nat) poll" where
  "track_finished_state s =
     (case tk_final s of
        Some fin \<Rightarrow> Ready (Inr fin)
      | None \<Rightarrow> (case tk_abort s of Some e \<Rightarrow> Ready (Inl e) | None \<Rightarrow> Pending))"

text \<open>\<open>evict_expired\<close>: the loop over the slots, which stops at the first group that is young and not the newest.\<close>

fun expire :: "nat \<Rightarrow> nat option \<Rightarrow> slot list \<Rightarrow> nat set \<Rightarrow> slot list \<times> nat set" where
  "expire now newest [] dups = ([], dups)"
| "expire now newest (None # slots) dups = (case expire now newest slots dups of (slots, dups) \<Rightarrow> (None # slots, dups))"
| "expire now newest (Some (g, created) # slots) dups =
     (if Some (sequence g) = newest then
        (case expire now newest slots dups of (slots, dups) \<Rightarrow> (Some (g, created) # slots, dups))
      else if now - created \<le> MAX_GROUP_AGE then (Some (g, created) # slots, dups)
      else (case expire now newest slots (dups - {sequence g}) of (slots, dups) \<Rightarrow> (None # slots, dups)))"

fun trim :: "slot list \<Rightarrow> nat \<Rightarrow> slot list \<times> nat" where
  "trim (None # slots) offset = trim slots (offset + 1)"
| "trim slots offset = (slots, offset)"

definition evict_expired :: "nat \<Rightarrow> track_state \<Rightarrow> track_state" where
  "evict_expired now s =
     (case expire now (tk_max s) (tk_groups s) (tk_duplicates s) of (slots, dups) \<Rightarrow>
      (case trim slots (tk_offset s) of (slots, offset) \<Rightarrow>
        s\<lparr>tk_groups := slots, tk_duplicates := dups, tk_offset := offset\<rparr>))"

section \<open>The producer\<close>

definition track_modify :: "track_state \<Rightarrow> moq_error + track_state" where
  "track_modify s = (if tk_closed s then Inl (or_dropped (tk_abort s)) else Inr s)"

definition at_end :: "nat \<Rightarrow> track_state \<Rightarrow> bool" where
  "at_end sq s = (case tk_final s of Some fin \<Rightarrow> sq \<ge> fin | None \<Rightarrow> False)"

text \<open>The group is put in the track: \<open>a\<close> is the address of the new group.\<close>

definition create_group :: "nat \<Rightarrow> nat \<Rightarrow> nat \<Rightarrow> track_state \<Rightarrow> moq_error + track_state" where
  "create_group a sq now s =
     and_then (track_modify s) (\<lambda>s.
       if at_end sq s then Inl ErrClosed
       else if sq \<in> tk_duplicates s then Inl ErrDuplicate
       else Inr (evict_expired now (s\<lparr>tk_duplicates := insert sq (tk_duplicates s),
         tk_max := Some (max (case tk_max s of Some m \<Rightarrow> m | None \<Rightarrow> 0) sq), tk_groups := tk_groups s @ [Some ((a, sq), now)]\<rparr>)))"

definition next_sequence_of :: "track_state \<Rightarrow> moq_error + nat" where
  "next_sequence_of s =
     (case tk_max s of None \<Rightarrow> Inr 0 | Some m \<Rightarrow> if m < u64_max then Inr (m + 1) else Inl ErrBoundsExceeded)"

definition append_group :: "nat \<Rightarrow> nat \<Rightarrow> track_state \<Rightarrow> moq_error + nat \<times> track_state" where
  "append_group a now s =
     and_then (track_modify s) (\<lambda>s. and_then (next_sequence_of s) (\<lambda>sq.
       if at_end sq s then Inl ErrClosed
       else Inr (sq, evict_expired now (s\<lparr>tk_duplicates := insert sq (tk_duplicates s), tk_max := Some sq,
         tk_groups := tk_groups s @ [Some ((a, sq), now)]\<rparr>))))"

definition track_finish :: "track_state \<Rightarrow> moq_error + track_state" where
  "track_finish s =
     and_then (track_modify s) (\<lambda>s.
       if tk_final s \<noteq> None then Inl ErrClosed
       else and_then (next_sequence_of s) (\<lambda>fin. Inr (s\<lparr>tk_final := Some fin\<rparr>)))"

definition track_finish_at :: "nat \<Rightarrow> track_state \<Rightarrow> moq_error + track_state" where
  "track_finish_at sq s =
     and_then (track_modify s) (\<lambda>s.
       case tk_max s of
         None \<Rightarrow> Inl ErrClosed
       | Some m \<Rightarrow>
           if tk_final s \<noteq> None \<or> sq \<noteq> m then Inl ErrClosed
           else if m < u64_max then Inr (s\<lparr>tk_final := Some (m + 1)\<rparr>) else Inl ErrBoundsExceeded)"

definition track_abort :: "moq_error \<Rightarrow> track_state \<Rightarrow> moq_error + track_state" where
  "track_abort e s =
     and_then (track_modify s) (\<lambda>s. Inr (s\<lparr>tk_abort := Some e, tk_groups := [], tk_duplicates := {}, tk_closed := True\<rparr>))"

text \<open>Dropping the last producer.\<close>

definition track_drop :: "track_state \<Rightarrow> track_state" where
  "track_drop s =
     (if tk_closed s then s
      else (if tk_final s = None then s\<lparr>tk_groups := [], tk_duplicates := {}\<rparr> else s)\<lparr>tk_closed := True\<rparr>)"

section \<open>The consumer\<close>

record track_consumer =
  tc_index :: nat
  tc_min_sequence :: nat
  tc_next_sequence :: nat

definition track_consume :: track_consumer where
  "track_consume = \<lparr>tc_index = 0, tc_min_sequence = 0, tc_next_sequence = 0\<rparr>"

definition start_at :: "nat \<Rightarrow> track_consumer \<Rightarrow> track_consumer" where
  "start_at sq c = c\<lparr>tc_min_sequence := sq\<rparr>"

definition saturating_next :: "nat \<Rightarrow> nat" where
  "saturating_next sq = min (sq + 1) u64_max"

definition track_settle :: "track_state \<Rightarrow> (moq_error + 'r) poll \<Rightarrow> (moq_error + 'r) poll" where
  "track_settle s p = settle (tk_closed s) (tk_abort s) p"

definition poll_recv_group :: "track_state \<Rightarrow> track_consumer \<Rightarrow> (moq_error + group_handle option) poll \<times> track_consumer" where
  "poll_recv_group s c =
     (case track_settle s (recv_group_state (tc_index c) (tc_min_sequence c) s) of
        Ready (Inr (Some (g, found))) \<Rightarrow> (Ready (Inr (Some g)), c\<lparr>tc_index := found + 1\<rparr>)
      | Ready (Inr None) \<Rightarrow> (Ready (Inr None), c)
      | Ready (Inl e) \<Rightarrow> (Ready (Inl e), c)
      | Pending \<Rightarrow> (Pending, c))"

lemma recv_scan_found:
  "recv_scan lower i slots = Some (g, j) \<Longrightarrow> i \<le> j \<and> j < i + length slots \<and> (\<exists>t. slots ! (j - i) = Some (g, t)) \<and> sequence g \<ge> lower
     \<and> (\<forall>k < j - i. case slots ! k of None \<Rightarrow> True | Some (h, _) \<Rightarrow> sequence h < lower)"
proof (induction lower i slots arbitrary: rule: recv_scan.induct)
  case (2 lower i slots)
  then have IH: "Suc i \<le> j \<and> j < Suc i + length slots \<and> (\<exists>t. slots ! (j - Suc i) = Some (g, t)) \<and> sequence g \<ge> lower
     \<and> (\<forall>k < j - Suc i. case slots ! k of None \<Rightarrow> True | Some (h, _) \<Rightarrow> sequence h < lower)" by simp
  then have "j - i = Suc (j - Suc i)" by (simp add: Suc_diff_Suc Suc_le_eq)
  then show ?case using IH by (auto simp: nth_Cons split: nat.splits)
next
  case (3 lower i h t slots)
  show ?case
  proof (cases "sequence h \<ge> lower")
    case True
    then show ?thesis using 3(2) by auto
  next
    case False
    then have IH: "Suc i \<le> j \<and> j < Suc i + length slots \<and> (\<exists>t. slots ! (j - Suc i) = Some (g, t)) \<and> sequence g \<ge> lower
     \<and> (\<forall>k < j - Suc i. case slots ! k of None \<Rightarrow> True | Some (h, _) \<Rightarrow> sequence h < lower)" using 3 by simp
    then have "j - i = Suc (j - Suc i)" by (simp add: Suc_diff_Suc Suc_le_eq)
    then show ?thesis using IH False by (auto simp: nth_Cons split: nat.splits)
  qed
qed simp

lemma recv_scan_none:
  "recv_scan lower i slots = None \<Longrightarrow> \<forall>k < length slots. case slots ! k of None \<Rightarrow> True | Some (h, _) \<Rightarrow> sequence h < lower"
proof (induction lower i slots rule: recv_scan.induct)
  case (2 lower i slots)
  then show ?case by (auto simp: nth_Cons split: nat.splits)
next
  case (3 lower i h t slots)
  then show ?case by (auto simp: nth_Cons split: nat.splits if_splits)
qed simp

text \<open>What a slot at an absolute index holds; an index below the offset was trimmed.\<close>

definition slot_at :: "track_state \<Rightarrow> nat \<Rightarrow> slot" where
  "slot_at s j = (if tk_offset s \<le> j \<and> j < tk_offset s + length (tk_groups s) then tk_groups s ! (j - tk_offset s) else None)"

definition passed :: "nat \<Rightarrow> slot \<Rightarrow> bool" where
  "passed lower x = (case x of None \<Rightarrow> True | Some (g, _) \<Rightarrow> sequence g < lower)"

lemma passed_0 [simp]: "passed 0 x \<longleftrightarrow> x = None"
  by (auto simp: passed_def split: option.splits)

lemma slot_at_mem: "slot_at s j = Some x \<Longrightarrow> Some x \<in> set (tk_groups s)"
proof -
  assume a: "slot_at s j = Some x"
  then have "tk_offset s \<le> j \<and> j < tk_offset s + length (tk_groups s)" by (simp add: slot_at_def split: if_splits)
  then have "j - tk_offset s < length (tk_groups s)" "tk_groups s ! (j - tk_offset s) = Some x" using a by (auto simp: slot_at_def)
  then show ?thesis using nth_mem by metis
qed

lemma slot_at_drop:
  "tk_offset s + start \<le> k \<Longrightarrow> k < tk_offset s + length (tk_groups s) \<Longrightarrow>
   slot_at s k = drop start (tk_groups s) ! (k - (tk_offset s + start)) \<and> k - (tk_offset s + start) < length (drop start (tk_groups s))"
  by (auto simp: slot_at_def)

lemma recv_group_found:
  assumes "recv_group_state index lower s = Ready (Inr (Some (g, j)))"
  shows "index \<le> j \<and> j < tk_offset s + length (tk_groups s) \<and> (\<exists>t. slot_at s j = Some (g, t)) \<and> sequence g \<ge> lower
    \<and> (\<forall>k. index \<le> k \<and> k < j \<longrightarrow> passed lower (slot_at s k))"
proof -
  let ?start = "index - tk_offset s"
  have scan: "recv_scan lower (tk_offset s + ?start) (drop ?start (tk_groups s)) = Some (g, j)"
    using assms by (auto simp: recv_group_state_def ended_def Let_def split: option.splits if_splits)
  note f = recv_scan_found [OF scan]
  have len: "?start \<le> length (tk_groups s)" using f by auto
  have j: "j < tk_offset s + length (tk_groups s)" "tk_offset s + ?start \<le> j" using f len by auto
  have "passed lower (slot_at s k)" if k: "index \<le> k" "k < j" for k
  proof (cases "k < tk_offset s")
    case True
    then show ?thesis by (simp add: slot_at_def passed_def)
  next
    case False
    then have ge: "tk_offset s + ?start \<le> k" using k(1) by linarith
    then have "k - (tk_offset s + ?start) < j - (tk_offset s + ?start)" using k(2) j(2) by linarith
    then show ?thesis using f slot_at_drop [OF ge] k(2) j(1) by (simp add: passed_def)
  qed
  then show ?thesis using f j slot_at_drop [OF j(2,1)] by auto
qed

lemma recv_group_none:
  assumes "recv_group_state index lower s = Pending \<or> recv_group_state index lower s = Ready (Inr None)"
  shows "\<forall>k \<ge> index. passed lower (slot_at s k)"
proof (intro allI impI)
  fix k assume k: "index \<le> k"
  let ?start = "index - tk_offset s"
  have scan: "recv_scan lower (tk_offset s + ?start) (drop ?start (tk_groups s)) = None"
    using assms by (auto simp: recv_group_state_def Let_def split: option.splits)
  show "passed lower (slot_at s k)"
  proof (cases "tk_offset s \<le> k \<and> k < tk_offset s + length (tk_groups s)")
    case True
    then have "tk_offset s + ?start \<le> k" using k by linarith
    note at = slot_at_drop [OF this conjunct2 [OF True]]
    show ?thesis using recv_scan_none [OF scan, rule_format, OF conjunct2 [OF at]] at by (simp add: passed_def)
  qed (auto simp: slot_at_def passed_def)
qed

lemma poll_recv_group_index:
  "poll_recv_group s c = (Ready (Inr (Some g)), c') \<Longrightarrow> tc_index c < tc_index c' \<and> tc_index c' \<le> tk_offset s + length (tk_groups s)"
  unfolding poll_recv_group_def
proof (cases "recv_group_state (tc_index c) (tc_min_sequence c) s")
  case (Ready r)
  assume a: "(case track_settle s (recv_group_state (tc_index c) (tc_min_sequence c) s) of
        Ready (Inr (Some (g, found))) \<Rightarrow> (Ready (Inr (Some g)), c\<lparr>tc_index := found + 1\<rparr>)
      | Ready (Inr None) \<Rightarrow> (Ready (Inr None), c)
      | Ready (Inl e) \<Rightarrow> (Ready (Inl e), c)
      | Pending \<Rightarrow> (Pending, c)) = (Ready (Inr (Some g)), c')"
  with Ready obtain j where "recv_group_state (tc_index c) (tc_min_sequence c) s = Ready (Inr (Some (g, j)))" "c' = c\<lparr>tc_index := j + 1\<rparr>"
    by (auto simp: track_settle_def settle_def split: sum.splits option.splits)
  then show ?thesis using recv_group_found [of "tc_index c" "tc_min_sequence c" s g j] by simp
qed (auto simp: track_settle_def settle_def split: if_splits)

function poll_next_group :: "track_state \<Rightarrow> track_consumer \<Rightarrow> (moq_error + group_handle option) poll \<times> track_consumer" where
  "poll_next_group s c =
     (case poll_recv_group s c of
        (Ready (Inr (Some g)), c) \<Rightarrow>
          if sequence g < tc_next_sequence c then poll_next_group s c
          else (Ready (Inr (Some g)), c\<lparr>tc_next_sequence := saturating_next (sequence g)\<rparr>)
      | (p, c) \<Rightarrow> (p, c))"
  by pat_completeness auto
termination
proof (relation "measure (\<lambda>(s, c). tk_offset s + length (tk_groups s) - tc_index c)")
  fix s c p c1 r x g
  assume "(p, c1) = poll_recv_group s c" "p = Ready r" "r = Inr x" "x = Some g"
  then have "tc_index c < tc_index c1 \<and> tc_index c1 \<le> tk_offset s + length (tk_groups s)" using poll_recv_group_index by metis
  then show "((s, c1), s, c) \<in> measure (\<lambda>(s, c). tk_offset s + length (tk_groups s) - tc_index c)" by auto
qed simp

declare poll_next_group.simps [simp del]

definition track_poll_read_frame :: "(nat \<Rightarrow> frame_store \<times> group_state) \<Rightarrow> track_state \<Rightarrow> track_consumer
    \<Rightarrow> (moq_error + byte list option) poll \<times> track_consumer" where
  "track_poll_read_frame store s c =
     (case track_settle s (read_frame_state store (tc_index c) (max (tc_min_sequence c) (tc_next_sequence c)) s) of
        Ready (Inr (Some (bs, found, sq))) \<Rightarrow>
          (Ready (Inr (Some bs)), c\<lparr>tc_index := found + 1, tc_next_sequence := saturating_next sq\<rparr>)
      | Ready (Inr None) \<Rightarrow> (Ready (Inr None), c)
      | Ready (Inl e) \<Rightarrow> (Ready (Inl e), c)
      | Pending \<Rightarrow> (Pending, c))"

definition poll_get_group :: "nat \<Rightarrow> track_state \<Rightarrow> (moq_error + group_handle option) poll" where
  "poll_get_group sq s = track_settle s (get_group_state sq s)"

definition track_poll_closed :: "track_state \<Rightarrow> (moq_error + unit) poll" where
  "track_poll_closed s = track_settle s (track_closed_state s)"

definition track_poll_finished :: "track_state \<Rightarrow> (moq_error + nat) poll" where
  "track_poll_finished s = track_settle s (track_finished_state s)"

definition latest :: "track_state \<Rightarrow> nat option" where
  "latest s = tk_max s"

section \<open>Eviction\<close>

definition lives :: "slot list \<Rightarrow> group_handle list" where
  "lives slots = map fst (List.map_filter (\<lambda>x. x) slots)"

lemma lives_simps [simp]:
  "lives [] = []" "lives (None # slots) = lives slots" "lives (Some (g, t) # slots) = g # lives slots"
  "lives (xs @ ys) = lives xs @ lives ys"
  by (simp_all add: lives_def List.map_filter_def)

lemma in_lives: "g \<in> set (lives slots) \<longleftrightarrow> (\<exists>t. Some (g, t) \<in> set slots)"
  by (force simp: lives_def List.map_filter_def)

lemma expire_spec:
  "expire now newest slots dups = (slots', dups') \<Longrightarrow> distinct (map sequence (lives slots)) \<Longrightarrow>
   list_all2 (\<lambda>x y. y = x \<or> y = None \<and> (\<exists>g t. x = Some (g, t) \<and> Some (sequence g) \<noteq> newest \<and> t + MAX_GROUP_AGE < now)) slots slots'
   \<and> set (lives slots') \<subseteq> set (lives slots) \<and> distinct (map sequence (lives slots'))
   \<and> dups' = dups - (set (map sequence (lives slots)) - set (map sequence (lives slots')))"
proof (induction now newest slots dups arbitrary: slots' dups' rule: expire.induct)
  case (2 now newest slots dups)
  obtain sl d where e: "expire now newest slots dups = (sl, d)" by fastforce
  then show ?case using 2 by auto
next
  case (3 now newest g created slots dups)
  consider (newest) "Some (sequence g) = newest" | (young) "Some (sequence g) \<noteq> newest" "now - created \<le> MAX_GROUP_AGE"
    | (old) "Some (sequence g) \<noteq> newest" "\<not> now - created \<le> MAX_GROUP_AGE" by blast
  then show ?case
  proof cases
    case newest
    obtain sl d where e: "expire now newest slots dups = (sl, d)" by fastforce
    have d: "distinct (map sequence (lives slots))" "sequence g \<notin> set (map sequence (lives slots))" using 3(4) by simp_all
    note IH = 3(1) [OF newest e d(1)]
    have eq: "slots' = Some (g, created) # sl" "dups' = d" using 3(3) e newest by simp_all
    have "sequence g \<notin> set (map sequence (lives sl))" using IH d(2) by auto
    then show ?thesis unfolding eq using IH d by auto
  next
    case young
    then show ?thesis using 3(3,4) by (simp add: list.rel_refl)
  next
    case old
    obtain sl d where e: "expire now newest slots (dups - {sequence g}) = (sl, d)" by fastforce
    have d: "distinct (map sequence (lives slots))" "sequence g \<notin> set (map sequence (lives slots))" using 3(4) by simp_all
    note IH = 3(2) [OF old e d(1)]
    have eq: "slots' = None # sl" "dups' = d" using 3(3) e old by simp_all
    have "sequence g \<notin> set (map sequence (lives sl))" using IH d(2) by auto
    moreover have "created + MAX_GROUP_AGE < now" using old(2) by linarith
    ultimately show ?thesis unfolding eq using IH d old(1) by (cases g) (auto simp: image_iff)
  qed
qed simp

lemma trim_spec: "trim slots offset = (slots', offset') \<Longrightarrow>
   \<exists>k \<le> length slots. slots' = drop k slots \<and> offset' = offset + k \<and> (\<forall>i < k. slots ! i = None) \<and> lives slots' = lives slots"
proof (induction slots offset rule: trim.induct)
  case (1 slots offset)
  then obtain k where "k \<le> length slots" "slots' = drop k slots" "offset' = offset + 1 + k" "\<forall>i < k. slots ! i = None" "lives slots' = lives slots"
    by auto
  then show ?case by (intro exI [of _ "Suc k"]) (auto simp: nth_Cons split: nat.splits)
qed (intro exI [of _ 0], simp)+

text \<open>What is true of the cache after the groups \<open>arr\<close> have arrived, at the times given, and the clock read \<open>T\<close>.\<close>

definition track_inv :: "(group_handle \<times> nat) list \<Rightarrow> nat set \<Rightarrow> track_state \<Rightarrow> bool" where
  "track_inv arr T s \<longleftrightarrow> tk_offset s + length (tk_groups s) = length arr
     \<and> (\<forall>j < length arr. slot_at s j = Some (arr ! j) \<or> slot_at s j = None \<and> (\<exists>now \<in> T. snd (arr ! j) + MAX_GROUP_AGE < now))
     \<and> tk_duplicates s = set (map sequence (lives (tk_groups s))) \<and> distinct (map sequence (lives (tk_groups s)))
     \<and> tk_max s = (if arr = [] then None else Some (Max (sequence ` fst ` set arr)))
     \<and> (\<forall>m. tk_max s = Some m \<longrightarrow> m \<in> set (map sequence (lives (tk_groups s))))
     \<and> tk_abort s = None \<and> \<not> tk_closed s"

lemma track_inv_new: "track_inv [] T track_new"
  by (simp add: track_inv_def track_new_def)

lemma slot_at_evict:
  assumes "distinct (map sequence (lives (tk_groups s)))"
  shows "tk_offset (evict_expired now s) + length (tk_groups (evict_expired now s)) = tk_offset s + length (tk_groups s)"
    "slot_at (evict_expired now s) j = slot_at s j \<or> slot_at (evict_expired now s) j = None
       \<and> (\<exists>g t. slot_at s j = Some (g, t) \<and> Some (sequence g) \<noteq> tk_max s \<and> t + MAX_GROUP_AGE < now)"
    "set (lives (tk_groups (evict_expired now s))) \<subseteq> set (lives (tk_groups s))"
    "distinct (map sequence (lives (tk_groups (evict_expired now s))))"
    "tk_duplicates (evict_expired now s) =
       tk_duplicates s - (set (map sequence (lives (tk_groups s))) - set (map sequence (lives (tk_groups (evict_expired now s)))))"
proof -
  obtain sl d where e: "expire now (tk_max s) (tk_groups s) (tk_duplicates s) = (sl, d)" by fastforce
  obtain sl' off where t: "trim sl (tk_offset s) = (sl', off)" by fastforce
  have ev: "evict_expired now s = s\<lparr>tk_groups := sl', tk_duplicates := d, tk_offset := off\<rparr>" by (simp add: evict_expired_def e t)
  note E = expire_spec [OF e assms]
  have len: "length sl = length (tk_groups s)" using E by (auto dest: list_all2_lengthD)
  obtain k where k: "k \<le> length sl" "sl' = drop k sl" "off = tk_offset s + k" "\<forall>i < k. sl ! i = None" "lives sl' = lives sl"
    using trim_spec [OF t] by blast
  show "tk_offset (evict_expired now s) + length (tk_groups (evict_expired now s)) = tk_offset s + length (tk_groups s)"
    using k(1-3) len by (simp add: ev)
  show "set (lives (tk_groups (evict_expired now s))) \<subseteq> set (lives (tk_groups s))"
    "distinct (map sequence (lives (tk_groups (evict_expired now s))))"
    "tk_duplicates (evict_expired now s) =
       tk_duplicates s - (set (map sequence (lives (tk_groups s))) - set (map sequence (lives (tk_groups (evict_expired now s)))))"
    using E k(5) by (simp_all add: ev)
  show "slot_at (evict_expired now s) j = slot_at s j \<or> slot_at (evict_expired now s) j = None
       \<and> (\<exists>g t. slot_at s j = Some (g, t) \<and> Some (sequence g) \<noteq> tk_max s \<and> t + MAX_GROUP_AGE < now)"
  proof (cases "tk_offset s \<le> j \<and> j < tk_offset s + length (tk_groups s)")
    case True
    let ?i = "j - tk_offset s"
    have i: "?i < length (tk_groups s)" using True by auto
    have "slot_at (evict_expired now s) j = sl ! ?i"
    proof (cases "?i < k")
      case True
      then show ?thesis using k(3,4) \<open>tk_offset s \<le> j \<and> j < tk_offset s + length (tk_groups s)\<close> by (auto simp: slot_at_def ev)
    next
      case False
      then have "off \<le> j" "j < off + length sl'" "k + (j - off) = ?i" using True k(1-3) len by auto
      then show ?thesis using k(1,2) by (simp add: slot_at_def ev)
    qed
    moreover have "sl ! ?i = tk_groups s ! ?i \<or> sl ! ?i = None \<and> (\<exists>g t. tk_groups s ! ?i = Some (g, t) \<and> Some (sequence g) \<noteq> tk_max s \<and> t + MAX_GROUP_AGE < now)"
      using list_all2_nthD [OF conjunct1 [OF E] i] by blast
    ultimately show ?thesis using True by (simp add: slot_at_def)
  next
    case False
    then show ?thesis using k(1-3) len by (auto simp: slot_at_def ev)
  qed
qed

text \<open>A group arrives: it is put at the end with a sequence that no live group has.\<close>

lemma track_inv_push:
  assumes "track_inv arr T s" "sq \<notin> tk_duplicates s" "m = max (case tk_max s of Some m \<Rightarrow> m | None \<Rightarrow> 0) sq"
  shows "track_inv (arr @ [((a, sq), now)]) (insert now T)
     (evict_expired now (s\<lparr>tk_duplicates := insert sq (tk_duplicates s), tk_max := Some m, tk_groups := tk_groups s @ [Some ((a, sq), now)]\<rparr>))"
    (is "track_inv ?arr ?T (evict_expired now ?s)")
proof -
  have I: "tk_offset s + length (tk_groups s) = length arr"
    "\<forall>j < length arr. slot_at s j = Some (arr ! j) \<or> slot_at s j = None \<and> (\<exists>now \<in> T. snd (arr ! j) + MAX_GROUP_AGE < now)"
    "tk_duplicates s = set (map sequence (lives (tk_groups s)))" "distinct (map sequence (lives (tk_groups s)))"
    "tk_max s = (if arr = [] then None else Some (Max (sequence ` fst ` set arr)))"
    "\<forall>m. tk_max s = Some m \<longrightarrow> m \<in> set (map sequence (lives (tk_groups s)))" "tk_abort s = None" "\<not> tk_closed s"
    using assms(1) unfolding track_inv_def by blast+
  have d: "distinct (map sequence (lives (tk_groups ?s)))" using I(3,4) assms(2) by auto
  note E = slot_at_evict [OF d, of now]
  have fields: "tk_max (evict_expired now ?s) = Some m" "tk_abort (evict_expired now ?s) = None" "\<not> tk_closed (evict_expired now ?s)"
    using I(7,8) by (simp_all add: evict_expired_def split: prod.splits)
  have at: "slot_at ?s j = (if j = length arr then Some ((a, sq), now) else slot_at s j)" for j
    using I(1) by (auto simp: slot_at_def nth_append)
  have "slot_at (evict_expired now ?s) j = Some (?arr ! j) \<or> slot_at (evict_expired now ?s) j = None
      \<and> (\<exists>now \<in> ?T. snd (?arr ! j) + MAX_GROUP_AGE < now)" if j: "j < length ?arr" for j
  proof (cases "j = length arr")
    case True
    then show ?thesis using E(2) [of j] at [of j] by auto
  next
    case False
    then have lt: "j < length arr" and nth: "?arr ! j = arr ! j" using j by (simp_all add: nth_append)
    show ?thesis using E(2) [of j] at [of j] False I(2) [rule_format, OF lt] unfolding nth by auto
  qed
  moreover have max: "Some m = Some (Max (sequence ` fst ` set ?arr))"
  proof (cases "arr = []")
    case False
    then show ?thesis using assms(3) I(5) by (simp add: image_Un max.commute)
  qed (use assms(3) I(5) in simp)
  moreover have "m \<in> set (map sequence (lives (tk_groups (evict_expired now ?s))))"
  proof -
    have "m \<in> set (map sequence (lives (tk_groups ?s)))"
      using assms(3) I(5,6) by (cases "tk_max s") (auto simp: max_def)
    then obtain g t where g: "Some (g, t) \<in> set (tk_groups ?s)" "sequence g = m" by (force simp: in_lives)
    then obtain i where i: "i < length (tk_groups ?s)" "tk_groups ?s ! i = Some (g, t)" by (metis in_set_conv_nth)
    have "slot_at ?s (tk_offset ?s + i) = Some (g, t)" using i by (simp add: slot_at_def)
    then have "slot_at (evict_expired now ?s) (tk_offset ?s + i) = Some (g, t)"
      using E(2) [of "tk_offset ?s + i"] g(2) by auto
    from slot_at_mem [OF this] show ?thesis using g(2) by (force simp: in_lives)
  qed
  moreover have "tk_duplicates (evict_expired now ?s) = set (map sequence (lives (tk_groups (evict_expired now ?s))))"
    unfolding E(5) using I(3) E(3) by auto
  ultimately show ?thesis using E(1,4) I(1) fields unfolding track_inv_def by simp
qed

section \<open>Runs\<close>

text \<open>
  Groups arrive, the producer finishes the track, aborts it or drops it, and one consumer polls. The record keeps what
  arrived, with the time, and what the consumer got. An operation that fails changes nothing.
\<close>

datatype track_op =
    CreateGroup nat nat
  | AppendGroup nat
  | FinishTrack
  | FinishTrackAt nat
  | AbortTrack moq_error
  | DropTrack
  | RecvGroup

record track_run =
  tr_track :: track_state
  tr_consumer :: track_consumer
  tr_arrived :: "(group_handle \<times> nat) list"
  tr_got :: "group_handle list"

definition track_start :: track_run where
  "track_start = \<lparr>tr_track = track_new, tr_consumer = track_consume, tr_arrived = [], tr_got = []\<rparr>"

fun track_step :: "track_op \<Rightarrow> track_run \<Rightarrow> track_run" where
  "track_step (CreateGroup sq now) r =
     (case create_group (length (tr_arrived r)) sq now (tr_track r) of
        Inl _ \<Rightarrow> r
      | Inr s \<Rightarrow> r\<lparr>tr_track := s, tr_arrived := tr_arrived r @ [((length (tr_arrived r), sq), now)]\<rparr>)"
| "track_step (AppendGroup now) r =
     (case append_group (length (tr_arrived r)) now (tr_track r) of
        Inl _ \<Rightarrow> r
      | Inr (sq, s) \<Rightarrow> r\<lparr>tr_track := s, tr_arrived := tr_arrived r @ [((length (tr_arrived r), sq), now)]\<rparr>)"
| "track_step FinishTrack r = (case track_finish (tr_track r) of Inl _ \<Rightarrow> r | Inr s \<Rightarrow> r\<lparr>tr_track := s\<rparr>)"
| "track_step (FinishTrackAt sq) r = (case track_finish_at sq (tr_track r) of Inl _ \<Rightarrow> r | Inr s \<Rightarrow> r\<lparr>tr_track := s\<rparr>)"
| "track_step (AbortTrack e) r = (case track_abort e (tr_track r) of Inl _ \<Rightarrow> r | Inr s \<Rightarrow> r\<lparr>tr_track := s\<rparr>)"
| "track_step DropTrack r = r\<lparr>tr_track := track_drop (tr_track r)\<rparr>"
| "track_step RecvGroup r =
     (case poll_recv_group (tr_track r) (tr_consumer r) of
        (Ready (Inr (Some g)), c) \<Rightarrow> r\<lparr>tr_consumer := c, tr_got := tr_got r @ [g]\<rparr>
      | (_, c) \<Rightarrow> r\<lparr>tr_consumer := c\<rparr>)"

fun op_times :: "track_op \<Rightarrow> nat set" where
  "op_times (CreateGroup sq now) = {now}"
| "op_times (AppendGroup now) = {now}"
| "op_times x = {}"

text \<open>A track that was aborted, or whose producer was dropped before it finished, has lost its cache.\<close>

definition lost :: "track_state \<Rightarrow> bool" where
  "lost s \<longleftrightarrow> tk_abort s \<noteq> None \<or> tk_closed s \<and> tk_final s = None"

definition run_inv :: "nat set \<Rightarrow> track_run \<Rightarrow> bool" where
  "run_inv T r \<longleftrightarrow>
     (if lost (tr_track r) then tk_closed (tr_track r) \<and> tk_groups (tr_track r) = []
      else track_inv (tr_arrived r) T ((tr_track r)\<lparr>tk_closed := False\<rparr>))
     \<and> tc_min_sequence (tr_consumer r) = 0 \<and> tc_index (tr_consumer r) \<le> length (tr_arrived r)
     \<and> (\<exists>js. sorted_wrt (<) js \<and> tr_got r = map (\<lambda>j. fst (tr_arrived r ! j)) js
          \<and> (\<forall>j < tc_index (tr_consumer r). j \<in> set js \<or> slot_at (tr_track r) j = None) \<and> (\<forall>j \<in> set js. j < tc_index (tr_consumer r)))"

lemma open_id: "\<not> tk_closed s \<Longrightarrow> s\<lparr>tk_closed := False\<rparr> = s"
  by (cases s) simp

lemma track_inv_live: "track_inv arr T s \<Longrightarrow> \<not> lost s \<and> \<not> tk_closed s \<and> s\<lparr>tk_closed := False\<rparr> = s"
  by (auto simp: track_inv_def lost_def open_id)

lemma run_inv_open: "run_inv T r \<Longrightarrow> \<not> tk_closed (tr_track r) \<Longrightarrow> track_inv (tr_arrived r) T (tr_track r)"
  by (simp add: run_inv_def open_id split: if_splits)

lemma slot_at_closed [simp]:
  "slot_at (s\<lparr>tk_closed := b\<rparr>) j = slot_at s j" "slot_at (s\<lparr>tk_final := fin\<rparr>) j = slot_at s j"
  by (simp_all add: slot_at_def)

lemma run_inv_track:
  assumes "run_inv T r" "track_inv (tr_arrived r) T' s" "\<And>j. slot_at s j = slot_at (tr_track r) j"
  shows "run_inv T' (r\<lparr>tr_track := s\<rparr>)"
  using assms track_inv_live [OF assms(2)] by (simp add: run_inv_def)

text \<open>The cache is lost, and what the consumer got is what it got.\<close>

lemma run_inv_lost:
  assumes "run_inv T r" "lost s" "tk_closed s" "tk_groups s = []"
  shows "run_inv T (r\<lparr>tr_track := s\<rparr>)"
  using assms by (auto simp: run_inv_def slot_at_def)

lemma track_inv_mono: "track_inv arr T s \<Longrightarrow> T \<subseteq> T' \<Longrightarrow> track_inv arr T' s"
  unfolding track_inv_def by blast

lemma run_inv_push:
  assumes "run_inv T r" "track_inv (tr_arrived r @ [x]) T' s" "T \<subseteq> T'"
    and "\<And>j. j < length (tr_arrived r) \<Longrightarrow> slot_at (tr_track r) j = None \<Longrightarrow> slot_at s j = None"
  shows "run_inv T' (r\<lparr>tr_track := s, tr_arrived := tr_arrived r @ [x]\<rparr>)"
proof -
  obtain js where js: "sorted_wrt (<) js" "tr_got r = map (\<lambda>j. fst (tr_arrived r ! j)) js"
    "\<forall>j < tc_index (tr_consumer r). j \<in> set js \<or> slot_at (tr_track r) j = None" "\<forall>j \<in> set js. j < tc_index (tr_consumer r)"
    and c: "tc_min_sequence (tr_consumer r) = 0" "tc_index (tr_consumer r) \<le> length (tr_arrived r)"
    using assms(1) unfolding run_inv_def by blast
  have "tr_got r = map (\<lambda>j. fst ((tr_arrived r @ [x]) ! j)) js" using js(2,4) c(2) by (auto simp: nth_append)
  moreover have "\<forall>j < tc_index (tr_consumer r). j \<in> set js \<or> slot_at s j = None" using js(3) assms(4) c(2) by (meson less_le_trans)
  ultimately show ?thesis using js(1,4) c assms(2) track_inv_live [OF assms(2)] unfolding run_inv_def by auto
qed

lemma evicted_stays:
  assumes "track_inv arr T s" "sq \<notin> tk_duplicates s" "j < length arr" "slot_at s j = None"
  shows "slot_at (evict_expired now (s\<lparr>tk_duplicates := d, tk_max := m, tk_groups := tk_groups s @ [Some ((a, sq), now)]\<rparr>)) j = None"
proof -
  let ?s = "s\<lparr>tk_duplicates := d, tk_max := m, tk_groups := tk_groups s @ [Some ((a, sq), now)]\<rparr>"
  have "distinct (map sequence (lives (tk_groups ?s)))" using assms(1,2) unfolding track_inv_def by auto
  moreover have "slot_at ?s j = slot_at s j" using assms(1,3) by (auto simp: track_inv_def slot_at_def nth_append)
  ultimately show ?thesis using slot_at_evict(2) [of ?s now j] assms(4) by auto
qed

lemma append_fresh:
  assumes "track_inv arr T s" "next_sequence_of s = Inr sq"
  shows "sq \<notin> tk_duplicates s \<and> sq = max (case tk_max s of Some m \<Rightarrow> m | None \<Rightarrow> 0) sq"
proof -
  have dup: "tk_duplicates s \<subseteq> sequence ` fst ` set arr"
  proof
    fix x assume "x \<in> tk_duplicates s"
    then obtain g t where g: "Some (g, t) \<in> set (tk_groups s)" "sequence g = x" using assms(1) by (force simp: track_inv_def in_lives)
    then obtain i where i: "i < length (tk_groups s)" "tk_groups s ! i = Some (g, t)" by (metis in_set_conv_nth)
    then have "slot_at s (tk_offset s + i) = Some (g, t)" "tk_offset s + i < length arr" using assms(1) by (auto simp: slot_at_def track_inv_def)
    then have "arr ! (tk_offset s + i) = (g, t)" using assms(1) unfolding track_inv_def by force
    then show "x \<in> sequence ` fst ` set arr" using g(2) \<open>tk_offset s + i < length arr\<close> by (metis fst_conv image_eqI nth_mem)
  qed
  show ?thesis
  proof (cases "arr = []")
    case True
    then show ?thesis using assms dup by (simp add: track_inv_def next_sequence_of_def)
  next
    case False
    let ?m = "Max (sequence ` fst ` set arr)"
    have "tk_max s = Some ?m" using False assms(1) by (simp add: track_inv_def)
    then have "sq = ?m + 1" using assms(2) by (simp add: next_sequence_of_def split: if_splits)
    moreover have "sq \<le> ?m" if "sq \<in> tk_duplicates s" using that dup by (auto intro!: Max_ge)
    ultimately show ?thesis using \<open>tk_max s = Some ?m\<close> by (auto simp: max_def)
  qed
qed

lemma run_inv_recv:
  assumes "run_inv T r"
  shows "run_inv T (track_step RecvGroup r)"
proof -
  let ?s = "tr_track r" and ?c = "tr_consumer r"
  have c0: "tc_min_sequence ?c = 0" using assms by (simp add: run_inv_def)
  show ?thesis
  proof (cases "recv_group_state (tc_index ?c) 0 ?s")
    case Pending
    then show ?thesis using assms c0 by (auto simp: poll_recv_group_def track_settle_def settle_def)
  next
    case (Ready x)
    show ?thesis
    proof (cases "\<exists>g j. x = Inr (Some (g, j))")
      case False
      then show ?thesis using Ready assms c0 by (auto simp: poll_recv_group_def track_settle_def settle_def split: sum.splits option.splits)
    next
      case True
      then obtain g j where x: "recv_group_state (tc_index ?c) 0 ?s = Ready (Inr (Some (g, j)))" using Ready by auto
      note f = recv_group_found [OF x]
      then have live: "\<not> lost ?s" using assms by (auto simp: run_inv_def slot_at_def)
      then have T: "track_inv (tr_arrived r) T (?s\<lparr>tk_closed := False\<rparr>)" using assms by (simp add: run_inv_def)
      obtain js where js: "sorted_wrt (<) js" "tr_got r = map (\<lambda>j. fst (tr_arrived r ! j)) js"
        "\<forall>j < tc_index ?c. j \<in> set js \<or> slot_at ?s j = None" "\<forall>j \<in> set js. j < tc_index ?c"
        using assms unfolding run_inv_def by blast
      have j: "j < length (tr_arrived r)" using f T by (simp add: track_inv_def)
      then have g: "fst (tr_arrived r ! j) = g" using f T unfolding track_inv_def slot_at_closed by force
      have "sorted_wrt (<) (js @ [j])" using js(1,4) f by (auto simp: sorted_wrt_append)
      moreover have "k \<in> set (js @ [j]) \<or> slot_at ?s k = None" if "k < j + 1" for k
      proof (cases "k < tc_index ?c")
        case True
        then show ?thesis using js(3) by auto
      next
        case False
        then have "k \<noteq> j \<Longrightarrow> slot_at ?s k = None" using f that by auto
        then show ?thesis by auto
      qed
      moreover have "track_step RecvGroup r = r\<lparr>tr_consumer := ?c\<lparr>tc_index := j + 1\<rparr>, tr_got := tr_got r @ [g]\<rparr>"
        using x c0 by (simp add: poll_recv_group_def track_settle_def settle_def)
      moreover have "tr_got r @ [g] = map (\<lambda>j. fst (tr_arrived r ! j)) (js @ [j])" using js(2) g by simp
      moreover have "\<forall>k \<in> set (js @ [j]). k < j + 1" using js(4) f by auto
      ultimately show ?thesis using T j c0 live unfolding run_inv_def
        by (simp add: Suc_le_eq del: map_append set_append) blast
    qed
  qed
qed

text \<open>A closed track is not changed any more.\<close>

lemma track_step_closed: "tk_closed (tr_track r) \<Longrightarrow> x \<noteq> RecvGroup \<Longrightarrow> track_step x r = r"
  by (cases x) (simp_all add: create_group_def append_group_def track_finish_def track_finish_at_def track_abort_def track_drop_def
    track_modify_def and_then_def)

lemma run_inv_mono: "run_inv T r \<Longrightarrow> T \<subseteq> T' \<Longrightarrow> run_inv T' r"
  unfolding run_inv_def using track_inv_mono by (simp split: if_splits) blast

text \<open>A group arrives.\<close>

lemma run_inv_arrival:
  assumes "run_inv T r" "\<not> tk_closed (tr_track r)" "sq \<notin> tk_duplicates (tr_track r)"
    and "m = max (case tk_max (tr_track r) of Some m \<Rightarrow> m | None \<Rightarrow> 0) sq"
  shows "run_inv (insert now T) (r\<lparr>tr_track := evict_expired now ((tr_track r)\<lparr>tk_duplicates := insert sq (tk_duplicates (tr_track r)),
      tk_max := Some m, tk_groups := tk_groups (tr_track r) @ [Some ((length (tr_arrived r), sq), now)]\<rparr>),
      tr_arrived := tr_arrived r @ [((length (tr_arrived r), sq), now)]\<rparr>)"
proof -
  have T: "track_inv (tr_arrived r) T (tr_track r)" by (rule run_inv_open [OF assms(1,2)])
  show ?thesis
    by (rule run_inv_push [OF assms(1) track_inv_push [OF T assms(3,4)] subset_insertI evicted_stays [OF T assms(3)]])
qed

lemma run_inv_step_open:
  assumes "run_inv T r" "\<not> tk_closed (tr_track r)"
  shows "run_inv (T \<union> op_times x) (track_step x r)"
proof -
  have T: "track_inv (tr_arrived r) T (tr_track r)" by (rule run_inv_open [OF assms])
  have fin: "run_inv T (r\<lparr>tr_track := (tr_track r)\<lparr>tk_final := Some fin\<rparr>\<rparr>)" for fin
    by (rule run_inv_track [OF assms(1)]) (use T in \<open>simp_all add: track_inv_def\<close>)
  have same: "run_inv (insert now T) r" for now by (rule run_inv_mono [OF assms(1) subset_insertI])
  show ?thesis
  proof (cases x)
    case (CreateGroup sq now)
    then show ?thesis using run_inv_arrival [OF assms, of sq _ now] same assms(2)
      by (auto simp: create_group_def and_then_def track_modify_def)
  next
    case (AppendGroup now)
    show ?thesis
    proof (cases "next_sequence_of (tr_track r)")
      case (Inl e)
      then show ?thesis using AppendGroup same by (auto simp: append_group_def and_then_def track_modify_def)
    next
      case (Inr sq)
      note fresh = append_fresh [OF T Inr]
      show ?thesis using AppendGroup Inr run_inv_arrival [OF assms conjunct1 [OF fresh] conjunct2 [OF fresh], of now] same assms(2)
        by (auto simp: append_group_def and_then_def track_modify_def)
    qed
  next
    case FinishTrack
    then show ?thesis using fin assms(1)
      by (auto simp: track_finish_def and_then_def track_modify_def split: sum.splits)
  next
    case (FinishTrackAt sq)
    then show ?thesis using fin assms(1)
      by (auto simp: track_finish_at_def and_then_def track_modify_def split: sum.splits option.splits)
  next
    case (AbortTrack e)
    then show ?thesis using run_inv_lost [OF assms(1)] assms(2)
      by (simp add: track_abort_def and_then_def track_modify_def lost_def)
  next
    case DropTrack
    show ?thesis
    proof (cases "tk_final (tr_track r)")
      case None
      then show ?thesis using DropTrack run_inv_lost [OF assms(1)] assms(2) by (simp add: track_drop_def lost_def)
    next
      case (Some fin)
      then show ?thesis using DropTrack assms T unfolding run_inv_def
        by (simp add: track_drop_def lost_def track_inv_def open_id)
    qed
  next
    case RecvGroup
    then show ?thesis using run_inv_recv [OF assms(1)] by simp
  qed
qed

lemma run_inv_step:
  assumes "run_inv T r"
  shows "run_inv (T \<union> op_times x) (track_step x r)"
proof (cases "tk_closed (tr_track r) \<and> x \<noteq> RecvGroup")
  case True
  then show ?thesis using track_step_closed run_inv_mono [OF assms] by simp
next
  case False
  then show ?thesis using run_inv_step_open [OF assms] run_inv_recv [OF assms] by (cases "x = RecvGroup") auto
qed

lemma run_inv_fold: "run_inv T r \<Longrightarrow> run_inv (T \<union> \<Union> (op_times ` set ops)) (fold track_step ops r)"
proof (induction ops arbitrary: T r)
  case (Cons x ops)
  then show ?case using Cons.IH [OF run_inv_step [OF Cons.prems, of x]] by (simp add: Un_assoc)
qed simp

lemma run_inv_start: "run_inv {} track_start"
  using track_inv_new track_inv_live [OF track_inv_new] by (simp add: run_inv_def track_start_def track_consume_def)

lemma run_closed: "tk_closed (tr_track (fold track_step ops r)) \<Longrightarrow> \<not> tk_closed (tr_track r) \<Longrightarrow>
   DropTrack \<in> set ops \<or> (\<exists>e. AbortTrack e \<in> set ops)"
proof (induction ops arbitrary: r)
  case (Cons x ops)
  show ?case
  proof (cases "tk_closed (tr_track (track_step x r))")
    case True
    then have "x = DropTrack \<or> (\<exists>e. x = AbortTrack e)" using Cons.prems(2)
      by (cases x) (auto simp: create_group_def append_group_def track_finish_def track_finish_at_def evict_expired_def and_then_def
        track_modify_def poll_recv_group_def split: sum.splits option.splits poll.splits prod.splits if_splits)
    then show ?thesis by auto
  qed (use Cons in auto)
qed simp

lemma lost_poll:
  assumes "lost s" "tk_closed s" "tk_groups s = []"
  shows "poll_recv_group s c = (Ready (if tk_final s \<noteq> None then Inr None else Inl (or_dropped (tk_abort s))), c)"
  using assms by (auto simp: poll_recv_group_def recv_group_state_def ended_def track_settle_def settle_def or_dropped_def
    split: option.splits)

lemma newest_available:
  assumes "track_inv arr T (s\<lparr>tk_closed := b\<rparr>)" "arr \<noteq> []"
  shows "\<exists>g. poll_get_group (Max (sequence ` fst ` set arr)) s = Ready (Inr (Some g)) \<and> sequence g = Max (sequence ` fst ` set arr)"
proof -
  let ?m = "Max (sequence ` fst ` set arr)"
  have "?m \<in> set (map sequence (lives (tk_groups s)))" using assms by (simp add: track_inv_def)
  then obtain g where g: "find (\<lambda>g. sequence g = ?m) (lives (tk_groups s)) = Some g"
    by (cases "find (\<lambda>g. sequence g = ?m) (lives (tk_groups s))") (auto simp: find_None_iff)
  then have "sequence g = ?m" by (auto simp: find_Some_iff)
  moreover have "poll_get_group ?m s = Ready (Inr (Some g))"
    using g by (simp add: poll_get_group_def get_group_state_def lives_def track_settle_def settle_def)
  ultimately show ?thesis by blast
qed

lemma recv_idle:
  assumes "run_inv T r" "fst (poll_recv_group (tr_track r) (tr_consumer r)) \<in> {Pending, Ready (Inr None)}" "tc_index (tr_consumer r) \<le> j"
  shows "slot_at (tr_track r) j = None"
proof -
  let ?p = "recv_group_state (tc_index (tr_consumer r)) 0 (tr_track r)"
  have "tc_min_sequence (tr_consumer r) = 0" using assms(1) by (simp add: run_inv_def)
  then have "?p = Pending \<or> ?p = Ready (Inr None)" using assms(2)
    by (auto simp: poll_recv_group_def track_settle_def settle_def split: poll.splits sum.splits option.splits if_splits)
  then show ?thesis using recv_group_none [of "tc_index (tr_consumer r)" 0 "tr_track r"] assms(3) by simp
qed

section \<open>Properties\<close>


text \<open>
  Two groups arrive out of order, are read in between, and a third arrives long after; then the track is finished and
  dropped, and what is left is read.
\<close>

definition example_ops :: "track_op list" where
  "example_ops = [CreateGroup 5 0, CreateGroup 3 1, RecvGroup, AppendGroup (MAX_GROUP_AGE + 2), FinishTrack, DropTrack, RecvGroup, RecvGroup]"

lemmas track_eval = track_start_def track_new_def track_consume_def create_group_def append_group_def track_modify_def and_then_def
  evict_expired_def at_end_def next_sequence_of_def poll_recv_group_def recv_group_state_def ended_def track_settle_def settle_def
  poll_get_group_def get_group_state_def track_finish_def track_drop_def lost_def MAX_GROUP_AGE_def u64_max_def map_filter_def

definition example_track :: track_run where "example_track = fold track_step example_ops track_start"

lemma example_run:
  "tr_got example_track = [(0, 5), (2, 6)]"
  "tr_arrived example_track = [((0, 5), 0), ((1, 3), 1), ((2, 6), 5000000002)]"
  "fst (poll_recv_group (tr_track example_track) (tr_consumer example_track)) = Ready (Inr None)"
  "\<not> lost (tr_track example_track)"
  by (simp_all add: example_track_def example_ops_def track_eval)


end
