(* ===== verification/Flate.thy ===== *)
theory Flate
  imports Prelude "HOL-Library.Monad_Syntax"
begin

text \<open>
  The frame compression of \<open>relay/rs/moq-flate/src/lib.rs\<close>: a stream of frames in one DEFLATE window, each frame
  sync-flushed and stripped of the flush marker.

  \<open>flate2\<close> is not part of the repository: one call of \<open>Compress::compress\<close> and of \<open>Decompress::decompress\<close> with an
  output buffer of \<open>CHUNK\<close> bytes are parameters. Such a call returns the new state, how much input it consumed and
  the bytes it produced (and for the decompressor whether the stream ended); \<open>None\<close> is an error. A decoder that fails
  keeps the state the decompressor was left in.
\<close>

definition CHUNK :: nat where "CHUNK = 8 * 1024"

definition DEFAULT_MAX_FRAME_SIZE :: nat where "DEFAULT_MAX_FRAME_SIZE = 64 * 1024 * 1024"

definition SYNC_FLUSH_TAIL :: "byte list" where "SYNC_FLUSH_TAIL = [0x00, 0x00, 0xff, 0xff]"

datatype flate_error = ErrDecompress | ErrTooLarge nat

type_synonym 'z deflate = "'z \<Rightarrow> byte list \<Rightarrow> ('z \<times> nat \<times> byte list) option"
type_synonym 'd inflate = "'d \<Rightarrow> byte list \<Rightarrow> 'd \<times> (nat \<times> byte list \<times> bool) option"

section \<open>The encoder\<close>

text \<open>The loop calls again while the output buffer fills up; not returning, or a panic, is \<open>None\<close>.\<close>

partial_function (option) encoder_loop :: "'z deflate \<Rightarrow> 'z \<Rightarrow> byte list \<Rightarrow> byte list \<Rightarrow> ('z \<times> byte list) option" where
  "encoder_loop compress z input out = do {
     (z, consumed, produced) \<leftarrow> compress z input;
     if consumed > length input then None
     else if length produced < CHUNK then Some (z, out @ produced)
     else encoder_loop compress z (drop consumed input) (out @ produced)
   }"

definition encoder_frame :: "'z deflate \<Rightarrow> 'z \<Rightarrow> byte list \<Rightarrow> (byte list \<times> 'z) option" where
  "encoder_frame compress z payload =
     (if payload = [] then Some ([], z)
      else do {
        (z, out) \<leftarrow> encoder_loop compress z payload [];
        if length out < length SYNC_FLUSH_TAIL then None
        else Some (take (length out - length SYNC_FLUSH_TAIL) out, z)
      })"

section \<open>The decoder\<close>

text \<open>
  The loop over one segment. Every round consumes input or produces output, and the output is bounded, so it ends
  whatever the decompressor does. Slicing the input past its end is a panic, \<open>None\<close>.
\<close>

function decoder_loop :: "'d inflate \<Rightarrow> nat \<Rightarrow> 'd \<Rightarrow> byte list \<Rightarrow> byte list \<Rightarrow> ((flate_error + byte list) \<times> 'd) option" where
  "decoder_loop decompress limit d input out =
     (case decompress d input of
        (d, None) \<Rightarrow> Some (Inl ErrDecompress, d)
      | (d, Some (consumed, produced, ended)) \<Rightarrow>
          if length out + length produced > limit then Some (Inl (ErrTooLarge limit), d)
          else if consumed > length input then None
          else if ended \<or> drop consumed input = [] \<and> length produced < CHUNK then Some (Inr (out @ produced), d)
          else if consumed = 0 \<and> produced = [] then Some (Inr (out @ produced), d)
          else decoder_loop decompress limit d (drop consumed input) (out @ produced))"
  by pat_completeness auto
termination
proof (relation "measure (\<lambda>(decompress, limit, d, input, out). (limit - length out) + length input)", goal_cases)
  case (2 decompress limit d input out d' x y consumed z produced ended)
  then have "0 < consumed \<or> 0 < length produced" "length out + length produced \<le> limit" "consumed \<le> length input" by auto
  then show ?case unfolding in_measure by (simp del: length_greater_0_conv) linarith
qed simp

declare decoder_loop.simps [simp del]

definition decoder_frame :: "'d inflate \<Rightarrow> nat \<Rightarrow> 'd \<Rightarrow> byte list \<Rightarrow> ((flate_error + byte list) \<times> 'd) option" where
  "decoder_frame decompress limit d wire =
     (if wire = [] then Some (Inr [], d)
      else do {
        (r, d) \<leftarrow> decoder_loop decompress limit d wire [];
        case r of
          Inl e \<Rightarrow> Some (Inl e, d)
        | Inr out \<Rightarrow> decoder_loop decompress limit d SYNC_FLUSH_TAIL out
      })"

section \<open>What flate2 promises\<close>

text \<open>
  Calls of the compressor until the output buffer is not filled, as the documentation of a sync flush asks for:
  \<open>deflates compress z x w z'\<close> says that they consume all of \<open>x\<close> and write \<open>w\<close>. \<open>inflates\<close> is the same for the
  decompressor, fed with \<open>w\<close>.
\<close>

inductive deflates :: "'z deflate \<Rightarrow> 'z \<Rightarrow> byte list \<Rightarrow> byte list \<Rightarrow> 'z \<Rightarrow> bool" for compress where
  last_call: "compress z x = Some (z', length x, w) \<Longrightarrow> length w < CHUNK \<Longrightarrow> deflates compress z x w z'"
| again: "compress z x = Some (z1, c, w1) \<Longrightarrow> c \<le> length x \<Longrightarrow> length w1 = CHUNK \<Longrightarrow> deflates compress z1 (drop c x) w2 z'
    \<Longrightarrow> deflates compress z x (w1 @ w2) z'"

inductive inflates :: "'d inflate \<Rightarrow> 'd \<Rightarrow> byte list \<Rightarrow> byte list \<Rightarrow> 'd \<Rightarrow> bool" for decompress where
  drained: "decompress d w = (d', Some (length w, x, False)) \<Longrightarrow> length x < CHUNK \<Longrightarrow> inflates decompress d w x d'"
| more_input: "decompress d w = (d1, Some (c, x1, False)) \<Longrightarrow> c \<le> length w \<Longrightarrow> 0 < c \<or> x1 \<noteq> [] \<Longrightarrow> c < length w \<or> CHUNK \<le> length x1
    \<Longrightarrow> inflates decompress d1 (drop c w) x2 d' \<Longrightarrow> inflates decompress d w (x1 @ x2) d'"

text \<open>
  A sync flush ends in the empty-block marker, and a decompressor that has seen everything up to the flush gives back
  all of the input. \<open>paired\<close> relates a compressor to a decompressor that has read what it wrote.
\<close>

definition flate2_stream :: "'z deflate \<Rightarrow> 'd inflate \<Rightarrow> 'z \<Rightarrow> 'd \<Rightarrow> bool" where
  "flate2_stream compress decompress z0 d0 \<longleftrightarrow>
     (\<exists>paired. paired z0 d0 \<and> (\<forall>z d x. paired z d \<and> x \<noteq> [] \<longrightarrow>
        (\<exists>w z' d1 x1 x2 d'. deflates compress z x (w @ SYNC_FLUSH_TAIL) z' \<and> w \<noteq> []
           \<and> inflates decompress d w x1 d1 \<and> inflates decompress d1 SYNC_FLUSH_TAIL x2 d' \<and> x1 @ x2 = x \<and> paired z' d')))"

definition consumes_input :: "'d inflate \<Rightarrow> bool" where
  "consumes_input decompress \<longleftrightarrow> (\<forall>d w d' c x e. decompress d w = (d', Some (c, x, e)) \<longrightarrow> c \<le> length w)"

section \<open>Lemmas\<close>

lemma encoder_loop_deflates:
  "deflates compress z x w z' \<Longrightarrow> encoder_loop compress z x out = Some (z', out @ w)"
proof (induction arbitrary: out rule: deflates.induct)
  case (last_call z x z' w)
  then show ?case by (subst encoder_loop.simps) simp
next
  case (again z x z1 c w1 w2 z')
  then show ?case by (subst encoder_loop.simps) simp
qed

lemma decoder_loop_inflates:
  "inflates decompress d w x d' \<Longrightarrow> length out + length x \<le> limit \<Longrightarrow> decoder_loop decompress limit d w out = Some (Inr (out @ x), d')"
proof (induction arbitrary: out rule: inflates.induct)
  case (drained d w d' x)
  then show ?case by (subst decoder_loop.simps) simp
next
  case (more_input d w d1 c x1 x2 d')
  then show ?case by (subst decoder_loop.simps) auto
qed

lemma decoder_loop_bounded:
  assumes "consumes_input decompress" "length out \<le> limit"
  shows "\<exists>r d'. decoder_loop decompress limit d w out = Some (r, d') \<and> (\<forall>x. r = Inr x \<longrightarrow> length x \<le> limit)"
  using assms
proof (induction decompress limit d w out rule: decoder_loop.induct)
  case (1 decompress limit d w out)
  obtain d1 o1 where o1: "decompress d w = (d1, o1)" by fastforce
  show ?case
  proof (cases o1)
    case None
    then show ?thesis using o1 by (subst decoder_loop.simps) simp
  next
    case (Some y)
    then obtain c x e where y: "decompress d w = (d1, Some (c, x, e))" using o1 by (cases y) auto
    have c: "c \<le> length w" using 1(2) y unfolding consumes_input_def by blast
    show ?thesis
    proof (cases "length out + length x > limit \<or> e \<or> drop c w = [] \<and> length x < CHUNK \<or> c = 0 \<and> x = []")
      case True
      then show ?thesis using y c 1(3) by (subst decoder_loop.simps) auto
    next
      case False
      then have "decoder_loop decompress limit d w out = decoder_loop decompress limit d1 (drop c w) (out @ x)"
        using y c by (subst decoder_loop.simps) auto
      moreover have "length (out @ x) \<le> limit" using False by simp
      ultimately show ?thesis using 1(1) [OF y [symmetric] refl refl refl _ _ _ _ 1(2)] False c by auto
    qed
  qed
qed

lemma decoder_frame_bounded:
  assumes "consumes_input decompress"
  shows "\<exists>r d'. decoder_frame decompress limit d w = Some (r, d') \<and> (\<forall>x. r = Inr x \<longrightarrow> length x \<le> limit)"
proof (cases "w = []")
  case False
  obtain r d1 where r: "decoder_loop decompress limit d w [] = Some (r, d1)" "\<forall>x. r = Inr x \<longrightarrow> length x \<le> limit"
    using decoder_loop_bounded [OF assms, of "[]" limit d w] by auto
  show ?thesis
  proof (cases r)
    case (Inl e)
    then show ?thesis using r(1) False by (simp add: decoder_frame_def)
  next
    case (Inr x)
    then show ?thesis using decoder_loop_bounded [OF assms, of x limit d1 SYNC_FLUSH_TAIL] r False by (simp add: decoder_frame_def)
  qed
qed (simp add: decoder_frame_def)

text \<open>One frame through both.\<close>

lemma flate_frame:
  assumes "deflates compress z x (w @ SYNC_FLUSH_TAIL) z'" "w \<noteq> []" "x \<noteq> []"
    and "inflates decompress d w x1 d1" "inflates decompress d1 SYNC_FLUSH_TAIL x2 d'" "x1 @ x2 = x" "length x \<le> limit"
  shows "encoder_frame compress z x = Some (w, z')" "decoder_frame decompress limit d w = Some (Inr x, d')"
proof -
  show "encoder_frame compress z x = Some (w, z')"
    using encoder_loop_deflates [OF assms(1), of "[]"] assms(3) by (simp add: encoder_frame_def)
  have "decoder_loop decompress limit d w [] = Some (Inr x1, d1)"
    using decoder_loop_inflates [OF assms(4), of "[]" limit] assms(6,7) by auto
  moreover have "decoder_loop decompress limit d1 SYNC_FLUSH_TAIL x1 = Some (Inr x, d')"
    using decoder_loop_inflates [OF assms(5), of x1 limit] assms(6,7) by auto
  ultimately show "decoder_frame decompress limit d w = Some (Inr x, d')" using assms(2) by (simp add: decoder_frame_def)
qed

lemma flate_step:
  assumes "\<forall>z d x. paired z d \<and> x \<noteq> [] \<longrightarrow>
        (\<exists>w z' d1 x1 x2 d'. deflates compress z x (w @ SYNC_FLUSH_TAIL) z' \<and> w \<noteq> []
           \<and> inflates decompress d w x1 d1 \<and> inflates decompress d1 SYNC_FLUSH_TAIL x2 d' \<and> x1 @ x2 = x \<and> paired z' d')"
    and "paired z d" "length x \<le> limit"
  shows "\<exists>w z' d'. encoder_frame compress z x = Some (w, z') \<and> decoder_frame decompress limit d w = Some (Inr x, d') \<and> paired z' d'"
proof (cases "x = []")
  case True
  then show ?thesis using assms(2) by (auto simp: encoder_frame_def decoder_frame_def)
next
  case False
  then obtain w z' d1 x1 x2 d' where w: "deflates compress z x (w @ SYNC_FLUSH_TAIL) z'" "w \<noteq> []"
    "inflates decompress d w x1 d1" "inflates decompress d1 SYNC_FLUSH_TAIL x2 d'" "x1 @ x2 = x" "paired z' d'"
    using assms(1,2) by blast
  show ?thesis using flate_frame [OF w(1,2) False w(3-5) assms(3)] w(6) by blast
qed

text \<open>A stream of frames: the slices an encoder writes, and what a decoder reads from slices.\<close>

fun encode_frames :: "'z deflate \<Rightarrow> 'z \<Rightarrow> byte list list \<Rightarrow> byte list list option" where
  "encode_frames compress z [] = Some []"
| "encode_frames compress z (x # xs) = do {
     (w, z) \<leftarrow> encoder_frame compress z x;
     ws \<leftarrow> encode_frames compress z xs;
     Some (w # ws)
   }"

fun decode_frames :: "'d inflate \<Rightarrow> nat \<Rightarrow> 'd \<Rightarrow> byte list list \<Rightarrow> byte list list option" where
  "decode_frames decompress limit d [] = Some []"
| "decode_frames decompress limit d (w # ws) = do {
     (r, d) \<leftarrow> decoder_frame decompress limit d w;
     case r of Inl e \<Rightarrow> None | Inr x \<Rightarrow> do { xs \<leftarrow> decode_frames decompress limit d ws; Some (x # xs) }
   }"

lemma flate_frames:
  assumes "\<forall>z d x. paired z d \<and> x \<noteq> [] \<longrightarrow>
        (\<exists>w z' d1 x1 x2 d'. deflates compress z x (w @ SYNC_FLUSH_TAIL) z' \<and> w \<noteq> []
           \<and> inflates decompress d w x1 d1 \<and> inflates decompress d1 SYNC_FLUSH_TAIL x2 d' \<and> x1 @ x2 = x \<and> paired z' d')"
    and "paired z d" "\<forall>x \<in> set xs. length x \<le> limit"
  shows "\<exists>ws. encode_frames compress z xs = Some ws \<and> decode_frames decompress limit d ws = Some xs"
  using assms(2,3)
proof (induction xs arbitrary: z d)
  case (Cons x xs)
  obtain w z' d' where w: "encoder_frame compress z x = Some (w, z')" "decoder_frame decompress limit d w = Some (Inr x, d')" "paired z' d'"
    using flate_step [OF assms(1) Cons.prems(1), of x limit] Cons.prems(2) by auto
  obtain ws where "encode_frames compress z' xs = Some ws" "decode_frames decompress limit d' ws = Some xs"
    using Cons.IH [OF w(3)] Cons.prems(2) by auto
  then show ?case using w by simp
qed simp

section \<open>An instance\<close>

text \<open>
  A codec with the shape of DEFLATE: a byte \<open>b\<close> is written as \<open>1, b\<close> and a flush as the marker. The compressor keeps what
  did not fit into the output buffer, the decompressor how far it is in a code.
\<close>

definition toy_compress :: "byte list deflate" where
  "toy_compress z x =
     (let p = z @ concat (map (\<lambda>b. [1, b]) x) @ (if x = [] then [] else SYNC_FLUSH_TAIL)
      in Some (drop CHUNK p, length x, take CHUNK p))"

fun toy_decode :: "nat \<Rightarrow> byte list \<Rightarrow> nat \<times> byte list" where
  "toy_decode d [] = (d, [])"
| "toy_decode 0 (b # bs) = toy_decode (if b = 1 then 1 else 2) bs"
| "toy_decode (Suc 0) (b # bs) = (case toy_decode 0 bs of (d, x) \<Rightarrow> (d, b # x))"
| "toy_decode (Suc (Suc d)) (b # bs) = toy_decode (if d = 2 then 0 else d + 3) bs"

definition toy_decompress :: "nat inflate" where
  "toy_decompress d w = (case toy_decode d (take CHUNK w) of (d, x) \<Rightarrow> (d, Some (length (take CHUNK w), x, False)))"

lemma toy_deflates: "\<exists>z'. deflates toy_compress z [] z z' \<and> z' = []"
proof (induction z rule: length_induct)
  case (1 z)
  show ?case
  proof (cases "length z < CHUNK")
    case True
    then show ?thesis by (intro exI [of _ "[]"] conjI deflates.last_call) (simp_all add: toy_compress_def)
  next
    case False
    then have "length (drop CHUNK z) < length z" by (auto simp: CHUNK_def)
    then have "deflates toy_compress (drop CHUNK z) [] (drop CHUNK z) []" using 1 by blast
    then have "deflates toy_compress z [] (take CHUNK z @ drop CHUNK z) []"
      using False by (intro deflates.again [where c = 0 and ?z1.0 = "drop CHUNK z"]) (simp_all add: toy_compress_def)
    then show ?thesis by simp
  qed
qed

lemma toy_deflates_frame:
  assumes "x \<noteq> []"
  shows "deflates toy_compress [] x (concat (map (\<lambda>b. [1, b]) x) @ SYNC_FLUSH_TAIL) []"
proof -
  let ?p = "concat (map (\<lambda>b. [1, b]) x) @ SYNC_FLUSH_TAIL"
  have c: "toy_compress [] x = Some (drop CHUNK ?p, length x, take CHUNK ?p)" using assms by (simp add: toy_compress_def)
  show ?thesis
  proof (cases "length ?p < CHUNK")
    case True
    then have "deflates toy_compress [] x (take CHUNK ?p) []" using c by (intro deflates.last_call) simp_all
    then show ?thesis using True by simp
  next
    case False
    have "deflates toy_compress (drop CHUNK ?p) [] (drop CHUNK ?p) []" using toy_deflates by blast
    then have "deflates toy_compress [] x (take CHUNK ?p @ drop CHUNK ?p) []"
      using False by (intro deflates.again [where c = "length x" and ?z1.0 = "drop CHUNK ?p"] c) simp_all
    then show ?thesis by (simp only: append_take_drop_id)
  qed
qed

lemma toy_decode_append: "toy_decode d (v @ w) = (case toy_decode d v of (d, x) \<Rightarrow> case toy_decode d w of (d, y) \<Rightarrow> (d, x @ y))"
  by (induction d v rule: toy_decode.induct) (auto split: prod.splits)

lemma toy_decode_half: "2 * length (snd (toy_decode d w)) \<le> length w + (if d = 1 then 1 else 0)"
  by (induction d w rule: toy_decode.induct) (auto split: prod.splits)

lemma toy_inflates: "toy_decode d w = (d', x) \<Longrightarrow> inflates toy_decompress d w x d'"
proof (induction w arbitrary: d x rule: length_induct)
  case (1 w)
  obtain d1 x1 where t: "toy_decode d (take CHUNK w) = (d1, x1)" by fastforce
  have "2 * length x1 \<le> length (take CHUNK w) + (if d = 1 then 1 else 0)" using toy_decode_half [of d "take CHUNK w"] t by simp
  then have short: "length x1 < CHUNK" by (auto simp: CHUNK_def split: if_splits)
  show ?case
  proof (cases "length w \<le> CHUNK")
    case True
    then show ?thesis using t 1(2) short by (intro inflates.drained) (simp_all add: toy_decompress_def)
  next
    case False
    obtain x2 where x2: "toy_decode d1 (drop CHUNK w) = (d', x2)" "x = x1 @ x2"
      using 1(2) t toy_decode_append [of d "take CHUNK w" "drop CHUNK w"] by (auto split: prod.splits)
    have "inflates toy_decompress d1 (drop CHUNK w) x2 d'" using 1(1) x2(1) False by (auto simp: CHUNK_def)
    moreover have "toy_decompress d w = (d1, Some (CHUNK, x1, False))" using False t by (simp add: toy_decompress_def)
    ultimately show ?thesis unfolding x2(2)
      using False by (intro inflates.more_input [where c = CHUNK and ?d1.0 = d1]) (simp_all add: CHUNK_def)
  qed
qed

lemma toy_decode_frame: "toy_decode 0 (concat (map (\<lambda>b. [1, b]) x)) = (0, x)"
  by (induction x) simp_all

lemma toy_step:
  assumes "x \<noteq> []"
  shows "\<exists>w z' d1 x1 x2 d'. deflates toy_compress [] x (w @ SYNC_FLUSH_TAIL) z' \<and> w \<noteq> []
      \<and> inflates toy_decompress 0 w x1 d1 \<and> inflates toy_decompress d1 SYNC_FLUSH_TAIL x2 d' \<and> x1 @ x2 = x \<and> z' = [] \<and> d' = 0"
proof -
  let ?w = "concat (map (\<lambda>b. [1, b]) x)"
  have "inflates toy_decompress 0 ?w x 0" by (rule toy_inflates [OF toy_decode_frame])
  moreover have "inflates toy_decompress 0 SYNC_FLUSH_TAIL [] 0"
    by (rule toy_inflates) (simp add: SYNC_FLUSH_TAIL_def eval_nat_numeral)
  moreover have "?w \<noteq> []" using assms by (cases x) auto
  ultimately show ?thesis using toy_deflates_frame [OF assms] append_Nil2 by blast
qed

lemma toy_stream: "flate2_stream toy_compress toy_decompress [] 0"
  unfolding flate2_stream_def by (intro exI [of _ "\<lambda>z d. z = [] \<and> d = 0"] conjI allI impI) (use toy_step in auto)

lemma toy_encoder_frame: "x \<noteq> [] \<Longrightarrow> encoder_frame toy_compress [] x = Some (concat (map (\<lambda>b. [1, b]) x), [])"
  using encoder_loop_deflates [OF toy_deflates_frame, of x "[]"] by (simp add: encoder_frame_def)

section \<open>Properties\<close>

text \<open>
  C13: Frames of at most the decoder's limit come back from the slices the encoder wrote for them, empty frames included,
  and the encoder returns for each. Whatever slice a peer sends, the decoder returns, and never more than its limit.
\<close>

theorem flate_round_trip:
  assumes "flate2_stream compress decompress z d" "consumes_input decompress" "\<forall>x \<in> set xs. length x \<le> limit"
  shows "(\<exists>ws. encode_frames compress z xs = Some ws \<and> decode_frames decompress limit d ws = Some xs)
    \<and> (\<forall>d w. \<exists>r d'. decoder_frame decompress limit d w = Some (r, d') \<and> (\<forall>x. r = Inr x \<longrightarrow> length x \<le> limit))"
proof (intro conjI allI)
  obtain paired where p: "paired z d" "\<forall>z d x. paired z d \<and> x \<noteq> [] \<longrightarrow>
        (\<exists>w z' d1 x1 x2 d'. deflates compress z x (w @ SYNC_FLUSH_TAIL) z' \<and> w \<noteq> []
           \<and> inflates decompress d w x1 d1 \<and> inflates decompress d1 SYNC_FLUSH_TAIL x2 d' \<and> x1 @ x2 = x \<and> paired z' d')"
    using assms(1) unfolding flate2_stream_def by blast
  show "\<exists>ws. encode_frames compress z xs = Some ws \<and> decode_frames decompress limit d ws = Some xs"
    by (rule flate_frames [OF p(2,1) assms(3)])
  show "\<exists>r d'. decoder_frame decompress limit d w = Some (r, d') \<and> (\<forall>x. r = Inr x \<longrightarrow> length x \<le> limit)" for d w
    by (rule decoder_frame_bounded [OF assms(2)])
qed

theorem flate_round_trip_witness:
  "\<exists>ws. encode_frames toy_compress [] [[5, 6], [], [7]] = Some ws \<and> decode_frames toy_decompress DEFAULT_MAX_FRAME_SIZE 0 ws = Some [[5, 6], [], [7]]"
proof -
  have "consumes_input toy_decompress" by (auto simp: consumes_input_def toy_decompress_def split: prod.splits)
  moreover have "\<forall>x \<in> set [[5, 6], [], [7 :: byte]]. length x \<le> DEFAULT_MAX_FRAME_SIZE" by (simp add: DEFAULT_MAX_FRAME_SIZE_def)
  ultimately show ?thesis by (rule conjunct1 [OF flate_round_trip [OF toy_stream]])
qed

end
