(* ===== verification/Json_Stream.thy ===== *)
theory Json_Stream
  imports Json_Patch Model_Track Flate
begin

text \<open>
  Publishing a JSON value over a track and reading it back (\<open>relay/rs/moq-json/src/lib.rs\<close>): groups of a snapshot and
  the merge patches that follow it, optionally compressed.

  The producer and the consumer work on one \<open>world\<close>: the state of the track and the groups it ever had, by address.
  What a handle that is dropped leaves behind is not modelled: the groups a consumer still reads are finished or
  held by the producer, so dropping a handle does not change what it reads. \<open>serde_json\<close>, \<open>json_patch\<close> and \<open>flate2\<close> are
  the parameters in \<open>deps\<close>. Every state change before an error stays, as in the code.
\<close>

section \<open>What the code is given\<close>

record ('f, 't, 'z, 'd) deps =
  to_value :: "'f ser \<Rightarrow> json_error + 'f json"
  to_vec :: "'f ser \<Rightarrow> json_error + byte list"
  value_to_vec :: "'f json \<Rightarrow> json_error + byte list"
  from_slice :: "byte list \<Rightarrow> json_error + 'f json"
  from_value :: "'f json \<Rightarrow> json_error + 't"
  json_merge :: "'f json \<Rightarrow> 'f json \<Rightarrow> 'f json"
  compress :: "'z deflate"
  compress_new :: 'z
  decompress :: "'d inflate"
  decompress_new :: 'd

datatype stream_error = ErrNet moq_error | ErrJson json_error | ErrFlate flate_error | StreamPanic

record world =
  w_track :: track_state
  w_groups :: "(frame_store \<times> group_state) list"

definition world_new :: world where
  "world_new = \<lparr>w_track = track_new, w_groups = []\<rparr>"

definition world_append_group :: "nat \<Rightarrow> world \<Rightarrow> moq_error + nat \<times> world" where
  "world_append_group now w =
     and_then (append_group (length (w_groups w)) now (w_track w)) (\<lambda>(sq, tk).
       Inr (length (w_groups w), \<lparr>w_track = tk, w_groups = w_groups w @ [([], group_new sq)]\<rparr>))"

definition world_write_frame :: "nat \<Rightarrow> byte list \<Rightarrow> world \<Rightarrow> moq_error + world" where
  "world_write_frame a bs w = and_then (group_write_frame bs (w_groups w ! a)) (\<lambda>hg. Inr (w\<lparr>w_groups := (w_groups w)[a := hg]\<rparr>))"

definition world_finish_group :: "nat \<Rightarrow> world \<Rightarrow> moq_error + world" where
  "world_finish_group a w =
     (case w_groups w ! a of (h, g) \<Rightarrow> and_then (group_finish g) (\<lambda>g. Inr (w\<lparr>w_groups := (w_groups w)[a := (h, g)]\<rparr>)))"

section \<open>The producer\<close>

definition MAX_DELTA_FRAMES :: nat where "MAX_DELTA_FRAMES = 256"

text \<open>
  \<open>Inner\<close>. The sizes are natural numbers: a frame is at most \<open>MAX_FRAME_SIZE\<close> and a group at most \<open>MAX_DELTA_FRAMES\<close>
  frames long, and the ratio is a \<open>u32\<close>, so neither the sum nor the product reaches \<open>2 ^ 64\<close>.
\<close>

record ('f, 'z) inner =
  in_group :: "nat option"
  in_encoder :: "'z option"
  in_last :: "'f json option"
  in_delta_bytes :: nat
  in_snapshot_len :: nat
  in_group_frames :: nat
  in_delta_ratio :: nat
  in_compression :: bool

definition inner_new :: "nat \<Rightarrow> bool \<Rightarrow> ('f, 'z) inner" where
  "inner_new ratio compression = \<lparr>in_group = None, in_encoder = None, in_last = None, in_delta_bytes = 0, in_snapshot_len = 0,
     in_group_frames = 0, in_delta_ratio = ratio, in_compression = compression\<rparr>"

definition delta_allowed :: "('f, 'z) inner \<Rightarrow> bool" where
  "delta_allowed p \<longleftrightarrow> in_delta_ratio p \<noteq> 0 \<and> in_group p \<noteq> None \<and> in_group_frames p < MAX_DELTA_FRAMES
     \<and> in_delta_bytes p \<le> in_delta_ratio p * in_snapshot_len p"

text \<open>A frame as it goes on the wire: through the encoder of the group, when there is one.\<close>

definition to_wire :: "('f, 't, 'z, 'd) deps \<Rightarrow> 'z option \<Rightarrow> byte list \<Rightarrow> (byte list \<times> 'z option) option" where
  "to_wire D enc bs =
     (case enc of
        Some z \<Rightarrow> map_option (\<lambda>(wire, z). (wire, Some z)) (encoder_frame (compress D) z bs)
      | None \<Rightarrow> Some (bs, None))"

definition close_group :: "world \<Rightarrow> ('f, 'z) inner \<Rightarrow> moq_error + world" where
  "close_group w p = (case in_group p of Some a \<Rightarrow> world_finish_group a w | None \<Rightarrow> Inr w)"

definition reseed :: "('f, 't, 'z, 'd) deps \<Rightarrow> 'f ser \<Rightarrow> world \<Rightarrow> ('f, 'z) inner \<Rightarrow> (stream_error + unit) \<times> world \<times> ('f, 'z) inner" where
  "reseed D x w p =
     (case to_value D x of
        Inl e \<Rightarrow> (Inl (ErrJson e), w, p)
      | Inr v \<Rightarrow> (Inr (), w, p\<lparr>in_last := Some v\<rparr>))"

text \<open>The new group of a snapshot: frame 0, then open for deltas or finished at once.\<close>

definition open_group :: "('f, 't, 'z, 'd) deps \<Rightarrow> 'f ser \<Rightarrow> byte list \<Rightarrow> nat \<Rightarrow> world \<Rightarrow> ('f, 'z) inner
    \<Rightarrow> (stream_error + unit) \<times> world \<times> ('f, 'z) inner" where
  "open_group D x bs a w p =
     (case to_wire D (if in_compression p then Some (compress_new D) else None) bs of
        None \<Rightarrow> (Inl StreamPanic, w, p)
      | Some (wire, enc) \<Rightarrow>
          let p = p\<lparr>in_snapshot_len := length wire\<rparr>
          in case world_write_frame a wire w of
               Inl e \<Rightarrow> (Inl (ErrNet e), w, p)
             | Inr w \<Rightarrow>
                 let p = p\<lparr>in_delta_bytes := 0, in_group_frames := 1, in_encoder := enc\<rparr>
                 in if in_delta_ratio p \<noteq> 0 then reseed D x w (p\<lparr>in_group := Some a\<rparr>)
                    else let p = p\<lparr>in_encoder := None\<rparr>
                         in case world_finish_group a w of
                              Inl e \<Rightarrow> (Inl (ErrNet e), w, p)
                            | Inr w \<Rightarrow> reseed D x w p)"

definition inner_snapshot :: "('f, 't, 'z, 'd) deps \<Rightarrow> nat \<Rightarrow> 'f ser \<Rightarrow> world \<Rightarrow> ('f, 'z) inner
    \<Rightarrow> (stream_error + unit) \<times> world \<times> ('f, 'z) inner" where
  "inner_snapshot D now x w p =
     (case to_vec D x of
        Inl e \<Rightarrow> (Inl (ErrJson e), w, p)
      | Inr bs \<Rightarrow>
          (case close_group w p of
             Inl e \<Rightarrow> (Inl (ErrNet e), w, p\<lparr>in_group := None\<rparr>)
           | Inr w \<Rightarrow>
               let p = p\<lparr>in_group := None\<rparr>
               in case world_append_group now w of
                    Inl e \<Rightarrow> (Inl (ErrNet e), w, p)
                  | Inr (a, w) \<Rightarrow> open_group D x bs a w p))"

definition write_delta :: "('f, 't, 'z, 'd) deps \<Rightarrow> 'f json \<Rightarrow> 'f json \<Rightarrow> world \<Rightarrow> ('f, 'z) inner
    \<Rightarrow> (stream_error + unit) \<times> world \<times> ('f, 'z) inner" where
  "write_delta D old patch w p =
     (case value_to_vec D patch of
        Inl e \<Rightarrow> (Inl (ErrJson e), w, p)
      | Inr bs \<Rightarrow>
          (case to_wire D (in_encoder p) bs of
             None \<Rightarrow> (Inl StreamPanic, w, p)
           | Some (wire, enc) \<Rightarrow>
               let p = p\<lparr>in_encoder := enc\<rparr>
               in case in_group p of
                    None \<Rightarrow> (Inl StreamPanic, w, p)
                  | Some a \<Rightarrow>
                      (case world_write_frame a wire w of
                         Inl e \<Rightarrow> (Inl (ErrNet e), w, p)
                       | Inr w \<Rightarrow> (Inr (), w, p\<lparr>in_delta_bytes := in_delta_bytes p + length wire,
                           in_group_frames := in_group_frames p + 1, in_last := Some (json_merge D old patch)\<rparr>))))"

definition inner_update :: "('f, 't, 'z, 'd) deps \<Rightarrow> nat \<Rightarrow> 'f ser \<Rightarrow> world \<Rightarrow> ('f, 'z) inner
    \<Rightarrow> (stream_error + unit) \<times> world \<times> ('f, 'z) inner" where
  "inner_update D now x w p =
     (case in_last p of
        None \<Rightarrow> inner_snapshot D now x w p
      | Some old \<Rightarrow>
          let d = diff (to_value D) old x
          in if \<not> jd_forced_snapshot d \<and> jd_patch d = JObject [] then (Inr (), w, p)
             else if jd_forced_snapshot d \<or> \<not> delta_allowed p then inner_snapshot D now x w p
             else write_delta D old (jd_patch d) w p)"

definition inner_finish :: "world \<Rightarrow> ('f, 'z) inner \<Rightarrow> (stream_error + unit) \<times> world \<times> ('f, 'z) inner" where
  "inner_finish w p =
     (case close_group w p of
        Inl e \<Rightarrow> (Inl (ErrNet e), w, p\<lparr>in_group := None\<rparr>)
      | Inr w \<Rightarrow>
          (case track_finish (w_track w) of
             Inl e \<Rightarrow> (Inl (ErrNet e), w, p\<lparr>in_group := None\<rparr>)
           | Inr tk \<Rightarrow> (Inr (), w\<lparr>w_track := tk\<rparr>, p\<lparr>in_group := None\<rparr>)))"

section \<open>The consumer\<close>

text \<open>The fields of \<open>Consumer\<close> that follow one group are kept together in \<open>reading\<close>.\<close>

record ('f, 'd) reading =
  rd_compressed :: bool
  rd_decoder :: "'d option"
  rd_slices :: "byte list list"
  rd_current :: "'f json option"
  rd_frames_read :: nat

record ('f, 'd) consumer =
  jc_track :: track_consumer
  jc_group :: "(nat \<times> nat) option"
  jc_reading :: "('f, 'd) reading"

definition reading_new :: "bool \<Rightarrow> ('f, 'd) reading" where
  "reading_new compressed = \<lparr>rd_compressed = compressed, rd_decoder = None, rd_slices = [], rd_current = None, rd_frames_read = 0\<rparr>"

definition consumer_new :: "bool \<Rightarrow> ('f, 'd) consumer" where
  "consumer_new compressed = \<lparr>jc_track = track_consume, jc_group = None, jc_reading = reading_new compressed\<rparr>"

text \<open>A clone has no decoder; the next read replays the slices of the group.\<close>

definition consumer_clone :: "('f, 'd) consumer \<Rightarrow> ('f, 'd) consumer" where
  "consumer_clone c = c\<lparr>jc_reading := (jc_reading c)\<lparr>rd_decoder := None\<rparr>\<rparr>"

fun replay :: "('f, 't, 'z, 'd) deps \<Rightarrow> 'd \<Rightarrow> byte list list \<Rightarrow> stream_error + 'd" where
  "replay D d [] = Inr d"
| "replay D d (wire # wires) =
     (case decoder_frame (decompress D) DEFAULT_MAX_FRAME_SIZE d wire of
        None \<Rightarrow> Inl StreamPanic
      | Some (Inl e, d) \<Rightarrow> Inl (ErrFlate e)
      | Some (Inr _, d) \<Rightarrow> replay D d wires)"

definition decode_wire :: "('f, 't, 'z, 'd) deps \<Rightarrow> byte list \<Rightarrow> ('f, 'd) reading \<Rightarrow> (stream_error + byte list) \<times> ('f, 'd) reading" where
  "decode_wire D wire r =
     (if \<not> rd_compressed r then (Inr wire, r)
      else case (case rd_decoder r of Some d \<Rightarrow> Inr d | None \<Rightarrow> replay D (decompress_new D) (rd_slices r)) of
             Inl e \<Rightarrow> (Inl e, r)
           | Inr d \<Rightarrow>
               (case decoder_frame (decompress D) DEFAULT_MAX_FRAME_SIZE d wire of
                  None \<Rightarrow> (Inl StreamPanic, r\<lparr>rd_decoder := Some d\<rparr>)
                | Some (Inl e, d) \<Rightarrow> (Inl (ErrFlate e), r\<lparr>rd_decoder := Some d\<rparr>)
                | Some (Inr plain, d) \<Rightarrow> (Inr plain, r\<lparr>rd_decoder := Some d, rd_slices := rd_slices r @ [wire]\<rparr>)))"

definition apply_frame :: "('f, 't, 'z, 'd) deps \<Rightarrow> byte list \<Rightarrow> ('f, 'd) reading \<Rightarrow> stream_error option \<times> ('f, 'd) reading" where
  "apply_frame D wire r =
     (case decode_wire D wire r of
        (Inl e, r) \<Rightarrow> (Some e, r)
      | (Inr plain, r) \<Rightarrow>
          if rd_frames_read r = 0 then
            (case from_slice D plain of
               Inl e \<Rightarrow> (Some (ErrJson e), r)
             | Inr v \<Rightarrow> (None, r\<lparr>rd_current := Some v, rd_frames_read := rd_frames_read r + 1\<rparr>))
          else
            (case from_slice D plain of
               Inl e \<Rightarrow> (Some (ErrJson e), r)
             | Inr patch \<Rightarrow>
                 (case rd_current r of
                    None \<Rightarrow> (Some StreamPanic, r)
                  | Some v \<Rightarrow> (None, r\<lparr>rd_current := Some (json_merge D v patch), rd_frames_read := rd_frames_read r + 1\<rparr>))))"

definition reconstruct :: "('f, 't, 'z, 'd) deps \<Rightarrow> ('f, 'd) reading \<Rightarrow> stream_error + 't" where
  "reconstruct D r =
     (case rd_current r of
        None \<Rightarrow> Inl StreamPanic
      | Some v \<Rightarrow> (case from_value D v of Inl e \<Rightarrow> Inl (ErrJson e) | Inr t \<Rightarrow> Inr t))"

lemma poll_next_group_index:
  "poll_next_group s c = (Ready (Inr (Some g)), c') \<Longrightarrow> tc_index c < tc_index c' \<and> tc_index c' \<le> tk_offset s + length (tk_groups s)"
proof (induction s c rule: poll_next_group.induct)
  case (1 s c)
  obtain p c1 where p: "poll_recv_group s c = (p, c1)" by fastforce
  show ?case
  proof (cases "\<exists>g. p = Ready (Inr (Some g))")
    case True
    then obtain h where h: "poll_recv_group s c = (Ready (Inr (Some h)), c1)" using p by auto
    note i = poll_recv_group_index [OF h]
    show ?thesis
    proof (cases "sequence h < tc_next_sequence c1")
      case True
      then have "poll_next_group s c1 = (Ready (Inr (Some g)), c')" using 1(2) h by (simp add: poll_next_group.simps [of s c])
      from 1(1) [OF h [symmetric] refl refl refl True this] show ?thesis using i by linarith
    next
      case False
      then show ?thesis using 1(2) h i by (auto simp: poll_next_group.simps [of s c])
    qed
  next
    case False
    then show ?thesis using 1(2) p by (auto simp: poll_next_group.simps [of s c] split: poll.splits sum.splits option.splits)
  qed
qed

text \<open>The first loop of \<open>poll_next\<close>: to the newest group, and whether the track has ended.\<close>

function drain :: "world \<Rightarrow> ('f, 'd) consumer \<Rightarrow> (moq_error + bool) \<times> ('f, 'd) consumer" where
  "drain w c =
     (case poll_next_group (w_track w) (jc_track c) of
        (Ready (Inr (Some g)), tc) \<Rightarrow>
          drain w \<lparr>jc_track = tc, jc_group = Some (fst g, 0), jc_reading = reading_new (rd_compressed (jc_reading c))\<rparr>
      | (Ready (Inr None), tc) \<Rightarrow> (Inr True, c\<lparr>jc_track := tc\<rparr>)
      | (Pending, tc) \<Rightarrow> (Inr False, c\<lparr>jc_track := tc\<rparr>)
      | (Ready (Inl e), tc) \<Rightarrow> (Inl e, c\<lparr>jc_track := tc\<rparr>))"
  by pat_completeness auto
termination
proof (relation "measure (\<lambda>(w, c). tk_offset (w_track w) + length (tk_groups (w_track w)) - tc_index (jc_track c))", goal_cases)
  case (2 w c x1 x2 x3 x4 g)
  then show ?case using poll_next_group_index [of "w_track w" "jc_track c" g x2] by auto
qed simp

declare drain.simps [simp del]

lemma poll_read_frame_index:
  "poll_read_frame i (h, g) = (Ready (Inr (Some bs)), i') \<Longrightarrow> i' = i + 1 \<and> i < frame_count g"
  by (auto simp: poll_read_frame_def poll_get_frame_def get_frame_state_def settle_def frame_count_def
      split: poll.splits sum.splits option.splits if_splits)

text \<open>The second loop: every frame the group has, and then whether any was applied and whether more may come.\<close>

function read_frames :: "('f, 't, 'z, 'd) deps \<Rightarrow> world \<Rightarrow> (nat \<times> nat) option \<Rightarrow> ('f, 'd) reading \<Rightarrow> bool
    \<Rightarrow> (stream_error + bool \<times> bool) \<times> (nat \<times> nat) option \<times> ('f, 'd) reading" where
  "read_frames D w None r advanced = (Inr (advanced, False), None, r)"
| "read_frames D w (Some (a, i)) r advanced =
     (case poll_read_frame i (w_groups w ! a) of
        (Ready (Inr (Some wire)), i) \<Rightarrow>
          (case apply_frame D wire r of
             (Some e, r) \<Rightarrow> (Inl e, Some (a, i), r)
           | (None, r) \<Rightarrow> read_frames D w (Some (a, i)) r True)
      | (Ready (Inr None), _) \<Rightarrow> (Inr (advanced, False), None, r)
      | (Pending, _) \<Rightarrow> (Inr (advanced, True), Some (a, i), r)
      | (Ready (Inl e), _) \<Rightarrow> (Inl (ErrNet e), Some (a, i), r))"
  by pat_completeness auto
termination
proof (relation "measure (\<lambda>(D, w, g, r, adv). case g of None \<Rightarrow> 0 | Some (a, i) \<Rightarrow> frame_count (snd (w_groups w ! a)) - i)", goal_cases)
  case (2 D w a i r adv x1 i' x2 x3 wire x4 r')
  then show ?case using poll_read_frame_index [of i "fst (w_groups w ! a)" "snd (w_groups w ! a)" wire i'] by auto
qed simp

definition poll_next :: "('f, 't, 'z, 'd) deps \<Rightarrow> world \<Rightarrow> ('f, 'd) consumer \<Rightarrow> (stream_error + 't option) poll \<times> ('f, 'd) consumer" where
  "poll_next D w c =
     (case drain w c of
        (Inl e, c) \<Rightarrow> (Ready (Inl (ErrNet e)), c)
      | (Inr track_finished, c) \<Rightarrow>
          (case read_frames D w (jc_group c) (jc_reading c) False of
             (Inl e, g, r) \<Rightarrow> (Ready (Inl e), c\<lparr>jc_group := g, jc_reading := r\<rparr>)
           | (Inr (advanced, group_pending), g, r) \<Rightarrow>
               ((if advanced then Ready (case reconstruct D r of Inl e \<Rightarrow> Inl e | Inr t \<Rightarrow> Inr (Some t))
                 else if group_pending then Pending
                 else if track_finished then Ready (Inr None) else Pending),
                c\<lparr>jc_group := g, jc_reading := r\<rparr>)))"

section \<open>What the libraries promise\<close>

text \<open>
  \<open>paired\<close> is the relation between a compressor and a decompressor of \<open>flate2_stream\<close>. What is published converts to
  bytes that parse to the same value, each at most \<open>L\<close> long, and so do the patches between published values; no key is
  offered twice and a patch can express the changes.
\<close>

definition codec_ok :: "('f, 't, 'z, 'd) deps \<Rightarrow> ('z \<Rightarrow> 'd \<Rightarrow> bool) \<Rightarrow> bool" where
  "codec_ok D paired \<longleftrightarrow> paired (compress_new D) (decompress_new D) \<and> (\<forall>z d x. paired z d \<and> x \<noteq> [] \<longrightarrow>
     (\<exists>w z' d1 x1 x2 d'. deflates (compress D) z x (w @ SYNC_FLUSH_TAIL) z' \<and> w \<noteq> []
        \<and> inflates (decompress D) d w x1 d1 \<and> inflates (decompress D) d1 SYNC_FLUSH_TAIL x2 d' \<and> x1 @ x2 = x \<and> paired z' d'))"

definition publishable :: "('f, 't, 'z, 'd) deps \<Rightarrow> nat \<Rightarrow> 'f ser set \<Rightarrow> bool" where
  "publishable D L X \<longleftrightarrow>
     (\<forall>x \<in> X. keys_once x \<and> (\<exists>bs v t. to_vec D x = Inr bs \<and> length bs \<le> L \<and> from_slice D bs = Inr v \<and> to_value D x = Inr v \<and> from_value D v = Inr t))
   \<and> (\<forall>x \<in> X. \<forall>y \<in> X. \<forall>u v. to_value D y = Inr u \<and> to_value D x = Inr v \<longrightarrow> expressible u v
        \<and> (\<exists>bs. value_to_vec D (jd_patch (diff (to_value D) u x)) = Inr bs
             \<and> from_slice D bs = Inr (jd_patch (diff (to_value D) u x)) \<and> length bs \<le> L))"

text \<open>Frames of at most \<open>L\<close> bytes take at most \<open>F\<close> on the wire, and the deltas of a group fit into its cache.\<close>

definition roomy :: "('f, 't, 'z, 'd) deps \<Rightarrow> ('z \<Rightarrow> 'd \<Rightarrow> bool) \<Rightarrow> nat \<Rightarrow> nat \<Rightarrow> nat \<Rightarrow> bool" where
  "roomy D paired ratio L F \<longleftrightarrow> L \<le> DEFAULT_MAX_FRAME_SIZE \<and> (ratio + 2) * F \<le> MAX_GROUP_CACHE
     \<and> (\<forall>enc bs wire enc'. length bs \<le> L \<longrightarrow> enc = None \<or> (\<exists>z d. enc = Some z \<and> paired z d) \<longrightarrow>
          to_wire D enc bs = Some (wire, enc') \<longrightarrow> length wire \<le> F)"

lemma roomy_wire:
  "roomy D paired ratio L F \<Longrightarrow> length bs \<le> L \<Longrightarrow> enc = None \<or> (\<exists>z d. enc = Some z \<and> paired z d) \<Longrightarrow> to_wire D enc bs = Some (wire, enc')
   \<Longrightarrow> length wire \<le> F"
  unfolding roomy_def by blast

section \<open>Reading the frames of a group\<close>

fun apply_frames :: "('f, 't, 'z, 'd) deps \<Rightarrow> byte list list \<Rightarrow> ('f, 'd) reading \<Rightarrow> ('f, 'd) reading option" where
  "apply_frames D [] r = Some r"
| "apply_frames D (wire # wires) r = (case apply_frame D wire r of (None, r) \<Rightarrow> apply_frames D wires r | (Some _, _) \<Rightarrow> None)"

lemma apply_frames_append: "apply_frames D (xs @ ys) r = Option.bind (apply_frames D xs r) (apply_frames D ys)"
  by (induction xs arbitrary: r) (auto split: prod.splits option.splits)

text \<open>The decoder a reading works with, and an encoder that is in step with it.\<close>

definition decoder_of :: "('f, 't, 'z, 'd) deps \<Rightarrow> ('f, 'd) reading \<Rightarrow> stream_error + 'd" where
  "decoder_of D r = (case rd_decoder r of Some d \<Rightarrow> Inr d | None \<Rightarrow> replay D (decompress_new D) (rd_slices r))"

definition in_step :: "('f, 't, 'z, 'd) deps \<Rightarrow> ('z \<Rightarrow> 'd \<Rightarrow> bool) \<Rightarrow> 'z option \<Rightarrow> ('f, 'd) reading \<Rightarrow> bool" where
  "in_step D paired enc r \<longleftrightarrow> (if rd_compressed r then \<exists>z d. enc = Some z \<and> decoder_of D r = Inr d \<and> paired z d else enc = None)"

lemma decoder_of_update [simp]: "decoder_of D (r\<lparr>rd_current := v, rd_frames_read := n\<rparr>) = decoder_of D r"
  by (simp add: decoder_of_def split: option.split)

lemma in_step_update [simp]: "in_step D paired enc (r\<lparr>rd_current := v, rd_frames_read := n\<rparr>) = in_step D paired enc r"
  by (simp add: in_step_def)

lemma in_step_new: "codec_ok D paired \<Longrightarrow> in_step D paired (if zipped then Some (compress_new D) else None) (reading_new zipped)"
  by (simp add: in_step_def reading_new_def decoder_of_def codec_ok_def)

text \<open>A frame through both ends.\<close>

lemma wire_step:
  assumes "codec_ok D paired" "in_step D paired enc r" "length bs \<le> DEFAULT_MAX_FRAME_SIZE"
  shows "\<exists>wire enc' r'. to_wire D enc bs = Some (wire, enc') \<and> decode_wire D wire r = (Inr bs, r') \<and> in_step D paired enc' r'
    \<and> rd_current r' = rd_current r \<and> rd_frames_read r' = rd_frames_read r \<and> rd_compressed r' = rd_compressed r"
proof (cases "rd_compressed r")
  case True
  then obtain z d where z: "enc = Some z" "decoder_of D r = Inr d" "paired z d" using assms(2) by (auto simp: in_step_def)
  obtain w z' d' where w: "encoder_frame (compress D) z bs = Some (w, z')" "decoder_frame (decompress D) DEFAULT_MAX_FRAME_SIZE d w = Some (Inr bs, d')" "paired z' d'"
    using flate_step [of paired "compress D" "decompress D" z d bs, OF _ z(3) assms(3)] assms(1) unfolding codec_ok_def by blast
  have "decode_wire D w r = (Inr bs, r\<lparr>rd_decoder := Some d', rd_slices := rd_slices r @ [w]\<rparr>)"
    using z(2) w(2) True by (simp add: decode_wire_def decoder_of_def)
  then show ?thesis using z(1) w True by (auto simp: to_wire_def in_step_def decoder_of_def)
next
  case False
  then show ?thesis using assms(2) by (auto simp: to_wire_def decode_wire_def in_step_def)
qed

lemma snapshot_step:
  assumes "codec_ok D paired" "length bs \<le> DEFAULT_MAX_FRAME_SIZE" "from_slice D bs = Inr v"
  shows "\<exists>wire enc r. to_wire D (if zipped then Some (compress_new D) else None) bs = Some (wire, enc)
    \<and> apply_frames D [wire] (reading_new zipped) = Some r \<and> rd_current r = Some v \<and> in_step D paired enc r"
proof -
  obtain wire enc r where r: "to_wire D (if zipped then Some (compress_new D) else None) bs = Some (wire, enc)"
    "decode_wire D wire (reading_new zipped) = (Inr bs, r)" "in_step D paired enc r" "rd_frames_read r = 0"
    using wire_step [OF assms(1) in_step_new [OF assms(1), of zipped] assms(2)] by (auto simp: reading_new_def)
  then show ?thesis using assms(3)
    by (intro exI [of _ wire] exI [of _ enc] exI [of _ "r\<lparr>rd_current := Some v, rd_frames_read := 1\<rparr>"])
      (simp add: apply_frame_def)
qed

lemma delta_step:
  assumes "codec_ok D paired" "in_step D paired enc r" "length bs \<le> DEFAULT_MAX_FRAME_SIZE" "from_slice D bs = Inr patch"
    and "rd_current r = Some v" "0 < rd_frames_read r"
  shows "\<exists>wire enc' r'. to_wire D enc bs = Some (wire, enc') \<and> apply_frame D wire r = (None, r')
    \<and> rd_current r' = Some (json_merge D v patch) \<and> in_step D paired enc' r'"
proof -
  obtain wire enc' r' where r: "to_wire D enc bs = Some (wire, enc')" "decode_wire D wire r = (Inr bs, r')" "in_step D paired enc' r'"
    "rd_current r' = Some v" "0 < rd_frames_read r'"
    using wire_step [OF assms(1-3)] assms(5,6) by auto
  then show ?thesis using assms(4)
    by (intro exI [of _ wire] exI [of _ enc'] exI [of _ "r'\<lparr>rd_current := Some (json_merge D v patch), rd_frames_read := rd_frames_read r' + 1\<rparr>"])
      (simp add: apply_frame_def)
qed

text \<open>A clone of a reading has no decoder and rebuilds it from the slices.\<close>

definition rebuildable :: "('f, 't, 'z, 'd) deps \<Rightarrow> ('f, 'd) reading \<Rightarrow> bool" where
  "rebuildable D r \<longleftrightarrow> (if rd_compressed r then replay D (decompress_new D) (rd_slices r) = decoder_of D r else rd_decoder r = None)"

lemma rebuildable_new: "rebuildable D (reading_new zipped)"
  by (simp add: rebuildable_def reading_new_def decoder_of_def)

lemma apply_frame_clone:
  assumes "rebuildable D r" "apply_frame D wire r = (None, r')"
  shows "apply_frame D wire (r\<lparr>rd_decoder := None\<rparr>) = (None, r')"
proof (cases "rd_compressed r")
  case True
  then have "decode_wire D wire (r\<lparr>rd_decoder := None\<rparr>) = decode_wire D wire r" if "decode_wire D wire r = (Inr plain, r1)" for plain r1
    using that assms(1) by (auto simp: rebuildable_def decode_wire_def decoder_of_def split: sum.splits option.splits prod.splits)
  then show ?thesis using assms(2) by (auto simp: apply_frame_def split: prod.splits sum.splits)
next
  case False
  then have "r\<lparr>rd_decoder := None\<rparr> = r" using assms(1) by (simp add: rebuildable_def)
  then show ?thesis using assms(2) by simp
qed

lemma replay_append: "replay D d xs = Inr d1 \<Longrightarrow> replay D d (xs @ ys) = replay D d1 ys"
  by (induction xs arbitrary: d) (auto split: option.splits sum.splits prod.splits)

lemma decode_wire_rebuildable:
  assumes "rebuildable D r" "decode_wire D wire r = (Inr plain, r')"
  shows "rebuildable D r' \<and> rd_compressed r' = rd_compressed r"
proof (cases "rd_compressed r")
  case True
  then obtain d d' where d: "decoder_of D r = Inr d" "decoder_frame (decompress D) DEFAULT_MAX_FRAME_SIZE d wire = Some (Inr plain, d')"
    "r' = r\<lparr>rd_decoder := Some d', rd_slices := rd_slices r @ [wire]\<rparr>"
    using assms(2) by (auto simp: decode_wire_def decoder_of_def split: sum.splits prod.splits option.splits)
  then have "replay D (decompress_new D) (rd_slices r) = Inr d" using assms(1) True by (simp add: rebuildable_def)
  then show ?thesis using d True by (simp add: rebuildable_def decoder_of_def replay_append)
next
  case False
  then show ?thesis using assms by (simp add: decode_wire_def)
qed

lemma apply_frame_rebuildable:
  assumes "rebuildable D r" "apply_frame D wire r = (None, r')"
  shows "rebuildable D r' \<and> rd_compressed r' = rd_compressed r \<and> 0 < rd_frames_read r'"
proof -
  obtain plain r1 where r1: "decode_wire D wire r = (Inr plain, r1)" using assms(2)
    by (auto simp: apply_frame_def split: prod.splits sum.splits)
  then obtain v n where "r' = r1\<lparr>rd_current := v, rd_frames_read := Suc n\<rparr>" using assms(2)
    by (auto simp: apply_frame_def split: sum.splits if_splits option.splits)
  then show ?thesis using decode_wire_rebuildable [OF assms(1) r1] by (simp add: rebuildable_def)
qed

lemma apply_frames_rebuildable:
  "rebuildable D r \<Longrightarrow> apply_frames D wires r = Some r' \<Longrightarrow>
   rebuildable D r' \<and> rd_compressed r' = rd_compressed r \<and> (wires \<noteq> [] \<longrightarrow> 0 < rd_frames_read r')"
proof (induction wires arbitrary: r)
  case (Cons wire wires)
  then obtain r1 where r1: "apply_frame D wire r = (None, r1)" "apply_frames D wires r1 = Some r'" by (auto split: prod.splits option.splits)
  show ?case using Cons.IH [OF _ r1(2)] apply_frame_rebuildable [OF Cons.prems(1) r1(1)] r1(2) by (cases wires) auto
qed simp

text \<open>A reader that has read \<open>wires\<close> of a group: as one that never was cloned, or as a clone of it.\<close>

definition has_read :: "('f, 't, 'z, 'd) deps \<Rightarrow> bool \<Rightarrow> byte list list \<Rightarrow> ('f, 'd) reading \<Rightarrow> bool" where
  "has_read D zipped wires r \<longleftrightarrow>
     (\<exists>r0. apply_frames D wires (reading_new zipped) = Some r0 \<and> (r = r0 \<or> r = r0\<lparr>rd_decoder := None\<rparr>))"

lemma has_read_more:
  assumes "has_read D zipped xs r" "apply_frames D (xs @ ys) (reading_new zipped) = Some r'"
  shows "\<exists>r1. apply_frames D ys r = Some r1 \<and> has_read D zipped (xs @ ys) r1 \<and> rd_current r1 = rd_current r'"
proof -
  obtain r0 where r0: "apply_frames D xs (reading_new zipped) = Some r0" "r = r0 \<or> r = r0\<lparr>rd_decoder := None\<rparr>"
    using assms(1) by (auto simp: has_read_def)
  have ys: "apply_frames D ys r0 = Some r'" using assms(2) r0(1) by (simp add: apply_frames_append)
  have reb: "rebuildable D r0" using apply_frames_rebuildable [OF rebuildable_new r0(1)] by simp
  show ?thesis
  proof (cases ys)
    case Nil
    then show ?thesis using r0 ys assms(1) by auto
  next
    case (Cons y zs)
    then obtain r1 where r1: "apply_frame D y r0 = (None, r1)" "apply_frames D zs r1 = Some r'" using ys by (auto split: prod.splits option.splits)
    then have "apply_frames D ys r = Some r'" using r0(2) apply_frame_clone [OF reb r1(1)] Cons by auto
    then show ?thesis using assms(2) by (auto simp: has_read_def)
  qed
qed

section \<open>Reaching the newest group\<close>

text \<open>A track whose groups were all appended: the \<open>k\<close>-th has address and sequence number \<open>k\<close>.\<close>

definition numbered :: "nat \<Rightarrow> nat set \<Rightarrow> track_state \<Rightarrow> bool" where
  "numbered n T s \<longleftrightarrow> (\<exists>arr. track_inv arr T s \<and> map fst arr = map (\<lambda>k. (k, k)) [0..<n])"

lemma numbered_slot:
  assumes "numbered n T s" "slot_at s j = Some (g, t)"
  shows "j < n \<and> g = (j, j)"
proof -
  obtain arr where arr: "track_inv arr T s" "map fst arr = map (\<lambda>k. (k, k)) [0..<n]" using assms(1) by (auto simp: numbered_def)
  have len: "length arr = n" using arr(2) by (metis diff_zero length_map length_upt)
  have j: "j < length arr" using assms(2) arr(1) by (auto simp: slot_at_def track_inv_def split: if_splits)
  then have "slot_at s j = Some (arr ! j)" using assms(2) arr(1) by (auto simp: track_inv_def)
  then have "arr ! j = (g, t)" using assms(2) by simp
  moreover have "map fst arr ! j = (j, j)" using arr(2) j len by simp
  ultimately show ?thesis using j len by simp
qed

lemma numbered_newest:
  assumes "numbered n T s" "0 < n"
  shows "\<exists>t. slot_at s (n - 1) = Some ((n - 1, n - 1), t)"
proof -
  obtain arr where arr: "track_inv arr T s" "map fst arr = map (\<lambda>k. (k, k)) [0..<n]" using assms(1) by (auto simp: numbered_def)
  have "sequence ` fst ` set arr = set (map snd (map fst arr))" by (simp add: image_image)
  then have seqs: "sequence ` fst ` set arr = {0..<n}" unfolding arr(2) by (auto simp: image_image)
  moreover have "Max {0..<n} = n - 1" using assms(2) by (intro Max_eqI) auto
  moreover have "arr \<noteq> []" using seqs assms(2) by auto
  ultimately have "n - 1 \<in> set (map sequence (lives (tk_groups s)))" using arr(1) by (simp add: track_inv_def)
  then obtain g t where g: "Some (g, t) \<in> set (tk_groups s)" "sequence g = n - 1" by (auto simp: in_lives)
  then obtain q where q: "q < length (tk_groups s)" "tk_groups s ! q = Some (g, t)" by (metis in_set_conv_nth)
  then have at: "slot_at s (tk_offset s + q) = Some (g, t)" by (simp add: slot_at_def)
  then have "tk_offset s + q = n - 1" "g = (n - 1, n - 1)" using numbered_slot [OF assms(1) at] g(2) by auto
  then show ?thesis using at by auto
qed

lemma numbered_open: "numbered n T s \<Longrightarrow> tk_abort s = None \<and> \<not> tk_closed s \<and> tk_offset s + length (tk_groups s) = n"
proof -
  assume "numbered n T s"
  then obtain arr where arr: "track_inv arr T s" "map fst arr = map (\<lambda>k. (k, k)) [0..<n]" by (auto simp: numbered_def)
  then have "length arr = n" by (metis diff_zero length_map length_upt)
  then show ?thesis using arr(1) by (simp add: track_inv_def)
qed

lemma recv_numbered:
  assumes "numbered n T s" "tc_min_sequence c = 0" "tc_index c < n"
  shows "\<exists>j. tc_index c \<le> j \<and> j < n \<and> poll_recv_group s c = (Ready (Inr (Some (j, j))), c\<lparr>tc_index := j + 1\<rparr>)"
proof -
  let ?p = "recv_group_state (tc_index c) 0 s"
  have live: "slot_at s (n - 1) \<noteq> None" "tc_index c \<le> n - 1" using numbered_newest [OF assms(1)] assms(3) by auto
  have "\<not> (?p = Pending \<or> ?p = Ready (Inr None))"
    using recv_group_none [of "tc_index c" 0 s] live by (metis passed_0)
  moreover have "?p \<noteq> Ready (Inl e)" for e
    using numbered_open [OF assms(1)] by (auto simp: recv_group_state_def ended_def Let_def split: option.splits)
  ultimately obtain g j where p: "?p = Ready (Inr (Some (g, j)))"
    by (metis poll.exhaust sum.exhaust option.exhaust prod.exhaust)
  then obtain t where "slot_at s j = Some (g, t)" "tc_index c \<le> j" using recv_group_found [OF p] by blast
  then show ?thesis using numbered_slot [OF assms(1), of j g t] p assms(2)
    by (auto simp: poll_recv_group_def track_settle_def settle_def)
qed

lemma next_numbered:
  assumes "numbered n T s" "tc_min_sequence c = 0" "tc_next_sequence c = tc_index c" "tc_index c < n" "n \<le> u64_max"
  shows "\<exists>j. tc_index c \<le> j \<and> j < n \<and> poll_next_group s c = (Ready (Inr (Some (j, j))), c\<lparr>tc_index := j + 1, tc_next_sequence := j + 1\<rparr>)"
proof -
  obtain j where j: "tc_index c \<le> j" "j < n" "poll_recv_group s c = (Ready (Inr (Some (j, j))), c\<lparr>tc_index := j + 1\<rparr>)"
    using recv_numbered [OF assms(1,2,4)] by blast
  then show ?thesis using assms(3,5) by (intro exI [of _ j]) (simp add: poll_next_group.simps saturating_next_def min_def)
qed

lemma next_numbered_none:
  assumes "numbered n T s" "tc_index c = n"
  shows "poll_next_group s c = (if tk_final s \<noteq> None then Ready (Inr None) else Pending, c)"
  using numbered_open [OF assms(1)] assms(2)
  by (auto simp: poll_next_group.simps poll_recv_group_def recv_group_state_def ended_def track_settle_def settle_def Let_def)

lemma drain_newest:
  fixes c :: "('f, 'd) consumer"
  assumes "numbered n T (w_track w)" "n \<le> u64_max" "tc_min_sequence (jc_track c) = 0"
    and "tc_next_sequence (jc_track c) = tc_index (jc_track c)" "tc_index (jc_track c) \<le> n"
  shows "drain w c = (Inr (tk_final (w_track w) \<noteq> None),
     (if tc_index (jc_track c) = n then c
      else \<lparr>jc_track = \<lparr>tc_index = n, tc_min_sequence = 0, tc_next_sequence = n\<rparr>, jc_group = Some (n - 1, 0),
        jc_reading = reading_new (rd_compressed (jc_reading c))\<rparr>))"
  using assms(3-5)
proof (induction "n - tc_index (jc_track c)" arbitrary: c rule: less_induct)
  case less
  show ?case
  proof (cases "tc_index (jc_track c) = n")
    case True
    then show ?thesis using next_numbered_none [OF assms(1), of "jc_track c"] by (simp add: drain.simps)
  next
    case False
    then obtain j where j: "tc_index (jc_track c) \<le> j" "j < n"
      "poll_next_group (w_track w) (jc_track c) = (Ready (Inr (Some (j, j))), (jc_track c)\<lparr>tc_index := j + 1, tc_next_sequence := j + 1\<rparr>)"
      using next_numbered [OF assms(1) less.prems(1,2) _ assms(2)] less.prems(3) by auto
    let ?c = "\<lparr>jc_track = (jc_track c)\<lparr>tc_index := j + 1, tc_next_sequence := j + 1\<rparr>, jc_group = Some (j, 0),
        jc_reading = reading_new (rd_compressed (jc_reading c))\<rparr> :: ('f, 'd) consumer"
    have "drain w c = drain w ?c" using j(3) by (simp add: drain.simps [of w c])
    also have "\<dots> = (Inr (tk_final (w_track w) \<noteq> None), (if j + 1 = n then ?c
      else \<lparr>jc_track = \<lparr>tc_index = n, tc_min_sequence = 0, tc_next_sequence = n\<rparr>, jc_group = Some (n - 1, 0),
        jc_reading = reading_new (rd_compressed (jc_reading ?c))\<rparr>))"
      using less.hyps [of ?c] j less.prems(1) by simp
    finally show ?thesis using False less.prems(1) by (cases "jc_track c") (auto simp: reading_new_def)
  qed
qed

section \<open>Reading to the end of the group\<close>

lemma read_frames_all:
  assumes "group_holds wires (w_groups w ! a)" "gr_offset (snd (w_groups w ! a)) = 0"
  shows "i \<le> length wires \<Longrightarrow> apply_frames D (drop i wires) r = Some r' \<Longrightarrow>
    read_frames D w (Some (a, i)) r adv =
      (Inr (adv \<or> i < length wires, \<not> gr_fin (snd (w_groups w ! a))), (if gr_fin (snd (w_groups w ! a)) then None else Some (a, length wires)), r')"
proof (induction "length wires - i" arbitrary: i r adv)
  case 0
  obtain h g where hg: "w_groups w ! a = (h, g)" by fastforce
  then show ?case using 0 poll_read_frame_holds [of wires h g i] assms by simp
next
  case (Suc n)
  obtain h g where hg: "w_groups w ! a = (h, g)" by fastforce
  have i: "i < length wires" using Suc.hyps(2) by simp
  then have d: "drop i wires = wires ! i # drop (Suc i) wires" by (simp add: Cons_nth_drop_Suc)
  then obtain r1 where r1: "apply_frame D (wires ! i) r = (None, r1)" "apply_frames D (drop (Suc i) wires) r1 = Some r'"
    using Suc.prems(2) by (auto split: prod.splits option.splits)
  have "read_frames D w (Some (a, i)) r adv = read_frames D w (Some (a, Suc i)) r1 True"
    using poll_read_frame_holds [of wires h g i] assms hg i r1(1) by simp
  then show ?case using Suc.hyps(1) [of "Suc i" r1 True] Suc.hyps(2) i r1(2) by simp
qed

section \<open>The producer keeps its promises\<close>

text \<open>\<open>G\<close> lists the wire frames of every group so far. The open group is the last one; what it replays to is the baseline.\<close>

definition budget :: "nat \<Rightarrow> ('f, 'z) inner \<Rightarrow> byte list list \<Rightarrow> bool" where
  "budget F p wires \<longleftrightarrow> in_group_frames p = length wires \<and> length wires \<le> MAX_DELTA_FRAMES \<and> in_snapshot_len p = length (hd wires)
     \<and> in_delta_bytes p = sum_list (map length (tl wires)) \<and> (\<forall>wire \<in> set wires. length wire \<le> F)"

definition group_inv :: "('f, 'z) inner \<Rightarrow> world \<Rightarrow> byte list list list \<Rightarrow> nat \<Rightarrow> bool" where
  "group_inv p w G k \<longleftrightarrow> G ! k \<noteq> [] \<and> group_holds (G ! k) (w_groups w ! k) \<and> gr_offset (snd (w_groups w ! k)) = 0
     \<and> (gr_fin (snd (w_groups w ! k)) \<longleftrightarrow> in_group p \<noteq> Some k)"

definition baseline :: "('f, 't, 'z, 'd) deps \<Rightarrow> ('z \<Rightarrow> 'd \<Rightarrow> bool) \<Rightarrow> ('f, 'z) inner \<Rightarrow> byte list list list \<Rightarrow> bool" where
  "baseline D paired p G \<longleftrightarrow>
     (if G = [] then in_last p = None
      else \<exists>r v. apply_frames D (last G) (reading_new (in_compression p)) = Some r \<and> rd_current r = Some v \<and> in_last p = Some v
             \<and> (in_group p \<noteq> None \<longrightarrow> in_step D paired (in_encoder p) r))"

definition producer_inv :: "('f, 't, 'z, 'd) deps \<Rightarrow> ('z \<Rightarrow> 'd \<Rightarrow> bool) \<Rightarrow> nat \<Rightarrow> nat set \<Rightarrow> world \<Rightarrow> ('f, 'z) inner \<Rightarrow> byte list list list \<Rightarrow> bool" where
  "producer_inv D paired F T w p G \<longleftrightarrow>
     numbered (length G) T (w_track w) \<and> length (w_groups w) = length G \<and> (\<forall>k < length G. group_inv p w G k)
   \<and> (\<forall>fin. tk_final (w_track w) = Some fin \<longrightarrow> fin = length G \<and> in_group p = None)
   \<and> (\<forall>a. in_group p = Some a \<longrightarrow> a + 1 = length G \<and> budget F p (last G)) \<and> baseline D paired p G"

lemma numbered_new: "numbered 0 T track_new"
  using track_inv_new by (auto simp: numbered_def)

lemma numbered_max: "numbered n T s \<Longrightarrow> tk_max s = (if n = 0 then None else Some (n - 1))"
proof -
  assume "numbered n T s"
  then obtain arr where arr: "track_inv arr T s" "map fst arr = map (\<lambda>k. (k, k)) [0..<n]" by (auto simp: numbered_def)
  have "sequence ` fst ` set arr = set (map snd (map fst arr))" by (simp add: image_image)
  then have "sequence ` fst ` set arr = {0..<n}" unfolding arr(2) by (auto simp: image_image)
  moreover have "Max {0..<n} = n - 1" if "0 < n" using that by (intro Max_eqI) auto
  moreover have "length arr = n" using arr(2) by (metis diff_zero length_map length_upt)
  ultimately show ?thesis using arr(1) by (auto simp: track_inv_def)
qed

lemma numbered_next: "numbered n T s \<Longrightarrow> n \<le> u64_max \<Longrightarrow> next_sequence_of s = Inr n"
  using numbered_max [of n T s] by (auto simp: next_sequence_of_def)

lemma append_numbered:
  assumes "numbered n T s" "n \<le> u64_max" "tk_final s = None"
  shows "\<exists>s'. append_group n now s = Inr (n, s') \<and> numbered (n + 1) (insert now T) s' \<and> tk_final s' = None"
proof -
  obtain arr where arr: "track_inv arr T s" "map fst arr = map (\<lambda>k. (k, k)) [0..<n]" using assms(1) by (auto simp: numbered_def)
  note fresh = append_fresh [OF arr(1) numbered_next [OF assms(1,2)]]
  let ?s = "evict_expired now (s\<lparr>tk_duplicates := insert n (tk_duplicates s), tk_max := Some n, tk_groups := tk_groups s @ [Some ((n, n), now)]\<rparr>)"
  have "append_group n now s = Inr (n, ?s)"
    using numbered_open [OF assms(1)] numbered_next [OF assms(1,2)] assms(3) by (simp add: append_group_def track_modify_def at_end_def)
  moreover have "numbered (n + 1) (insert now T) ?s" unfolding numbered_def
    using track_inv_push [OF arr(1) conjunct1 [OF fresh] conjunct2 [OF fresh], of n now] arr(2)
    by (intro exI [of _ "arr @ [((n, n), now)]"]) simp
  moreover have "tk_final ?s = None" using assms(3) by (simp add: evict_expired_def split: prod.splits)
  ultimately show ?thesis by blast
qed

lemma append_after_end:
  assumes "numbered n T s" "n \<le> u64_max" "tk_final s = Some n"
  shows "append_group a now s = Inl ErrClosed"
  using numbered_open [OF assms(1)] numbered_next [OF assms(1,2)] assms(3) by (simp add: append_group_def track_modify_def at_end_def)

lemma finish_numbered:
  assumes "numbered n T s" "n \<le> u64_max" "tk_final s = None"
  shows "track_finish s = Inr (s\<lparr>tk_final := Some n\<rparr>)" "numbered n T (s\<lparr>tk_final := Some n\<rparr>)"
proof -
  show "track_finish s = Inr (s\<lparr>tk_final := Some n\<rparr>)"
    using numbered_open [OF assms(1)] numbered_next [OF assms(1,2)] assms(3) by (simp add: track_finish_def track_modify_def)
  have "slot_at (s\<lparr>tk_final := Some n\<rparr>) j = slot_at s j" for j by (simp add: slot_at_def)
  then have "track_inv arr T s \<Longrightarrow> track_inv arr T (s\<lparr>tk_final := Some n\<rparr>)" for arr unfolding track_inv_def by simp
  then show "numbered n T (s\<lparr>tk_final := Some n\<rparr>)" using assms(1) by (auto simp: numbered_def)
qed

text \<open>The steps of a snapshot.\<close>

lemma close_group_ok:
  assumes "producer_inv D paired F T w p G"
  shows "\<exists>w'. close_group w p = Inr w' \<and> w_track w' = w_track w \<and> producer_inv D paired F T w' (p\<lparr>in_group := None\<rparr>) G"
proof (cases "in_group p")
  case None
  then have eq: "p\<lparr>in_group := None\<rparr> = p" by simp
  have "close_group w p = Inr w" using None by (simp add: close_group_def)
  moreover have "producer_inv D paired F T w (p\<lparr>in_group := None\<rparr>) G" unfolding eq by (rule assms)
  ultimately show ?thesis by blast
next
  case (Some a)
  then have a: "a < length G" "length (w_groups w) = length G" using assms by (auto simp: producer_inv_def)
  obtain h g where hg: "w_groups w ! a = (h, g)" by fastforce
  then have holds: "group_holds (G ! a) (h, g)" "gr_offset g = 0" "G ! a \<noteq> []" using assms a(1) by (auto simp: producer_inv_def group_inv_def)
  let ?w = "w\<lparr>w_groups := (w_groups w)[a := (h, g\<lparr>gr_fin := True\<rparr>)]\<rparr>"
  have c: "close_group w p = Inr ?w"
    using holds(1) Some hg by (simp add: close_group_def world_finish_group_def group_finish_def group_modify_def group_holds_def)
  have "group_inv (p\<lparr>in_group := None\<rparr>) ?w G k" if "k < length G" for k
  proof (cases "k = a")
    case True
    then show ?thesis using holds a by (simp add: group_inv_def group_holds_def)
  next
    case False
    have "group_inv p w G k" using assms that by (simp add: producer_inv_def)
    then show ?thesis using False Some by (simp add: group_inv_def)
  qed
  then have "producer_inv D paired F T ?w (p\<lparr>in_group := None\<rparr>) G" using assms by (auto simp: producer_inv_def baseline_def)
  then show ?thesis using c by simp
qed

lemma open_group_ok:
  assumes inv: "producer_inv D paired F T w p G" and group: "in_group p = None" "tk_final (w_track w) = None" "length G \<le> u64_max"
    and D: "codec_ok D paired" "roomy D paired (in_delta_ratio p) L F"
    and x: "length bs \<le> L" "from_slice D bs = Inr v" "to_value D x = Inr v"
    and w1: "world_append_group now w = Inr (a, w1)"
  shows "\<exists>wire w' p'. open_group D x bs a w1 p = (Inr (), w', p') \<and> producer_inv D paired F (insert now T) w' p' (G @ [[wire]])
    \<and> in_last p' = Some v \<and> tk_final (w_track w') = None \<and> in_delta_ratio p' = in_delta_ratio p \<and> in_compression p' = in_compression p"
proof -
  let ?n = "length G"
  have num: "numbered ?n T (w_track w)" and len: "length (w_groups w) = ?n" using inv by (simp_all add: producer_inv_def)
  obtain tk where tk: "append_group ?n now (w_track w) = Inr (?n, tk)" "numbered (?n + 1) (insert now T) tk" "tk_final tk = None"
    using append_numbered [OF num group(3,2)] by blast
  have w1': "a = ?n" "w1 = \<lparr>w_track = tk, w_groups = w_groups w @ [([], group_new ?n)]\<rparr>"
    using w1 tk(1) len by (auto simp: world_append_group_def)
  have bs: "length bs \<le> DEFAULT_MAX_FRAME_SIZE" using x(1) D(2) by (simp add: roomy_def)
  obtain wire enc r where r: "to_wire D (if in_compression p then Some (compress_new D) else None) bs = Some (wire, enc)"
    "apply_frames D [wire] (reading_new (in_compression p)) = Some r" "rd_current r = Some v" "in_step D paired enc r"
    using snapshot_step [OF D(1) bs x(2)] by blast
  have "(if in_compression p then Some (compress_new D) else None) = None
      \<or> (\<exists>z d. (if in_compression p then Some (compress_new D) else None) = Some z \<and> paired z d)"
    using D(1) by (auto simp: codec_ok_def)
  from roomy_wire [OF D(2) x(1) this r(1)] have F: "length wire \<le> F" "2 * F \<le> MAX_GROUP_CACHE" using D(2) by (simp_all add: roomy_def)
  then have wire: "length wire \<le> MAX_FRAME_SIZE" "length wire \<le> MAX_GROUP_CACHE" by (auto simp: MAX_GROUP_CACHE_def MAX_FRAME_SIZE_def)
  obtain g where g: "group_write_frame wire ([], group_new ?n) = Inr ([complete_frame wire], g)" "group_holds [wire] ([complete_frame wire], g)"
    "\<not> gr_fin g" "gr_offset g = 0"
    using group_write_frame_ok [OF group_holds_new [of "[]" ?n] _ wire(1)] wire(2) by (auto simp: group_new_def MAX_GROUP_FRAMES_def)
  let ?w2 = "\<lparr>w_track = tk, w_groups = w_groups w @ [([complete_frame wire], g)]\<rparr>"
  have w2: "world_write_frame a wire w1 = Inr ?w2" using g(1) len w1' by (simp add: world_write_frame_def nth_append list_update_append)
  have old: "group_inv p' \<lparr>w_track = tk, w_groups = w_groups w @ [x]\<rparr> (G @ [[wire]]) k" if "k < ?n" "in_group p' \<noteq> Some k" for k p' x
    using inv that group(1) len by (auto simp: producer_inv_def group_inv_def nth_append)
  show ?thesis
  proof (cases "in_delta_ratio p = 0")
    case False
    let ?p = "p\<lparr>in_snapshot_len := length wire, in_delta_bytes := 0, in_group_frames := 1, in_encoder := enc, in_group := Some a, in_last := Some v\<rparr>"
    have "open_group D x bs a w1 p = (Inr (), ?w2, ?p)"
      using r(1) w2 False x(3) by (simp add: open_group_def reseed_def)
    moreover have "group_inv ?p ?w2 (G @ [[wire]]) k" if "k < ?n + 1" for k
      using old [of k ?p] g len w1'(1) that by (cases "k = ?n") (auto simp: group_inv_def nth_append)
    moreover have "budget F ?p [wire]" using F by (simp add: budget_def MAX_DELTA_FRAMES_def)
    ultimately show ?thesis using tk r len w1'(1)
      by (intro exI [of _ wire] exI [of _ ?w2] exI [of _ ?p]) (simp add: producer_inv_def baseline_def)
  next
    case True
    let ?p = "p\<lparr>in_snapshot_len := length wire, in_delta_bytes := 0, in_group_frames := 1, in_encoder := None, in_last := Some v\<rparr>"
    let ?w3 = "\<lparr>w_track = tk, w_groups = w_groups w @ [([complete_frame wire], g\<lparr>gr_fin := True\<rparr>)]\<rparr>"
    have "world_finish_group a ?w2 = Inr ?w3" using g(2) len w1'(1)
      by (simp add: world_finish_group_def nth_append group_finish_def group_modify_def group_holds_def list_update_append)
    then have "open_group D x bs a w1 p = (Inr (), ?w3, ?p)"
      using r(1) w2 True x(3) by (simp add: open_group_def reseed_def)
    moreover have "group_inv ?p ?w3 (G @ [[wire]]) k" if "k < ?n + 1" for k
      using old [of k ?p] g len group(1) that by (cases "k = ?n") (auto simp: group_inv_def nth_append group_holds_def)
    ultimately show ?thesis using tk r len group(1)
      by (intro exI [of _ wire] exI [of _ ?w3] exI [of _ ?p]) (simp add: producer_inv_def baseline_def)
  qed
qed

lemma inner_snapshot_ok:
  assumes inv: "producer_inv D paired F T w p G" and group: "tk_final (w_track w) = None" "length G \<le> u64_max"
    and D: "codec_ok D paired" "roomy D paired (in_delta_ratio p) L F"
    and x: "to_vec D x = Inr bs" "length bs \<le> L" "from_slice D bs = Inr v" "to_value D x = Inr v"
  shows "\<exists>wire w' p'. inner_snapshot D now x w p = (Inr (), w', p') \<and> producer_inv D paired F (insert now T) w' p' (G @ [[wire]])
    \<and> in_last p' = Some v \<and> tk_final (w_track w') = None \<and> in_delta_ratio p' = in_delta_ratio p \<and> in_compression p' = in_compression p"
proof -
  obtain w1 where w1: "close_group w p = Inr w1" "w_track w1 = w_track w" "producer_inv D paired F T w1 (p\<lparr>in_group := None\<rparr>) G"
    using close_group_ok [OF inv] by blast
  have "length (w_groups w1) = length G" "numbered (length G) T (w_track w1)" using w1(3) by (simp_all add: producer_inv_def)
  then obtain a w2 where w2: "world_append_group now w1 = Inr (a, w2)"
    using append_numbered [of "length G" T "w_track w1" now] group w1(2) by (auto simp: world_append_group_def)
  have "roomy D paired (in_delta_ratio (p\<lparr>in_group := None\<rparr>)) L F" using D(2) by simp
  from open_group_ok [OF w1(3) _ _ group(2) D(1) this x(2-4) w2] show ?thesis
    using x(1) w1(1,2) w2 group(1) by (simp add: inner_snapshot_def)
qed

lemma inner_snapshot_after_end:
  assumes inv: "producer_inv D paired F T w p G" and "tk_final (w_track w) \<noteq> None" "length G \<le> u64_max" "to_vec D x = Inr bs"
  shows "inner_snapshot D now x w p = (Inl (ErrNet ErrClosed), w, p)"
proof -
  have "numbered (length G) T (w_track w)" "tk_final (w_track w) = Some (length G)" "in_group p = None" "p\<lparr>in_group := None\<rparr> = p"
    using inv assms(2) by (auto simp: producer_inv_def)
  then show ?thesis using append_after_end [OF _ assms(3)] assms(4)
    by (simp add: inner_snapshot_def close_group_def world_append_group_def)
qed

text \<open>A delta: the bytes already in the group leave room for the frame.\<close>

lemma delta_room:
  assumes "budget F p wires" "wires \<noteq> []" "delta_allowed p" "roomy D paired (in_delta_ratio p) L F" "length wire \<le> F"
  shows "sum_list (map length (wires @ [wire])) \<le> MAX_GROUP_CACHE" "length (wires @ [wire]) \<le> MAX_GROUP_FRAMES" "length wire \<le> MAX_FRAME_SIZE"
proof -
  obtain x xs where xs: "wires = x # xs" using assms(2) by (cases wires) auto
  have x: "length x \<le> F" using assms(1) xs by (simp add: budget_def)
  have "sum_list (map length xs) \<le> in_delta_ratio p * length x" using assms(1,3) xs by (simp add: budget_def delta_allowed_def)
  also have "\<dots> \<le> in_delta_ratio p * F" using x by simp
  finally have "sum_list (map length (wires @ [wire])) \<le> F + in_delta_ratio p * F + F" using xs x assms(5) by simp
  also have "\<dots> = (in_delta_ratio p + 2) * F" by simp
  also have "\<dots> \<le> MAX_GROUP_CACHE" using assms(4) by (simp add: roomy_def)
  finally show "sum_list (map length (wires @ [wire])) \<le> MAX_GROUP_CACHE" .
  have "F \<le> (in_delta_ratio p + 2) * F" by simp
  then show "length wire \<le> MAX_FRAME_SIZE" using assms(4,5) by (simp add: roomy_def MAX_GROUP_CACHE_def MAX_FRAME_SIZE_def)
  show "length (wires @ [wire]) \<le> MAX_GROUP_FRAMES" using assms(1,3) by (simp add: budget_def delta_allowed_def MAX_DELTA_FRAMES_def MAX_GROUP_FRAMES_def)
qed

lemma last_nth: "a + 1 = length xs \<Longrightarrow> last xs = xs ! a"
  by (metis add_diff_cancel_right' last_conv_nth length_0_conv Zero_not_Suc Suc_eq_plus1)

lemma write_delta_ok:
  assumes inv: "producer_inv D paired F T w p G" and p: "delta_allowed p" "in_last p = Some old"
    and D: "codec_ok D paired" "roomy D paired (in_delta_ratio p) L F"
    and x: "value_to_vec D patch = Inr bs" "length bs \<le> L" "from_slice D bs = Inr patch"
  shows "\<exists>wire w' p'. write_delta D old patch w p = (Inr (), w', p') \<and> producer_inv D paired F T w' p' (butlast G @ [last G @ [wire]])
    \<and> G \<noteq> [] \<and> in_group p = Some (length G - 1) \<and> in_group p' = in_group p
    \<and> in_last p' = Some (json_merge D old patch) \<and> w_track w' = w_track w \<and> in_delta_ratio p' = in_delta_ratio p \<and> in_compression p' = in_compression p"
proof -
  obtain a where a: "in_group p = Some a" "a + 1 = length G" "budget F p (last G)" "length (w_groups w) = length G"
    using inv p(1) by (auto simp: producer_inv_def delta_allowed_def)
  then have ne: "G \<noteq> []" "last G = G ! a" using last_nth [OF a(2)] by auto
  have ga: "group_inv p w G a" using inv a(2) by (simp add: producer_inv_def)
  obtain h g where hg: "w_groups w ! a = (h, g)" by fastforce
  have G: "G ! a \<noteq> []" "group_holds (G ! a) (h, g)" "gr_offset g = 0" "\<not> gr_fin g" using ga hg a(1) by (simp_all add: group_inv_def)
  obtain r where r: "apply_frames D (last G) (reading_new (in_compression p)) = Some r" "rd_current r = Some old" "in_step D paired (in_encoder p) r"
    using inv p(2) ne(1) a(1) by (auto simp: producer_inv_def baseline_def)
  have read: "0 < rd_frames_read r" using apply_frames_rebuildable [OF rebuildable_new r(1)] G(1) ne(2) by simp
  have bs: "length bs \<le> DEFAULT_MAX_FRAME_SIZE" using x(2) D(2) by (simp add: roomy_def)
  obtain wire enc r' where wire: "to_wire D (in_encoder p) bs = Some (wire, enc)" "apply_frame D wire r = (None, r')"
    "rd_current r' = Some (json_merge D old patch)" "in_step D paired enc r'"
    using delta_step [OF D(1) r(3) bs x(3) r(2) read] by blast
  have "in_encoder p = None \<or> (\<exists>z d. in_encoder p = Some z \<and> paired z d)" using r(3) by (auto simp: in_step_def split: if_splits)
  from roomy_wire [OF D(2) x(2) this wire(1)] have F: "length wire \<le> F" .
  note room = delta_room [OF a(3) _ p(1) D(2) F]
  obtain g' where g': "group_write_frame wire (h, g) = Inr (h @ [complete_frame wire], g')" "group_holds (G ! a @ [wire]) (h @ [complete_frame wire], g')"
    "\<not> gr_fin g'" "gr_offset g' = 0"
    using group_write_frame_ok [OF G(2,4), of wire] room G(1,3,4) ne(2) by auto
  let ?w = "w\<lparr>w_groups := (w_groups w)[a := (h @ [complete_frame wire], g')]\<rparr>"
  let ?p = "p\<lparr>in_encoder := enc, in_delta_bytes := in_delta_bytes p + length wire, in_group_frames := in_group_frames p + 1, in_last := Some (json_merge D old patch)\<rparr>"
  let ?G = "butlast G @ [last G @ [wire]]"
  have step: "write_delta D old patch w p = (Inr (), ?w, ?p)"
    using x(1) wire(1) a(1) g'(1) hg by (simp add: write_delta_def world_write_frame_def)
  have len: "length ?G = length G" "?G ! a = G ! a @ [wire]" "\<And>k. k < a \<Longrightarrow> ?G ! k = G ! k"
    using ne a(2) by (auto simp: nth_append nth_butlast)
  have "group_inv ?p ?w ?G k" if "k < length G" for k
  proof (cases "k = a")
    case True
    then show ?thesis using g' a len(2) by (simp add: group_inv_def)
  next
    case False
    then have "k < a" using that a(2) by simp
    moreover have "group_inv p w G k" using inv that by (simp add: producer_inv_def)
    ultimately show ?thesis using len(3) by (simp add: group_inv_def)
  qed
  moreover have "budget F ?p (last G @ [wire])" using a(3) p(1) F G(1) ne(2) by (auto simp: budget_def delta_allowed_def)
  moreover have "apply_frames D (last G @ [wire]) (reading_new (in_compression p)) = Some r'" using r(1) wire(2) by (simp add: apply_frames_append)
  ultimately have "producer_inv D paired F T ?w ?p ?G" using inv a len(1) wire(3,4) by (auto simp: producer_inv_def baseline_def)
  then show ?thesis using step ne(1) a(1,2) by (intro exI [of _ wire] exI [of _ ?w] exI [of _ ?p]) auto
qed

text \<open>How the groups change: not at all, by a new group, or by a frame of the open one.\<close>

definition grows :: "('f, 'z) inner \<Rightarrow> byte list list list \<Rightarrow> ('f, 'z) inner \<Rightarrow> byte list list list \<Rightarrow> bool" where
  "grows p G p' G' \<longleftrightarrow> G' = G \<and> (in_group p' = None \<or> in_group p' = in_group p) \<or> (\<exists>wire. G' = G @ [[wire]])
     \<or> (\<exists>wire. G \<noteq> [] \<and> in_group p = Some (length G - 1) \<and> in_group p' = in_group p \<and> G' = butlast G @ [last G @ [wire]])"

lemma producer_inv_mono: "producer_inv D paired F T w p G \<Longrightarrow> T \<subseteq> T' \<Longrightarrow> producer_inv D paired F T' w p G"
  using track_inv_mono unfolding producer_inv_def numbered_def by blast

text \<open>What a patch that is not forced stands for.\<close>

lemma diff_unforced:
  assumes "rfc7396 merge" "serde_json_value tv" "tv x = Inr v" "keys_once x" "wf_json u" "expressible u v" "\<not> jd_forced_snapshot (diff tv u x)"
  shows "if jd_patch (diff tv u x) = JObject [] then v = u else merge u (jd_patch (diff tv u x)) = v"
proof -
  obtain n where n: "differ tv u x = Inr (n, False)" using assms(7) by (auto simp: diff_def split: sum.splits node.splits)
  have f: "follows merge u v n" by (rule differ_follows [OF assms(1,2) n assms(3,4,5,6)])
  show ?thesis
  proof (cases n)
    case Same
    then show ?thesis using f n by (simp add: diff_def follows_def)
  next
    case (Diff d)
    then have "is_object u" using n assms(7) by (simp add: diff_def)
    then have "merge u (JObject []) = u" using rfc_object [OF assms(1), of u "[]"] by (cases u) (simp_all add: merge_into_def)
    then show ?thesis using f n Diff by (auto simp: diff_def follows_def)
  qed
qed

definition value_of :: "('f, 't, 'z, 'd) deps \<Rightarrow> 'f ser set \<Rightarrow> 'f json option \<Rightarrow> bool" where
  "value_of D X v \<longleftrightarrow> v = None \<or> (\<exists>y \<in> X. \<exists>u. to_value D y = Inr u \<and> v = Some u)"

lemma inner_update_ok:
  assumes inv: "producer_inv D paired F T w p G" and open_track: "tk_final (w_track w) = None" "length G \<le> u64_max"
    and D: "codec_ok D paired" "roomy D paired (in_delta_ratio p) L F" "rfc7396 (json_merge D)" "serde_json_value (to_value D)"
    and X: "publishable D L X" "x \<in> X" "value_of D X (in_last p)" "to_value D x = Inr v"
  shows "\<exists>w' p' G'. inner_update D now x w p = (Inr (), w', p') \<and> producer_inv D paired F (insert now T) w' p' G' \<and> grows p G p' G'
    \<and> in_last p' = Some v \<and> tk_final (w_track w') = None \<and> in_delta_ratio p' = in_delta_ratio p \<and> in_compression p' = in_compression p"
proof -
  obtain bs where x: "keys_once x" "to_vec D x = Inr bs" "length bs \<le> L" "from_slice D bs = Inr v"
    using X(1,2,4) unfolding publishable_def by fastforce
  note snap = inner_snapshot_ok [OF inv open_track D(1,2) x(2-4) X(4), of now]
  have snapshot: ?thesis if "inner_update D now x w p = inner_snapshot D now x w p"
    using snap that unfolding grows_def by metis
  show ?thesis
  proof (cases "in_last p")
    case None
    then show ?thesis by (intro snapshot) (simp add: inner_update_def)
  next
    case (Some u)
    then obtain y where y: "y \<in> X" "to_value D y = Inr u" using X(3) by (auto simp: value_of_def)
    have wf: "wf_json u" using serde_simps(22) [OF D(4) y(2)] .
    let ?d = "diff (to_value D) u x"
    have ex: "expressible u v" using X(1,2,4) y unfolding publishable_def by blast
    obtain ps where ps: "value_to_vec D (jd_patch ?d) = Inr ps" "from_slice D ps = Inr (jd_patch ?d)" "length ps \<le> L"
      using X(1,2,4) y unfolding publishable_def by blast
    show ?thesis
    proof (cases "jd_forced_snapshot ?d \<or> jd_patch ?d \<noteq> JObject [] \<and> \<not> delta_allowed p")
      case True
      then show ?thesis using Some by (intro snapshot) (auto simp: inner_update_def Let_def)
    next
      case False
      note d = diff_unforced [OF D(3,4) X(4) x(1) wf ex]
      show ?thesis
      proof (cases "jd_patch ?d = JObject []")
        case True
        then have "inner_update D now x w p = (Inr (), w, p)" "v = u" using Some False d by (auto simp: inner_update_def Let_def)
        then show ?thesis using Some open_track(1) producer_inv_mono [OF inv subset_insertI] unfolding grows_def by blast
      next
        case delta: False
        then have "inner_update D now x w p = write_delta D u (jd_patch ?d) w p" "json_merge D u (jd_patch ?d) = v" "delta_allowed p"
          using Some False d by (auto simp: inner_update_def Let_def)
        then show ?thesis
          using write_delta_ok [OF inv _ Some D(1,2) ps(1,3,2)] open_track(1) producer_inv_mono [OF _ subset_insertI] unfolding grows_def by metis
      qed
    qed
  qed
qed

lemma inner_update_after_end:
  assumes inv: "producer_inv D paired F T w p G" and ended: "tk_final (w_track w) \<noteq> None" "length G \<le> u64_max" "to_vec D x = Inr bs"
  shows "\<exists>res. inner_update D now x w p = (res, w, p)"
proof -
  have "\<not> delta_allowed p" using inv ended(1) by (auto simp: producer_inv_def delta_allowed_def)
  then show ?thesis using inner_snapshot_after_end [OF inv ended, of now] by (auto simp: inner_update_def Let_def split: option.splits)
qed

lemma inner_finish_ok:
  assumes inv: "producer_inv D paired F T w p G" and "length G \<le> u64_max"
  shows "\<exists>res w' p'. inner_finish w p = (res, w', p') \<and> producer_inv D paired F T w' p' G \<and> grows p G p' G \<and> in_last p' = in_last p
    \<and> tk_final (w_track w') \<noteq> None \<and> in_delta_ratio p' = in_delta_ratio p \<and> in_compression p' = in_compression p"
proof -
  let ?p = "p\<lparr>in_group := None\<rparr>"
  obtain w1 where w1: "close_group w p = Inr w1" "w_track w1 = w_track w" "producer_inv D paired F T w1 ?p G"
    using close_group_ok [OF inv] by blast
  show ?thesis
  proof (cases "tk_final (w_track w1)")
    case None
    have num: "numbered (length G) T (w_track w1)" using w1(3) by (simp add: producer_inv_def)
    note fin = finish_numbered [OF num assms(2) None]
    let ?w = "w1\<lparr>w_track := (w_track w1)\<lparr>tk_final := Some (length G)\<rparr>\<rparr>"
    have "producer_inv D paired F T ?w ?p G" using w1(3) fin(2) by (simp add: producer_inv_def group_inv_def)
    moreover have "inner_finish w p = (Inr (), ?w, ?p)" using w1(1) fin(1) by (simp add: inner_finish_def)
    ultimately show ?thesis by (auto simp: grows_def)
  next
    case (Some fin)
    have "\<not> tk_closed (w_track w1)" using w1(3) numbered_open by (auto simp: producer_inv_def)
    then have "inner_finish w p = (Inl (ErrNet ErrClosed), w1, ?p)" using w1(1) Some by (simp add: inner_finish_def track_finish_def track_modify_def)
    then show ?thesis using w1(3) Some by (auto simp: grows_def)
  qed
qed

section \<open>The consumer catches up\<close>

definition at_group :: "('f, 't, 'z, 'd) deps \<Rightarrow> ('f, 'z) inner \<Rightarrow> byte list list list \<Rightarrow> ('f, 'd) consumer \<Rightarrow> bool" where
  "at_group D p G c \<longleftrightarrow>
     (case jc_group c of
        Some (a, i) \<Rightarrow> a + 1 = length G \<and> i \<le> length (last G) \<and> has_read D (in_compression p) (take i (last G)) (jc_reading c)
      | None \<Rightarrow> in_group p \<noteq> Some (length G - 1) \<and> has_read D (in_compression p) (last G) (jc_reading c))"

definition consumer_inv :: "('f, 't, 'z, 'd) deps \<Rightarrow> ('f, 'z) inner \<Rightarrow> byte list list list \<Rightarrow> ('f, 'd) consumer \<Rightarrow> bool" where
  "consumer_inv D p G c \<longleftrightarrow> tc_min_sequence (jc_track c) = 0 \<and> tc_next_sequence (jc_track c) = tc_index (jc_track c)
     \<and> tc_index (jc_track c) \<le> length G \<and> rd_compressed (jc_reading c) = in_compression p
     \<and> (tc_index (jc_track c) = 0 \<longrightarrow> jc_group c = None \<and> rd_current (jc_reading c) = None)
     \<and> (0 < tc_index (jc_track c) \<and> tc_index (jc_track c) = length G \<longrightarrow> at_group D p G c)"

lemma consumer_inv_new: "consumer_inv D p G (consumer_new (in_compression p))"
  by (simp add: consumer_inv_def consumer_new_def track_consume_def reading_new_def)

lemma has_read_clone: "has_read D zipped wires r \<Longrightarrow> has_read D zipped wires (r\<lparr>rd_decoder := None\<rparr>)"
  by (auto simp: has_read_def)

lemma consumer_inv_clone: "consumer_inv D p G c \<Longrightarrow> consumer_inv D p G (consumer_clone c)"
  by (auto simp: consumer_inv_def consumer_clone_def at_group_def has_read_clone split: option.splits)

lemma consumer_inv_grows:
  assumes "consumer_inv D p G c" "grows p G p' G'" "in_compression p' = in_compression p"
  shows "consumer_inv D p' G' c"
proof -
  consider (same) "G' = G" "in_group p' = None \<or> in_group p' = in_group p" | (new) wire where "G' = G @ [[wire]]"
    | (delta) wire where "G \<noteq> []" "in_group p = Some (length G - 1)" "in_group p' = in_group p" "G' = butlast G @ [last G @ [wire]]"
    using assms(2) unfolding grows_def by blast
  then show ?thesis
  proof cases
    case same
    then show ?thesis using assms(1,3) by (auto simp: consumer_inv_def at_group_def split: option.splits)
  next
    case new
    then show ?thesis using assms(1,3) by (auto simp: consumer_inv_def)
  next
    case delta
    then have "at_group D p' G' c" if "at_group D p G c" using that assms(3) by (auto simp: at_group_def split: option.splits)
    moreover have "length G' = length G" using delta(1,4) by simp
    ultimately show ?thesis using assms(1,3) by (auto simp: consumer_inv_def)
  qed
qed

lemma take_last_read:
  assumes "has_read D zipped (take i wires) r" "apply_frames D wires (reading_new zipped) = Some r'"
  shows "\<exists>r1. apply_frames D (drop i wires) r = Some r1 \<and> has_read D zipped wires r1 \<and> rd_current r1 = rd_current r'"
  using has_read_more [OF assms(1), of "drop i wires" r'] assms(2) by simp

text \<open>From wherever it is, a poll brings the consumer to the baseline; it yields the value unless it had it.\<close>

definition yields :: "('f, 't, 'z, 'd) deps \<Rightarrow> 'f json option \<Rightarrow> (stream_error + 't option) poll" where
  "yields D v = (case v of None \<Rightarrow> Pending | Some v \<Rightarrow> Ready (case from_value D v of Inl e \<Rightarrow> Inl (ErrJson e) | Inr t \<Rightarrow> Inr (Some t)))"

lemma read_ok:
  assumes inv: "producer_inv D paired F T w p G" and "at_group D p G c" "G \<noteq> []"
  shows "\<exists>adv pend g r. read_frames D w (jc_group c) (jc_reading c) False = (Inr (adv, pend), g, r)
    \<and> at_group D p G (c\<lparr>jc_group := g, jc_reading := r\<rparr>) \<and> rd_current r = in_last p \<and> (\<not> adv \<longrightarrow> r = jc_reading c)
    \<and> (jc_group c = Some (a, 0) \<longrightarrow> adv)"
proof -
  let ?z = "in_compression p" and ?k = "length G - 1"
  have k: "?k < length G" "?k + 1 = length G" using assms(3) by simp_all
  then have "group_inv p w G ?k" using inv unfolding producer_inv_def by blast
  then have G: "last G \<noteq> []" "group_holds (last G) (w_groups w ! ?k)" "gr_offset (snd (w_groups w ! ?k)) = 0"
    "gr_fin (snd (w_groups w ! ?k)) \<longleftrightarrow> in_group p \<noteq> Some ?k"
    using last_nth [OF k(2)] by (simp_all add: group_inv_def)
  obtain r v where r: "apply_frames D (last G) (reading_new ?z) = Some r" "rd_current r = Some v" "in_last p = Some v"
    using inv assms(3) by (auto simp: producer_inv_def baseline_def)
  show ?thesis
  proof (cases "jc_group c")
    case None
    then have "has_read D ?z (last G) (jc_reading c)" using assms(2) by (simp add: at_group_def)
    then have "rd_current (jc_reading c) = in_last p" using r by (auto simp: has_read_def)
    then show ?thesis using None assms(2) by (auto simp: at_group_def)
  next
    case (Some ai)
    then obtain i where i: "jc_group c = Some (?k, i)" "i \<le> length (last G)" "has_read D ?z (take i (last G)) (jc_reading c)"
      using assms(2) by (cases ai) (auto simp: at_group_def)
    obtain r1 where r1: "apply_frames D (drop i (last G)) (jc_reading c) = Some r1" "has_read D ?z (last G) r1" "rd_current r1 = in_last p"
      using take_last_read [OF i(3) r(1)] r(2,3) by auto
    have "r1 = jc_reading c" if "\<not> i < length (last G)" using r1(1) that by simp
    then show ?thesis using read_frames_all [OF G(2,3) i(2) r1(1), of False] i(1) r1(2,3) G(1,4) k(2)
      by (auto simp: at_group_def)
  qed
qed

lemma poll_next_ok:
  assumes inv: "producer_inv D paired F T w p G" and c: "consumer_inv D p G c" and "length G \<le> u64_max"
  shows "\<exists>res c'. poll_next D w c = (res, c') \<and> consumer_inv D p G c' \<and> rd_current (jc_reading c') = in_last p
    \<and> (res = yields D (in_last p) \<or> rd_current (jc_reading c) = in_last p \<and> (res = Pending \<or> res = Ready (Inr None) \<and> tk_final (w_track w) \<noteq> None))"
proof -
  let ?n = "length G"
  have num: "numbered ?n T (w_track w)" using inv by (simp add: producer_inv_def)
  have tc: "tc_min_sequence (jc_track c) = 0" "tc_next_sequence (jc_track c) = tc_index (jc_track c)" "tc_index (jc_track c) \<le> ?n"
    using c by (simp_all add: consumer_inv_def)
  define c1 where "c1 = (if tc_index (jc_track c) = ?n then c
      else \<lparr>jc_track = \<lparr>tc_index = ?n, tc_min_sequence = 0, tc_next_sequence = ?n\<rparr>, jc_group = Some (?n - 1, 0),
        jc_reading = reading_new (rd_compressed (jc_reading c))\<rparr>)"
  have drain: "drain w c = (Inr (tk_final (w_track w) \<noteq> None), c1)" using drain_newest [OF num assms(3) tc] by (simp add: c1_def)
  show ?thesis
  proof (cases "G = []")
    case True
    then have "jc_group c = None" "rd_current (jc_reading c) = None" "in_last p = None" "c1 = c"
      using c inv by (auto simp: consumer_inv_def producer_inv_def baseline_def c1_def)
    moreover from this have "c\<lparr>jc_group := None\<rparr> = c" by simp
    then have "consumer_inv D p G (c\<lparr>jc_group := None\<rparr>)" using c by (simp only:)
    ultimately show ?thesis using drain by (auto simp: poll_next_def)
  next
    case False
    have track: "tc_index (jc_track c1) = ?n" "tc_min_sequence (jc_track c1) = 0" "tc_next_sequence (jc_track c1) = ?n"
      using tc by (auto simp: c1_def)
    have fresh: "c1 = c \<or> jc_group c1 = Some (?n - 1, 0)" by (simp add: c1_def)
    have "at_group D p G c1"
    proof (cases "tc_index (jc_track c) = ?n")
      case True
      then show ?thesis using c False by (simp add: consumer_inv_def c1_def)
    next
      case False
      then show ?thesis using c \<open>G \<noteq> []\<close> by (auto simp: at_group_def c1_def has_read_def consumer_inv_def)
    qed
    then obtain adv pend g r where r: "read_frames D w (jc_group c1) (jc_reading c1) False = (Inr (adv, pend), g, r)"
      "at_group D p G (c1\<lparr>jc_group := g, jc_reading := r\<rparr>)" "rd_current r = in_last p" "\<not> adv \<longrightarrow> r = jc_reading c1"
      "jc_group c1 = Some (?n - 1, 0) \<longrightarrow> adv"
      using read_ok [OF inv _ False, of c1 "?n - 1"] by blast
    have comp: "rd_compressed r = in_compression p" using r(2) apply_frames_rebuildable [OF rebuildable_new]
      by (fastforce simp: at_group_def has_read_def reading_new_def split: option.splits)
    have poll: "poll_next D w c = ((if adv then yields D (in_last p) else if pend then Pending
         else if tk_final (w_track w) \<noteq> None then Ready (Inr None) else Pending), c1\<lparr>jc_group := g, jc_reading := r\<rparr>)"
      using drain r(1,3) inv False
      by (auto simp: poll_next_def reconstruct_def yields_def producer_inv_def baseline_def split: sum.splits)
    have "rd_current (jc_reading c) = in_last p" if "\<not> adv" using that r(3-5) fresh by auto
    moreover have "consumer_inv D p G (c1\<lparr>jc_group := g, jc_reading := r\<rparr>)" using r(2) track comp False by (simp add: consumer_inv_def)
    ultimately show ?thesis using poll r(3) by auto
  qed
qed

section \<open>Streams\<close>

text \<open>One producer and one consumer; a consumer may be replaced by a clone of it or by one that joins now.\<close>

datatype 'f stream_op = Publish "'f ser" nat | FinishStream | PollNext | CloneReader | JoinLate

record ('f, 'z, 'd) stream_run =
  sr_world :: world
  sr_inner :: "('f, 'z) inner"
  sr_consumer :: "('f, 'd) consumer"

definition stream_start :: "nat \<Rightarrow> bool \<Rightarrow> ('f, 'z, 'd) stream_run" where
  "stream_start ratio zipped = \<lparr>sr_world = world_new, sr_inner = inner_new ratio zipped, sr_consumer = consumer_new zipped\<rparr>"

fun stream_step :: "('f, 't, 'z, 'd) deps \<Rightarrow> 'f stream_op \<Rightarrow> ('f, 'z, 'd) stream_run \<Rightarrow> ('f, 'z, 'd) stream_run" where
  "stream_step D (Publish x now) r =
     (case inner_update D now x (sr_world r) (sr_inner r) of (_, w, p) \<Rightarrow> r\<lparr>sr_world := w, sr_inner := p\<rparr>)"
| "stream_step D FinishStream r =
     (case inner_finish (sr_world r) (sr_inner r) of (_, w, p) \<Rightarrow> r\<lparr>sr_world := w, sr_inner := p\<rparr>)"
| "stream_step D PollNext r = r\<lparr>sr_consumer := snd (poll_next D (sr_world r) (sr_consumer r))\<rparr>"
| "stream_step D CloneReader r = r\<lparr>sr_consumer := consumer_clone (sr_consumer r)\<rparr>"
| "stream_step D JoinLate r = r\<lparr>sr_consumer := consumer_new (in_compression (sr_inner r))\<rparr>"

text \<open>The value published last, before the stream was finished.\<close>

fun last_value :: "('f, 't, 'z, 'd) deps \<Rightarrow> 'f stream_op list \<Rightarrow> 'f json option \<Rightarrow> 'f json option" where
  "last_value D [] v = v"
| "last_value D (Publish x now # ops) v = last_value D ops (case to_value D x of Inr u \<Rightarrow> Some u | Inl _ \<Rightarrow> v)"
| "last_value D (FinishStream # ops) v = v"
| "last_value D (_ # ops) v = last_value D ops v"

definition stream_inv :: "('f, 't, 'z, 'd) deps \<Rightarrow> ('z \<Rightarrow> 'd \<Rightarrow> bool) \<Rightarrow> nat \<Rightarrow> nat \<Rightarrow> 'f ser set \<Rightarrow> nat \<Rightarrow> ('f, 'z, 'd) stream_run \<Rightarrow> bool" where
  "stream_inv D paired F ratio X n r \<longleftrightarrow>
     (\<exists>T G. producer_inv D paired F T (sr_world r) (sr_inner r) G \<and> consumer_inv D (sr_inner r) G (sr_consumer r) \<and> length G \<le> n)
   \<and> in_delta_ratio (sr_inner r) = ratio \<and> value_of D X (in_last (sr_inner r))"

abbreviation ended_stream :: "('f, 'z, 'd) stream_run \<Rightarrow> bool" where
  "ended_stream r \<equiv> tk_final (w_track (sr_world r)) \<noteq> None"

lemma stream_inv_start: "stream_inv D paired F ratio X 0 (stream_start ratio zipped)"
proof -
  have "producer_inv D paired F {} world_new (inner_new ratio zipped) []"
    using numbered_new by (simp add: producer_inv_def world_new_def inner_new_def baseline_def track_new_def)
  moreover have "consumer_inv D (inner_new ratio zipped) [] (consumer_new zipped)"
    using consumer_inv_new [of D "inner_new ratio zipped" "[]"] by (simp add: inner_new_def)
  ultimately show ?thesis by (auto simp: stream_inv_def stream_start_def inner_new_def value_of_def)
qed

lemma grows_length: "grows p G p' G' \<Longrightarrow> length G' \<le> length G + 1"
  by (auto simp: grows_def)

definition deps_ok :: "('f, 't, 'z, 'd) deps \<Rightarrow> ('z \<Rightarrow> 'd \<Rightarrow> bool) \<Rightarrow> nat \<Rightarrow> nat \<Rightarrow> nat \<Rightarrow> 'f ser set \<Rightarrow> bool" where
  "deps_ok D paired ratio L F X \<longleftrightarrow> codec_ok D paired \<and> roomy D paired ratio L F \<and> rfc7396 (json_merge D) \<and> serde_json_value (to_value D) \<and> publishable D L X"

lemma publish_inv:
  assumes "stream_inv D paired F ratio X n r" "x \<in> X" "n < u64_max" "to_value D x = Inr v" "deps_ok D paired ratio L F X"
  shows "stream_inv D paired F ratio X (n + 1) (stream_step D (Publish x now) r) \<and> (ended_stream (stream_step D (Publish x now) r) = ended_stream r)
    \<and> in_last (sr_inner (stream_step D (Publish x now) r)) = (if ended_stream r then in_last (sr_inner r) else Some v)"
proof -
  have deps: "codec_ok D paired" "roomy D paired ratio L F" "rfc7396 (json_merge D)" "serde_json_value (to_value D)" "publishable D L X"
    using assms(5) by (simp_all add: deps_ok_def)
  obtain T G where inv: "producer_inv D paired F T (sr_world r) (sr_inner r) G" "consumer_inv D (sr_inner r) G (sr_consumer r)" "length G \<le> n"
    "in_delta_ratio (sr_inner r) = ratio" "value_of D X (in_last (sr_inner r))" using assms(1) by (auto simp: stream_inv_def)
  have len: "length G \<le> u64_max" using inv(3) assms(3) by simp
  show ?thesis
  proof (cases "ended_stream r")
    case True
    obtain bs where "to_vec D x = Inr bs" using deps(5) assms(2) unfolding publishable_def by blast
    then have "stream_step D (Publish x now) r = r" using inner_update_after_end [OF inv(1) True len, of x bs now] by auto
    then show ?thesis using True assms(1) unfolding stream_inv_def by (metis trans_le_add1)
  next
    case False
    have D2: "roomy D paired (in_delta_ratio (sr_inner r)) L F" using deps(2) inv(4) by simp
    obtain w p G' where u: "inner_update D now x (sr_world r) (sr_inner r) = (Inr (), w, p)" "producer_inv D paired F (insert now T) w p G'"
      "grows (sr_inner r) G p G'" "in_last p = Some v" "tk_final (w_track w) = None" "in_delta_ratio p = ratio" "in_compression p = in_compression (sr_inner r)"
      using inner_update_ok [OF inv(1) _ len deps(1) D2 deps(3-5) assms(2) inv(5) assms(4), of now] False inv(4) by auto
    have "consumer_inv D p G' (sr_consumer r)" by (rule consumer_inv_grows [OF inv(2) u(3,7)])
    moreover have "length G' \<le> n + 1" using grows_length [OF u(3)] inv(3) by simp
    moreover have "value_of D X (in_last p)" using assms(2,4) u(4) by (auto simp: value_of_def)
    ultimately show ?thesis using u False by (auto simp: stream_inv_def)
  qed
qed

lemma finish_inv:
  assumes "stream_inv D paired F ratio X n r" "n \<le> u64_max"
  shows "stream_inv D paired F ratio X n (stream_step D FinishStream r) \<and> ended_stream (stream_step D FinishStream r)
    \<and> in_last (sr_inner (stream_step D FinishStream r)) = in_last (sr_inner r)"
proof -
  obtain T G where inv: "producer_inv D paired F T (sr_world r) (sr_inner r) G" "consumer_inv D (sr_inner r) G (sr_consumer r)" "length G \<le> n"
    "in_delta_ratio (sr_inner r) = ratio" "value_of D X (in_last (sr_inner r))" using assms(1) by (auto simp: stream_inv_def)
  obtain res w p where u: "inner_finish (sr_world r) (sr_inner r) = (res, w, p)" "producer_inv D paired F T w p G" "grows (sr_inner r) G p G"
    "in_last p = in_last (sr_inner r)" "tk_final (w_track w) \<noteq> None" "in_delta_ratio p = ratio" "in_compression p = in_compression (sr_inner r)"
    using inner_finish_ok [OF inv(1)] inv(3,4) assms(2) by auto
  have "consumer_inv D p G (sr_consumer r)" by (rule consumer_inv_grows [OF inv(2) u(3,7)])
  then show ?thesis using u inv(3,5) by (auto simp: stream_inv_def)
qed

lemma reader_inv:
  assumes "stream_inv D paired F ratio X n r" "n \<le> u64_max" "op \<in> {PollNext, CloneReader, JoinLate}"
  shows "stream_inv D paired F ratio X n (stream_step D op r) \<and> sr_world (stream_step D op r) = sr_world r \<and> sr_inner (stream_step D op r) = sr_inner r"
proof -
  obtain T G where inv: "producer_inv D paired F T (sr_world r) (sr_inner r) G" "consumer_inv D (sr_inner r) G (sr_consumer r)" "length G \<le> n"
    "in_delta_ratio (sr_inner r) = ratio" "value_of D X (in_last (sr_inner r))" using assms(1) by (auto simp: stream_inv_def)
  have "consumer_inv D (sr_inner r) G (snd (poll_next D (sr_world r) (sr_consumer r)))" using poll_next_ok [OF inv(1,2)] inv(3) assms(2) by auto
  then have c: "consumer_inv D (sr_inner r) G (sr_consumer (stream_step D op r))"
    using assms(3) consumer_inv_clone [OF inv(2)] consumer_inv_new by auto
  have same: "sr_world (stream_step D op r) = sr_world r" "sr_inner (stream_step D op r) = sr_inner r" using assms(3) by auto
  then show ?thesis using inv c unfolding stream_inv_def same by blast
qed

lemma stream_run_inv:
  assumes deps: "deps_ok D paired ratio L F X"
  shows "stream_inv D paired F ratio X n r \<Longrightarrow> (\<forall>x now. Publish x now \<in> set ops \<longrightarrow> x \<in> X) \<Longrightarrow> n + length ops \<le> u64_max \<Longrightarrow>
    stream_inv D paired F ratio X (n + length ops) (fold (stream_step D) ops r)
    \<and> (ended_stream (fold (stream_step D) ops r) \<longleftrightarrow> ended_stream r \<or> FinishStream \<in> set ops)
    \<and> in_last (sr_inner (fold (stream_step D) ops r)) = (if ended_stream r then in_last (sr_inner r) else last_value D ops (in_last (sr_inner r)))"
proof (induction ops arbitrary: n r)
  case (Cons op ops)
  let ?r = "stream_step D op r"
  have rest: "\<forall>x now. Publish x now \<in> set ops \<longrightarrow> x \<in> X" "n + 1 + length ops \<le> u64_max" using Cons.prems(2,3) by auto
  have n: "n \<le> u64_max" using Cons.prems(3) by simp
  have more: "stream_inv D paired F ratio X n ?r \<Longrightarrow> stream_inv D paired F ratio X (n + 1) ?r" unfolding stream_inv_def by (metis trans_le_add1)
  show ?case
  proof (cases "op \<in> {PollNext, CloneReader, JoinLate}")
    case True
    from reader_inv [OF Cons.prems(1) n this] show ?thesis using Cons.IH [of "n + 1" ?r] rest more True by auto
  next
    case False
    show ?thesis
    proof (cases op)
      case (Publish x now)
      then have x: "x \<in> X" using Cons.prems(2) by auto
      then obtain v where v: "to_value D x = Inr v" using deps unfolding deps_ok_def publishable_def by blast
      have "n < u64_max" using Cons.prems(3) by simp
      from publish_inv [OF Cons.prems(1) x this v deps, of now] show ?thesis using Cons.IH [of "n + 1" ?r] rest Publish v by auto
    next
      case FinishStream
      then show ?thesis using finish_inv [OF Cons.prems(1) n] Cons.IH [of "n + 1" ?r] rest more by auto
    qed (use False in auto)
  qed
qed simp

section \<open>Properties\<close>

text \<open>
  C1: Whenever values are published and the stream is finished, and whenever a consumer polls, joins late or is cloned,
  a poll does not fail and leaves the consumer with exactly the value that was published last before the stream was
  finished; it yields that value, unless the consumer already had it. This is under what \<open>deps_ok\<close> asks: the values
  serialise to bounded JSON that parses to them, offer no key twice, and a merge patch can express the change from
  any one of them to any other (no null member and no empty object is new); the frames are so small
  that a snapshot and the deltas the ratio allows fit into the cache of a group; and the crates for JSON, merge patches
  and DEFLATE do what they document. Without the second and the third it is false: \<open>empty_object_lost\<close> and
  \<open>snapshot_evicted\<close>.
\<close>

theorem json_stream_latest:
  fixes D :: "('f, 't, 'z, 'd) deps" and r :: "('f, 'z, 'd) stream_run"
  assumes "deps_ok D paired ratio L F {x. \<exists>now. Publish x now \<in> set ops}" "length ops \<le> u64_max"
    and "r = fold (stream_step D) ops (stream_start ratio zipped)" "poll_next D (sr_world r) (sr_consumer r) = (res, c)"
  shows "rd_current (jc_reading c) = last_value D ops None
    \<and> (res = yields D (last_value D ops None)
       \<or> rd_current (jc_reading (sr_consumer r)) = last_value D ops None \<and> (res = Pending \<or> res = Ready (Inr None) \<and> FinishStream \<in> set ops))"
proof -
  let ?X = "{x. \<exists>now. Publish x now \<in> set ops}"
  have start: "\<not> ended_stream (stream_start ratio zipped :: ('f, 'z, 'd) stream_run)" "in_last (sr_inner (stream_start ratio zipped :: ('f, 'z, 'd) stream_run)) = None"
    by (simp_all add: stream_start_def world_new_def track_new_def inner_new_def)
  have run: "stream_inv D paired F ratio ?X (length ops) r" "ended_stream r \<longleftrightarrow> FinishStream \<in> set ops" "in_last (sr_inner r) = last_value D ops None"
    using stream_run_inv [OF assms(1) stream_inv_start, of ops zipped] assms(2,3) start by auto
  then obtain T G where inv: "producer_inv D paired F T (sr_world r) (sr_inner r) G" "consumer_inv D (sr_inner r) G (sr_consumer r)" "length G \<le> u64_max"
    using assms(2) by (auto simp: stream_inv_def)
  show ?thesis using poll_next_ok [OF inv] assms(4) run(2,3) by auto
qed

text \<open>Two values, compressed, and a reader that joins at the end.\<close>

definition example_value :: "int \<Rightarrow> unit json" where "example_value n = JObject [(''a'', JNumber (NInt n))]"

definition example_data :: "int \<Rightarrow> unit ser" where "example_data n = SStruct [(''a'', SInt n)]"

definition example_deps :: "(unit, unit json, byte list, nat) deps" where
  "example_deps = \<lparr>to_value = plain_value,
     to_vec = (\<lambda>x. if x = example_data 1 then Inr [1] else if x = example_data 2 then Inr [2] else Inl (JsonError ''data'')),
     value_to_vec = (\<lambda>v. if v = JObject [] then Inr [0] else if v = example_value 1 then Inr [1] else if v = example_value 2 then Inr [2] else Inl (JsonError ''data'')),
     from_slice = (\<lambda>bs. if bs = [0] then Inr (JObject []) else if bs = [1] then Inr (example_value 1) else if bs = [2] then Inr (example_value 2) else Inl (JsonError ''data'')),
     from_value = Inr, json_merge = merge_patch, compress = toy_compress, compress_new = [], decompress = toy_decompress, decompress_new = 0\<rparr>"

definition example_stream :: "unit stream_op list" where
  "example_stream = [Publish (example_data 1) 0, PollNext, Publish (example_data 2) 5, CloneReader, JoinLate]"

lemma example_published: "{x. \<exists>now. Publish x now \<in> set example_stream} = {example_data 1, example_data 2}"
  by (auto simp: example_stream_def)

lemma example_publishable: "publishable example_deps 1 {example_data 1, example_data 2}"
proof -
  have v: "plain_value (example_data 1) = Inr (example_value 1)" "plain_value (example_data 2) = Inr (example_value 2)" by code_simp+
  have d: "jd_patch (diff plain_value (example_value 1) (example_data 1)) = JObject []" "jd_patch (diff plain_value (example_value 2) (example_data 2)) = JObject []"
    "jd_patch (diff plain_value (example_value 1) (example_data 2)) = example_value 2" "jd_patch (diff plain_value (example_value 2) (example_data 1)) = example_value 1"
    by code_simp+
  have n: "example_value 1 \<noteq> JObject []" "example_value 2 \<noteq> JObject []" "example_value 1 \<noteq> example_value 2" "example_data 1 \<noteq> example_data 2"
    by (simp_all add: example_value_def example_data_def)
  have e: "expressible (example_value m) (example_value k)" "keys_once (example_data k)" for m k by (simp_all add: example_value_def example_data_def)
  show ?thesis using v d n e by (auto simp: publishable_def example_deps_def)
qed

lemma example_deps_ok: "deps_ok example_deps (\<lambda>z d. z = [] \<and> d = 0) 8 1 2 {x. \<exists>now. Publish x now \<in> set example_stream}"
proof -
  have "codec_ok example_deps (\<lambda>z d. z = [] \<and> d = 0)" using toy_step by (auto simp: codec_ok_def example_deps_def)
  moreover have "length wire \<le> 2" if "length bs \<le> 1" "enc = None \<or> enc = Some []" "to_wire example_deps enc bs = Some (wire, enc')" for enc bs wire enc'
    using that toy_encoder_frame [of bs] by (cases bs) (auto simp: to_wire_def example_deps_def encoder_frame_def)
  then have "roomy example_deps (\<lambda>z d. z = [] \<and> d = 0) 8 1 2"
    by (auto simp: roomy_def DEFAULT_MAX_FRAME_SIZE_def MAX_GROUP_CACHE_def)
  ultimately show ?thesis using example_publishable merge_patch_ok plain_value_ok unfolding example_published
    by (simp add: deps_ok_def example_deps_def)
qed

theorem json_stream_latest_witness:
  "poll_next example_deps (sr_world (fold (stream_step example_deps) example_stream (stream_start 8 True)))
     (sr_consumer (fold (stream_step example_deps) example_stream (stream_start 8 True)))
   \<in> {(Ready (Inr (Some (example_value 2))), c) |c. rd_current (jc_reading c) = Some (example_value 2)}"
proof -
  let ?r = "fold (stream_step example_deps) example_stream (stream_start 8 True)"
  obtain res c where poll: "poll_next example_deps (sr_world ?r) (sr_consumer ?r) = (res, c)" by fastforce
  have "length example_stream \<le> u64_max" by (simp add: example_stream_def u64_max_def)
  from json_stream_latest [OF example_deps_ok this refl poll]
  have latest: "rd_current (jc_reading c) = last_value example_deps example_stream None"
    "res = yields example_deps (last_value example_deps example_stream None)
      \<or> rd_current (jc_reading (sr_consumer ?r)) = last_value example_deps example_stream None" by auto
  have v: "plain_value (example_data 1) = Inr (example_value 1)" "plain_value (example_data 2) = Inr (example_value 2)" by code_simp+
  then have "last_value example_deps example_stream None = Some (example_value 2)" by (simp add: example_stream_def example_deps_def)
  moreover have "rd_current (jc_reading (sr_consumer ?r)) = None" by (simp add: example_stream_def consumer_new_def reading_new_def)
  ultimately show ?thesis using latest poll by (simp add: yields_def example_deps_def)
qed

text \<open>
  What the room is for: the ratio bounds the deltas by the snapshot and the number of frames, not the group by its cache.
  A delta that is allowed but overflows the cache evicts the snapshot, and a reader that joins then gets an error instead
  of the value.
\<close>

lemma snapshot_evicted:
  assumes "group_holds wires (h, g)" "\<not> gr_fin g" "length wire \<le> MAX_FRAME_SIZE"
    and "sum_list (map length wires) + length wire > MAX_GROUP_CACHE"
  shows "\<exists>h' g'. group_write_frame wire (h, g) = Inr (h', g') \<and> poll_read_frame 0 (h', g') = (Ready (Inl ErrCacheFull), 0)"
proof -
  obtain g' where g': "group_write_frame wire (h, g) = Inr (h @ [complete_frame wire], g')" "group_holds (wires @ [wire]) (h @ [complete_frame wire], g')"
    using group_write_frame_ok [OF assms(1-3)] by blast
  have "0 < gr_offset g'"
  proof (rule ccontr)
    assume "\<not> 0 < gr_offset g'"
    then have "sum_list (map length (wires @ [wire])) \<le> MAX_GROUP_CACHE" using g'(2) by (simp add: group_holds_def)
    then show False using assms(4) by simp
  qed
  then show ?thesis using g'(1) poll_read_frame_holds [OF g'(2), of 0] by simp
qed

lemma delta_allowed_overflows:
  "delta_allowed (p\<lparr>in_delta_ratio := 8, in_group := Some a, in_group_frames := 9, in_snapshot_len := 4 * 1024 * 1024, in_delta_bytes := 8 * (4 * 1024 * 1024)\<rparr>)
   \<and> 4 * 1024 * 1024 + 8 * (4 * 1024 * 1024) > MAX_GROUP_CACHE"
  by (simp add: delta_allowed_def MAX_DELTA_FRAMES_def MAX_GROUP_CACHE_def)

end
