(* ===== verification/Asym_Auth.thy ===== *)
theory Asym_Auth
  imports Json_Diff
begin

text \<open>
  The token verifier of the Hermit relay (\<open>relay/rs/moq-asym-auth/src/lib.rs\<close>, the same file as
  \<open>crates/moq-asym-auth/src/lib.rs\<close>): compact JWS with HS256, EdDSA or ES256, and the keys from a JWK or JWKS.

  The crates for base64, JSON, HMAC, Ed25519 and P-256 are not part of the repository. What the code calls of them is a
  field of \<open>crypto\<close>, with the parsers that serde derives: a parse that may fail is an option, a check is a predicate.
  \<open>'ed\<close> and \<open>'es\<close> are the public keys of the two schemes, \<open>'eds\<close> and \<open>'ess\<close> their signatures. The message of a signature is the text before the last dot.
\<close>

record claims =
  cl_root :: string
  cl_publish :: "string list"
  cl_subscribe :: "string list"
  cl_expires :: "int option"

text \<open>The claims as the derived parser hands them over: \<open>put\<close> and \<open>get\<close> are absent, a string or a list of strings.\<close>

datatype one_or_many = One string | Many "string list"

record wire_claims =
  wc_root :: "string option"
  wc_put :: "one_or_many option"
  wc_get :: "one_or_many option"
  wc_exp :: "int option"

record ('f, 'ed, 'eds, 'es, 'ess) crypto =
  b64_decode :: "string \<Rightarrow> byte list option"
  b64_decode_bytes :: "byte list \<Rightarrow> byte list option"
  json_of_slice :: "byte list \<Rightarrow> 'f json option"
  header_of_slice :: "byte list \<Rightarrow> string option"
  wire_claims_of_slice :: "byte list \<Rightarrow> wire_claims option"
  hmac_new :: "byte list \<Rightarrow> bool"
  hmac_verify :: "byte list \<Rightarrow> string \<Rightarrow> byte list \<Rightarrow> bool"
  ed_key_from_bytes :: "byte list \<Rightarrow> 'ed option"
  ed_signature :: "byte list \<Rightarrow> 'eds option"
  ed_verify_strict :: "'ed \<Rightarrow> string \<Rightarrow> 'eds \<Rightarrow> bool"
  es_key_from_sec1 :: "byte list \<Rightarrow> 'es option"
  es_signature :: "byte list \<Rightarrow> 'ess option"
  es_verify :: "'es \<Rightarrow> string \<Rightarrow> 'ess \<Rightarrow> bool"

datatype asym_error = AsymDecode | UnsupportedAlg string | NoKeyForAlg string | BadSignature | Expired

record ('ed, 'es) verify_keys =
  vk_hs256 :: "byte list option"
  vk_ed25519 :: "'ed option"
  vk_es256 :: "'es option"

definition keys_default :: "('ed, 'es) verify_keys" where
  "keys_default = \<lparr>vk_hs256 = None, vk_ed25519 = None, vk_es256 = None\<rparr>"

definition keys_empty :: "('ed, 'es) verify_keys \<Rightarrow> bool" where
  "keys_empty keys \<longleftrightarrow> vk_hs256 keys = None \<and> vk_ed25519 keys = None \<and> vk_es256 keys = None"

definition ok_or :: "'a option \<Rightarrow> 'e \<Rightarrow> 'e + 'a" where
  "ok_or x e = (case x of Some y \<Rightarrow> Inr y | None \<Rightarrow> Inl e)"

definition b64 :: "('f, 'ed, 'eds, 'es, 'ess) crypto \<Rightarrow> string \<Rightarrow> asym_error + byte list" where
  "b64 C s = ok_or (b64_decode C s) AsymDecode"

section \<open>Claims\<close>

definition string_or_seq :: "one_or_many \<Rightarrow> string list" where
  "string_or_seq x = (case x of One s \<Rightarrow> [s] | Many v \<Rightarrow> v)"

definition claims_of_wire :: "wire_claims \<Rightarrow> claims" where
  "claims_of_wire w =
     \<lparr>cl_root = (case wc_root w of Some s \<Rightarrow> s | None \<Rightarrow> []), cl_publish = (case wc_put w of Some x \<Rightarrow> string_or_seq x | None \<Rightarrow> []),
      cl_subscribe = (case wc_get w of Some x \<Rightarrow> string_or_seq x | None \<Rightarrow> []), cl_expires = wc_exp w\<rparr>"

definition claims_of_slice :: "('f, 'ed, 'eds, 'es, 'ess) crypto \<Rightarrow> byte list \<Rightarrow> claims option" where
  "claims_of_slice C b = map_option claims_of_wire (wire_claims_of_slice C b)"

section \<open>Verifying a token\<close>

text \<open>\<open>token.split('.')\<close>.\<close>

fun split_dot :: "string \<Rightarrow> string list" where
  "split_dot [] = [[]]"
| "split_dot (c # s) = (if c = CHR ''.'' then [] # split_dot s else (c # hd (split_dot s)) # tl (split_dot s))"

definition verify_signature :: "('f, 'ed, 'eds, 'es, 'ess) crypto \<Rightarrow> ('ed, 'es) verify_keys \<Rightarrow> string \<Rightarrow> string \<Rightarrow> byte list \<Rightarrow> asym_error + unit" where
  "verify_signature C keys alg signing_input sig =
     (if alg = ''HS256'' then
        and_then (ok_or (vk_hs256 keys) (NoKeyForAlg ''HS256'')) (\<lambda>secret.
          if \<not> hmac_new C secret then Inl BadSignature
          else if hmac_verify C secret signing_input sig then Inr () else Inl BadSignature)
      else if alg = ''EdDSA'' then
        and_then (ok_or (vk_ed25519 keys) (NoKeyForAlg ''EdDSA'')) (\<lambda>vk.
          and_then (ok_or (ed_signature C sig) AsymDecode) (\<lambda>signature.
            if ed_verify_strict C vk signing_input signature then Inr () else Inl BadSignature))
      else if alg = ''ES256'' then
        and_then (ok_or (vk_es256 keys) (NoKeyForAlg ''ES256'')) (\<lambda>vk.
          and_then (ok_or (es_signature C sig) AsymDecode) (\<lambda>signature.
            if es_verify C vk signing_input signature then Inr () else Inl BadSignature))
      else Inl (UnsupportedAlg alg))"

definition asym_verify :: "('f, 'ed, 'eds, 'es, 'ess) crypto \<Rightarrow> string \<Rightarrow> ('ed, 'es) verify_keys \<Rightarrow> int \<Rightarrow> asym_error + claims" where
  "asym_verify C token keys now_unix =
     (case split_dot token of
        [h, p, s] \<Rightarrow>
          if h = [] \<or> p = [] \<or> s = [] then Inl AsymDecode
          else and_then (b64 C h) (\<lambda>hb. and_then (ok_or (header_of_slice C hb) AsymDecode) (\<lambda>alg.
            and_then (b64 C s) (\<lambda>sig. and_then (verify_signature C keys alg (h @ ''.'' @ p) sig) (\<lambda>_.
              and_then (b64 C p) (\<lambda>pb. and_then (ok_or (claims_of_slice C pb) AsymDecode) (\<lambda>claims.
                case cl_expires claims of
                  Some exp \<Rightarrow> if now_unix \<ge> exp then Inl Expired else Inr claims
                | None \<Rightarrow> Inr claims))))))
      | _ \<Rightarrow> Inl AsymDecode)"

section \<open>Loading keys\<close>

definition json_get :: "'f json \<Rightarrow> string \<Rightarrow> 'f json option" where
  "json_get v k = (case v of JObject m \<Rightarrow> map_of m k | _ \<Rightarrow> None)"

definition json_str :: "'f json \<Rightarrow> string \<Rightarrow> string option" where
  "json_str v k = (case json_get v k of Some (JString s) \<Rightarrow> Some s | _ \<Rightarrow> None)"

definition jwk_b64 :: "('f, 'ed, 'eds, 'es, 'ess) crypto \<Rightarrow> 'f json \<Rightarrow> string \<Rightarrow> asym_error + byte list" where
  "jwk_b64 C jwk field = and_then (ok_or (json_str jwk field) AsymDecode) (b64 C)"

definition add_jwk :: "('f, 'ed, 'eds, 'es, 'ess) crypto \<Rightarrow> 'f json \<Rightarrow> ('ed, 'es) verify_keys \<Rightarrow> asym_error + ('ed, 'es) verify_keys" where
  "add_jwk C jwk keys =
     (let kty = (case json_str jwk ''kty'' of Some s \<Rightarrow> s | None \<Rightarrow> []); crv = (case json_str jwk ''crv'' of Some s \<Rightarrow> s | None \<Rightarrow> [])
      in if kty = ''oct'' then and_then (jwk_b64 C jwk ''k'') (\<lambda>k. Inr (keys\<lparr>vk_hs256 := Some k\<rparr>))
         else if kty = ''OKP'' \<and> crv = ''Ed25519'' then
           and_then (jwk_b64 C jwk ''x'') (\<lambda>x.
             if length x \<noteq> 32 then Inl AsymDecode
             else and_then (ok_or (ed_key_from_bytes C x) AsymDecode) (\<lambda>k. Inr (keys\<lparr>vk_ed25519 := Some k\<rparr>)))
         else if kty = ''EC'' \<and> crv = ''P-256'' then
           and_then (jwk_b64 C jwk ''x'') (\<lambda>x. and_then (jwk_b64 C jwk ''y'') (\<lambda>y.
             if length x \<noteq> 32 \<or> length y \<noteq> 32 then Inl AsymDecode
             else and_then (ok_or (es_key_from_sec1 C (0x04 # x @ y)) AsymDecode) (\<lambda>k. Inr (keys\<lparr>vk_es256 := Some k\<rparr>))))
         else Inl AsymDecode)"

fun add_jwks :: "('f, 'ed, 'eds, 'es, 'ess) crypto \<Rightarrow> 'f json list \<Rightarrow> ('ed, 'es) verify_keys \<Rightarrow> asym_error + ('ed, 'es) verify_keys" where
  "add_jwks C [] keys = Inr keys"
| "add_jwks C (jwk # jwks) keys = and_then (add_jwk C jwk keys) (add_jwks C jwks)"

definition strip_newline :: "byte list \<Rightarrow> byte list" where
  "strip_newline raw = (if raw \<noteq> [] \<and> last raw = 0x0A then butlast raw else raw)"

definition jwk_value :: "('f, 'ed, 'eds, 'es, 'ess) crypto \<Rightarrow> byte list \<Rightarrow> asym_error + 'f json" where
  "jwk_value C raw =
     (case json_of_slice C raw of
        Some v \<Rightarrow> Inr v
      | None \<Rightarrow> and_then (ok_or (b64_decode_bytes C (strip_newline raw)) AsymDecode) (\<lambda>inner. ok_or (json_of_slice C inner) AsymDecode))"

definition jwk_entries :: "'f json \<Rightarrow> 'f json list" where
  "jwk_entries v = (case json_get v ''keys'' of Some (JArray arr) \<Rightarrow> arr | _ \<Rightarrow> [v])"

definition keys_from_jwk_bytes :: "('f, 'ed, 'eds, 'es, 'ess) crypto \<Rightarrow> byte list \<Rightarrow> asym_error + ('ed, 'es) verify_keys" where
  "keys_from_jwk_bytes C raw =
     and_then (jwk_value C raw) (\<lambda>v. and_then (add_jwks C (jwk_entries v) keys_default) (\<lambda>keys.
       if keys_empty keys then Inl AsymDecode else Inr keys))"

section \<open>Lemmas\<close>

lemma split_dot_not_Nil [simp]: "split_dot s \<noteq> []"
  by (induction s) auto

lemma split_dot_plain [simp]: "CHR ''.'' \<notin> set s \<Longrightarrow> split_dot s = [s]"
  by (induction s) auto

lemma split_dot_append [simp]: "split_dot (a @ CHR ''.'' # b) = split_dot a @ split_dot b"
  by (induction a) auto

lemma split_dot_Cons: "split_dot s = p # ps \<Longrightarrow> CHR ''.'' \<notin> set p \<and> (if ps = [] then s = p else \<exists>b. s = p @ CHR ''.'' # b \<and> split_dot b = ps)"
proof (induction s arbitrary: p ps)
  case (Cons c s)
  show ?case
  proof (cases "c = CHR ''.''")
    case True
    then show ?thesis using Cons.prems by auto
  next
    case False
    obtain q qs where q: "split_dot s = q # qs" by (cases "split_dot s") auto
    then have "p = c # q" "ps = qs" using Cons.prems False by auto
    then show ?thesis using Cons.IH [OF q] False by (auto split: if_splits)
  qed
qed auto

lemma split_dot_three:
  "split_dot t = [h, p, s] \<longleftrightarrow> t = h @ ''.'' @ p @ ''.'' @ s \<and> CHR ''.'' \<notin> set h \<union> set p \<union> set s"
proof
  assume t: "split_dot t = [h, p, s]"
  from split_dot_Cons [OF t] obtain b where b: "t = h @ CHR ''.'' # b" "split_dot b = [p, s]" "CHR ''.'' \<notin> set h"
    by (metis list.distinct(1))
  from split_dot_Cons [OF b(2)] obtain c where c: "b = p @ CHR ''.'' # c" "split_dot c = [s]" "CHR ''.'' \<notin> set p"
    by (metis list.distinct(1))
  from split_dot_Cons [OF c(2)] have "c = s" "CHR ''.'' \<notin> set s" by simp_all
  then show "t = h @ ''.'' @ p @ ''.'' @ s \<and> CHR ''.'' \<notin> set h \<union> set p \<union> set s" using b(1,3) c(1,3) by simp
next
  assume "t = h @ ''.'' @ p @ ''.'' @ s \<and> CHR ''.'' \<notin> set h \<union> set p \<union> set s"
  then show "split_dot t = [h, p, s]" by simp
qed

text \<open>A signature that the verifier accepts: the key is the one of the token's algorithm.\<close>

definition signed_by :: "('f, 'ed, 'eds, 'es, 'ess) crypto \<Rightarrow> ('ed, 'es) verify_keys \<Rightarrow> string \<Rightarrow> string \<Rightarrow> byte list \<Rightarrow> bool" where
  "signed_by C keys alg msg sig \<longleftrightarrow>
     alg = ''HS256'' \<and> (\<exists>k. vk_hs256 keys = Some k \<and> hmac_new C k \<and> hmac_verify C k msg sig)
   \<or> alg = ''EdDSA'' \<and> (\<exists>k g. vk_ed25519 keys = Some k \<and> ed_signature C sig = Some g \<and> ed_verify_strict C k msg g)
   \<or> alg = ''ES256'' \<and> (\<exists>k g. vk_es256 keys = Some k \<and> es_signature C sig = Some g \<and> es_verify C k msg g)"

lemma ok_or_Inr [simp]: "ok_or x e = Inr y \<longleftrightarrow> x = Some y"
  by (cases x) (simp_all add: ok_or_def)

lemma verify_signature_iff: "verify_signature C keys alg msg sig = Inr () \<longleftrightarrow> signed_by C keys alg msg sig"
  by (auto simp: verify_signature_def signed_by_def and_then_Inr_conv)

definition accepts :: "('f, 'ed, 'eds, 'es, 'ess) crypto \<Rightarrow> ('ed, 'es) verify_keys \<Rightarrow> int \<Rightarrow> string \<Rightarrow> claims \<Rightarrow> bool" where
  "accepts C keys now token c \<longleftrightarrow>
     (\<exists>h p s hb alg sig pb. token = h @ ''.'' @ p @ ''.'' @ s \<and> CHR ''.'' \<notin> set h \<union> set p \<union> set s \<and> h \<noteq> [] \<and> p \<noteq> [] \<and> s \<noteq> []
        \<and> b64_decode C h = Some hb \<and> header_of_slice C hb = Some alg \<and> b64_decode C s = Some sig
        \<and> signed_by C keys alg (h @ ''.'' @ p) sig \<and> b64_decode C p = Some pb \<and> claims_of_slice C pb = Some c
        \<and> (\<forall>e. cl_expires c = Some e \<longrightarrow> now < e))"

lemma expiry_check:
  "(case cl_expires c of Some exp \<Rightarrow> if now \<ge> exp then Inl Expired else Inr c | None \<Rightarrow> Inr c) = Inr d \<longleftrightarrow> c = d \<and> (\<forall>e. cl_expires d = Some e \<longrightarrow> now < e)"
  by (auto split: option.splits)

lemma asym_verify_parts:
  "asym_verify C token keys now = Inr c \<longleftrightarrow>
   (\<exists>h p s hb alg sig pb. split_dot token = [h, p, s] \<and> h \<noteq> [] \<and> p \<noteq> [] \<and> s \<noteq> []
        \<and> b64_decode C h = Some hb \<and> header_of_slice C hb = Some alg \<and> b64_decode C s = Some sig
        \<and> verify_signature C keys alg (h @ ''.'' @ p) sig = Inr () \<and> b64_decode C p = Some pb \<and> claims_of_slice C pb = Some c
        \<and> (\<forall>e. cl_expires c = Some e \<longrightarrow> now < e))"
  by (auto simp: asym_verify_def and_then_Inr_conv b64_def expiry_check split: list.splits if_splits)

lemma asym_verify_iff: "asym_verify C token keys now = Inr c \<longleftrightarrow> accepts C keys now token c"
  unfolding asym_verify_parts verify_signature_iff split_dot_three accepts_def by (simp only: conj_assoc)

text \<open>Which keys are looked at.\<close>

lemma verify_signature_no_secret:
  "vk_hs256 keys = None \<Longrightarrow> verify_signature (C\<lparr>hmac_new := f, hmac_verify := g\<rparr>) keys alg msg sig = verify_signature C keys alg msg sig"
  by (simp add: verify_signature_def ok_or_def and_then_def)

lemma asym_verify_no_secret:
  assumes "vk_hs256 keys = None"
  shows "asym_verify (C\<lparr>hmac_new := f, hmac_verify := g\<rparr>) token keys now = asym_verify C token keys now"
  using verify_signature_no_secret [OF assms, where C = C and f = f and g = g] by (simp add: asym_verify_def b64_def claims_of_slice_def split: list.split)

lemma asym_verify_unsupported:
  "split_dot token = [h, p, s] \<Longrightarrow> h \<noteq> [] \<Longrightarrow> p \<noteq> [] \<Longrightarrow> s \<noteq> [] \<Longrightarrow> b64_decode C h = Some hb \<Longrightarrow> header_of_slice C hb = Some alg
    \<Longrightarrow> b64_decode C s = Some sig \<Longrightarrow> alg \<notin> {''HS256'', ''EdDSA'', ''ES256''} \<Longrightarrow> asym_verify C token keys now = Inl (UnsupportedAlg alg)"
  by (simp add: asym_verify_def b64_def ok_or_def and_then_def verify_signature_def)

lemma accepts_alg: "accepts C keys now token c \<Longrightarrow> \<not> keys_empty keys"
  by (auto simp: accepts_def signed_by_def keys_empty_def)

text \<open>Where the keys of a verifier come from: the entries \<open>S\<close> of a key set.\<close>

definition kty_crv :: "'f json \<Rightarrow> string \<Rightarrow> string \<Rightarrow> bool" where
  "kty_crv jwk kty crv \<longleftrightarrow> json_str jwk ''kty'' = Some kty \<and> json_str jwk ''crv'' = Some crv"

definition from_entries :: "('f, 'ed, 'eds, 'es, 'ess) crypto \<Rightarrow> 'f json set \<Rightarrow> ('ed, 'es) verify_keys \<Rightarrow> bool" where
  "from_entries C S keys \<longleftrightarrow>
     (\<forall>k. vk_hs256 keys = Some k \<longrightarrow> (\<exists>jwk \<in> S. json_str jwk ''kty'' = Some ''oct'' \<and> jwk_b64 C jwk ''k'' = Inr k))
   \<and> (\<forall>k. vk_ed25519 keys = Some k \<longrightarrow> (\<exists>jwk \<in> S. kty_crv jwk ''OKP'' ''Ed25519''
        \<and> (\<exists>x. jwk_b64 C jwk ''x'' = Inr x \<and> length x = 32 \<and> ed_key_from_bytes C x = Some k)))
   \<and> (\<forall>k. vk_es256 keys = Some k \<longrightarrow> (\<exists>jwk \<in> S. kty_crv jwk ''EC'' ''P-256''
        \<and> (\<exists>x y. jwk_b64 C jwk ''x'' = Inr x \<and> jwk_b64 C jwk ''y'' = Inr y \<and> length x = 32 \<and> length y = 32
             \<and> es_key_from_sec1 C (0x04 # x @ y) = Some k)))"

definition covers_entries :: "'f json set \<Rightarrow> ('ed, 'es) verify_keys \<Rightarrow> bool" where
  "covers_entries S keys \<longleftrightarrow> (\<forall>jwk \<in> S.
     json_str jwk ''kty'' = Some ''oct'' \<and> vk_hs256 keys \<noteq> None
   \<or> kty_crv jwk ''OKP'' ''Ed25519'' \<and> vk_ed25519 keys \<noteq> None
   \<or> kty_crv jwk ''EC'' ''P-256'' \<and> vk_es256 keys \<noteq> None)"

lemma unwrap_or_eq: "s \<noteq> [] \<Longrightarrow> (case x of Some y \<Rightarrow> y | None \<Rightarrow> []) = s \<longleftrightarrow> x = Some s"
  by (cases x) auto

lemma add_jwk_cases:
  assumes "add_jwk C jwk keys = Inr keys'"
  obtains (oct) k where "json_str jwk ''kty'' = Some ''oct''" "jwk_b64 C jwk ''k'' = Inr k" "keys' = keys\<lparr>vk_hs256 := Some k\<rparr>"
  | (okp) x k where "kty_crv jwk ''OKP'' ''Ed25519''" "jwk_b64 C jwk ''x'' = Inr x" "length x = 32"
      "ed_key_from_bytes C x = Some k" "keys' = keys\<lparr>vk_ed25519 := Some k\<rparr>"
  | (ec) x y k where "kty_crv jwk ''EC'' ''P-256''" "jwk_b64 C jwk ''x'' = Inr x" "jwk_b64 C jwk ''y'' = Inr y" "length x = 32" "length y = 32"
      "es_key_from_sec1 C (0x04 # x @ y) = Some k" "keys' = keys\<lparr>vk_es256 := Some k\<rparr>"
  using assms unfolding add_jwk_def Let_def kty_crv_def by (auto simp: and_then_Inr_conv unwrap_or_eq split: if_splits)

lemma add_jwk_entries:
  assumes "add_jwk C jwk keys = Inr keys'" "from_entries C S keys" "covers_entries S keys"
  shows "from_entries C (insert jwk S) keys' \<and> covers_entries (insert jwk S) keys'"
  using assms(1)
proof (cases rule: add_jwk_cases)
  case oct
  then show ?thesis using assms(2,3) by (simp add: from_entries_def covers_entries_def) blast
next
  case okp
  then show ?thesis using assms(2,3) by (simp add: from_entries_def covers_entries_def) blast
next
  case ec
  then show ?thesis using assms(2,3) by (simp add: from_entries_def covers_entries_def) blast
qed

lemma add_jwks_entries:
  "add_jwks C jwks keys = Inr keys' \<Longrightarrow> from_entries C S keys \<Longrightarrow> covers_entries S keys
    \<Longrightarrow> from_entries C (set jwks \<union> S) keys' \<and> covers_entries (set jwks \<union> S) keys'"
proof (induction jwks arbitrary: keys S)
  case (Cons jwk jwks)
  then obtain k1 where k1: "add_jwk C jwk keys = Inr k1" "add_jwks C jwks k1 = Inr keys'" by (auto simp: and_then_Inr_conv)
  show ?case using Cons.IH [OF k1(2), of "insert jwk S"] add_jwk_entries [OF k1(1) Cons.prems(2,3)] by simp
qed simp

lemma keys_from_jwk_entries:
  fixes C :: "('f, 'ed, 'eds, 'es, 'ess) crypto"
  assumes "keys_from_jwk_bytes C raw = Inr keys"
  shows "\<exists>v. jwk_value C raw = Inr v \<and> from_entries C (set (jwk_entries v)) keys \<and> covers_entries (set (jwk_entries v)) keys \<and> \<not> keys_empty keys"
proof -
  obtain v where v: "jwk_value C raw = Inr v" "add_jwks C (jwk_entries v) keys_default = Inr keys" "\<not> keys_empty keys"
    using assms by (auto simp: keys_from_jwk_bytes_def and_then_Inr_conv split: if_splits)
  have "from_entries C {} (keys_default :: ('ed, 'es) verify_keys)" "covers_entries {} (keys_default :: ('ed, 'es) verify_keys)"
    by (simp_all add: from_entries_def covers_entries_def keys_default_def)
  from add_jwks_entries [OF v(2) this] v show ?thesis by auto
qed

lemma accepts_without_secret:
  "accepts C keys now token c \<Longrightarrow> vk_hs256 keys = None \<Longrightarrow>
     \<exists>h p s hb alg. token = h @ ''.'' @ p @ ''.'' @ s \<and> b64_decode C h = Some hb \<and> header_of_slice C hb = Some alg \<and> alg \<in> {''EdDSA'', ''ES256''}"
  unfolding accepts_def signed_by_def by auto

section \<open>Properties\<close>

text \<open>
  C16: A token is accepted exactly when it has three non-empty parts, its signature verifies over the first two with the
  key that belongs to the algorithm its header names, and its claims have not expired; without any key nothing is
  accepted. A token that names another algorithm, \<open>none\<close> included, is refused as such before a key is looked at.
\<close>

theorem asym_verify_exact:
  "(asym_verify C token keys now = Inr c \<longleftrightarrow> accepts C keys now token c)
   \<and> (keys_empty keys \<longrightarrow> \<not> accepts C keys now token c)
   \<and> (split_dot token = [h, p, s] \<and> h \<noteq> [] \<and> p \<noteq> [] \<and> s \<noteq> [] \<and> b64_decode C h = Some hb \<and> header_of_slice C hb = Some alg
        \<and> b64_decode C s = Some sig \<and> alg \<notin> {''HS256'', ''EdDSA'', ''ES256''}
        \<longrightarrow> asym_verify C token keys now = Inl (UnsupportedAlg alg))"
  using accepts_alg [of C keys now token c] by (auto simp: asym_verify_iff asym_verify_unsupported)

text \<open>A relay that holds a P-256 key, and a token for it.\<close>

definition example_jwk :: "unit json" where
  "example_jwk = JObject [(''crv'', JString ''P-256''), (''kty'', JString ''EC''), (''x'', JString (replicate 32 CHR ''x'')), (''y'', JString (replicate 32 CHR ''y''))]"

definition example_claims :: claims where
  "example_claims = \<lparr>cl_root = [], cl_publish = [''a''], cl_subscribe = [], cl_expires = Some 10\<rparr>"

definition example_crypto :: "(unit, byte list, byte list, byte list, byte list) crypto" where
  "example_crypto = \<lparr>b64_decode = (\<lambda>s. Some (map (\<lambda>c. of_nat (of_char c)) s)), b64_decode_bytes = Some,
     json_of_slice = (\<lambda>bs. if bs = [107] then Some (JObject [(''keys'', JArray [example_jwk])]) else None),
     header_of_slice = (\<lambda>bs. if bs = [104] then Some ''ES256'' else if bs = [105] then Some ''HS256'' else Some ''none''),
     wire_claims_of_slice = (\<lambda>_. Some \<lparr>wc_root = Some (cl_root example_claims), wc_put = Some (Many (cl_publish example_claims)), wc_get = None, wc_exp = cl_expires example_claims\<rparr>),
     hmac_new = (\<lambda>_. True), hmac_verify = (\<lambda>_ _ _. True), ed_key_from_bytes = Some, ed_signature = Some, ed_verify_strict = (\<lambda>_ _ _. False),
     es_key_from_sec1 = Some, es_signature = Some, es_verify = (\<lambda>k m s. m = ''h.p'' \<and> s = [115] \<and> length k = 65)\<rparr>"

definition example_keys :: "(byte list, byte list) verify_keys" where
  "example_keys = keys_default\<lparr>vk_es256 := Some (4 # replicate 32 120 @ replicate 32 121)\<rparr>"

theorem asym_verify_exact_witness:
  "accepts example_crypto example_keys 5 ''h.p.s'' example_claims
   \<and> asym_verify example_crypto ''n.p.s'' example_keys 5 = Inl (UnsupportedAlg ''none'')"
proof -
  have "asym_verify example_crypto ''h.p.s'' example_keys 5 = Inr example_claims" by code_simp
  moreover have "b64_decode example_crypto ''n'' = Some [110]" "header_of_slice example_crypto [110] = Some ''none''" "b64_decode example_crypto ''s'' = Some [115]"
    by code_simp+
  ultimately show ?thesis
    using asym_verify_exact [where C = example_crypto and token = "''h.p.s''" and keys = example_keys and now = 5 and c = example_claims]
      asym_verify_exact [where C = example_crypto and token = "''n.p.s''" and keys = example_keys and now = 5 and h = "''n''" and p = "''p''" and s = "''s''"
        and hb = "[110]" and alg = "''none''" and sig = "[115]"] by simp
qed

text \<open>
  C15: Every key that is loaded is one of the entries of the JWK or JWKS, decoded for its own kind, every entry was
  understood, and there is at least one. When no entry is a shared secret, the relay cannot be made to use one: its
  verdict on any token does not depend on HMAC at all, and what it accepts names EdDSA or ES256.
\<close>

theorem jwks_keys_only:
  assumes "keys_from_jwk_bytes C raw = Inr keys"
  shows "\<exists>v. jwk_value C raw = Inr v \<and> from_entries C (set (jwk_entries v)) keys \<and> covers_entries (set (jwk_entries v)) keys \<and> \<not> keys_empty keys
    \<and> ((\<forall>jwk \<in> set (jwk_entries v). json_str jwk ''kty'' \<noteq> Some ''oct'') \<longrightarrow>
        (\<forall>token now f g. asym_verify (C\<lparr>hmac_new := f, hmac_verify := g\<rparr>) token keys now = asym_verify C token keys now)
      \<and> (\<forall>token now c. asym_verify C token keys now = Inr c \<longrightarrow>
          (\<exists>h p s hb alg. token = h @ ''.'' @ p @ ''.'' @ s \<and> b64_decode C h = Some hb \<and> header_of_slice C hb = Some alg \<and> alg \<in> {''EdDSA'', ''ES256''})))"
proof -
  obtain v where v: "jwk_value C raw = Inr v" "from_entries C (set (jwk_entries v)) keys" "covers_entries (set (jwk_entries v)) keys" "\<not> keys_empty keys"
    using keys_from_jwk_entries [OF assms] by blast
  have none: "vk_hs256 keys = None" if "\<forall>jwk \<in> set (jwk_entries v). json_str jwk ''kty'' \<noteq> Some ''oct''"
    using that v(2) unfolding from_entries_def by (cases "vk_hs256 keys") auto
  show ?thesis
    by (intro exI [of _ v] conjI impI allI v asym_verify_no_secret none) (simp_all only: asym_verify_iff accepts_without_secret [OF _ none])
qed

theorem jwks_keys_only_witness:
  "keys_from_jwk_bytes example_crypto [107] = Inr example_keys
   \<and> asym_verify (example_crypto\<lparr>hmac_new := \<lambda>_. False, hmac_verify := \<lambda>_ _ _. True\<rparr>) ''i.p.s'' example_keys 5 = Inl (NoKeyForAlg ''HS256'')"
proof -
  have k: "keys_from_jwk_bytes example_crypto [107] = Inr example_keys" by code_simp
  have v: "jwk_value example_crypto [107] = Inr (JObject [(''keys'', JArray [example_jwk])])" by code_simp
  have e: "jwk_entries (JObject [(''keys'', JArray [example_jwk])]) = [example_jwk]" "json_str example_jwk ''kty'' = Some ''EC''" by code_simp+
  have "asym_verify example_crypto ''i.p.s'' example_keys 5 = Inl (NoKeyForAlg ''HS256'')" by code_simp
  then show ?thesis using jwks_keys_only [OF k] k v e by simp
qed

end
