(* ===== verification/Token_Key.thy ===== *)
theory Token_Key
  imports Asym_Auth Wire_Buf
begin

text \<open>
  The keys and tokens of \<open>relay/rs/moq-token/src/key.rs\<close> and \<open>claims.rs\<close>, with which the relay checks the tokens of
  connections: reading a key, the decoding key of its kind, and verifying a token with it.

  The crates for JSON, base64 and \<open>jsonwebtoken\<close> are not part of the repository: what is called of them is a field of
  \<open>token_lib\<close>, with the parser that serde derives for \<open>Key\<close>; \<open>'d\<close> is the crate's decoding key. The cache of the
  decoding key in \<open>Key\<close> is not modelled. Times are nanoseconds since the epoch, the expiry of a token is in seconds.
\<close>

section \<open>Keys\<close>

datatype algorithm = HS256 | HS384 | HS512 | ES256 | ES384 | RS256 | RS384 | RS512 | PS256 | PS384 | PS512 | EdDSA

datatype key_operation = OpSign | OpVerify | OpDecrypt | OpEncrypt

datatype elliptic_curve = P256 | P384 | Ed25519

record rsa_public_key =
  rsa_n :: "byte list"
  rsa_e :: "byte list"

record rsa_additional_prime =
  rap_r :: "byte list"
  rap_d :: "byte list"
  rap_t :: "byte list"

record rsa_private_key =
  rsa_d :: "byte list"
  rsa_p :: "byte list"
  rsa_q :: "byte list"
  rsa_dp :: "byte list"
  rsa_dq :: "byte list"
  rsa_qi :: "byte list"
  rsa_oth :: "rsa_additional_prime list option"

datatype key_type =
    KeyEC elliptic_curve "byte list" "byte list" "byte list option"
  | KeyRSA rsa_public_key "rsa_private_key option"
  | KeyOCT "byte list"
  | KeyOKP elliptic_curve "byte list" "byte list option"

record token_key =
  kk_algorithm :: algorithm
  kk_operations :: "key_operation set"
  kk_key :: key_type
  kk_kid :: "string option"

text \<open>\<open>Claims\<close>, without the time of issue, which is not read.\<close>

record token_claims =
  mt_root :: string
  mt_publish :: "string list"
  mt_subscribe :: "string list"
  mt_expires :: "int option"

datatype key_error = InvalidAlgorithm | VerifyUnsupported | NoPublicKey | InvalidAlgorithmForCurve string
  | InvalidCoordinateLength string | InvalidCurve string

datatype token_error = TokenKey key_error | TokenExpired | UselessToken | TokenJson | TokenBase64 | TokenUtf8 | TokenJwt | TokenIo

record ('f, 'd) token_lib =
  json_from_str :: "string \<Rightarrow> 'f json option"
  key_of_json :: "'f json \<Rightarrow> token_key option"
  base64url_decode :: "string \<Rightarrow> byte list option"
  base64url_encode :: "byte list \<Rightarrow> string"
  decoding_from_secret :: "byte list \<Rightarrow> 'd"
  decoding_from_ec :: "string \<Rightarrow> string \<Rightarrow> 'd option"
  decoding_from_ed :: "string \<Rightarrow> 'd option"
  decoding_from_rsa :: "byte list \<Rightarrow> byte list \<Rightarrow> 'd"
  jwt_decode :: "string \<Rightarrow> 'd \<Rightarrow> algorithm \<Rightarrow> token_claims option"

section \<open>Reading a key\<close>

text \<open>\<open>str::trim\<close>: the characters that Unicode calls white space, in UTF-8, at both ends.\<close>

definition white_space :: "string list" where
  "white_space = map (\<lambda>n. [char_of (n::nat)]) [9, 10, 11, 12, 13, 32]
     @ map (map char_of) ([[0xC2, 0x85], [0xC2, 0xA0], [0xE1, 0x9A, 0x80]] @ map (\<lambda>n. [0xE2, 0x80, n]) [0x80..<0x8B]
         @ [[0xE2, 0x80, 0xA8], [0xE2, 0x80, 0xA9], [0xE2, 0x80, 0xAF], [0xE2, 0x81, 0x9F], [0xE3, 0x80, 0x80 :: nat]])"

fun trim_front :: "string list \<Rightarrow> nat \<Rightarrow> string \<Rightarrow> string" where
  "trim_front ws 0 s = s"
| "trim_front ws (Suc n) s = (case find (\<lambda>w. prefix w s) ws of Some w \<Rightarrow> trim_front ws n (drop (length w) s) | None \<Rightarrow> s)"

definition trim_text :: "string \<Rightarrow> string" where
  "trim_text s =
     (let s = trim_front white_space (length s) s
      in rev (trim_front (map rev white_space) (length s) (rev s)))"

text \<open>A key without \<open>kty\<close> is a shared secret.\<close>

definition with_kty :: "'f json \<Rightarrow> 'f json" where
  "with_kty v =
     (case v of
        JObject m \<Rightarrow> if map_of m ''kty'' = None then JObject (bt_insert ''kty'' (JString ''oct'') m) else v
      | _ \<Rightarrow> v)"

definition key_from_json :: "('f, 'd) token_lib \<Rightarrow> string \<Rightarrow> token_error + token_key" where
  "key_from_json L s =
     and_then (ok_or (json_from_str L s) TokenJson) (\<lambda>v. ok_or (key_of_json L (with_kty v)) TokenJson)"

definition key_from_str :: "('f, 'd) token_lib \<Rightarrow> string \<Rightarrow> token_error + token_key" where
  "key_from_str L s =
     (let s = trim_text s
      in if prefix ''{'' s then key_from_json L s
         else and_then (ok_or (base64url_decode L s) TokenBase64) (\<lambda>decoded.
           case from_utf8 decoded of Inl _ \<Rightarrow> Inl TokenUtf8 | Inr json \<Rightarrow> key_from_json L json))"

section \<open>Verifying a token\<close>

definition to_public :: "token_key \<Rightarrow> token_error + token_key" where
  "to_public k =
     (if OpVerify \<notin> kk_operations k then Inl (TokenKey VerifyUnsupported)
      else and_then
        (case kk_key k of
           KeyRSA public _ \<Rightarrow> Inr (KeyRSA public None)
         | KeyEC curve x y _ \<Rightarrow> Inr (KeyEC curve x y None)
         | KeyOCT _ \<Rightarrow> Inl (TokenKey NoPublicKey)
         | KeyOKP curve x _ \<Rightarrow> Inr (KeyOKP curve x None))
        (\<lambda>key. Inr \<lparr>kk_algorithm = kk_algorithm k, kk_operations = {OpVerify}, kk_key = key, kk_kid = kk_kid k\<rparr>))"

definition ec_decoding_key :: "('f, 'd) token_lib \<Rightarrow> token_key \<Rightarrow> algorithm \<Rightarrow> string \<Rightarrow> nat \<Rightarrow> byte list \<Rightarrow> byte list \<Rightarrow> token_error + 'd" where
  "ec_decoding_key L k alg name n x y =
     (if kk_algorithm k \<noteq> alg then Inl (TokenKey (InvalidAlgorithmForCurve name))
      else if length x \<noteq> n \<or> length y \<noteq> n then Inl (TokenKey (InvalidCoordinateLength name))
      else ok_or (decoding_from_ec L (base64url_encode L x) (base64url_encode L y)) TokenJwt)"

definition to_decoding_key :: "('f, 'd) token_lib \<Rightarrow> token_key \<Rightarrow> token_error + 'd" where
  "to_decoding_key L k =
     (case kk_key k of
        KeyOCT secret \<Rightarrow>
          if kk_algorithm k \<in> {HS256, HS384, HS512} then Inr (decoding_from_secret L secret) else Inl (TokenKey InvalidAlgorithm)
      | KeyEC curve x y _ \<Rightarrow>
          (case curve of
             P256 \<Rightarrow> ec_decoding_key L k ES256 ''P-256'' 32 x y
           | P384 \<Rightarrow> ec_decoding_key L k ES384 ''P-384'' 48 x y
           | Ed25519 \<Rightarrow> Inl (TokenKey (InvalidCurve ''EC'')))
      | KeyOKP curve x _ \<Rightarrow>
          (case curve of
             Ed25519 \<Rightarrow>
               if kk_algorithm k \<noteq> EdDSA then Inl (TokenKey (InvalidAlgorithmForCurve ''Ed25519''))
               else ok_or (decoding_from_ed L (base64url_encode L x)) TokenJwt
           | _ \<Rightarrow> Inl (TokenKey (InvalidCurve ''OKP'')))
      | KeyRSA public _ \<Rightarrow> Inr (decoding_from_rsa L (rsa_n public) (rsa_e public)))"

definition claims_validate :: "token_claims \<Rightarrow> token_error + unit" where
  "claims_validate c = (if mt_publish c = [] \<and> mt_subscribe c = [] then Inl UselessToken else Inr ())"

definition NANOS_PER_SEC :: int where "NANOS_PER_SEC = 1000000000"

definition key_decode :: "('f, 'd) token_lib \<Rightarrow> int \<Rightarrow> token_key \<Rightarrow> string \<Rightarrow> token_error + token_claims" where
  "key_decode L now k token =
     (if OpVerify \<notin> kk_operations k then Inl (TokenKey VerifyUnsupported)
      else and_then (to_decoding_key L k) (\<lambda>decode.
        and_then (ok_or (jwt_decode L token decode (kk_algorithm k)) TokenJwt) (\<lambda>claims.
          if (case mt_expires claims of Some exp \<Rightarrow> exp * NANOS_PER_SEC < now | None \<Rightarrow> False) then Inl TokenExpired
          else and_then (claims_validate claims) (\<lambda>_. Inr claims))))"

section \<open>What a key accepts\<close>

text \<open>
  The kinds of key that go with an algorithm. With such a key that may verify, a token is accepted exactly when the
  \<open>jsonwebtoken\<close> crate accepts it for the key's own algorithm, it has not expired and it claims something.
\<close>

definition key_accepts :: "('f, 'd) token_lib \<Rightarrow> int \<Rightarrow> token_key \<Rightarrow> string \<Rightarrow> token_claims \<Rightarrow> bool" where
  "key_accepts L now k token c \<longleftrightarrow> OpVerify \<in> kk_operations k
     \<and> (\<exists>decode. jwt_decode L token decode (kk_algorithm k) = Some c \<and>
          ((\<exists>secret. kk_key k = KeyOCT secret \<and> kk_algorithm k \<in> {HS256, HS384, HS512} \<and> decode = decoding_from_secret L secret)
         \<or> (\<exists>x y d. kk_key k = KeyEC P256 x y d \<and> kk_algorithm k = ES256 \<and> length x = 32 \<and> length y = 32
              \<and> decoding_from_ec L (base64url_encode L x) (base64url_encode L y) = Some decode)
         \<or> (\<exists>x y d. kk_key k = KeyEC P384 x y d \<and> kk_algorithm k = ES384 \<and> length x = 48 \<and> length y = 48
              \<and> decoding_from_ec L (base64url_encode L x) (base64url_encode L y) = Some decode)
         \<or> (\<exists>x d. kk_key k = KeyOKP Ed25519 x d \<and> kk_algorithm k = EdDSA \<and> decoding_from_ed L (base64url_encode L x) = Some decode)
         \<or> (\<exists>n e d. kk_key k = KeyRSA \<lparr>rsa_n = n, rsa_e = e\<rparr> d \<and> decode = decoding_from_rsa L n e)))
     \<and> (\<forall>exp. mt_expires c = Some exp \<longrightarrow> now \<le> exp * NANOS_PER_SEC) \<and> (mt_publish c \<noteq> [] \<or> mt_subscribe c \<noteq> [])"

lemma to_decoding_key_iff:
  "to_decoding_key L k = Inr decode \<longleftrightarrow>
     (\<exists>secret. kk_key k = KeyOCT secret \<and> kk_algorithm k \<in> {HS256, HS384, HS512} \<and> decode = decoding_from_secret L secret)
   \<or> (\<exists>x y d. kk_key k = KeyEC P256 x y d \<and> kk_algorithm k = ES256 \<and> length x = 32 \<and> length y = 32
        \<and> decoding_from_ec L (base64url_encode L x) (base64url_encode L y) = Some decode)
   \<or> (\<exists>x y d. kk_key k = KeyEC P384 x y d \<and> kk_algorithm k = ES384 \<and> length x = 48 \<and> length y = 48
        \<and> decoding_from_ec L (base64url_encode L x) (base64url_encode L y) = Some decode)
   \<or> (\<exists>x d. kk_key k = KeyOKP Ed25519 x d \<and> kk_algorithm k = EdDSA \<and> decoding_from_ed L (base64url_encode L x) = Some decode)
   \<or> (\<exists>n e d. kk_key k = KeyRSA \<lparr>rsa_n = n, rsa_e = e\<rparr> d \<and> decode = decoding_from_rsa L n e)"
proof (cases "kk_key k")
  case (KeyRSA pub priv)
  then show ?thesis by (cases pub) (auto simp: to_decoding_key_def)
qed (auto simp: to_decoding_key_def ec_decoding_key_def split: elliptic_curve.split)

lemma key_decode_iff: "key_decode L now k token = Inr c \<longleftrightarrow> key_accepts L now k token c"
proof -
  have checks: "(if (case mt_expires c' of Some exp \<Rightarrow> exp * NANOS_PER_SEC < now | None \<Rightarrow> False) then Inl TokenExpired
      else and_then (claims_validate c') (\<lambda>_. Inr c')) = Inr c \<longleftrightarrow>
    c' = c \<and> (\<forall>exp. mt_expires c = Some exp \<longrightarrow> now \<le> exp * NANOS_PER_SEC) \<and> (mt_publish c \<noteq> [] \<or> mt_subscribe c \<noteq> [])" for c'
    by (auto simp: claims_validate_def and_then_def split: option.splits)
  have "key_decode L now k token = Inr c \<longleftrightarrow> OpVerify \<in> kk_operations k
      \<and> (\<exists>decode. to_decoding_key L k = Inr decode \<and> jwt_decode L token decode (kk_algorithm k) = Some c)
      \<and> (\<forall>exp. mt_expires c = Some exp \<longrightarrow> now \<le> exp * NANOS_PER_SEC) \<and> (mt_publish c \<noteq> [] \<or> mt_subscribe c \<noteq> [])"
    by (auto simp: key_decode_def and_then_Inr_conv checks)
  then show ?thesis unfolding to_decoding_key_iff key_accepts_def by blast
qed

text \<open>The public half of a key accepts the same tokens.\<close>

lemma to_public_decode:
  assumes "to_public k = Inr p"
  shows "key_decode L now p token = key_decode L now k token"
proof -
  have p: "OpVerify \<in> kk_operations k" "OpVerify \<in> kk_operations p" "kk_algorithm p = kk_algorithm k"
    using assms by (auto simp: to_public_def and_then_Inr_conv split: if_splits)
  have "to_decoding_key L p = to_decoding_key L k"
  proof (cases "kk_key k")
    case (KeyEC curve x y d)
    then have "kk_key p = KeyEC curve x y None" using assms p(1) by (auto simp: to_public_def)
    then show ?thesis using KeyEC p(3) by (cases curve) (simp_all add: to_decoding_key_def ec_decoding_key_def)
  next
    case (KeyOKP curve x d)
    then have "kk_key p = KeyOKP curve x None" using assms p(1) by (auto simp: to_public_def)
    then show ?thesis using KeyOKP p(3) by (cases curve) (simp_all add: to_decoding_key_def)
  qed (use assms p in \<open>auto simp: to_public_def to_decoding_key_def\<close>)
  then show ?thesis using p by (simp add: key_decode_def)
qed

end
