(* ===== verification/Relay_Auth.thy ===== *)
theory Relay_Auth
  imports Token_Key Paths
begin

text \<open>
  Who may do what at the relay (\<open>relay/rs/moq-relay/src/auth.rs\<close>, \<open>relay/rs/moq-token/src/key_id.rs\<close>): the path and the
  token of a connection URL, the key that checks the token, and the reduction of its claims to the connection's root.

  What is not in the repository is a field of \<open>auth_env\<close>: the file system, HTTP requests, the \<open>url\<close> crate, the parsers
  that serde derives for the answers of the APIs, and \<open>jsonwebtoken\<close>. On Hermit the requests fail with \<open>KeyNotFound\<close>,
  and only there a mapped key file is looked at. The time is in nanoseconds since the epoch.
\<close>

section \<open>Key ids\<close>

datatype key_id_error = KeyIdEmpty | KeyIdTooLong | KeyIdInvalid

definition KEY_ID_MAX_LENGTH :: nat where "KEY_ID_MAX_LENGTH = 128"

definition is_ascii_alphanumeric :: "char \<Rightarrow> bool" where
  "is_ascii_alphanumeric c \<longleftrightarrow> (let n = of_char c :: nat in 48 \<le> n \<and> n \<le> 57 \<or> 65 \<le> n \<and> n \<le> 90 \<or> 97 \<le> n \<and> n \<le> 122)"

definition key_id_decode :: "string \<Rightarrow> key_id_error + string" where
  "key_id_decode s =
     (if s = [] then Inl KeyIdEmpty
      else if length s > KEY_ID_MAX_LENGTH then Inl KeyIdTooLong
      else if \<not> list_all (\<lambda>c. is_ascii_alphanumeric c \<or> c = CHR ''-'' \<or> c = CHR ''_'') s then Inl KeyIdInvalid
      else Inr s)"

section \<open>Connection parameters\<close>

datatype auth_error = UnexpectedToken | ExpectedToken | DecodeFailed | IncorrectRoot | KeyNotFound | MissingKeyId
  | ApiUnavailable | ApiInvalidResponse | InvalidUrl | InvalidKeyId key_id_error

text \<open>What the code reads of a parsed URL.\<close>

record web_url =
  wu_host :: "string option"
  wu_path :: string
  wu_query :: "(string \<times> string) list"

record auth_params =
  ap_path :: string
  ap_jwt :: "string option"

definition ascii_lowercase :: "string \<Rightarrow> string" where
  "ascii_lowercase s = map (\<lambda>c. let n = of_char c :: nat in if 65 \<le> n \<and> n \<le> 90 then char_of (n + 32) else c) s"

definition trim_dots :: "string \<Rightarrow> string" where
  "trim_dots s = dropWhile (\<lambda>c. c = CHR ''.'') s"

definition strip_suffix :: "string \<Rightarrow> string \<Rightarrow> string option" where
  "strip_suffix s suf = (if suffix suf s then Some (take (length s - length suf) s) else None)"

fun match_suffixes :: "string \<Rightarrow> string list \<Rightarrow> string option" where
  "match_suffixes host_lc [] = None"
| "match_suffixes host_lc (d # ds) =
     (case strip_suffix host_lc d of
        Some slug \<Rightarrow> if slug = [] then None else Some (join_parts (rev (split_dot (trim_dots slug))))
      | None \<Rightarrow> match_suffixes host_lc ds)"

definition match_domain :: "string option \<Rightarrow> string list \<Rightarrow> string option" where
  "match_domain host domains =
     (case host of
        None \<Rightarrow> None
      | Some host \<Rightarrow> if domains = [] then None else match_suffixes (CHR ''.'' # ascii_lowercase host) domains)"

definition jwt_of_query :: "(string \<times> string) list \<Rightarrow> string option" where
  "jwt_of_query pairs = fold (\<lambda>(k, v) jwt. if v = [] then jwt else if k = ''jwt'' then Some v else jwt) pairs None"

definition from_url :: "web_url \<Rightarrow> string list \<Rightarrow> auth_params" where
  "from_url url domains =
     \<lparr>ap_path = (case match_domain (wu_host url) domains of Some slug \<Rightarrow> slash # slug @ wu_path url | None \<Rightarrow> wu_path url),
      ap_jwt = jwt_of_query (wu_query url)\<rparr>"

text \<open>The suffixes as \<open>Auth::new\<close> keeps them; \<open>None\<close> is the error for an empty one.\<close>

fun dotted_domains :: "string list \<Rightarrow> string list option" where
  "dotted_domains [] = Some []"
| "dotted_domains (d # ds) =
     (let d = ascii_lowercase (trim_dots d)
      in if d = [] then None else map_option (\<lambda>ds. (CHR ''.'' # d) # ds) (dotted_domains ds))"

definition canonical_domains :: "string list \<Rightarrow> string list option" where
  "canonical_domains ds = map_option (sort_key (\<lambda>d. - int (length d))) (dotted_domains ds)"

section \<open>Claims and access\<close>

record auth_token =
  at_root :: path
  at_subscribe :: "path list"
  at_publish :: "path list"
  at_internal :: bool
  at_expires :: "int option"

definition unrestricted :: "path \<Rightarrow> auth_token" where
  "unrestricted root = \<lparr>at_root = root, at_subscribe = path_prefixes_new [path_new []], at_publish = path_prefixes_new [path_new []],
     at_internal = True, at_expires = None\<rparr>"

definition scope_path :: "path \<Rightarrow> path \<Rightarrow> string \<Rightarrow> path option" where
  "scope_path suf pre p =
     (let p = path_join pre (path_new p)
      in if p = [] then Some p
         else case strip_prefix p suf of
                Some remaining \<Rightarrow> Some remaining
              | None \<Rightarrow> if has_prefix suf p then Some (path_new []) else None)"

definition finalize :: "string \<Rightarrow> token_claims \<Rightarrow> auth_error + auth_token" where
  "finalize root_str claims =
     (let root = path_new root_str; claims_root = path_new (mt_root claims)
      in case (case strip_prefix root claims_root of
                 Some suf \<Rightarrow> Some (suf, path_new [])
               | None \<Rightarrow> map_option (\<lambda>pre. (path_new [], pre)) (strip_prefix claims_root root)) of
           None \<Rightarrow> Inl IncorrectRoot
         | Some (suf, pre) \<Rightarrow>
             let scope = (\<lambda>paths. path_prefixes_new (List.map_filter (scope_path suf pre) paths));
                 subscribe = scope (mt_subscribe claims); publish = scope (mt_publish claims)
             in if subscribe = [] \<and> publish = [] then Inl IncorrectRoot
                else Inr \<lparr>at_root = root, at_subscribe = subscribe, at_publish = publish, at_internal = False, at_expires = mt_expires claims\<rparr>)"

section \<open>Keys and requests\<close>

record public_response =
  pr_subscribe :: "string list"
  pr_publish :: "string list"

record auth_api_response =
  ar_alias :: "string option"
  ar_public :: "public_response option"
  ar_key :: "token_key option"
  ar_internal :: "bool option"

text \<open>The outcome of a request: it failed, or there is a status and a body that may fail to arrive.\<close>

datatype http_result = HttpFailed | HttpResponse nat "string option"

record ('f, 'd) auth_env =
  on_hermit :: bool
  auth_jwk :: "byte list option"
  ae_lib :: "('f, 'd) token_lib"
  read_to_string :: "string \<Rightarrow> string option"
  decode_header :: "string \<Rightarrow> string option option"
  url_join :: "string \<Rightarrow> string \<Rightarrow> string option"
  url_query :: "string \<Rightarrow> (string \<times> string) list \<Rightarrow> string"
  http_get :: "string \<Rightarrow> http_result"
  http_error_status :: "nat \<Rightarrow> bool"
  api_of_str :: "string \<Rightarrow> auth_api_response option"
  public_of_str :: "string \<Rightarrow> public_response option"

datatype key_source = KeyFile string | KeyDir string | KeyUrl string | KeyUrlDir string

record public_access =
  pa_subscribe :: "path list"
  pa_publish :: "path list"
  pa_api :: "string option"

definition public_empty :: "public_access \<Rightarrow> bool" where
  "public_empty pa \<longleftrightarrow> pa_subscribe pa = [] \<and> pa_publish pa = [] \<and> pa_api pa = None"

record auth =
  au_resolver :: "key_source option"
  au_public :: public_access
  au_domains :: "string list"
  au_auth_api :: "string option"

text \<open>\<open>PathBuf::join\<close>.\<close>

definition pathbuf_join :: "string \<Rightarrow> string \<Rightarrow> string" where
  "pathbuf_join dir name =
     (if name \<noteq> [] \<and> hd name = slash then name
      else if dir = [] \<or> last dir = slash then dir @ name else dir @ slash # name)"

definition key_id :: "string option \<Rightarrow> auth_error + string" where
  "key_id kid =
     and_then (ok_or kid MissingKeyId) (\<lambda>kid. case key_id_decode kid of Inl e \<Rightarrow> Inl (InvalidKeyId e) | Inr kid \<Rightarrow> Inr kid)"

definition key_from_file :: "('f, 'd) auth_env \<Rightarrow> string \<Rightarrow> token_key option" where
  "key_from_file E path =
     (case and_then (ok_or (read_to_string E path) TokenIo) (key_from_str (ae_lib E)) of Inl _ \<Rightarrow> None | Inr key \<Rightarrow> Some key)"

text \<open>The body of a response that is not an error.\<close>

definition response_text :: "('f, 'd) auth_env \<Rightarrow> http_result \<Rightarrow> auth_error + string" where
  "response_text E r =
     (case r of
        HttpFailed \<Rightarrow> Inl ApiUnavailable
      | HttpResponse status body \<Rightarrow> if http_error_status E status then Inl ApiUnavailable else ok_or body ApiUnavailable)"

definition not_found :: "http_result \<Rightarrow> bool" where
  "not_found r \<longleftrightarrow> (case r of HttpFailed \<Rightarrow> False | HttpResponse status _ \<Rightarrow> status = 404)"

definition fetch_key :: "('f, 'd) auth_env \<Rightarrow> string \<Rightarrow> auth_error + token_key" where
  "fetch_key E url =
     (if on_hermit E then Inl KeyNotFound
      else let response = http_get E url
           in if not_found response then Inl KeyNotFound
              else and_then (response_text E response) (\<lambda>body.
                case key_from_str (ae_lib E) body of Inl _ \<Rightarrow> Inl DecodeFailed | Inr key \<Rightarrow> Inr key))"

fun resolve :: "('f, 'd) auth_env \<Rightarrow> key_source \<Rightarrow> string option \<Rightarrow> auth_error + token_key" where
  "resolve E (KeyFile path) kid = ok_or (key_from_file E path) KeyNotFound"
| "resolve E (KeyDir dir) kid =
     and_then (key_id kid) (\<lambda>kid. ok_or (key_from_file E (pathbuf_join dir (kid @ ''.jwk''))) KeyNotFound)"
| "resolve E (KeyUrl url) kid = fetch_key E url"
| "resolve E (KeyUrlDir base) kid =
     and_then (key_id kid) (\<lambda>kid. and_then (ok_or (url_join E base (kid @ ''.jwk'')) KeyNotFound) (fetch_key E))"

definition asym_keys :: "('f, 'd) auth_env \<Rightarrow> ('f, 'ed, 'eds, 'es, 'ess) crypto \<Rightarrow> ('ed, 'es) verify_keys option" where
  "asym_keys E C =
     (if \<not> on_hermit E then None
      else case auth_jwk E of
        None \<Rightarrow> None
      | Some b \<Rightarrow> (case keys_from_jwk_bytes C b of Inl _ \<Rightarrow> None | Inr keys \<Rightarrow> if keys_empty keys then None else Some keys))"

text \<open>The authentication API is asked with query parameters only.\<close>

definition trim_slashes :: "string \<Rightarrow> string" where
  "trim_slashes s = rev (dropWhile (\<lambda>c. c = slash) (rev (dropWhile (\<lambda>c. c = slash) s)))"

definition auth_api_url :: "('f, 'd) auth_env \<Rightarrow> string \<Rightarrow> string \<Rightarrow> string option \<Rightarrow> bool \<Rightarrow> string" where
  "auth_api_url E base path kid mtls =
     url_query E base ([(''root'', trim_slashes path)] @ (case kid of Some kid \<Rightarrow> [(''kid'', kid)] | None \<Rightarrow> [])
       @ (if mtls then [(''mtls'', ''true'')] else []))"

definition fetch_auth_api :: "('f, 'd) auth_env \<Rightarrow> string \<Rightarrow> string \<Rightarrow> string option \<Rightarrow> bool \<Rightarrow> auth_error + auth_api_response" where
  "fetch_auth_api E base path kid mtls =
     (if on_hermit E then Inl KeyNotFound
      else and_then (response_text E (http_get E (auth_api_url E base path kid mtls))) (\<lambda>body. ok_or (api_of_str E body) ApiInvalidResponse))"

definition fetch_public_response :: "('f, 'd) auth_env \<Rightarrow> string \<Rightarrow> auth_error + public_response" where
  "fetch_public_response E url =
     (if on_hermit E then Inl KeyNotFound
      else and_then (response_text E (http_get E url)) (\<lambda>body. ok_or (public_of_str E body) ApiInvalidResponse))"

definition decode_token :: "('f, 'd) auth_env \<Rightarrow> int \<Rightarrow> token_key \<Rightarrow> string \<Rightarrow> auth_error + token_claims" where
  "decode_token E now key token = (case key_decode (ae_lib E) now key token of Inl _ \<Rightarrow> Inl DecodeFailed | Inr claims \<Rightarrow> Inr claims)"

section \<open>Verifying a connection\<close>

definition verify_via_api :: "('f, 'd) auth_env \<Rightarrow> int \<Rightarrow> string \<Rightarrow> auth_params \<Rightarrow> auth_error + auth_token" where
  "verify_via_api E now base params =
     and_then (case ap_jwt params of Some token \<Rightarrow> ok_or (decode_header E token) DecodeFailed | None \<Rightarrow> Inr None) (\<lambda>kid.
       and_then (fetch_auth_api E base (ap_path params) kid False) (\<lambda>resp.
         let root = (case ar_alias resp of Some a \<Rightarrow> a | None \<Rightarrow> ap_path params)
         in and_then
              (case ap_jwt params of
                 Some token \<Rightarrow> and_then (ok_or (ar_key resp) KeyNotFound) (\<lambda>key. decode_token E now key token)
               | None \<Rightarrow>
                   let public = (case ar_public resp of Some p \<Rightarrow> p | None \<Rightarrow> \<lparr>pr_subscribe = [], pr_publish = []\<rparr>)
                   in if pr_subscribe public = [] \<and> pr_publish public = [] then Inl ExpectedToken
                      else Inr \<lparr>mt_root = root, mt_publish = pr_publish public, mt_subscribe = pr_subscribe public, mt_expires = None\<rparr>)
              (\<lambda>claims. and_then (finalize root claims) (\<lambda>token.
                 Inr (token\<lparr>at_internal := (case ar_internal resp of Some b \<Rightarrow> b | None \<Rightarrow> False)\<rparr>)))))"

definition asym_claims :: "claims \<Rightarrow> token_claims" where
  "asym_claims c = \<lparr>mt_root = cl_root c, mt_publish = cl_publish c, mt_subscribe = cl_subscribe c, mt_expires = map_option (\<lambda>e. max e 0) (cl_expires c)\<rparr>"

definition public_claims :: "('f, 'd) auth_env \<Rightarrow> public_access \<Rightarrow> string \<Rightarrow> auth_error + token_claims" where
  "public_claims E pa path =
     (let root = path_new path; overlaps = (\<lambda>p. has_prefix root p \<or> has_prefix p root)
      in if list_ex overlaps (pa_subscribe pa) \<or> list_ex overlaps (pa_publish pa) then
           Inr \<lparr>mt_root = [], mt_publish = pa_publish pa, mt_subscribe = pa_subscribe pa, mt_expires = None\<rparr>
         else case pa_api pa of
                Some base \<Rightarrow>
                  and_then (ok_or (url_join E base root) InvalidUrl) (\<lambda>url. and_then (fetch_public_response E url) (\<lambda>r.
                    Inr \<lparr>mt_root = root, mt_publish = pr_publish r, mt_subscribe = pr_subscribe r, mt_expires = None\<rparr>))
              | None \<Rightarrow> Inl ExpectedToken)"

definition resolver_claims :: "('f, 'd) auth_env \<Rightarrow> int \<Rightarrow> key_source option \<Rightarrow> string \<Rightarrow> auth_error + token_claims" where
  "resolver_claims E now resolver token =
     (case resolver of
        None \<Rightarrow> Inl UnexpectedToken
      | Some source \<Rightarrow>
          and_then (ok_or (decode_header E token) DecodeFailed) (\<lambda>kid.
            and_then (resolve E source kid) (\<lambda>key. decode_token E now key token)))"

definition unix_secs :: "int \<Rightarrow> int" where
  "unix_secs now = (if now < 0 then 0 else now div NANOS_PER_SEC)"

definition auth_verify :: "('f, 'd) auth_env \<Rightarrow> ('f, 'ed, 'eds, 'es, 'ess) crypto \<Rightarrow> int \<Rightarrow> auth \<Rightarrow> auth_params \<Rightarrow> auth_error + auth_token" where
  "auth_verify E C now a params =
     (case au_auth_api a of
        Some base \<Rightarrow> verify_via_api E now base params
      | None \<Rightarrow>
          (case (ap_jwt params, asym_keys E C) of
             (Some token, Some keys) \<Rightarrow>
               (case asym_verify C token keys (unix_secs now) of
                  Inl _ \<Rightarrow> Inl DecodeFailed
                | Inr c \<Rightarrow> finalize (ap_path params) (asym_claims c))
           | _ \<Rightarrow>
               and_then
                 (case ap_jwt params of
                    Some token \<Rightarrow> resolver_claims E now (au_resolver a) token
                  | None \<Rightarrow> if \<not> public_empty (au_public a) then public_claims E (au_public a) (ap_path params) else Inl ExpectedToken)
                 (finalize (ap_path params))))"

definition resolve_mtls :: "('f, 'd) auth_env \<Rightarrow> auth \<Rightarrow> string \<Rightarrow> auth_error + string \<times> bool" where
  "resolve_mtls E a path =
     (case au_auth_api a of
        None \<Rightarrow> Inr (path, True)
      | Some base \<Rightarrow> and_then (fetch_auth_api E base path None True) (\<lambda>resp.
          Inr (case ar_alias resp of Some r \<Rightarrow> r | None \<Rightarrow> path, case ar_internal resp of Some b \<Rightarrow> b | None \<Rightarrow> True)))"

definition verify_mtls :: "('f, 'd) auth_env \<Rightarrow> auth \<Rightarrow> string \<Rightarrow> auth_error + auth_token" where
  "verify_mtls E a path =
     and_then (resolve_mtls E a path) (\<lambda>(root, internal). Inr ((unrestricted (path_new root))\<lparr>at_internal := internal\<rparr>))"

section \<open>Access\<close>

text \<open>What a list of prefixes grants, and what claims allow: a path at or below the token's root joined with a claim.\<close>

definition grants :: "path list \<Rightarrow> path \<Rightarrow> bool" where
  "grants ps q \<longleftrightarrow> (\<exists>e \<in> set ps. has_prefix q e)"

definition allows :: "string \<Rightarrow> string list \<Rightarrow> path \<Rightarrow> bool" where
  "allows root ps x \<longleftrightarrow> (\<exists>p \<in> set ps. has_prefix x (path_join (path_new root) (path_new p)))"

lemma path_new_Nil [simp]: "path_new [] = []"
  by (simp add: path_new_parts)

lemma path_ok_Nil [simp]: "path_ok []"
  by (simp add: path_ok_def)

lemma has_prefix_root [simp]: "has_prefix q []"
  by (simp add: has_prefix_def)

lemma has_prefix_self [simp]: "has_prefix q q"
  by (simp add: has_prefix_def)

lemma allows_parts: "path_ok x \<Longrightarrow> allows root ps x \<longleftrightarrow> (\<exists>p \<in> set ps. prefix (parts root @ parts p) (parts x))"
  using path_join_parts [of "path_new root"] by (auto simp: allows_def has_prefix_parts)

lemma scope_path_ok: "path_ok suf \<Longrightarrow> path_ok pre \<Longrightarrow> scope_path suf pre p = Some r \<Longrightarrow> path_ok r"
  using path_join_parts [of pre "path_new p"]
  by (auto simp: scope_path_def Let_def strip_prefix_parts split: if_splits option.splits)

lemma scope_path_grants:
  assumes ok: "path_ok suf" "path_ok pre" "path_ok q"
  shows "(\<exists>r. scope_path suf pre p = Some r \<and> has_prefix q r) \<longleftrightarrow> prefix (parts pre @ parts p) (parts suf @ parts q)"
proof -
  let ?P = "path_join pre (path_new p)"
  have P: "path_ok ?P" "parts ?P = parts pre @ parts p" using path_join_parts [OF ok(2), of "path_new p"] by simp_all
  consider "?P = []" | r where "?P \<noteq> []" "strip_prefix ?P suf = Some r" | "?P \<noteq> []" "strip_prefix ?P suf = None" by blast
  then show ?thesis
  proof cases
    case 1
    then have "parts pre @ parts p = []" using P(2) by simp
    then show ?thesis using 1 by (simp add: scope_path_def)
  next
    case (2 r)
    then have "path_ok r" "parts ?P = parts suf @ parts r" using strip_prefix_parts [OF P(1) ok(1)] by blast+
    then show ?thesis using 2 P(2) ok(3) by (simp add: scope_path_def has_prefix_parts)
  next
    case 3
    then have "\<not> prefix (parts suf) (parts ?P)" using has_prefix_parts [OF P(1) ok(1)] by (simp add: has_prefix_strip)
    then have "prefix (parts ?P) (parts suf @ parts q) \<longleftrightarrow> has_prefix suf ?P" using has_prefix_parts [OF ok(1) P(1)] by (auto simp: prefix_append)
    then show ?thesis using 3 P(2) by (simp add: scope_path_def Let_def)
  qed
qed

lemma scope_grants:
  assumes ok: "path_ok suf" "path_ok pre" "path_ok q"
  shows "grants (path_prefixes_new (List.map_filter (scope_path suf pre) ps)) q \<longleftrightarrow> (\<exists>p \<in> set ps. prefix (parts pre @ parts p) (parts suf @ parts q))"
proof -
  have "\<forall>r \<in> set (List.map_filter (scope_path suf pre) ps). path_ok r"
    using scope_path_ok [OF ok(1,2)] by (auto simp: List.map_filter_def)
  from path_prefixes_covers [OF this ok(3)] have "grants (path_prefixes_new (List.map_filter (scope_path suf pre) ps)) q
      \<longleftrightarrow> (\<exists>p \<in> set ps. \<exists>r. scope_path suf pre p = Some r \<and> has_prefix q r)"
    by (force simp: grants_def List.map_filter_def)
  then show ?thesis by (simp add: scope_path_grants [OF ok])
qed

text \<open>The two ways the connection's root and the token's root can overlap, and none.\<close>

definition overlap :: "path \<Rightarrow> path \<Rightarrow> (path \<times> path) option" where
  "overlap root claims_root =
     (case strip_prefix root claims_root of
        Some suf \<Rightarrow> Some (suf, path_new [])
      | None \<Rightarrow> map_option (\<lambda>pre. (path_new [], pre)) (strip_prefix claims_root root))"

lemma overlap_Some:
  assumes "path_ok r" "path_ok c" "overlap r c = Some (suf, pre)"
  shows "path_ok suf \<and> path_ok pre \<and> (prefix (parts c @ ps) (parts r @ qs) \<longleftrightarrow> prefix (parts pre @ ps) (parts suf @ qs))"
proof (cases "strip_prefix r c")
  case (Some s)
  then have "suf = s" "pre = []" using assms(3) by (simp_all add: overlap_def)
  then show ?thesis using Some strip_prefix_parts [OF assms(1,2), of s] by (simp add: path_ok_def)
next
  case None
  then obtain "suf = []" "strip_prefix c r = Some pre" using assms(3) by (auto simp: overlap_def)
  then show ?thesis using strip_prefix_parts [OF assms(2,1), of pre] by (simp add: path_ok_def)
qed

lemma overlap_None:
  assumes "path_ok r" "path_ok c" "overlap r c = None"
  shows "\<not> prefix (parts c @ ps) (parts r @ qs)"
proof -
  have "\<not> prefix (parts c) (parts r)" "\<not> prefix (parts r) (parts c)"
    using assms has_prefix_parts [OF assms(1,2)] has_prefix_parts [OF assms(2,1)] by (auto simp: overlap_def has_prefix_strip split: option.splits)
  then show ?thesis by (metis append_prefixD prefix_append prefixI)
qed

lemma path_prefixes_ok: "\<forall>q \<in> set ps. path_ok q \<Longrightarrow> e \<in> set (path_prefixes_new ps) \<Longrightarrow> path_ok e"
  using prefixes_loop_subset [of "remdups_adj (sort_key len_lex ps)" "[]"] by (auto simp: path_prefixes_new_loop)

lemma scope_empty:
  assumes "path_ok suf" "path_ok pre" "path_prefixes_new (List.map_filter (scope_path suf pre) ps) \<noteq> []"
  shows "\<exists>q. path_ok q \<and> grants (path_prefixes_new (List.map_filter (scope_path suf pre) ps)) q"
proof -
  obtain e where e: "e \<in> set (path_prefixes_new (List.map_filter (scope_path suf pre) ps))" using assms(3) by (meson list.set_sel(1))
  then have "path_ok e" using path_prefixes_ok [of "List.map_filter (scope_path suf pre) ps" e] scope_path_ok [OF assms(1,2)] by (auto simp: List.map_filter_def)
  then show ?thesis using e has_prefix_self unfolding grants_def by blast
qed

lemma finalize_overlap:
  "finalize root_str claims =
     (case overlap (path_new root_str) (path_new (mt_root claims)) of
        None \<Rightarrow> Inl IncorrectRoot
      | Some (suf, pre) \<Rightarrow>
          let scope = (\<lambda>paths. path_prefixes_new (List.map_filter (scope_path suf pre) paths))
          in if scope (mt_subscribe claims) = [] \<and> scope (mt_publish claims) = [] then Inl IncorrectRoot
             else Inr \<lparr>at_root = path_new root_str, at_subscribe = scope (mt_subscribe claims), at_publish = scope (mt_publish claims),
               at_internal = False, at_expires = mt_expires claims\<rparr>)"
  unfolding finalize_def overlap_def Let_def by (rule refl)

definition rooted :: "string \<Rightarrow> path \<Rightarrow> path" where
  "rooted root q = path_join (path_new root) q"

lemma allows_rooted: "path_ok q \<Longrightarrow> allows croot ps (rooted root q) \<longleftrightarrow> (\<exists>p \<in> set ps. prefix (parts croot @ parts p) (parts root @ parts q))"
  using path_join_parts [of "path_new root" q] by (simp add: rooted_def allows_parts)

lemma scope_allows:
  assumes "overlap (path_new root) (path_new croot) = Some (suf, pre)" "path_ok q"
  shows "grants (path_prefixes_new (List.map_filter (scope_path suf pre) ps)) q \<longleftrightarrow> allows croot ps (rooted root q)"
  using overlap_Some [OF _ _ assms(1)] scope_grants [of suf pre q ps] assms(2) by (simp add: allows_rooted)

lemma finalize_Inr:
  assumes "finalize root claims = Inr t"
  shows "at_root t = path_new root \<and> at_expires t = mt_expires claims \<and> \<not> at_internal t \<and> prefix_free (at_subscribe t) \<and> prefix_free (at_publish t)
    \<and> (\<forall>q. path_ok q \<longrightarrow> (grants (at_subscribe t) q \<longleftrightarrow> allows (mt_root claims) (mt_subscribe claims) (rooted root q))
        \<and> (grants (at_publish t) q \<longleftrightarrow> allows (mt_root claims) (mt_publish claims) (rooted root q)))"
proof -
  obtain suf pre where o: "overlap (path_new root) (path_new (mt_root claims)) = Some (suf, pre)"
    and t: "t = \<lparr>at_root = path_new root, at_subscribe = path_prefixes_new (List.map_filter (scope_path suf pre) (mt_subscribe claims)),
      at_publish = path_prefixes_new (List.map_filter (scope_path suf pre) (mt_publish claims)), at_internal = False, at_expires = mt_expires claims\<rparr>"
    using assms by (auto simp: finalize_overlap Let_def split: option.splits if_splits)
  have "path_ok suf" "path_ok pre" using overlap_Some [OF _ _ o] by simp_all
  then have "\<forall>r \<in> set (List.map_filter (scope_path suf pre) ps). path_ok r" for ps
    by (auto simp: List.map_filter_def intro: scope_path_ok)
  from path_prefixes_free [OF this] show ?thesis by (simp add: t scope_allows [OF o])
qed

lemma finalize_Inl:
  assumes "finalize root claims = Inl e" "path_ok q"
  shows "e = IncorrectRoot \<and> \<not> allows (mt_root claims) (mt_subscribe claims) (rooted root q) \<and> \<not> allows (mt_root claims) (mt_publish claims) (rooted root q)"
proof (cases "overlap (path_new root) (path_new (mt_root claims))")
  case None
  then show ?thesis using assms overlap_None [OF _ _ None] by (simp add: finalize_overlap allows_rooted)
next
  case (Some sp)
  obtain suf pre where sp: "sp = (suf, pre)" by fastforce
  have "e = IncorrectRoot" "path_prefixes_new (List.map_filter (scope_path suf pre) (mt_subscribe claims)) = []"
    "path_prefixes_new (List.map_filter (scope_path suf pre) (mt_publish claims)) = []"
    using assms(1) Some sp by (simp_all add: finalize_overlap Let_def split: if_splits)
  then show ?thesis using scope_allows [OF Some [unfolded sp] assms(2)] by (metis empty_iff grants_def list.set(1))
qed

text \<open>Public access: the check for an overlap never hides a prefix that would grant something.\<close>

lemma path_join_root [simp]: "path_join [] p = p"
  by (simp add: path_join_def)

lemma public_no_overlap:
  assumes "p \<in> set ps" "path_ok p" "path_ok q" "\<not> list_ex (\<lambda>p. has_prefix (path_new root) p \<or> has_prefix p (path_new root)) ps"
  shows "\<not> has_prefix (rooted root q) p"
proof -
  have "\<not> prefix (parts p) (parts root)" "\<not> prefix (parts root) (parts p)"
    using assms has_prefix_parts [of "path_new root" p] has_prefix_parts [of p "path_new root"] by (auto simp: list_ex_iff)
  then have "\<not> prefix (parts p) (parts root @ parts q)" by (metis prefix_append prefixI)
  then show ?thesis using assms(2,3) path_join_parts [of "path_new root" q] by (simp add: rooted_def has_prefix_parts)
qed

lemma allows_public: "\<forall>p \<in> set ps. path_ok p \<Longrightarrow> allows [] ps x \<longleftrightarrow> grants ps x"
  by (simp add: allows_def grants_def)

definition access :: "auth_error + auth_token \<Rightarrow> path \<Rightarrow> bool \<times> bool" where
  "access r q = (case r of Inl _ \<Rightarrow> (False, False) | Inr t \<Rightarrow> (grants (at_subscribe t) q, grants (at_publish t) q))"

lemma finalize_access:
  "path_ok q \<Longrightarrow> access (finalize root claims) q
     = (allows (mt_root claims) (mt_subscribe claims) (rooted root q), allows (mt_root claims) (mt_publish claims) (rooted root q))"
  using finalize_Inl [of root claims _ q] finalize_Inr [of root claims] by (cases "finalize root claims") (auto simp: access_def)

section \<open>Key files\<close>

definition plain_name :: "string \<Rightarrow> bool" where
  "plain_name n \<longleftrightarrow> n \<noteq> [] \<and> slash \<notin> set n \<and> CHR ''.'' \<notin> set n \<and> CHR 0x00 \<notin> set n"

lemma key_id_plain: "key_id kid = Inr n \<Longrightarrow> plain_name n \<and> length n \<le> KEY_ID_MAX_LENGTH \<and> kid = Some n"
  by (auto simp: key_id_def key_id_decode_def and_then_Inr_conv plain_name_def is_ascii_alphanumeric_def list_all_iff split: if_splits)

lemma key_dir_join:
  assumes "plain_name n"
  shows "pathbuf_join dir (n @ ''.jwk'') = (if dir = [] \<or> last dir = slash then dir else dir @ [slash]) @ n @ ''.jwk''"
proof -
  obtain c n' where "n = c # n'" "c \<noteq> slash" using assms by (cases n) (auto simp: plain_name_def)
  then show ?thesis by (simp add: pathbuf_join_def)
qed

section \<open>Domains\<close>

lemma Nil_not_split_dot [simp]: "[] \<noteq> split_dot s"
  using split_dot_not_Nil [of s] by metis

lemma split_dot_inj: "split_dot a = split_dot b \<Longrightarrow> a = b"
proof (induction a arbitrary: b)
  case Nil
  then show ?case by (cases b) (auto split: if_splits)
next
  case (Cons c a)
  then obtain d b' where b: "b = d # b'" by (cases b) (auto split: if_splits)
  have "split_dot a = split_dot b' \<and> c = d" using Cons.prems b by (auto split: if_splits intro: list.expand)
  then show ?case using Cons.IH b by blast
qed

lemma split_dot_split: "split_dot h = xs @ split_dot d \<Longrightarrow> suffix (CHR ''.'' # d) (CHR ''.'' # h)"
proof (induction xs arbitrary: h)
  case Nil
  then show ?case using split_dot_inj by force
next
  case (Cons x xs)
  then have ne: "xs @ split_dot d \<noteq> []" by simp
  obtain b where b: "h = x @ CHR ''.'' # b" "split_dot b = xs @ split_dot d"
    using split_dot_Cons [of h x "xs @ split_dot d"] Cons.prems ne by auto
  from Cons.IH [OF b(2)] have "suffix (CHR ''.'' # d) (CHR ''.'' # b)" .
  then show ?case unfolding b(1) by (metis append_Cons suffix_appendI)
qed

lemma dotted_suffix: "suffix (CHR ''.'' # d) (CHR ''.'' # h) \<longleftrightarrow> suffix (split_dot d) (split_dot h)"
proof
  assume "suffix (CHR ''.'' # d) (CHR ''.'' # h)"
  then obtain a where a: "CHR ''.'' # h = a @ CHR ''.'' # d" by (auto simp: suffix_def)
  then show "suffix (split_dot d) (split_dot h)" by (cases a) (auto simp: suffix_def)
next
  assume "suffix (split_dot d) (split_dot h)"
  then show "suffix (CHR ''.'' # d) (CHR ''.'' # h)" by (auto simp: suffix_def [of "split_dot d"] intro: split_dot_split)
qed

text \<open>The labels of a host above the most specific domain it is under, the broadest first.\<close>

definition domain_labels :: "string \<Rightarrow> string list" where
  "domain_labels d = split_dot (ascii_lowercase (trim_dots d))"

definition routed_labels :: "string \<Rightarrow> string list \<Rightarrow> string list" where
  "routed_labels host ds =
     (let H = split_dot (ascii_lowercase host); Ds = filter (\<lambda>D. suffix D H) (map domain_labels ds)
      in if Ds = [] then [] else rev (take (length H - Max (length ` set Ds)) H))"

lemma dotted_domains_set: "dotted_domains ds = Some cds \<Longrightarrow> set cds = (\<lambda>d. CHR ''.'' # ascii_lowercase (trim_dots d)) ` set ds"
  by (induction ds arbitrary: cds) (auto simp: Let_def split: if_splits)

lemma canonical_domains_sorted:
  assumes "canonical_domains ds = Some cds"
  shows "set cds = (\<lambda>d. CHR ''.'' # ascii_lowercase (trim_dots d)) ` set ds" "sorted_wrt (\<lambda>a b. length b \<le> length a) cds"
proof -
  obtain es where es: "dotted_domains ds = Some es" "cds = sort_key (\<lambda>d. - int (length d)) es" using assms by (auto simp: canonical_domains_def)
  then show "set cds = (\<lambda>d. CHR ''.'' # ascii_lowercase (trim_dots d)) ` set ds" using dotted_domains_set by simp
  have "sorted (map (\<lambda>d. - int (length d)) cds)" unfolding es(2) by (rule sorted_sort_key)
  then show "sorted_wrt (\<lambda>a b. length b \<le> length a) cds" unfolding sorted_map by (rule sorted_wrt_mono_rel [rotated]) simp
qed

lemma match_suffixes_longest:
  assumes "sorted_wrt (\<lambda>a b. length b \<le> length a) cds" "d \<in> set cds" "suffix d h"
  shows "\<exists>e \<in> set cds. suffix e h \<and> (\<forall>d \<in> set cds. suffix d h \<longrightarrow> length d \<le> length e)
    \<and> match_suffixes h cds = (if e = h then None else Some (join_parts (rev (split_dot (trim_dots (take (length h - length e) h))))))"
  using assms
proof (induction cds)
  case (Cons c cds)
  show ?case
  proof (cases "suffix c h")
    case True
    then have "take (length h - length c) h = [] \<longleftrightarrow> c = h" by (auto simp: suffix_def)
    then show ?thesis using True Cons.prems(1) by (intro bexI [of _ c]) (auto simp: strip_suffix_def)
  next
    case False
    then have "d \<in> set cds" "sorted_wrt (\<lambda>a b. length b \<le> length a) cds" using Cons.prems by auto
    from Cons.IH [OF this(2,1) Cons.prems(3)] obtain e where "e \<in> set cds" "suffix e h" "\<forall>d \<in> set cds. suffix d h \<longrightarrow> length d \<le> length e"
      "match_suffixes h cds = (if e = h then None else Some (join_parts (rev (split_dot (trim_dots (take (length h - length e) h))))))" by blast
    then show ?thesis using False by (intro bexI [of _ e]) (simp_all add: strip_suffix_def)
  qed
qed simp

lemma match_suffixes_none: "\<forall>d \<in> set cds. \<not> suffix d h \<Longrightarrow> match_suffixes h cds = None"
  by (induction cds) (simp_all add: strip_suffix_def)

lemma trim_dots_labels: "filter (\<lambda>l. l \<noteq> []) (split_dot (trim_dots s)) = filter (\<lambda>l. l \<noteq> []) (split_dot s)"
  by (induction s) (auto simp: trim_dots_def)

lemma split_dot_chars: "l \<in> set (split_dot s) \<Longrightarrow> set l \<subseteq> set s"
proof (induction s arbitrary: l)
  case (Cons c s)
  obtain q qs where q: "split_dot s = q # qs" by (cases "split_dot s") auto
  then have "set q \<subseteq> set s" "\<And>l. l \<in> set qs \<Longrightarrow> set l \<subseteq> set s" using Cons.IH by auto
  then show ?case using Cons.prems q by (auto split: if_splits)
qed simp

lemma parts_labels:
  assumes "slash \<notin> set b"
  shows "parts (join_parts (rev (split_dot (trim_dots b)))) = filter (\<lambda>l. l \<noteq> []) (rev (split_dot b))"
proof -
  have "set (trim_dots b) \<subseteq> set b" by (auto simp: trim_dots_def dest: set_dropWhileD)
  then have "\<forall>l \<in> set (rev (split_dot (trim_dots b))). slash \<notin> set l" using assms split_dot_chars by fastforce
  then have "split_slash (join_parts (rev (split_dot (trim_dots b)))) = rev (split_dot (trim_dots b))" by (intro split_join) auto
  then show ?thesis by (simp add: parts_def trim_dots_labels flip: rev_filter)
qed

lemma lower_not_slash: "65 \<le> (of_char c :: nat) \<Longrightarrow> (of_char c :: nat) \<le> 90 \<Longrightarrow> slash \<noteq> char_of (of_char c + 32 :: nat)"
proof
  assume c: "65 \<le> (of_char c :: nat)" "(of_char c :: nat) \<le> 90" "slash = char_of (of_char c + 32 :: nat)"
  then have "(of_char slash :: nat) = (of_char c + 32) mod 256" by (metis of_char_of)
  then show False using c(1,2) by simp
qed

lemma ascii_lowercase_slash: "slash \<notin> set s \<Longrightarrow> slash \<notin> set (ascii_lowercase s)"
  using lower_not_slash by (auto simp: ascii_lowercase_def Let_def)

lemma slug_labels:
  assumes "suffix (CHR ''.'' # d) (CHR ''.'' # h)" "slash \<notin> set h"
  shows "(if CHR ''.'' # d = CHR ''.'' # h then [] else parts (join_parts (rev (split_dot (trim_dots (take (length (CHR ''.'' # h) - length (CHR ''.'' # d)) (CHR ''.'' # h)))))))
    = filter (\<lambda>l. l \<noteq> []) (rev (take (length (split_dot h) - length (split_dot d)) (split_dot h)))"
proof -
  obtain a where a: "CHR ''.'' # h = a @ CHR ''.'' # d" using assms(1) by (auto simp: suffix_def)
  show ?thesis
  proof (cases a)
    case Nil
    then show ?thesis using a by simp
  next
    case (Cons x b)
    then have h: "h = b @ CHR ''.'' # d" "a = CHR ''.'' # b" using a by auto
    then have "slash \<notin> set a" using assms(2) by auto
    from parts_labels [OF this] show ?thesis using a h by simp
  qed
qed

lemma most_specific:
  assumes e: "suffix (CHR ''.'' # d) (CHR ''.'' # h)" "d \<in> S" and S: "finite S" "\<forall>d' \<in> S. suffix (CHR ''.'' # d') (CHR ''.'' # h) \<longrightarrow> length d' \<le> length d"
  shows "Max (length ` {D \<in> split_dot ` S. suffix D (split_dot h)}) = length (split_dot d)"
proof (rule Max_eqI)
  show "length (split_dot d) \<in> length ` {D \<in> split_dot ` S. suffix D (split_dot h)}" using e by (auto simp: dotted_suffix)
  fix n assume "n \<in> length ` {D \<in> split_dot ` S. suffix D (split_dot h)}"
  then obtain d' where d': "d' \<in> S" "n = length (split_dot d')" "suffix (CHR ''.'' # d') (CHR ''.'' # h)" by (auto simp: dotted_suffix)
  then have "suffix (CHR ''.'' # d') (CHR ''.'' # d)" using suffix_length_suffix [OF d'(3) e(1)] S(2) by simp
  then show "n \<le> length (split_dot d)" using d'(2) by (simp add: dotted_suffix suffix_length_le)
qed (use S(1) in simp)

lemma match_domain_labels:
  assumes "canonical_domains ds = Some cds" "slash \<notin> set host"
  shows "(case match_domain (Some host) cds of None \<Rightarrow> [] | Some slug \<Rightarrow> parts slug) = filter (\<lambda>l. l \<noteq> []) (routed_labels host ds)"
proof -
  let ?h = "ascii_lowercase host" and ?S = "(\<lambda>d. ascii_lowercase (trim_dots d)) ` set ds"
  note cds = canonical_domains_sorted [OF assms(1)]
  have S: "set cds = Cons CHR ''.'' ` ?S" using cds(1) by auto
  have Ds: "set (filter (\<lambda>D. suffix D (split_dot ?h)) (map domain_labels ds)) = {D \<in> split_dot ` ?S. suffix D (split_dot ?h)}"
    by (auto simp: domain_labels_def)
  show ?thesis
  proof (cases "\<exists>c \<in> set cds. suffix c (CHR ''.'' # ?h)")
    case True
    then obtain e where e: "e \<in> set cds" "suffix e (CHR ''.'' # ?h)" "\<forall>d \<in> set cds. suffix d (CHR ''.'' # ?h) \<longrightarrow> length d \<le> length e"
      "match_suffixes (CHR ''.'' # ?h) cds = (if e = CHR ''.'' # ?h then None
         else Some (join_parts (rev (split_dot (trim_dots (take (length (CHR ''.'' # ?h) - length e) (CHR ''.'' # ?h)))))))"
      using match_suffixes_longest [OF cds(2)] by blast
    obtain d where d: "e = CHR ''.'' # d" "d \<in> ?S" using e(1) S by auto
    have M: "Max (length ` {D \<in> split_dot ` ?S. suffix D (split_dot ?h)}) = length (split_dot d)"
    proof (rule most_specific)
      show "suffix (CHR ''.'' # d) (CHR ''.'' # ?h)" using e(2) d(1) by (simp only:)
      show "\<forall>d' \<in> ?S. suffix (CHR ''.'' # d') (CHR ''.'' # ?h) \<longrightarrow> length d' \<le> length d"
        using e(3) unfolding S d(1) by (simp only: ball_simps list.size add_le_cancel_right) 
    qed (simp_all only: d(2) finite_imageI finite_set)
    have "split_dot d \<in> {D \<in> split_dot ` ?S. suffix D (split_dot ?h)}" using e(2) d(2) unfolding d(1) dotted_suffix by blast
    then have "filter (\<lambda>D. suffix D (split_dot ?h)) (map domain_labels ds) \<noteq> []" using Ds by (metis empty_iff list.set(1))
    then have R: "routed_labels host ds = rev (take (length (split_dot ?h) - length (split_dot d)) (split_dot ?h))"
      unfolding routed_labels_def Let_def Ds M by simp
    have "match_domain (Some host) cds = match_suffixes (CHR ''.'' # ?h) cds" using e(1) by (auto simp: match_domain_def)
    then have "(case match_domain (Some host) cds of None \<Rightarrow> [] | Some slug \<Rightarrow> parts slug)
        = (if e = CHR ''.'' # ?h then [] else parts (join_parts (rev (split_dot (trim_dots (take (length (CHR ''.'' # ?h) - length e) (CHR ''.'' # ?h)))))))"
      unfolding e(4) by (cases "e = CHR ''.'' # ?h") (simp_all only: simp_thms if_True if_False option.case)
    then show ?thesis unfolding R d(1) slug_labels [OF e(2) [unfolded d(1)] ascii_lowercase_slash [OF assms(2)]] .
  next
    case False
    then have "match_domain (Some host) cds = None" by (simp add: match_domain_def match_suffixes_none)
    moreover have "filter (\<lambda>D. suffix D (split_dot ?h)) (map domain_labels ds) = []"
      using False S by (auto simp: filter_empty_conv domain_labels_def dotted_suffix)
    ultimately show ?thesis unfolding routed_labels_def by (simp add: Let_def)
  qed
qed

lemma jwt_of_query_last:
  "jwt_of_query pairs = (case filter (\<lambda>(k, v). k = ''jwt'' \<and> v \<noteq> []) pairs of [] \<Rightarrow> None | xs \<Rightarrow> Some (snd (last xs)))"
  by (induction pairs rule: rev_induct) (auto simp: jwt_of_query_def split: list.splits if_splits)

section \<open>Verification\<close>

lemma finalize_some:
  assumes "finalize root claims = Inr t"
  shows "\<exists>x. path_ok x \<and> (allows (mt_root claims) (mt_subscribe claims) (rooted root x) \<or> allows (mt_root claims) (mt_publish claims) (rooted root x))"
proof -
  obtain suf pre where o: "overlap (path_new root) (path_new (mt_root claims)) = Some (suf, pre)"
    and "path_prefixes_new (List.map_filter (scope_path suf pre) (mt_subscribe claims)) \<noteq> []
      \<or> path_prefixes_new (List.map_filter (scope_path suf pre) (mt_publish claims)) \<noteq> []"
    using assms by (auto simp: finalize_overlap Let_def split: option.splits if_splits)
  then show ?thesis using scope_empty [of suf pre] overlap_Some [OF _ _ o] scope_allows [OF o] by (metis path_ok_new)
qed

lemma verify_token_access:
  assumes "au_auth_api a = None" "path_ok q" "ap_jwt params = Some token" "asym_keys E C = Some keys"
  shows "access (auth_verify E C now a params) q =
        ((\<exists>c. accepts C keys (unix_secs now) token c \<and> allows (cl_root c) (cl_subscribe c) (rooted (ap_path params) q)),
         (\<exists>c. accepts C keys (unix_secs now) token c \<and> allows (cl_root c) (cl_publish c) (rooted (ap_path params) q)))"
proof -
  let ?now = "unix_secs now"
  have v: "auth_verify E C now a params = (case asym_verify C token keys ?now of Inl _ \<Rightarrow> Inl DecodeFailed | Inr c \<Rightarrow> finalize (ap_path params) (asym_claims c))"
    using assms by (simp add: auth_verify_def)
  show ?thesis
  proof (cases "asym_verify C token keys ?now")
    case (Inl e)
    then have "\<not> accepts C keys ?now token c" for c using asym_verify_iff [of C token keys ?now c] by simp
    then show ?thesis using Inl v by (simp add: access_def)
  next
    case (Inr c)
    then have "accepts C keys ?now token d \<longleftrightarrow> d = c" for d using asym_verify_iff [of C token keys ?now d] by auto
    then show ?thesis using Inr v finalize_access [OF assms(2), of "ap_path params" "asym_claims c"] by (simp add: asym_claims_def)
  qed
qed

text \<open>The access that claims give which may fail to be had.\<close>

lemma claims_access:
  assumes "path_ok q"
  shows "access (and_then x (finalize root)) q =
    ((\<exists>c. x = Inr c \<and> allows (mt_root c) (mt_subscribe c) (rooted root q)), (\<exists>c. x = Inr c \<and> allows (mt_root c) (mt_publish c) (rooted root q)))"
  using finalize_access [OF assms] by (cases x) (simp_all add: access_def)

lemma decode_token_iff: "decode_token E now key token = Inr c \<longleftrightarrow> key_accepts (ae_lib E) now key token c"
  unfolding key_decode_iff [symmetric] decode_token_def by (simp split: sum.split)

text \<open>The key that a token is checked with when no key is mapped.\<close>

definition resolver_accepts :: "('f, 'd) auth_env \<Rightarrow> int \<Rightarrow> key_source option \<Rightarrow> string \<Rightarrow> token_claims \<Rightarrow> bool" where
  "resolver_accepts E now resolver token c \<longleftrightarrow>
     (\<exists>source kid key. resolver = Some source \<and> decode_header E token = Some kid \<and> resolve E source kid = Inr key
        \<and> key_accepts (ae_lib E) now key token c)"

lemma resolver_claims_iff: "resolver_claims E now resolver token = Inr c \<longleftrightarrow> resolver_accepts E now resolver token c"
  by (cases resolver) (auto simp: resolver_claims_def resolver_accepts_def and_then_Inr_conv decode_token_iff)

lemma verify_resolver_access:
  assumes "au_auth_api a = None" "path_ok q" "ap_jwt params = Some token" "asym_keys E C = None"
  shows "access (auth_verify E C now a params) q =
        ((\<exists>c. resolver_accepts E now (au_resolver a) token c \<and> allows (mt_root c) (mt_subscribe c) (rooted (ap_path params) q)),
         (\<exists>c. resolver_accepts E now (au_resolver a) token c \<and> allows (mt_root c) (mt_publish c) (rooted (ap_path params) q)))"
  using assms claims_access [OF assms(2), of "resolver_claims E now (au_resolver a) token" "ap_path params"]
  by (simp add: auth_verify_def resolver_claims_iff)

text \<open>Whether a configured public prefix is above or below the connection's root.\<close>

definition public_overlap :: "public_access \<Rightarrow> string \<Rightarrow> bool" where
  "public_overlap pa root \<longleftrightarrow> (\<exists>p \<in> set (pa_subscribe pa) \<union> set (pa_publish pa). has_prefix (path_new root) p \<or> has_prefix p (path_new root))"

lemma public_overlap_list:
  "public_overlap pa root \<longleftrightarrow> list_ex (\<lambda>p. has_prefix (path_new root) p \<or> has_prefix p (path_new root)) (pa_subscribe pa)
     \<or> list_ex (\<lambda>p. has_prefix (path_new root) p \<or> has_prefix p (path_new root)) (pa_publish pa)"
  by (auto simp: public_overlap_def list_ex_iff)

lemma public_access_exact:
  assumes "\<forall>p \<in> set (pa_subscribe pa) \<union> set (pa_publish pa). path_ok p" "path_ok q" "pa_api pa = None \<or> public_overlap pa root"
  shows "access (and_then (public_claims E pa root) (finalize root)) q = (grants (pa_subscribe pa) (rooted root q), grants (pa_publish pa) (rooted root q))"
proof (cases "public_overlap pa root")
  case True
  then show ?thesis using assms by (simp add: public_overlap_list public_claims_def Let_def finalize_access allows_public)
next
  case False
  then have "\<not> grants (pa_subscribe pa) (rooted root q)" "\<not> grants (pa_publish pa) (rooted root q)"
    using public_no_overlap assms(1,2) unfolding public_overlap_list by (fastforce simp: grants_def)+
  then show ?thesis using False assms(3) by (simp add: public_overlap_list public_claims_def access_def)
qed

lemma verify_public_access:
  assumes "au_auth_api a = None" "path_ok q" "ap_jwt params = None" "pa_api (au_public a) = None \<or> public_overlap (au_public a) (ap_path params)"
    "\<forall>p \<in> set (pa_subscribe (au_public a)) \<union> set (pa_publish (au_public a)). path_ok p"
  shows "access (auth_verify E C now a params) q =
        (grants (pa_subscribe (au_public a)) (rooted (ap_path params) q), grants (pa_publish (au_public a)) (rooted (ap_path params) q))"
proof (cases "public_empty (au_public a)")
  case True
  then show ?thesis using assms by (simp add: auth_verify_def access_def public_empty_def grants_def)
next
  case False
  then show ?thesis using assms public_access_exact [OF assms(5,2,4), of E] by (simp add: auth_verify_def)
qed

lemma verify_public_api_access:
  assumes "au_auth_api a = None" "path_ok q" "ap_jwt params = None" "pa_api (au_public a) = Some base" "\<not> public_overlap (au_public a) (ap_path params)"
  shows "access (auth_verify E C now a params) q =
        ((\<exists>url r. url_join E base (path_new (ap_path params)) = Some url \<and> fetch_public_response E url = Inr r
            \<and> allows (path_new (ap_path params)) (pr_subscribe r) (rooted (ap_path params) q)),
         (\<exists>url r. url_join E base (path_new (ap_path params)) = Some url \<and> fetch_public_response E url = Inr r
            \<and> allows (path_new (ap_path params)) (pr_publish r) (rooted (ap_path params) q)))"
proof -
  have ne: "\<not> public_empty (au_public a)" using assms(4) by (simp add: public_empty_def)
  have "public_claims E (au_public a) (ap_path params) = Inr c \<longleftrightarrow> (\<exists>url r. url_join E base (path_new (ap_path params)) = Some url
      \<and> fetch_public_response E url = Inr r
      \<and> c = \<lparr>mt_root = path_new (ap_path params), mt_publish = pr_publish r, mt_subscribe = pr_subscribe r, mt_expires = None\<rparr>)" for c
    using assms(4,5) unfolding public_overlap_list by (auto simp: public_claims_def Let_def and_then_Inr_conv)
  then show ?thesis using assms(1,3) ne claims_access [OF assms(2), of "public_claims E (au_public a) (ap_path params)" "ap_path params"]
    by (auto simp: auth_verify_def)
qed

text \<open>The authentication API's answer for a connection, and the claims that follow from it.\<close>

definition api_answers :: "('f, 'd) auth_env \<Rightarrow> int \<Rightarrow> string \<Rightarrow> auth_params \<Rightarrow> auth_api_response \<Rightarrow> token_claims \<Rightarrow> bool" where
  "api_answers E now base params resp c \<longleftrightarrow>
     (case ap_jwt params of
        Some token \<Rightarrow> \<exists>kid key. decode_header E token = Some kid \<and> fetch_auth_api E base (ap_path params) kid False = Inr resp
          \<and> ar_key resp = Some key \<and> key_accepts (ae_lib E) now key token c
      | None \<Rightarrow> fetch_auth_api E base (ap_path params) None False = Inr resp
          \<and> (\<exists>pub. ar_public resp = Some pub \<and> (pr_subscribe pub \<noteq> [] \<or> pr_publish pub \<noteq> [])
              \<and> c = \<lparr>mt_root = (case ar_alias resp of Some root \<Rightarrow> root | None \<Rightarrow> ap_path params), mt_publish = pr_publish pub,
                   mt_subscribe = pr_subscribe pub, mt_expires = None\<rparr>))"

definition api_root :: "auth_params \<Rightarrow> auth_api_response \<Rightarrow> string" where
  "api_root params resp = (case ar_alias resp of Some root \<Rightarrow> root | None \<Rightarrow> ap_path params)"

definition api_claims :: "('f, 'd) auth_env \<Rightarrow> int \<Rightarrow> string \<Rightarrow> auth_params \<Rightarrow> auth_error + auth_api_response \<times> token_claims" where
  "api_claims E now base params =
     and_then (case ap_jwt params of Some token \<Rightarrow> ok_or (decode_header E token) DecodeFailed | None \<Rightarrow> Inr None) (\<lambda>kid.
       and_then (fetch_auth_api E base (ap_path params) kid False) (\<lambda>resp.
         and_then
              (case ap_jwt params of
                 Some token \<Rightarrow> and_then (ok_or (ar_key resp) KeyNotFound) (\<lambda>key. decode_token E now key token)
               | None \<Rightarrow>
                   let public = (case ar_public resp of Some p \<Rightarrow> p | None \<Rightarrow> \<lparr>pr_subscribe = [], pr_publish = []\<rparr>)
                   in if pr_subscribe public = [] \<and> pr_publish public = [] then Inl ExpectedToken
                      else Inr \<lparr>mt_root = api_root params resp, mt_publish = pr_publish public, mt_subscribe = pr_subscribe public, mt_expires = None\<rparr>)
              (\<lambda>claims. Inr (resp, claims))))"

lemma and_then_assoc: "and_then (and_then x f) g = and_then x (\<lambda>y. and_then (f y) g)"
  by (cases x) simp_all

lemma verify_via_api_claims:
  "verify_via_api E now base params = and_then (api_claims E now base params) (\<lambda>(resp, claims). and_then (finalize (api_root params resp) claims) (\<lambda>token.
     Inr (token\<lparr>at_internal := (case ar_internal resp of Some b \<Rightarrow> b | None \<Rightarrow> False)\<rparr>)))"
  unfolding verify_via_api_def api_claims_def api_root_def Let_def by (simp only: and_then_assoc and_then_simps split_conv)

lemma api_claims_iff: "api_claims E now base params = Inr (resp, c) \<longleftrightarrow> api_answers E now base params resp c"
proof (cases "ap_jwt params")
  case None
  then show ?thesis by (cases "ar_public resp") (auto simp: api_claims_def api_answers_def api_root_def and_then_Inr_conv Let_def split: option.splits)
next
  case (Some token)
  then show ?thesis by (auto simp: api_claims_def api_answers_def and_then_Inr_conv decode_token_iff)
qed

lemma access_internal: "access (and_then x (\<lambda>token. Inr (token\<lparr>at_internal := b\<rparr>))) q = access x q"
  by (cases x) (simp_all add: access_def)

lemma verify_api_access:
  assumes "au_auth_api a = Some base" "path_ok q"
  shows "access (auth_verify E C now a params) q =
        ((\<exists>resp c. api_answers E now base params resp c \<and> allows (mt_root c) (mt_subscribe c) (rooted (api_root params resp) q)),
         (\<exists>resp c. api_answers E now base params resp c \<and> allows (mt_root c) (mt_publish c) (rooted (api_root params resp) q)))"
proof (cases "api_claims E now base params")
  case (Inl e)
  then have "\<not> api_answers E now base params resp c" for resp c using api_claims_iff [of E now base params resp c] by simp
  then show ?thesis using assms(1) Inl by (simp add: auth_verify_def verify_via_api_claims access_def)
next
  case (Inr rc)
  obtain r d where rc: "rc = (r, d)" by (cases rc)
  then have "api_answers E now base params resp c \<longleftrightarrow> resp = r \<and> c = d" for resp c using Inr api_claims_iff [of E now base params resp c] by auto
  then show ?thesis using assms Inr rc by (simp add: auth_verify_def verify_via_api_claims access_internal finalize_access)
qed

section \<open>Properties\<close>

text \<open>
  C14: The access a connection gets is exactly what the claims allow. Whether the URL goes below the token's root or stays
  above it, a path below the connection's root may be published or subscribed to if and only if it is at or below one of
  the claimed paths under the token's root; the connection is refused exactly when that leaves nothing. The prefixes it
  keeps do not overlap, and the expiry is that of the token.
\<close>

theorem finalize_exact:
  assumes "path_ok q"
  shows "case finalize root claims of
      Inr t \<Rightarrow> at_root t = path_new root \<and> at_expires t = mt_expires claims \<and> \<not> at_internal t
        \<and> prefix_free (at_subscribe t) \<and> prefix_free (at_publish t)
        \<and> (grants (at_subscribe t) q \<longleftrightarrow> allows (mt_root claims) (mt_subscribe claims) (rooted root q))
        \<and> (grants (at_publish t) q \<longleftrightarrow> allows (mt_root claims) (mt_publish claims) (rooted root q))
        \<and> (\<exists>x. path_ok x \<and> (allows (mt_root claims) (mt_subscribe claims) (rooted root x) \<or> allows (mt_root claims) (mt_publish claims) (rooted root x)))
    | Inl e \<Rightarrow> e = IncorrectRoot
        \<and> \<not> allows (mt_root claims) (mt_subscribe claims) (rooted root q) \<and> \<not> allows (mt_root claims) (mt_publish claims) (rooted root q)"
proof (cases "finalize root claims")
  case (Inl e)
  then show ?thesis using finalize_Inl [OF Inl assms] by simp
next
  case (Inr t)
  then show ?thesis using finalize_Inr [OF Inr] finalize_some [OF Inr] assms by auto
qed

theorem finalize_exact_witness:
  "finalize ''/demo/room'' \<lparr>mt_root = ''demo'', mt_publish = [''room/me'', ''other''], mt_subscribe = [[]], mt_expires = None\<rparr>
     = Inr \<lparr>at_root = ''demo/room'', at_subscribe = [[]], at_publish = [''me''], at_internal = False, at_expires = None\<rparr>
   \<and> allows ''demo'' [''room/me'', ''other''] (rooted ''/demo/room'' ''me/cam'') \<and> \<not> allows ''demo'' [''room/me'', ''other''] (rooted ''/demo/room'' ''you'')"
proof -
  let ?c = "\<lparr>mt_root = ''demo'', mt_publish = [''room/me'', ''other''], mt_subscribe = [[]], mt_expires = None\<rparr>"
  have f: "finalize ''/demo/room'' ?c = Inr \<lparr>at_root = ''demo/room'', at_subscribe = [[]], at_publish = [''me''], at_internal = False, at_expires = None\<rparr>"
    by code_simp
  have "path_ok ''me/cam''" "path_ok ''you''" "grants [''me''] ''me/cam''" "\<not> grants [''me''] ''you''" by code_simp+
  then show ?thesis
    using finalize_exact [where root = "''/demo/room''" and q = "''me/cam''" and claims = ?c] finalize_exact [where root = "''/demo/room''" and q = "''you''" and claims = ?c]
    unfolding f by simp
qed

text \<open>
  C2: The access of a connection is exactly what its credential gives; \<open>q\<close> is any path below its root.

  With an authentication API, it is what the API's answer for the connection allows: with a token, the claims that the
  key in the answer accepts; without one, the public prefixes in the answer, under the root that the answer names.

  Without one, a connection with a token gets what the claims of the token allow, if a key accepts it: where keys are
  mapped, one of these, and otherwise the key that the configured source has for the token. If the token is not
  accepted, or there is no key source, it gets nothing, whatever is public. A connection without a token gets exactly the
  configured public prefixes when one of them is above or below its root or no API for public access is configured, and
  otherwise exactly what that API answers for its root. (The public prefixes are normalised paths.)
\<close>

theorem verify_access_exact:
  assumes "path_ok q" "\<forall>p \<in> set (pa_subscribe (au_public a)) \<union> set (pa_publish (au_public a)). path_ok p"
  shows "access (auth_verify E C now a params) q =
    (case au_auth_api a of
       Some base \<Rightarrow>
         ((\<exists>resp c. api_answers E now base params resp c \<and> allows (mt_root c) (mt_subscribe c) (rooted (api_root params resp) q)),
          (\<exists>resp c. api_answers E now base params resp c \<and> allows (mt_root c) (mt_publish c) (rooted (api_root params resp) q)))
     | None \<Rightarrow>
         (case ap_jwt params of
            Some token \<Rightarrow>
              (case asym_keys E C of
                 Some keys \<Rightarrow>
                   ((\<exists>c. accepts C keys (unix_secs now) token c \<and> allows (cl_root c) (cl_subscribe c) (rooted (ap_path params) q)),
                    (\<exists>c. accepts C keys (unix_secs now) token c \<and> allows (cl_root c) (cl_publish c) (rooted (ap_path params) q)))
               | None \<Rightarrow>
                   ((\<exists>c. resolver_accepts E now (au_resolver a) token c \<and> allows (mt_root c) (mt_subscribe c) (rooted (ap_path params) q)),
                    (\<exists>c. resolver_accepts E now (au_resolver a) token c \<and> allows (mt_root c) (mt_publish c) (rooted (ap_path params) q))))
          | None \<Rightarrow>
              (case pa_api (au_public a) of
                 Some base \<Rightarrow>
                   if public_overlap (au_public a) (ap_path params)
                   then (grants (pa_subscribe (au_public a)) (rooted (ap_path params) q), grants (pa_publish (au_public a)) (rooted (ap_path params) q))
                   else ((\<exists>url r. url_join E base (path_new (ap_path params)) = Some url \<and> fetch_public_response E url = Inr r
                            \<and> allows (path_new (ap_path params)) (pr_subscribe r) (rooted (ap_path params) q)),
                         (\<exists>url r. url_join E base (path_new (ap_path params)) = Some url \<and> fetch_public_response E url = Inr r
                            \<and> allows (path_new (ap_path params)) (pr_publish r) (rooted (ap_path params) q)))
               | None \<Rightarrow> (grants (pa_subscribe (au_public a)) (rooted (ap_path params) q), grants (pa_publish (au_public a)) (rooted (ap_path params) q)))))"
proof (cases "au_auth_api a")
  case (Some base)
  show ?thesis unfolding Some option.case by (rule verify_api_access [OF Some assms(1)])
next
  case api: None
  show ?thesis
  proof (cases "ap_jwt params")
    case (Some token)
    then show ?thesis
      using verify_token_access [OF api assms(1) Some, of E C] verify_resolver_access [OF api assms(1) Some, of E C]
      by (cases "asym_keys E C") (simp_all only: api option.case)
  next
    case None
    then show ?thesis
      using verify_public_access [OF api assms(1) None _ assms(2), of E C] verify_public_api_access [OF api assms(1) None, of _ E C]
      by (cases "pa_api (au_public a)"; cases "public_overlap (au_public a) (ap_path params)") (simp_all only: api option.case if_True if_False simp_thms)
  qed
qed

text \<open>
  A Hermit relay with a mapped key and a public lobby; and one elsewhere with a directory of keys, whose key \<open>a1\<close> is a
  shared secret.
\<close>

definition example_lib :: "(unit, unit) token_lib" where
  "example_lib = \<lparr>json_from_str = (\<lambda>s. Some (JObject [])), key_of_json = (\<lambda>v. if json_str v ''kty'' = Some ''oct''
       then Some \<lparr>kk_algorithm = HS256, kk_operations = {OpVerify}, kk_key = KeyOCT [1], kk_kid = Some ''a1''\<rparr> else None),
     base64url_decode = (\<lambda>_. None), base64url_encode = (\<lambda>_. []), decoding_from_secret = (\<lambda>_. ()), decoding_from_ec = (\<lambda>_ _. None),
     decoding_from_ed = (\<lambda>_. None), decoding_from_rsa = (\<lambda>_ _. ()), jwt_decode = (\<lambda>token _ alg. if token = ''h.p.s'' \<and> alg = HS256
       then Some \<lparr>mt_root = ''a'', mt_publish = [], mt_subscribe = [[]], mt_expires = Some 9\<rparr> else None)\<rparr>"

definition example_env :: "(unit, unit) auth_env" where
  "example_env = \<lparr>on_hermit = True, auth_jwk = Some [107], ae_lib = example_lib,
     read_to_string = (\<lambda>p. if p = ''/keys/a1.jwk'' then Some ''{}'' else None), decode_header = (\<lambda>_. Some (Some ''a1'')), url_join = (\<lambda>_ _. None),
     url_query = (\<lambda>base _. base), http_get = (\<lambda>_. HttpFailed), http_error_status = (\<lambda>status. status \<ge> 400), api_of_str = (\<lambda>_. None), public_of_str = (\<lambda>_. None)\<rparr>"

definition example_auth :: auth where
  "example_auth = \<lparr>au_resolver = None, au_public = \<lparr>pa_subscribe = [''lobby''], pa_publish = [], pa_api = None\<rparr>, au_domains = [], au_auth_api = None\<rparr>"

lemma example_resolve: "resolve example_env (KeyDir ''/keys'') (Some ''a1'') = Inr \<lparr>kk_algorithm = HS256, kk_operations = {OpVerify}, kk_key = KeyOCT [1], kk_kid = Some ''a1''\<rparr>"
  by code_simp

theorem verify_access_exact_witness:
  "access (auth_verify example_env example_crypto 5000000000 example_auth \<lparr>ap_path = ''/a'', ap_jwt = Some ''h.p.s''\<rparr>) ''x'' = (False, True)
   \<and> access (auth_verify example_env example_crypto 5000000000 example_auth \<lparr>ap_path = ''/lobby'', ap_jwt = None\<rparr>) ''x'' = (True, False)
   \<and> access (auth_verify (example_env\<lparr>on_hermit := False\<rparr>) example_crypto 5000000000 (example_auth\<lparr>au_resolver := Some (KeyDir ''/keys'')\<rparr>)
       \<lparr>ap_path = ''/a'', ap_jwt = Some ''h.p.s''\<rparr>) ''x'' = (True, False)"
proof -
  let ?E = "example_env\<lparr>on_hermit := False\<rparr>" and ?a = "example_auth\<lparr>au_resolver := Some (KeyDir ''/keys'')\<rparr>"
  let ?c = "\<lparr>mt_root = ''a'', mt_publish = [], mt_subscribe = [[]], mt_expires = Some 9\<rparr>"
  have a: "path_ok ''x''" "\<forall>p \<in> set (pa_subscribe (au_public example_auth)) \<union> set (pa_publish (au_public example_auth)). path_ok p"
    "\<forall>p \<in> set (pa_subscribe (au_public ?a)) \<union> set (pa_publish (au_public ?a)). path_ok p" by code_simp+
  have k: "asym_keys example_env example_crypto = Some example_keys" "asym_keys ?E example_crypto = None" by code_simp+
  have v: "asym_verify example_crypto ''h.p.s'' example_keys 5 = Inr example_claims" by code_simp
  have c: "\<not> allows (cl_root example_claims) (cl_subscribe example_claims) (rooted ''/a'' ''x'')"
    "allows (cl_root example_claims) (cl_publish example_claims) (rooted ''/a'' ''x'')"
    "allows ''a'' [[]] (rooted ''/a'' ''x'')" "\<not> allows ''a'' [] (rooted ''/a'' ''x'')" by code_simp+
  have p: "grants (pa_subscribe (au_public example_auth)) (rooted ''/lobby'' ''x'')" "\<not> grants (pa_publish (au_public example_auth)) (rooted ''/lobby'' ''x'')" by code_simp+
  have n: "au_auth_api example_auth = None" "au_auth_api ?a = None" "pa_api (au_public example_auth) = None" "au_resolver ?a = Some (KeyDir ''/keys'')"
    "unix_secs 5000000000 = 5" by code_simp+
  have 1: "accepts example_crypto example_keys 5 ''h.p.s'' d \<longleftrightarrow> d = example_claims" for d
    using asym_verify_iff [of example_crypto "''h.p.s''" example_keys 5 d] v by auto
  have "resolver_claims ?E 5000000000 (Some (KeyDir ''/keys'')) ''h.p.s'' = Inr ?c" by code_simp
  then have 2: "resolver_accepts ?E 5000000000 (Some (KeyDir ''/keys'')) ''h.p.s'' d \<longleftrightarrow> d = ?c" for d
    using resolver_claims_iff [of ?E 5000000000 "Some (KeyDir ''/keys'')" "''h.p.s''" d] by auto
  show ?thesis
    using verify_access_exact [OF a(1,2), where params = "\<lparr>ap_path = ''/a'', ap_jwt = Some ''h.p.s''\<rparr>" and E = example_env and C = example_crypto and now = 5000000000]
      verify_access_exact [OF a(1,2), where params = "\<lparr>ap_path = ''/lobby'', ap_jwt = None\<rparr>" and E = example_env and C = example_crypto and now = 5000000000]
      verify_access_exact [OF a(1,3), where params = "\<lparr>ap_path = ''/a'', ap_jwt = Some ''h.p.s''\<rparr>" and E = ?E and C = example_crypto and now = 5000000000]
    by (simp add: n k 1 2 c p)
qed

text \<open>
  C17: A key that is looked up by its id in a directory comes from a file of that directory, whose name is the id with the
  extension: an id that the token's author chose cannot name a file anywhere else, so two file systems that agree on
  those files give the same result.
\<close>

theorem key_dir_confined:
  assumes "\<forall>n. plain_name n \<and> length n \<le> KEY_ID_MAX_LENGTH \<longrightarrow>
    key_from_file E ((if dir = [] \<or> last dir = slash then dir else dir @ [slash]) @ n @ ''.jwk'')
      = key_from_file E' ((if dir = [] \<or> last dir = slash then dir else dir @ [slash]) @ n @ ''.jwk'')"
  shows "resolve E (KeyDir dir) kid = resolve E' (KeyDir dir) kid
    \<and> (\<forall>key. resolve E (KeyDir dir) kid = Inr key \<longrightarrow> (\<exists>n. kid = Some n \<and> plain_name n
        \<and> key_from_file E ((if dir = [] \<or> last dir = slash then dir else dir @ [slash]) @ n @ ''.jwk'') = Some key))"
proof (cases "key_id kid")
  case (Inl e)
  then show ?thesis by simp
next
  case (Inr n)
  from key_id_plain [OF Inr] show ?thesis using Inr assms by (simp add: key_dir_join)
qed

theorem key_dir_confined_witness:
  "(\<exists>key. resolve example_env (KeyDir ''/keys'') (Some ''a1'') = Inr key \<and> kk_key key = KeyOCT [1])
   \<and> resolve (example_env\<lparr>read_to_string := (\<lambda>p. if p = ''/keys/../x.jwk'' then Some ''{}'' else read_to_string example_env p)\<rparr>) (KeyDir ''/keys'') (Some ''../x'')
      = resolve example_env (KeyDir ''/keys'') (Some ''../x'')"
proof -
  let ?E = "example_env\<lparr>read_to_string := (\<lambda>p. if p = ''/keys/../x.jwk'' then Some ''{}'' else read_to_string example_env p)\<rparr>"
  have "''/keys'' @ [slash] @ n @ ''.jwk'' \<noteq> ''/keys/../x.jwk''" if "plain_name n" for n
    using that by (cases n) (auto simp: plain_name_def)
  then have "\<forall>n. plain_name n \<and> length n \<le> KEY_ID_MAX_LENGTH \<longrightarrow>
    key_from_file ?E ((if ''/keys'' = [] \<or> last ''/keys'' = slash then ''/keys'' else ''/keys'' @ [slash]) @ n @ ''.jwk'')
      = key_from_file example_env ((if ''/keys'' = [] \<or> last ''/keys'' = slash then ''/keys'' else ''/keys'' @ [slash]) @ n @ ''.jwk'')"
    by (simp add: key_from_file_def)
  from key_dir_confined [OF this, of "Some ''../x''"] example_resolve show ?thesis by simp
qed

text \<open>
  C40: A host below a configured domain is routed below its own labels, the broadest first, in front of the URL's path.
  Of several domains it is below, the most specific one counts, in whatever order they are configured and however they
  are capitalised; a host that is below none, or is one, leaves the path as it is. The token is the last
  \<open>jwt\<close> of the query that is not empty.
\<close>

theorem domain_routing:
  assumes "canonical_domains ds = Some cds" "wu_host url = Some host" "slash \<notin> set host" "wu_path url = slash # rest"
  shows "parts (ap_path (from_url url cds)) = filter (\<lambda>l. l \<noteq> []) (routed_labels host ds) @ parts (wu_path url)
    \<and> ap_jwt (from_url url cds) = (case filter (\<lambda>(k, v). k = ''jwt'' \<and> v \<noteq> []) (wu_query url) of [] \<Rightarrow> None | xs \<Rightarrow> Some (snd (last xs)))"
proof
  show "parts (ap_path (from_url url cds)) = filter (\<lambda>l. l \<noteq> []) (routed_labels host ds) @ parts (wu_path url)"
    using match_domain_labels [OF assms(1,3)] assms(2,4) by (cases "match_domain (Some host) cds") (simp_all add: from_url_def)
  show "ap_jwt (from_url url cds) = (case filter (\<lambda>(k, v). k = ''jwt'' \<and> v \<noteq> []) (wu_query url) of [] \<Rightarrow> None | xs \<Rightarrow> Some (snd (last xs)))"
    by (simp only: from_url_def auth_params.select_convs jwt_of_query_last)
qed

theorem domain_routing_witness:
  "parts (ap_path (from_url \<lparr>wu_host = Some ''b.A.d.e'', wu_path = ''/f'', wu_query = [(''jwt'', ''t'')]\<rparr> [''.d.e'', ''.e''])) = [''a'', ''b'', ''f'']"
proof -
  let ?u = "\<lparr>wu_host = Some ''b.A.d.e'', wu_path = ''/f'', wu_query = [(''jwt'', ''t'')]\<rparr>"
  have d: "canonical_domains [''e'', ''D.e''] = Some [''.d.e'', ''.e'']" by code_simp
  have r: "filter (\<lambda>l. l \<noteq> []) (routed_labels ''b.A.d.e'' [''e'', ''D.e'']) @ parts ''/f'' = [''a'', ''b'', ''f'']" by code_simp
  have "parts (ap_path (from_url ?u [''.d.e'', ''.e''])) = filter (\<lambda>l. l \<noteq> []) (routed_labels ''b.A.d.e'' [''e'', ''D.e'']) @ parts (wu_path ?u)"
    by (rule conjunct1 [OF domain_routing [OF d]]) simp_all
  then show ?thesis by (simp only: r web_url.select_convs)
qed

end
