(* ===== verification/Spec2Isabelle.thy ===== *)
theory Spec2Isabelle
  imports Lite_Messages Priority Ietf_Adapter Origin_Announce Json_Stream Relay_Auth
begin

text \<open>
  A verification library for the Media over QUIC relay under \<open>relay/rs\<close>. File names are relative to \<open>src/relay/rs\<close>;
  \<open>moq-net\<close> files are relative to \<open>moq-net/src\<close>.

  \<^bold>\<open>The program.\<close> \<open>moq-net\<close> is the protocol library. Peers negotiate a version (\<open>client.rs\<close>, \<open>server.rs\<close>, \<open>setup.rs\<close>),
  of one of two protocol families: moq-lite (\<open>lite\<close>) and the moq-transport drafts 14 to 18 (\<open>ietf\<close>). Messages are coded
  by \<open>coding\<close>, which reads them from the streams of a transport. Behind the protocols is a model in memory
  (\<open>model\<close>): an origin has broadcasts by path, a broadcast has tracks, a track has groups and a group has frames;
  producers and consumers of these share their state through the channels of the crate \<open>kio\<close>. On top, \<open>moq-json\<close>
  publishes a changing JSON value over a track, compressed by \<open>moq-flate\<close>; and \<open>moq-relay\<close> decides who may
  publish and subscribe where, with the keys of \<open>moq-token\<close> and, on the Hermit unikernel, \<open>moq-asym-auth\<close>.

  \<^bold>\<open>Conventions.\<close> A fallible function returns a sum, \<open>Inl\<close> the error; a panic is \<open>None\<close>, or an error of its own in a
  coder. A struct is a record and an enum a datatype. Machine integers are words where they are coded or can wrap
  around, and natural numbers where a limit of the code keeps them in range. Strings are lists of UTF-8 bytes. Shared
  state is passed on explicitly; what several tasks do is a list of steps in any order. A generic writer or a
  crate that is not in the repository is an argument: a record of the functions that are called, with what the code
  relies on as a predicate or a locale that is a hypothesis of the theorems and is instantiated in their witnesses.

  \<^bold>\<open>Foundations.\<close> \<open>Prelude\<close> has the integer types, the sequencing of fallible code and generic lemmas. \<open>Ordered_Map\<close> is
  \<open>BTreeMap\<close>, \<open>Std_Collections\<close> are \<open>binary_search_by\<close> and \<open>BinaryHeap\<close> of the standard library. \<open>Wire_Buf\<close> (\<open>coding/decode.rs\<close>,
  \<open>encode.rs\<close>, \<open>size.rs\<close>) has buffers, the locale \<open>writer\<close> of the operations an encoder calls, and the law between an
  encoder, its size and its decoder: what is written by a writer with the room is counted exactly, decodes to the same
  value in front of any input, and no proper prefix of it does.

  \<^bold>\<open>Coding.\<close> \<open>Varint\<close> (\<open>coding/varint.rs\<close>) and \<open>Coding\<close> (the base types and the size prefix of messages; locale \<open>wire_codec\<close>)
  show this law for all basic types at every version. \<open>Versions\<close> has the codes, the ALPN strings and the selection of versions.
  \<open>Paths\<close> (\<open>path.rs\<close>) shows that paths are lists of parts (locale \<open>part_paths\<close>) and that a set of prefixes has one reduced form.
  \<open>Transport\<close> (\<open>coding/reader.rs\<close>, \<open>error.rs\<close>) shows that what a reader decodes does not depend on how the transport splits
  the stream.

  \<^bold>\<open>moq-lite.\<close> \<open>Lite_Messages\<close> has every message of \<open>lite\<close> with its coders; the coding law is shown for announcements and
  subscriptions, and that whatever is decoded is canonical. \<open>Priority\<close> (\<open>lite/priority.rs\<close>) is the queue that ranks the groups
  to send: a vector of the first items and a heap of the others. Every handle reports its rank, and no
  operation panics. The watch channels of tokio are the locale \<open>watch\<close>.

  \<^bold>\<open>moq-transport.\<close> \<open>Ietf_Params\<close>, \<open>Ietf_Messages\<close>, \<open>Ietf_Codec\<close> and \<open>Ietf_Wire\<close> have the control messages and the group header of
  drafts 14 to 18: every message with fields in the range of their types is written, counted and decoded to what the draft
  carries of it. \<open>Ietf_Control\<close> (\<open>ietf/control.rs\<close>) has the request ids: they are unique and below the limit in force, and no
  task that waits for the limit misses a raise; the \<open>Notify\<close> of tokio is a parameter. \<open>Ietf_Session\<close> (\<open>ietf/session.rs\<close>) shows
  which handler a new stream reaches. \<open>Ietf_Adapter\<close> (\<open>ietf/adapter.rs\<close>) gives every request of drafts 14 to 16 a virtual
  stream on top of the one control stream: the dispatcher refines a routing table, requests reach their handler and replies
  the stream of their request, and nothing a peer sends makes it panic. Two kinds of message that go astray are shown too.

  \<^bold>\<open>Negotiation.\<close> \<open>Setup\<close> and \<open>Handshake\<close>: client and server start with the same version, one that both support, or both
  fail; the ALPN decides alone where it names a version.

  \<^bold>\<open>The model.\<close> \<open>Kio\<close> has the channels. The count of handles and the lock are separate steps, as they are in the code;
  a task that found its condition unmet is woken once it can be met, or the task that made it so is about to.
  Sequential consistency of the atomic operations is assumed. \<open>Model_Group\<close> (\<open>model/frame.rs\<close>, \<open>group.rs\<close>) and \<open>Model_Track\<close>
  (\<open>track.rs\<close>) show what readers get: frames whole and in order, groups in the order of arrival and none twice, with what may be
  missing by eviction, abort or drop. \<open>Origin_List\<close>, \<open>Origin_Route\<close> and \<open>Origin_Announce\<close> (\<open>model/origin.rs\<close>) have hop lists, the
  choice of the active broadcast at a path by a key that does not depend on the order of arrival, and the updates that
  wait for a consumer, with which it converges to what is there.

  \<^bold>\<open>JSON.\<close> \<open>Json_Diff\<close> and \<open>Json_Patch\<close> (\<open>moq-json/src/diff.rs\<close>): merging the patch into the old value gives the new one,
  when a merge patch can express the change. \<open>Flate\<close> (\<open>moq-flate/src/lib.rs\<close>): frames come back from their compressed form, and
  the decoder returns within its limit on any input. \<open>Json_Stream\<close> (\<open>moq-json/src/lib.rs\<close>) puts these together with tracks and
  groups: a reader that joins at any time is left with the value published last. The conditions on values
  and sizes are needed; the theories show what goes wrong without them.

  \<^bold>\<open>Access.\<close> \<open>Asym_Auth\<close> (\<open>moq-asym-auth/src/lib.rs\<close>) and \<open>Token_Key\<close> (\<open>moq-token/src/key.rs\<close>, \<open>claims.rs\<close>) say exactly which tokens a
  key accepts. \<open>Relay_Auth\<close> (\<open>moq-relay/src/auth.rs\<close>) has the routing by domain, the lookup of keys, the requests to the APIs, and
  the verification of a connection: what it may do is exactly what its credential allows below its root, in every
  configuration.

  \<^bold>\<open>Termination.\<close> Loops are recursive functions, with a measure where they are not structural. Only the loop around the
  calls of the compressor may not end; it is a partial function to an option, and that it returns is part of what is
  shown, from the progress the library documents. The fuel of \<open>trim_front\<close> in \<open>Token_Key\<close> is the length of the text, of which every
  round removes a character; that of \<open>register_scan\<close> in \<open>Kio\<close> is the bound of the loop in the source. The counts of
  steps in the hypotheses (\<open>2 ^ 63\<close> request ids, as many publishes as there are sequence numbers) are those at which a
  64-bit counter of the code runs out.

  \<^bold>\<open>Not modelled.\<close> The tasks of the sessions (\<open>lite/session.rs\<close>, \<open>publisher.rs\<close>, \<open>subscriber.rs\<close> and those of \<open>ietf\<close>) wait on
  several futures at once and pump the modelled messages into the modelled state; of them only the dispatch of streams
  is here. The tree of origin nodes over the parts of a path, scopes and requested broadcasts, the statistics and the
  bandwidth estimate are left out. So are the parts that are I/O or bindings: \<open>moq-native\<close>, the server and cluster
  of \<open>moq-relay\<close>, reading its configuration, the media crates, language bindings and command line tools, the Hermit
  kernel and the vendored crates. Signing and generating keys are not called by the relay. Parsers that
  serde derives, cryptography, HTTP, files and the transport are parameters. Memory orderings weaker than sequential
  consistency, the overflow of the handle counts and of the item ids of the queue, and tracing are not modelled.
\<close>

end
